(* ===== verification/Rotonda_Prelude.thy ===== *)
theory Rotonda_Prelude
  imports Main "HOL-Library.Word" "HOL-Library.Multiset" "HOL-Library.AList"
begin

text \<open>
  Shared vocabulary of the development.

  \<^item> Machine integers: \<open>u8\<close> to \<open>u64\<close> are words of that width, so that additions on
    atomics and \<open>as u16\<close> casts wrap as the code's do. \<open>usize\<close> lengths are \<open>nat\<close>; the
    one operation on them that can leave the range, subtraction, is \<open>usize_sub\<close> with the
    64-bit wrap-around written out.
  \<^item> Octet strings: \<open>bytes\<close> is \<open>u8 list\<close>. \<open>be_bytes\<close> is the big-endian image of a number
    (Rust's \<open>to_be_bytes\<close>), \<open>be_val\<close> reads one back.
  \<^item> \<open>std::collections::HashMap\<close>: an association list with distinct keys (\<open>hm_wf\<close>) and the
    operations \<open>hm_get\<close>, \<open>hm_insert\<close>, \<open>hm_remove\<close>. The order in which a hash map iterates is
    unspecified, so every operation of the model that iterates takes the order as a parameter
    \<open>it\<close> and visits \<open>iterate it xs\<close>, which is a permutation of the entries for every \<open>it\<close>
    (\<open>mset_iterate\<close>) and any permutation for some; every theorem holds for all of them.
  \<^item> The locale \<open>hash_map\<close> is the interface the components use, interpreted on these
    operations.
\<close>

unbundle bit_operations_syntax

named_theorems wire_simps \<open>lengths and shapes of encoded messages\<close>
named_theorems hm_simps \<open>reads after writes of hash maps\<close>

type_synonym u8 = "8 word"
type_synonym u16 = "16 word"
type_synonym u32 = "32 word"
type_synonym u64 = "64 word"
type_synonym u128 = "128 word"
type_synonym bytes = "8 word list"
type_synonym ('k, 'v) hmap = "('k \<times> 'v) list"

subsection \<open>Numbers and octets\<close>

definition usize_sub :: "nat \<Rightarrow> nat \<Rightarrow> nat" where
  "usize_sub a b = (if b \<le> a then a - b else (a + 2 ^ 64) - b)"

definition saturating_sub :: "u64 \<Rightarrow> u64 \<Rightarrow> u64" where
  "saturating_sub a b = (if a < b then 0 else a - b)"

fun be_bytes :: "nat \<Rightarrow> nat \<Rightarrow> bytes" where
  "be_bytes 0 v = []"
| "be_bytes (Suc n) v = be_bytes n (v div 256) @ [of_nat v]"

fun be_val_acc :: "nat \<Rightarrow> bytes \<Rightarrow> nat" where
  "be_val_acc acc [] = acc"
| "be_val_acc acc (b # bs) = be_val_acc (acc * 256 + unat b) bs"

definition be_val :: "bytes \<Rightarrow> nat" where
  "be_val bs = be_val_acc 0 bs"

definition u16_be :: "u16 \<Rightarrow> bytes" where
  "u16_be w = be_bytes 2 (unat w)"

definition u32_be :: "u32 \<Rightarrow> bytes" where
  "u32_be w = be_bytes 4 (unat w)"

definition u64_be :: "u64 \<Rightarrow> bytes" where
  "u64_be w = be_bytes 8 (unat w)"

definition u128_be :: "u128 \<Rightarrow> bytes" where
  "u128_be w = be_bytes 16 (unat w)"

subsection \<open>Hash maps\<close>

definition hm_get :: "('k, 'v) hmap \<Rightarrow> 'k \<Rightarrow> 'v option" where
  "hm_get m k = map_of m k"

definition hm_insert :: "'k \<Rightarrow> 'v \<Rightarrow> ('k, 'v) hmap \<Rightarrow> ('k, 'v) hmap" where
  "hm_insert k v m = AList.update k v m"

definition hm_remove :: "'k \<Rightarrow> ('k, 'v) hmap \<Rightarrow> ('k, 'v) hmap" where
  "hm_remove k m = AList.delete k m"

definition hm_wf :: "('k, 'v) hmap \<Rightarrow> bool" where
  "hm_wf m = distinct (map fst m)"

definition hm_put :: "'k \<Rightarrow> 'v \<Rightarrow> ('k, 'v) hmap \<Rightarrow> 'v option \<times> ('k, 'v) hmap" where
  "hm_put k v m = (hm_get m k, hm_insert k v m)"

definition hm_take :: "'k \<Rightarrow> ('k, 'v) hmap \<Rightarrow> 'v option \<times> ('k, 'v) hmap" where
  "hm_take k m = (hm_get m k, hm_remove k m)"

definition iterate :: "('a list \<Rightarrow> 'a list) \<Rightarrow> 'a list \<Rightarrow> 'a list" where
  "iterate it xs = (if mset (it xs) = mset xs then it xs else xs)"

subsection \<open>Lemmas on numbers and octets\<close>

lemma usize_sub_le [simp]: "b \<le> a \<Longrightarrow> usize_sub a b = a - b"
  by (simp add: usize_sub_def)

lemma unat_saturating_sub: "unat (saturating_sub a b) = unat a - unat b"
  by (auto simp: saturating_sub_def unat_sub word_less_nat_alt word_le_nat_alt)

lemma length_be_bytes [simp]: "length (be_bytes n v) = n"
  by (induction n arbitrary: v) simp_all

lemma be_val_acc_append [simp]: "be_val_acc a (xs @ ys) = be_val_acc (be_val_acc a xs) ys"
  by (induction xs arbitrary: a) simp_all

lemma be_val_Nil [simp]: "be_val [] = 0"
  by (simp add: be_val_def)

lemma be_val_snoc [simp]: "be_val (xs @ [b]) = be_val xs * 256 + unat b"
  by (simp add: be_val_def)

lemma be_val_be_bytes [simp]: "be_val (be_bytes n v) = v mod 256 ^ n"
proof (induction n arbitrary: v)
  case 0
  then show ?case by simp
next
  case (Suc n)
  have "v mod 256 ^ Suc n = 256 * (v div 256 mod 256 ^ n) + v mod 256"
    by (metis mod_mult2_eq mult.commute power_Suc add.commute)
  then show ?case by (simp add: Suc.IH unat_of_nat)
qed

lemma be_val_less: "be_val bs < 256 ^ length bs"
proof (induction bs rule: rev_induct)
  case (snoc b bs)
  have "unat b < 256" using unsigned_less [of b, where ?'a = nat] by simp
  with snoc show ?case by simp
qed simp

lemma be_bytes_be_val [simp]: "be_bytes (length bs) (be_val bs) = bs"
proof (induction bs rule: rev_induct)
  case (snoc b bs)
  have "unat b < 256" using unsigned_less [of b, where ?'a = nat] by simp
  moreover have "of_nat (be_val bs * 256 + unat b) = b"
  proof (rule unsigned_word_eqI [where ?'a = nat])
    have "(be_val bs * 256 + unat b) mod 256 = unat b" using \<open>unat b < 256\<close> by simp
    then show "unat (of_nat (be_val bs * 256 + unat b) :: u8) = unat b"
      unfolding unat_of_nat by simp
  qed
  ultimately show ?case using snoc by (simp del: of_nat_add of_nat_mult)
qed simp

lemma unat_less_pow [simp]:
  "unat (w :: u8) < 256" "unat (w16 :: u16) < 65536" "unat (w32 :: u32) < 4294967296"
  "unat (w64 :: u64) < 18446744073709551616"
  using unsigned_less [of w] unsigned_less [of w16] unsigned_less [of w32] unsigned_less [of w64]
  by simp_all

lemma be_bytes_inj:
  "\<lbrakk>v < 256 ^ n; w < 256 ^ n; be_bytes n v = be_bytes n w\<rbrakk> \<Longrightarrow> v = w"
  by (metis be_val_be_bytes mod_less)

lemma length_u_be [simp, wire_simps]:
  "length (u16_be a) = 2" "length (u32_be b) = 4" "length (u64_be c) = 8"
  "length (u128_be d) = 16"
  by (simp_all add: u16_be_def u32_be_def u64_be_def u128_be_def)

lemma be_val_u16_be [simp]: "be_val (u16_be w) = unat w"
  by (simp add: u16_be_def)

lemma be_val_u32_be [simp]: "be_val (u32_be w) = unat w"
  by (simp add: u32_be_def)

lemma be_val_u64_be [simp]: "be_val (u64_be w) = unat w"
  by (simp add: u64_be_def)

lemma be_val_u128_be [simp]: "be_val (u128_be w) = unat w"
  using unsigned_less [of w, where ?'a = nat] by (simp add: u128_be_def)

lemma u16_be_inj [simp]: "u16_be a = u16_be b \<longleftrightarrow> a = b"
  by (metis be_val_u16_be unsigned_word_eqI)

lemma u32_be_inj [simp]: "u32_be a = u32_be b \<longleftrightarrow> a = b"
  by (metis be_val_u32_be unsigned_word_eqI)

lemma u64_be_inj [simp]: "u64_be a = u64_be b \<longleftrightarrow> a = b"
  by (metis be_val_u64_be unsigned_word_eqI)

lemma u16_be_be_val:
  assumes "length bs = 2"
  shows "u16_be (of_nat (be_val bs)) = bs" and "be_val bs < 65536"
proof -
  show l: "be_val bs < 65536" using be_val_less [of bs] assms by simp
  have "be_bytes 2 (be_val bs) = bs" using be_bytes_be_val [of bs] assms by simp
  with l show "u16_be (of_nat (be_val bs)) = bs" by (simp add: u16_be_def unat_of_nat)
qed

lemma be_bytes_zero: "be_bytes n 0 = replicate n 0"
  by (induction n) (simp_all add: replicate_append_same [symmetric])

lemma u64_be_zero_iff: "u64_be w = replicate 8 0 \<longleftrightarrow> w = 0"
  by (metis be_bytes_zero u64_be_def u64_be_inj unat_0)

lemma unat_of_nat_small:
  "n < 65536 \<Longrightarrow> unat (of_nat n :: u16) = n"
  "n < 4294967296 \<Longrightarrow> unat (of_nat n :: u32) = n"
  "n < 256 \<Longrightarrow> unat (of_nat n :: u8) = n"
  by (simp_all add: unat_of_nat)

lemma take_drop_prefix: "take (length xs) (xs @ ys) = xs" "drop (length xs) (xs @ ys) = ys"
  by simp_all

subsection \<open>Iteration\<close>

lemma find_SomeD: "find P xs = Some x \<Longrightarrow> x \<in> set xs \<and> P x"
  by (auto simp: find_Some_iff)

lemma mset_iterate [simp]: "mset (iterate it xs) = mset xs"
  by (simp add: iterate_def)

lemma set_iterate [simp]: "set (iterate it xs) = set xs"
  by (rule mset_eq_setD) simp

lemma length_iterate [simp]: "length (iterate it xs) = length xs"
  by (rule mset_eq_length) simp

lemma distinct_fst_iterate [simp]:
  "distinct (map fst (iterate it xs)) \<longleftrightarrow> distinct (map fst xs)"
proof -
  have "mset (map fst (iterate it xs)) = mset (map fst xs)" by simp
  then show ?thesis by (rule mset_eq_imp_distinct_iff)
qed

lemma iterate_id [simp]: "iterate (\<lambda>xs. xs) xs = xs" "iterate rev xs = rev xs"
  by (simp_all add: iterate_def)

lemma sum_list_iterate [simp]:
  "sum_list (map f (iterate it xs)) = sum_list (map (f :: 'a \<Rightarrow> 'b :: comm_monoid_add) xs)"
proof -
  have "sum_mset (mset (map f (iterate it xs))) = sum_mset (mset (map f xs))" by simp
  then show ?thesis by (simp only: sum_mset_sum_list)
qed

subsection \<open>Hash maps as an interface\<close>

text \<open>
  What the components rely on: a lookup returns the last value inserted, a removal forgets the
  key and nothing else, and the entries of a well-formed map are its graph, each key once.
  The lemmas inside are the facts about iteration that the components share.
\<close>

locale hash_map =
  fixes get :: "'m \<Rightarrow> 'k \<Rightarrow> 'v option"
    and ins :: "'k \<Rightarrow> 'v \<Rightarrow> 'm \<Rightarrow> 'm"
    and del :: "'k \<Rightarrow> 'm \<Rightarrow> 'm"
    and entries :: "'m \<Rightarrow> ('k \<times> 'v) list"
    and wf :: "'m \<Rightarrow> bool"
  assumes get_ins: "get (ins k v m) k' = (if k' = k then Some v else get m k')"
    and get_del: "wf m \<Longrightarrow> get (del k m) k' = (if k' = k then None else get m k')"
    and wf_ins: "wf m \<Longrightarrow> wf (ins k v m)"
    and wf_del: "wf m \<Longrightarrow> wf (del k m)"
    and entries_get: "wf m \<Longrightarrow> (k, v) \<in> set (entries m) \<longleftrightarrow> get m k = Some v"
    and entries_distinct: "wf m \<Longrightarrow> distinct (map fst (entries m))"
begin

lemma find_entry_Some:
  assumes "wf m" and "find P (iterate it (entries m)) = Some (k, v)"
  shows "get m k = Some v \<and> P (k, v)"
proof -
  have "(k, v) \<in> set (entries m)" and "P (k, v)"
    using find_SomeD [OF assms(2)] by simp_all
  then show ?thesis using assms(1) entries_get by blast
qed

lemma find_entry_None:
  "wf m \<Longrightarrow> find P (iterate it (entries m)) = None \<longleftrightarrow> (\<forall>k v. get m k = Some v \<longrightarrow> \<not> P (k, v))"
  by (auto simp: find_None_iff entries_get)

lemma iterate_entries:
  "wf m \<Longrightarrow> (k, v) \<in> set (iterate it (entries m)) \<longleftrightarrow> get m k = Some v"
  by (simp add: entries_get)

end

lemma hm_get_insert [simp, hm_simps]:
  "hm_get (hm_insert k v m) k' = (if k' = k then Some v else hm_get m k')"
  by (simp add: hm_get_def hm_insert_def update_conv')

lemma hm_get_remove [simp, hm_simps]:
  "hm_get (hm_remove k m) k' = (if k' = k then None else hm_get m k')"
  by (simp add: hm_get_def hm_remove_def delete_conv')

lemma hm_wf_insert [simp]: "hm_wf m \<Longrightarrow> hm_wf (hm_insert k v m)"
  by (simp add: hm_wf_def hm_insert_def distinct_update)

lemma hm_wf_remove [simp]: "hm_wf m \<Longrightarrow> hm_wf (hm_remove k m)"
  by (simp add: hm_wf_def hm_remove_def distinct_delete)

lemma hm_wf_Nil [simp]: "hm_wf []"
  by (simp add: hm_wf_def)

lemma hm_get_Nil [simp]: "hm_get [] k = None"
  by (simp add: hm_get_def)

lemma hm_entries_get: "hm_wf m \<Longrightarrow> (k, v) \<in> set m \<longleftrightarrow> hm_get m k = Some v"
  by (simp add: hm_wf_def hm_get_def)

interpretation hm: hash_map hm_get hm_insert hm_remove "\<lambda>m. m" hm_wf
  by unfold_locales (simp_all add: hm_entries_get, simp add: hm_wf_def)

subsection \<open>Sums over the entries of a hash map\<close>

lemma sum_list_hm_remove:
  fixes f :: "'k \<times> 'v \<Rightarrow> 'b :: comm_monoid_add"
  assumes "hm_wf m" and "hm_get m k = Some v"
  shows "sum_list (map f m) = f (k, v) + sum_list (map f (hm_remove k m))"
  using assms
proof (induction m)
  case Nil
  then show ?case by simp
next
  case (Cons e m)
  obtain k' v' where e: "e = (k', v')" by force
  show ?case
  proof (cases "k' = k")
    case True
    with Cons.prems e have "k \<notin> set (map fst m)" and "v' = v"
      by (auto simp: hm_wf_def hm_get_def)
    then show ?thesis using True e by (simp add: hm_remove_def delete_id)
  next
    case False
    with Cons e show ?thesis
      by (auto simp: hm_wf_def hm_get_def hm_remove_def ac_simps)
  qed
qed

lemma hm_remove_absent: "hm_get m k = None \<Longrightarrow> hm_remove k m = m"
  by (simp add: hm_remove_def hm_get_def delete_id map_of_eq_None_iff)

lemma sum_list_hm_insert_new:
  fixes f :: "'k \<times> 'v \<Rightarrow> 'b :: comm_monoid_add"
  assumes "hm_get m k = None"
  shows "sum_list (map f (hm_insert k v m)) = f (k, v) + sum_list (map f m)"
proof -
  have "hm_insert k v m = m @ [(k, v)]"
    using assms unfolding hm_get_def hm_insert_def by (induction m) (auto split: if_splits)
  then show ?thesis by (simp add: ac_simps)
qed

end
