(* ===== verification/Wire.thy ===== *)
theory Wire
  imports Rotonda_Prelude
begin

text \<open>
  Text and wire formats.

  \<^item> Rust's \<open>str\<close>: a \<open>ustr\<close> is the list of its characters (Unicode scalar values, as
    \<open>chars\<close> yields them); \<open>utf8\<close> gives the octets that \<open>as_bytes\<close> and \<open>len\<close> are about, and
    \<open>str\<close> turns an ASCII literal into one.
  \<^item> The locale \<open>codec\<close>: an encoder and a decoder that takes one value off the front of the
    input. Whatever is proved for one value carries over to sequences: \<open>dec_seq\<close> reads back
    any concatenation of encodings. The formats of the development are interpretations: the
    type-length-value triples of BMP and of the BGP capabilities here, and NLRI, path
    attributes and whole BMP messages in the theories of the encoders.
\<close>

type_synonym ustr = "u32 list"

definition str :: "string \<Rightarrow> ustr" where
  "str s = map of_char s"

definition utf8_char :: "u32 \<Rightarrow> bytes" where
  "utf8_char c =
    (let n = unat c in
     if n < 128 then [of_nat n]
     else if n < 2048 then [of_nat (192 + n div 64), of_nat (128 + n mod 64)]
     else if n < 65536 then
       [of_nat (224 + n div 4096), of_nat (128 + n div 64 mod 64), of_nat (128 + n mod 64)]
     else
       [of_nat (240 + n div 262144), of_nat (128 + n div 4096 mod 64),
        of_nat (128 + n div 64 mod 64), of_nat (128 + n mod 64)])"

definition utf8 :: "ustr \<Rightarrow> bytes" where
  "utf8 s = concat (map utf8_char s)"

lemma utf8_append [simp]: "utf8 (s @ t) = utf8 s @ utf8 t"
  by (simp add: utf8_def)

lemma utf8_char_nonempty [simp]: "utf8_char c \<noteq> []"
  by (simp add: utf8_char_def Let_def)

lemma utf8_Nil_iff [simp]: "utf8 s = [] \<longleftrightarrow> s = []"
  by (cases s) (simp_all add: utf8_def)

subsection \<open>Sequences of encoded values\<close>

fun dec_all :: "(bytes \<Rightarrow> ('a \<times> bytes) option) \<Rightarrow> nat \<Rightarrow> bytes \<Rightarrow> 'a list option" where
  "dec_all dec 0 bs = (if bs = [] then Some [] else None)"
| "dec_all dec (Suc n) bs =
    (if bs = [] then Some []
     else case dec bs of
       None \<Rightarrow> None
     | Some (x, rest) \<Rightarrow> map_option (Cons x) (dec_all dec n rest))"

definition dec_seq :: "(bytes \<Rightarrow> ('a \<times> bytes) option) \<Rightarrow> bytes \<Rightarrow> 'a list option" where
  "dec_seq dec bs = dec_all dec (length bs) bs"

locale codec =
  fixes enc :: "'a \<Rightarrow> bytes"
    and dec :: "bytes \<Rightarrow> ('a \<times> bytes) option"
    and ok :: "'a \<Rightarrow> bool"
  assumes dec_enc: "ok x \<Longrightarrow> dec (enc x @ rest) = Some (x, rest)"
    and enc_nonempty: "ok x \<Longrightarrow> enc x \<noteq> []"
begin

lemma dec_all_enc:
  "\<lbrakk>list_all ok xs; length xs \<le> n\<rbrakk> \<Longrightarrow> dec_all dec n (concat (map enc xs)) = Some xs"
proof (induction xs arbitrary: n)
  case Nil
  then show ?case by (cases n) simp_all
next
  case (Cons x xs)
  then obtain m where "n = Suc m" by (cases n) auto
  with Cons show ?case by (simp add: dec_enc enc_nonempty)
qed

lemma length_enc_seq: "list_all ok xs \<Longrightarrow> length xs \<le> length (concat (map enc xs))"
proof (induction xs)
  case Nil
  then show ?case by simp
next
  case (Cons x xs)
  then have "Suc 0 \<le> length (enc x)" using enc_nonempty by (simp add: Suc_le_eq)
  moreover have "length xs \<le> length (concat (map enc xs))" using Cons by simp
  ultimately show ?case by (simp del: length_0_conv length_greater_0_conv)
qed

lemma dec_seq_enc: "list_all ok xs \<Longrightarrow> dec_seq dec (concat (map enc xs)) = Some xs"
  by (simp add: dec_seq_def dec_all_enc length_enc_seq)

lemma dec_seq_one: "ok x \<Longrightarrow> dec_seq dec (enc x) = Some [x]"
  using dec_seq_enc [of "[x]"] by simp

lemma enc_inj: "\<lbrakk>ok x; ok y; enc x = enc y\<rbrakk> \<Longrightarrow> x = y"
  using dec_enc [of x "[]"] dec_enc [of y "[]"] by simp

end

subsection \<open>Fixed-width and counted fields\<close>

definition take_exact :: "nat \<Rightarrow> bytes \<Rightarrow> (bytes \<times> bytes) option" where
  "take_exact n bs = (if n \<le> length bs then Some (take n bs, drop n bs) else None)"

definition dec_num :: "nat \<Rightarrow> bytes \<Rightarrow> (nat \<times> bytes) option" where
  "dec_num n bs = map_option (\<lambda>(f, rest). (be_val f, rest)) (take_exact n bs)"

lemma take_exact_append [simp]: "length xs = n \<Longrightarrow> take_exact n (xs @ ys) = Some (xs, ys)"
  by (simp add: take_exact_def)

lemma take_exact_SomeD: "take_exact n bs = Some (f, rest) \<Longrightarrow> bs = f @ rest \<and> length f = n"
  by (auto simp: take_exact_def split: if_splits)

lemma dec_num_SomeD:
  "dec_num n bs = Some (v, rest) \<Longrightarrow> \<exists>f. bs = f @ rest \<and> length f = n \<and> v = be_val f"
  by (auto simp: dec_num_def dest!: take_exact_SomeD)

lemma dec_num_append: "length xs = n \<Longrightarrow> dec_num n (xs @ ys) = Some (be_val xs, ys)"
  by (simp add: dec_num_def)

lemma dec_num_u_be [simp]:
  "dec_num 2 (u16_be a @ rest) = Some (unat a, rest)"
  "dec_num 4 (u32_be b @ rest) = Some (unat b, rest)"
  "dec_num 8 (u64_be c @ rest) = Some (unat c, rest)"
  by (simp_all add: dec_num_append)

lemma dec_num_byte [simp]: "dec_num (Suc 0) (b # rest) = Some (unat b, rest)"
  by (simp add: dec_num_def take_exact_def be_val_def)

text \<open>Two-octet type, two-octet length, value: BMP's information TLVs.\<close>

definition enc_tlv :: "u16 \<times> bytes \<Rightarrow> bytes" where
  "enc_tlv tv = u16_be (fst tv) @ u16_be (of_nat (length (snd tv))) @ snd tv"

definition dec_tlv :: "bytes \<Rightarrow> ((u16 \<times> bytes) \<times> bytes) option" where
  "dec_tlv bs =
    (case dec_num 2 bs of None \<Rightarrow> None
     | Some (t, bs1) \<Rightarrow> (case dec_num 2 bs1 of None \<Rightarrow> None
     | Some (n, bs2) \<Rightarrow> (case take_exact n bs2 of None \<Rightarrow> None
     | Some (v, rest) \<Rightarrow> Some ((of_nat t, v), rest))))"

text \<open>One-octet code, one-octet length, value: BGP's capabilities and parameters.\<close>

definition enc_cap :: "u8 \<times> bytes \<Rightarrow> bytes" where
  "enc_cap cv = fst cv # of_nat (length (snd cv)) # snd cv"

definition dec_cap :: "bytes \<Rightarrow> ((u8 \<times> bytes) \<times> bytes) option" where
  "dec_cap bs =
    (case bs of
      c # n # rest \<Rightarrow> map_option (\<lambda>(v, rest'). ((c, v), rest')) (take_exact (unat n) rest)
    | _ \<Rightarrow> None)"

interpretation tlv: codec enc_tlv dec_tlv "\<lambda>tv. length (snd tv) < 65536"
proof unfold_locales
  fix tv :: "u16 \<times> bytes" and rest
  assume "length (snd tv) < 65536"
  then show "dec_tlv (enc_tlv tv @ rest) = Some (tv, rest)"
    by (simp add: enc_tlv_def dec_tlv_def unat_of_nat_small)
  show "enc_tlv tv \<noteq> []" by (auto simp: enc_tlv_def dest: arg_cong [where f = length])
qed

interpretation cap: codec enc_cap dec_cap "\<lambda>cv. length (snd cv) < 256"
  by unfold_locales (simp_all add: enc_cap_def dec_cap_def unat_of_nat_small)

end
