(* ===== verification/Net_Types.thy ===== *)
theory Net_Types
  imports Wire
begin

text \<open>
  Addresses, prefixes and the enumerations of the BGP and BMP vocabulary that the components
  share. \<open>ip_addr\<close> is \<open>std::net::IpAddr\<close>; \<open>asn\<close> and \<open>prefix\<close> carry what the code reads of
  \<open>inetnum\<close>'s \<open>Asn\<close> and \<open>Prefix\<close> (an \<open>Asn\<close> is a \<open>u32\<close>, a \<open>Prefix\<close> an address and a
  length that is valid for its family, with no bit set beyond the length, \<open>prefix_ok\<close>). \<open>peer_type\<close>, \<open>rib_type\<close> and \<open>afisafi\<close>
  have the constructors of routecore's enumerations that the sources name; their numeric
  values are routecore's and are parameters wherever an encoder needs them.
  \<open>peer_rib_type\<close> is \<open>PeerRibType\<close> of src/roto_runtime/types.rs.
\<close>

type_synonym asn = u32
type_synonym ingress_id = u32

datatype ip_addr = V4 u32 | V6 u128

datatype peer_type =
    GlobalInstance | RdInstance | LocalInstance | LocalRibInstance
  | Reserved | Unassigned u8 | Experimental u8 | Unimplemented u8

datatype rib_type = AdjRibIn | AdjRibOut | LocRib

datatype peer_rib_type = InPre | InPost | Loc | OutPre | OutPost

datatype afisafi =
  Ipv4Unicast | Ipv6Unicast | Ipv4Multicast | Ipv6Multicast | OtherAfiSafi u16 u8

record prefix =
  pfx_addr :: ip_addr
  pfx_len :: u8

fun octets :: "ip_addr \<Rightarrow> bytes" where
  "octets (V4 a) = u32_be a"
| "octets (V6 a) = u128_be a"

fun is_ipv6 :: "ip_addr \<Rightarrow> bool" where
  "is_ipv6 (V4 _) = False"
| "is_ipv6 (V6 _) = True"

definition is_v4 :: "prefix \<Rightarrow> bool" where
  "is_v4 p = (\<not> is_ipv6 (pfx_addr p))"

definition addr_bits :: "ip_addr \<Rightarrow> nat" where
  "addr_bits a = (if is_ipv6 a then 128 else 32)"

fun addr_val :: "ip_addr \<Rightarrow> nat" where
  "addr_val (V4 a) = unat a"
| "addr_val (V6 a) = unat a"

definition prefix_ok :: "prefix \<Rightarrow> bool" where
  "prefix_ok p = (unat (pfx_len p) \<le> addr_bits (pfx_addr p) \<and>
     2 ^ (addr_bits (pfx_addr p) - unat (pfx_len p)) dvd addr_val (pfx_addr p))"

fun peer_rib_type_from :: "bool \<Rightarrow> rib_type \<Rightarrow> peer_rib_type" where
  "peer_rib_type_from is_post_policy AdjRibIn = (if is_post_policy then InPost else InPre)"
| "peer_rib_type_from is_post_policy AdjRibOut = (if is_post_policy then OutPost else OutPre)"
| "peer_rib_type_from is_post_policy LocRib = Loc"

fun display_peer_rib_type :: "peer_rib_type \<Rightarrow> string" where
  "display_peer_rib_type InPre = ''adj-RIB-in-pre''"
| "display_peer_rib_type InPost = ''adj-RIB-in-post''"
| "display_peer_rib_type Loc = ''RIB-loc''"
| "display_peer_rib_type OutPre = ''adj-RIB-out-pre''"
| "display_peer_rib_type OutPost = ''adj-RIB-out-post''"

lemma length_octets [simp, wire_simps]:
  "length (octets a) = (if is_ipv6 a then 16 else 4)"
  by (cases a) simp_all

lemma u128_be_inj [simp]: "u128_be a = u128_be b \<longleftrightarrow> a = b"
  by (metis be_val_u128_be unsigned_word_eqI)

lemma octets_inj: "octets a = octets b \<Longrightarrow> a = b"
  by (cases a; cases b) (auto dest: arg_cong [where f = length])

lemma prefix_ok_octets:
  "prefix_ok p \<Longrightarrow> (unat (pfx_len p) + 7) div 8 \<le> length (octets (pfx_addr p))"
  by (auto simp: prefix_ok_def addr_bits_def)

end
