(* ===== verification/Rpki.thy ===== *)
theory Rpki
  imports Net_Types
begin

text \<open>
  Route origin validation (src/units/rib_unit/rpki.rs).

  \<open>rov_status\<close> and \<open>rpki_info\<close> are the code's types, with the conversions to and from the
  octet that a stored route carries. \<open>check_rov\<close> is \<open>RtrCache::check_rov\<close>: two nested scans
  over the answer of the VRP store, each with its labelled break. The store is rotonda_store's;
  its answer to a lookup is the argument \<open>match_prefix\<close>, \<open>None\<close> standing for \<open>Err\<close>.

  \<open>rov_spec\<close> is the definition of RFC 6811 over a set of VRPs. \<open>check_rov_spec\<close> shows that
  the scans compute it whenever the store returns the records of the covering prefixes.
\<close>

subsection \<open>Data\<close>

datatype rov_status = NotChecked | NotFound | Valid | Invalid

record rpki_info =
  rov :: rov_status

definition rpki_info_default :: rpki_info where
  "rpki_info_default = \<lparr>rov = NotChecked\<rparr>"

definition rpki_info_from_u8 :: "u8 \<Rightarrow> rpki_info" where
  "rpki_info_from_u8 b =
    \<lparr>rov = (if b = 1 then NotFound else if b = 2 then Valid else if b = 4 then Invalid
            else NotChecked)\<rparr>"

definition u8_from_rpki_info :: "rpki_info \<Rightarrow> u8" where
  "u8_from_rpki_info i =
    (case rov i of NotChecked \<Rightarrow> 0 | NotFound \<Rightarrow> 1 | Valid \<Rightarrow> 2 | Invalid \<Rightarrow> 4)"

record rov_status_update =
  rsu_prefix :: prefix
  rsu_previous_status :: rov_status
  rsu_current_status :: rov_status
  rsu_origin :: asn
  rsu_peer_asn :: asn

type_synonym max_len_list = "u8 list"

definition mll_push :: "max_len_list \<Rightarrow> u8 \<Rightarrow> max_len_list" where
  "mll_push l v = l @ [v]"

definition mll_remove :: "max_len_list \<Rightarrow> nat \<Rightarrow> max_len_list" where
  "mll_remove l i = take i l @ drop (Suc i) l"

record vrp_record =
  vr_mui :: u32
  vr_meta :: max_len_list

record vrp_query_result =
  vq_records :: "vrp_record list"
  vq_less_specifics :: "(prefix \<times> vrp_record list) list option"

subsection \<open>Validation\<close>

definition maxlen_hit :: "prefix \<Rightarrow> asn \<Rightarrow> vrp_record \<Rightarrow> bool" where
  "maxlen_hit p origin r = (\<exists>maxlen \<in> set (vr_meta r). pfx_len p \<le> maxlen \<and> vr_mui r = origin)"

fun scan_records :: "prefix \<Rightarrow> asn \<Rightarrow> bool \<Rightarrow> vrp_record list \<Rightarrow> bool \<times> bool" where
  "scan_records p origin covered [] = (covered, False)"
| "scan_records p origin covered (r # rs) =
    (let covered = (covered \<or> vr_meta r \<noteq> []) in
     if maxlen_hit p origin r then (covered, True) else scan_records p origin covered rs)"

fun scan_less_specifics ::
  "prefix \<Rightarrow> asn \<Rightarrow> bool \<Rightarrow> (prefix \<times> vrp_record list) list \<Rightarrow> bool \<times> bool" where
  "scan_less_specifics p origin covered [] = (covered, False)"
| "scan_less_specifics p origin covered ((q, rs) # rest) =
    (case scan_records p origin covered rs of
      (covered, True) \<Rightarrow> (covered, True)
    | (covered, False) \<Rightarrow> scan_less_specifics p origin covered rest)"

text \<open>\<open>None\<close> is the \<open>unreachable!()\<close> of the final match.\<close>

definition check_rov ::
  "(prefix \<Rightarrow> vrp_query_result option) \<Rightarrow> prefix \<Rightarrow> asn \<Rightarrow> rov_status option" where
  "check_rov match_prefix p origin =
    (case match_prefix p of
      None \<Rightarrow> Some NotChecked
    | Some res \<Rightarrow>
        (let (covered, valid) = scan_records p origin False (vq_records res);
             (covered, valid) =
               (if \<not> valid then
                  (case vq_less_specifics res of
                    Some ls \<Rightarrow> scan_less_specifics p origin covered ls
                  | None \<Rightarrow> (covered, valid))
                else (covered, valid))
         in case (covered, valid) of
              (True, True) \<Rightarrow> Some Valid
            | (True, False) \<Rightarrow> Some Invalid
            | (False, True) \<Rightarrow> None
            | (False, False) \<Rightarrow> Some NotFound))"

subsection \<open>RFC 6811\<close>

text \<open>A VRP is a prefix, a maximum length and an origin.\<close>

type_synonym vrp = "prefix \<times> u8 \<times> asn"

definition covers :: "prefix \<Rightarrow> prefix \<Rightarrow> bool" where
  "covers q p \<longleftrightarrow> is_ipv6 (pfx_addr q) = is_ipv6 (pfx_addr p) \<and> pfx_len q \<le> pfx_len p \<and>
     addr_val (pfx_addr q) div 2 ^ (addr_bits (pfx_addr q) - unat (pfx_len q)) =
     addr_val (pfx_addr p) div 2 ^ (addr_bits (pfx_addr p) - unat (pfx_len q))"

definition rov_spec :: "vrp set \<Rightarrow> prefix \<Rightarrow> asn \<Rightarrow> rov_status" where
  "rov_spec vrps p origin =
    (if \<exists>(q, maxlen, a) \<in> vrps. covers q p \<and> pfx_len p \<le> maxlen \<and> a = origin then Valid
     else if \<exists>(q, maxlen, a) \<in> vrps. covers q p then Invalid
     else NotFound)"

text \<open>
  What the store documents for a longest match with less specifics: the records of the longest
  covering prefix, and with each strictly less specific prefix its records. \<open>stored\<close> is the
  content of the store.
\<close>

definition answer_records :: "vrp_query_result \<Rightarrow> vrp_record list" where
  "answer_records res = vq_records res @
    (case vq_less_specifics res of None \<Rightarrow> [] | Some ls \<Rightarrow> concat (map snd ls))"

definition answers_covering ::
  "(prefix \<times> vrp_record) set \<Rightarrow> (prefix \<Rightarrow> vrp_query_result option) \<Rightarrow> prefix \<Rightarrow> bool" where
  "answers_covering stored match_prefix p \<longleftrightarrow>
    (\<exists>res. match_prefix p = Some res \<and>
       set (answer_records res) = {r. \<exists>q. (q, r) \<in> stored \<and> covers q p})"

definition vrps_of :: "(prefix \<times> vrp_record) set \<Rightarrow> vrp set" where
  "vrps_of stored = {(q, maxlen, vr_mui r) | q maxlen r. (q, r) \<in> stored \<and> maxlen \<in> set (vr_meta r)}"

subsection \<open>Lemmas\<close>

lemma maxlen_hit_meta: "maxlen_hit p origin r \<Longrightarrow> vr_meta r \<noteq> []"
  by (auto simp: maxlen_hit_def)

lemma scan_records_result:
  "scan_records p origin covered rs = (c, v) \<Longrightarrow>
    (v \<longleftrightarrow> (\<exists>r \<in> set rs. maxlen_hit p origin r)) \<and>
    (v \<longrightarrow> c) \<and> (\<not> v \<longrightarrow> (c \<longleftrightarrow> covered \<or> (\<exists>r \<in> set rs. vr_meta r \<noteq> [])))"
proof (induction rs arbitrary: covered)
  case Nil
  then show ?case by simp
next
  case (Cons r rs)
  show ?case
  proof (cases "maxlen_hit p origin r")
    case True
    then show ?thesis using Cons.prems maxlen_hit_meta by auto
  next
    case False
    then have "scan_records p origin (covered \<or> vr_meta r \<noteq> []) rs = (c, v)"
      using Cons.prems by simp
    from Cons.IH [OF this] False show ?thesis by auto
  qed
qed

lemma scan_less_specifics_eq:
  "scan_less_specifics p origin covered ls = scan_records p origin covered (concat (map snd ls))"
proof (induction ls arbitrary: covered)
  case Nil
  then show ?case by simp
next
  case (Cons e ls)
  obtain q rs where e: "e = (q, rs)" by force
  have "scan_records p origin covered (rs @ ts) =
      (case scan_records p origin covered rs of
        (covered, True) \<Rightarrow> (covered, True)
      | (covered, False) \<Rightarrow> scan_records p origin covered ts)" for covered ts
    by (induction rs arbitrary: covered) (simp_all add: Let_def)
  with Cons e show ?case by (simp split: prod.split bool.split)
qed

lemma rpki_info_roundtrip: "rpki_info_from_u8 (u8_from_rpki_info i) = i"
  by (cases i) (simp add: rpki_info_from_u8_def u8_from_rpki_info_def split: rov_status.splits)

lemma check_rov_records:
  "check_rov mp p origin =
    Some (case mp p of
      None \<Rightarrow> NotChecked
    | Some res \<Rightarrow>
        if \<exists>r \<in> set (answer_records res). maxlen_hit p origin r then Valid
        else if \<exists>r \<in> set (answer_records res). vr_meta r \<noteq> [] then Invalid
        else NotFound)"
proof (cases "mp p")
  case None
  then show ?thesis by (simp add: check_rov_def)
next
  case (Some res)
  obtain c v where s1: "scan_records p origin False (vq_records res) = (c, v)" by force
  obtain c' v' where
    s2: "scan_records p origin c
      (case vq_less_specifics res of None \<Rightarrow> [] | Some ls \<Rightarrow> concat (map snd ls)) = (c', v')"
    by force
  note r1 = scan_records_result [OF s1] and r2 = scan_records_result [OF s2]
  show ?thesis
  proof (cases v)
    case True
    with s1 r1 have "check_rov mp p origin = Some Valid"
      by (simp add: check_rov_def Some)
    with True r1 show ?thesis by (auto simp: answer_records_def Some)
  next
    case False
    with s1 have s1': "scan_records p origin False (vq_records res) = (c, False)" by simp
    have "check_rov mp p origin =
        (case (c', v') of (True, True) \<Rightarrow> Some Valid | (True, False) \<Rightarrow> Some Invalid
          | (False, True) \<Rightarrow> None | (False, False) \<Rightarrow> Some NotFound)"
    proof (cases "vq_less_specifics res")
      case None
      with s2 have "c' = c" and "v' = False" by simp_all
      then show ?thesis by (simp add: check_rov_def Some s1' None)
    next
      case (Some ls)
      with s2 have "scan_less_specifics p origin c ls = (c', v')"
        by (simp add: scan_less_specifics_eq)
      then show ?thesis by (simp add: check_rov_def \<open>mp p = Some res\<close> s1' Some)
    qed
    moreover have "(\<exists>r \<in> set (answer_records res). maxlen_hit p origin r) \<longleftrightarrow> v'"
      unfolding answer_records_def set_append bex_Un using False r1 r2 by blast
    moreover have "\<not> v' \<Longrightarrow> (\<exists>r \<in> set (answer_records res). vr_meta r \<noteq> []) \<longleftrightarrow> c'"
      unfolding answer_records_def set_append bex_Un using False r1 r2 by blast
    moreover have "v' \<longrightarrow> c'" using r2 by blast
    ultimately show ?thesis
      unfolding Some option.case by (cases c'; cases v') simp_all
  qed
qed

lemma answers_covering_hits:
  assumes "answers_covering stored mp p" and "mp p = Some res"
  shows "(\<exists>r \<in> set (answer_records res). maxlen_hit p origin r) \<longleftrightarrow>
      (\<exists>(q, maxlen, a) \<in> vrps_of stored. covers q p \<and> pfx_len p \<le> maxlen \<and> a = origin)"
    and "(\<exists>r \<in> set (answer_records res). vr_meta r \<noteq> []) \<longleftrightarrow>
      (\<exists>(q, maxlen, a) \<in> vrps_of stored. covers q p)"
proof -
  have s: "set (answer_records res) = {r. \<exists>q. (q, r) \<in> stored \<and> covers q p}"
    using assms by (auto simp: answers_covering_def)
  show "(\<exists>r \<in> set (answer_records res). maxlen_hit p origin r) \<longleftrightarrow>
      (\<exists>(q, maxlen, a) \<in> vrps_of stored. covers q p \<and> pfx_len p \<le> maxlen \<and> a = origin)"
    unfolding s vrps_of_def maxlen_hit_def by blast
  have "vr_meta r \<noteq> [] \<longleftrightarrow> (\<exists>m. m \<in> set (vr_meta r))" for r :: vrp_record
    by (metis all_not_in_conv set_empty)
  then show "(\<exists>r \<in> set (answer_records res). vr_meta r \<noteq> []) \<longleftrightarrow>
      (\<exists>(q, maxlen, a) \<in> vrps_of stored. covers q p)"
    unfolding s vrps_of_def by blast
qed

lemma check_rov_covering:
  "answers_covering stored mp p \<Longrightarrow> check_rov mp p origin = Some (rov_spec (vrps_of stored) p origin)"
proof -
  assume a: "answers_covering stored mp p"
  then obtain res where res: "mp p = Some res" by (auto simp: answers_covering_def)
  show ?thesis
    unfolding check_rov_records rov_spec_def res option.case answers_covering_hits [OF a res] ..
qed

subsection \<open>Properties\<close>

text \<open>
  C23: Route origin validation: when the VRP store answers a lookup with the records of all
  prefixes that cover the route's prefix, \<open>check_rov\<close> returns the validation state of RFC 6811
  over the stored VRPs. It is Valid exactly when some covering VRP has the route's origin and a
  maximum length not below the prefix length, Invalid when only other VRPs cover it, NotFound
  when none does; records whose list of maximum lengths has become empty do not count. The
  \<open>unreachable!()\<close> of the source is not reached.
\<close>

theorem check_rov_rfc6811:
  assumes "answers_covering stored match_prefix p"
  shows "check_rov match_prefix p origin = Some (rov_spec (vrps_of stored) p origin)"
  using assms by (rule check_rov_covering)

theorem check_rov_rfc6811_witness:
  "check_rov (\<lambda>_. Some \<lparr>vq_records = [],
       vq_less_specifics = Some [(\<lparr>pfx_addr = V4 0x0A000000, pfx_len = 8\<rparr>,
         [\<lparr>vr_mui = 65000, vr_meta = [12, 16]\<rparr>])]\<rparr>)
     \<lparr>pfx_addr = V4 0x0A010000, pfx_len = 16\<rparr> 65000 = Some Valid"
proof -
  let ?q = "\<lparr>pfx_addr = V4 0x0A000000, pfx_len = 8\<rparr>"
  let ?r = "\<lparr>vr_mui = 65000, vr_meta = [12, 16]\<rparr>"
  let ?mp = "\<lambda>_ :: prefix. Some \<lparr>vq_records = [], vq_less_specifics = Some [(?q, [?r])]\<rparr>"
  let ?p = "\<lparr>pfx_addr = V4 0x0A010000, pfx_len = 16\<rparr>"
  have c: "covers ?q ?p" by (simp add: covers_def addr_bits_def)
  then have "answers_covering {(?q, ?r)} ?mp ?p"
    by (auto simp: answers_covering_def answer_records_def)
  moreover have "(?q, 16, 65000) \<in> vrps_of {(?q, ?r)}" by (force simp: vrps_of_def)
  with c have "rov_spec (vrps_of {(?q, ?r)}) ?p 65000 = Valid"
    unfolding rov_spec_def by (force split: if_splits)
  ultimately show ?thesis using check_rov_rfc6811 [of "{(?q, ?r)}" ?mp ?p 65000] by simp
qed

end
