(* ===== verification/Ingress_Register.thy ===== *)
theory Ingress_Register
  imports Net_Types
begin

text \<open>
  The ingress register (src/ingress/register.rs) and the query filter of its HTTP endpoint
  (src/ingress/http_ng.rs).

  \<open>ingress_info\<close> is \<open>IngressInfo\<close>, a record of optional fields; \<open>register\<close> holds the serial,
  a 32-bit atomic counter, and the map of infos, which the code keeps behind a \<open>RwLock\<close>: each
  operation below is one critical section. The operations that iterate the map take the
  iteration order \<open>it\<close> as their first argument.

  The lemmas show which entries the lookups return, that a claimed entry cannot be claimed
  again, that \<open>update_info\<close> merges field by field, and that the operations keep the
  register's invariant \<open>reg_wf\<close>: keys are distinct and below the serial. The locale
  \<open>ingress_api\<close> is the contract the BMP state machine and the RIB unit rely on, interpreted on
  the operations.
\<close>

subsection \<open>Data\<close>

datatype ingress_type = IT_Bmp | IT_BgpViaBmp | IT_Bgp | IT_Mrt | IT_Rtr

datatype ingress_state = Connected | Disconnected | NonNetwork

record ingress_info =
  ii_unit_name :: "ustr option"
  ii_ingress_type :: "ingress_type option"
  ii_parent_ingress :: "ingress_id option"
  ii_state :: "ingress_state option"
  ii_remote_addr :: "ip_addr option"
  ii_remote_asn :: "asn option"
  ii_rib_type :: "rib_type option"
  ii_peer_rib_type :: "peer_rib_type option"
  ii_filename :: "ustr option"
  ii_name :: "ustr option"
  ii_desc :: "ustr option"
  ii_local_asn :: "asn option"
  ii_peer_type :: "peer_type option"
  ii_distinguisher :: "bytes option"
  ii_vrf_name :: "ustr option"
  ii_local_capabilities :: "bytes option"
  ii_remote_capabilities :: "bytes option"

record register =
  reg_serial :: u32
  reg_info :: "(ingress_id, ingress_info) hmap"

record reg_mem_summary =
  rms_total :: nat
  rms_connected :: nat
  rms_disconnected :: nat
  rms_non_network :: nat
  rms_state_unset :: nat
  rms_bgp_via_bmp :: nat

record query_filter =
  qf_ingress_type :: "ingress_type option"
  qf_ingress_state :: "ingress_state option"
  qf_rib_type :: "peer_rib_type option"
  qf_remote_addr :: "ip_addr option"
  qf_remote_asn :: "asn option"

subsection \<open>Operations\<close>

definition ingress_info_new :: ingress_info where
  "ingress_info_new =
    \<lparr>ii_unit_name = None, ii_ingress_type = None, ii_parent_ingress = None, ii_state = None,
     ii_remote_addr = None, ii_remote_asn = None, ii_rib_type = None, ii_peer_rib_type = None,
     ii_filename = None, ii_name = None, ii_desc = None, ii_local_asn = None,
     ii_peer_type = None, ii_distinguisher = None, ii_vrf_name = None,
     ii_local_capabilities = None, ii_remote_capabilities = None\<rparr>"

definition with_state :: "ingress_state \<Rightarrow> ingress_info \<Rightarrow> ingress_info" where
  "with_state s i = i\<lparr>ii_state := Some s\<rparr>"

definition update_field :: "'a option \<Rightarrow> 'a option \<Rightarrow> 'a option" where
  "update_field old new = (if new \<noteq> None then new else old)"

definition merge_info :: "ingress_info \<Rightarrow> ingress_info \<Rightarrow> ingress_info" where
  "merge_info old new =
    \<lparr>ii_unit_name = update_field (ii_unit_name old) (ii_unit_name new),
     ii_ingress_type = update_field (ii_ingress_type old) (ii_ingress_type new),
     ii_parent_ingress = update_field (ii_parent_ingress old) (ii_parent_ingress new),
     ii_state = update_field (ii_state old) (ii_state new),
     ii_remote_addr = update_field (ii_remote_addr old) (ii_remote_addr new),
     ii_remote_asn = update_field (ii_remote_asn old) (ii_remote_asn new),
     ii_rib_type = update_field (ii_rib_type old) (ii_rib_type new),
     ii_peer_rib_type = update_field (ii_peer_rib_type old) (ii_peer_rib_type new),
     ii_filename = update_field (ii_filename old) (ii_filename new),
     ii_name = update_field (ii_name old) (ii_name new),
     ii_desc = update_field (ii_desc old) (ii_desc new),
     ii_local_asn = update_field (ii_local_asn old) (ii_local_asn new),
     ii_peer_type = update_field (ii_peer_type old) (ii_peer_type new),
     ii_distinguisher = update_field (ii_distinguisher old) (ii_distinguisher new),
     ii_vrf_name = update_field (ii_vrf_name old) (ii_vrf_name new),
     ii_local_capabilities =
       update_field (ii_local_capabilities old) (ii_local_capabilities new),
     ii_remote_capabilities =
       update_field (ii_remote_capabilities old) (ii_remote_capabilities new)\<rparr>"

definition register_new :: register where
  "register_new = \<lparr>reg_serial = 1, reg_info = []\<rparr>"

definition register_id :: "register \<Rightarrow> ingress_id \<times> register" where
  "register_id r = (reg_serial r, r\<lparr>reg_serial := reg_serial r + 1\<rparr>)"

definition reg_get :: "register \<Rightarrow> ingress_id \<Rightarrow> ingress_info option" where
  "reg_get r ident = hm_get (reg_info r) ident"

definition update_info ::
  "register \<Rightarrow> ingress_id \<Rightarrow> ingress_info \<Rightarrow> ingress_info option \<times> register" where
  "update_info r ident new_info =
    (case hm_take ident (reg_info r) of
      (Some old, m) \<Rightarrow>
        (case hm_put ident (merge_info old new_info) m of
          (replaced, m') \<Rightarrow> (replaced, r\<lparr>reg_info := m'\<rparr>))
    | (None, m) \<Rightarrow>
        (case hm_put ident new_info m of (replaced, m') \<Rightarrow> (replaced, r\<lparr>reg_info := m'\<rparr>)))"

definition reg_remove :: "register \<Rightarrow> ingress_id \<Rightarrow> ingress_info option \<times> register" where
  "reg_remove r ident =
    (case hm_take ident (reg_info r) of (v, m) \<Rightarrow> (v, r\<lparr>reg_info := m\<rparr>))"

definition remove_if_disconnected ::
  "register \<Rightarrow> ingress_id \<Rightarrow> ingress_info option \<times> register" where
  "remove_if_disconnected r ident =
    (case hm_get (reg_info r) ident of
      Some info \<Rightarrow>
        (if ii_state info = Some Disconnected then reg_remove r ident else (None, r))
    | None \<Rightarrow> (None, r))"

definition mandatory_eq :: "'a option \<Rightarrow> 'a option \<Rightarrow> bool" where
  "mandatory_eq stored queried = (stored \<noteq> None \<and> stored = queried)"

definition bgp_session_matches :: "ingress_info \<Rightarrow> ingress_info \<Rightarrow> bool" where
  "bgp_session_matches info query =
    (mandatory_eq (ii_remote_addr info) (ii_remote_addr query) \<and>
     mandatory_eq (ii_remote_asn info) (ii_remote_asn query) \<and>
     mandatory_eq (ii_ingress_type info) (ii_ingress_type query))"

definition peer_matches :: "ingress_info \<Rightarrow> ingress_info \<Rightarrow> bool" where
  "peer_matches info query =
    (mandatory_eq (ii_parent_ingress info) (ii_parent_ingress query) \<and>
     mandatory_eq (ii_remote_addr info) (ii_remote_addr query) \<and>
     mandatory_eq (ii_remote_asn info) (ii_remote_asn query) \<and>
     ii_rib_type info = ii_rib_type query \<and>
     ii_peer_rib_type info = ii_peer_rib_type query \<and>
     ii_peer_type info = ii_peer_type query \<and>
     ii_distinguisher info = ii_distinguisher query \<and>
     ii_vrf_name info = ii_vrf_name query)"

definition bmp_router_matches :: "ingress_info \<Rightarrow> ingress_info \<Rightarrow> bool" where
  "bmp_router_matches info query =
    (mandatory_eq (ii_parent_ingress info) (ii_parent_ingress query) \<and>
     mandatory_eq (ii_remote_addr info) (ii_remote_addr query) \<and>
     mandatory_eq (ii_ingress_type info) (ii_ingress_type query) \<and>
     ii_name info = ii_name query)"

type_synonym reg_order =
  "(ingress_id \<times> ingress_info) list \<Rightarrow> (ingress_id \<times> ingress_info) list"

definition find_existing_bgp_session ::
  "reg_order \<Rightarrow> register \<Rightarrow> ingress_info \<Rightarrow> (ingress_id \<times> ingress_info) option" where
  "find_existing_bgp_session it r query =
    find (\<lambda>(_, info). bgp_session_matches info query) (iterate it (reg_info r))"

definition ids_for_parent :: "reg_order \<Rightarrow> register \<Rightarrow> ingress_id \<Rightarrow> ingress_id list" where
  "ids_for_parent it r parent =
    map fst (filter (\<lambda>(_, info). ii_parent_ingress info = Some parent)
      (iterate it (reg_info r)))"

definition find_existing_peer ::
  "reg_order \<Rightarrow> register \<Rightarrow> ingress_info \<Rightarrow> (ingress_id \<times> ingress_info) option" where
  "find_existing_peer it r query =
    find (\<lambda>(_, info). ii_state info \<noteq> Some Connected \<and> peer_matches info query)
      (iterate it (reg_info r))"

definition claim_entry ::
  "reg_order \<Rightarrow> (ingress_info \<Rightarrow> bool) \<Rightarrow> register \<Rightarrow> (ingress_id \<times> ingress_info) option \<times> register"
where
  "claim_entry it matches r =
    (case find (\<lambda>(_, info). ii_state info \<noteq> Some Connected \<and> matches info)
        (iterate it (reg_info r)) of
      Some (ident, info) \<Rightarrow>
        (let info' = with_state Connected info
         in (Some (ident, info'), r\<lparr>reg_info := hm_insert ident info' (reg_info r)\<rparr>))
    | None \<Rightarrow> (None, r))"

definition find_existing_peer_and_claim ::
  "reg_order \<Rightarrow> register \<Rightarrow> ingress_info \<Rightarrow> (ingress_id \<times> ingress_info) option \<times> register" where
  "find_existing_peer_and_claim it r query = claim_entry it (\<lambda>info. peer_matches info query) r"

definition find_existing_bmp_router_and_claim ::
  "reg_order \<Rightarrow> register \<Rightarrow> ingress_info \<Rightarrow> (ingress_id \<times> ingress_info) option \<times> register" where
  "find_existing_bmp_router_and_claim it r query =
    claim_entry it (\<lambda>info. bmp_router_matches info query) r"

definition query_filter_default :: query_filter where
  "query_filter_default =
    \<lparr>qf_ingress_type = None, qf_ingress_state = None, qf_rib_type = None,
     qf_remote_addr = None, qf_remote_asn = None\<rparr>"

definition qf_filter :: "query_filter \<Rightarrow> ingress_info \<Rightarrow> bool" where
  "qf_filter f info =
    (if qf_remote_addr f \<noteq> None \<and> qf_remote_addr f \<noteq> ii_remote_addr info then False
     else if qf_remote_asn f \<noteq> None \<and> qf_remote_asn f \<noteq> ii_remote_asn info then False
     else if qf_ingress_type f \<noteq> None \<and> qf_ingress_type f \<noteq> ii_ingress_type info then False
     else if qf_ingress_state f \<noteq> None \<and> qf_ingress_state f \<noteq> ii_state info then False
     else if qf_rib_type f \<noteq> None \<and> qf_rib_type f \<noteq> ii_peer_rib_type info then False
     else True)"

definition search ::
  "reg_order \<Rightarrow> register \<Rightarrow> query_filter \<Rightarrow> (ingress_id \<times> ingress_info) list" where
  "search it r f = filter (\<lambda>(_, info). qf_filter f info) (iterate it (reg_info r))"

definition search_jsonl ::
  "(ingress_id \<times> ingress_info \<Rightarrow> bytes \<times> bool) \<Rightarrow> reg_order \<Rightarrow> register \<Rightarrow> query_filter \<Rightarrow> bytes"
where
  "search_jsonl to_writer it r f =
    concat (map (\<lambda>e. case to_writer e of (bs, ok) \<Rightarrow> bs @ (if ok then [10] else []))
      (filter (\<lambda>(_, info). qf_filter f info) (iterate it (reg_info r))))"

definition bgp_neighbors :: "reg_order \<Rightarrow> register \<Rightarrow> (ingress_id \<times> ingress_info) list" where
  "bgp_neighbors it r =
    concat (map (\<lambda>t. search it r (query_filter_default\<lparr>qf_ingress_type := Some t\<rparr>))
      [IT_BgpViaBmp, IT_Bgp, IT_Mrt])"

definition real_bgp_peers :: "reg_order \<Rightarrow> register \<Rightarrow> (ingress_id \<times> ingress_info) list" where
  "real_bgp_peers it r =
    search it r (query_filter_default\<lparr>qf_ingress_type := Some IT_Bgp,
      qf_ingress_state := Some Connected\<rparr>)"

definition bmp_routers :: "reg_order \<Rightarrow> register \<Rightarrow> (ingress_id \<times> ingress_info) list" where
  "bmp_routers it r =
    search it r (query_filter_default\<lparr>qf_ingress_type := Some IT_Bmp,
      qf_ingress_state := Some Connected\<rparr>)"

definition tally :: "ingress_info \<Rightarrow> reg_mem_summary \<Rightarrow> reg_mem_summary" where
  "tally info s =
    (let s' = (case ii_state info of
                Some Connected \<Rightarrow> s\<lparr>rms_connected := rms_connected s + 1\<rparr>
              | Some Disconnected \<Rightarrow> s\<lparr>rms_disconnected := rms_disconnected s + 1\<rparr>
              | Some NonNetwork \<Rightarrow> s\<lparr>rms_non_network := rms_non_network s + 1\<rparr>
              | None \<Rightarrow> s\<lparr>rms_state_unset := rms_state_unset s + 1\<rparr>)
     in if ii_ingress_type info = Some IT_BgpViaBmp
        then s'\<lparr>rms_bgp_via_bmp := rms_bgp_via_bmp s' + 1\<rparr> else s')"

definition memory_summary :: "reg_order \<Rightarrow> register \<Rightarrow> reg_mem_summary" where
  "memory_summary it r =
    fold tally (map snd (iterate it (reg_info r)))
      \<lparr>rms_total = length (reg_info r), rms_connected = 0, rms_disconnected = 0,
       rms_non_network = 0, rms_state_unset = 0, rms_bgp_via_bmp = 0\<rparr>"

subsection \<open>Invariant\<close>

text \<open>
  The keys of the map are distinct and were handed out by \<open>register_id\<close>: they lie below the
  serial, which has not wrapped. The counter starts at 1.
\<close>

definition reg_wf :: "register \<Rightarrow> bool" where
  "reg_wf r \<longleftrightarrow> hm_wf (reg_info r) \<and> 0 < reg_serial r \<and>
     (\<forall>ident. reg_get r ident \<noteq> None \<longrightarrow> ident < reg_serial r)"

definition reg_room :: "register \<Rightarrow> bool" where
  "reg_room r \<longleftrightarrow> reg_serial r \<noteq> - 1"

text \<open>Several callers in sequence: each asks for a fresh id, or each claims a peer.\<close>

fun register_many :: "nat \<Rightarrow> register \<Rightarrow> ingress_id list \<times> register" where
  "register_many 0 r = ([], r)"
| "register_many (Suc n) r =
    (case register_id r of (ident, r') \<Rightarrow>
      (case register_many n r' of (idents, r'') \<Rightarrow> (ident # idents, r'')))"

fun claim_seq ::
  "(reg_order \<times> ingress_info) list \<Rightarrow> register \<Rightarrow> ingress_id option list \<times> register" where
  "claim_seq [] r = ([], r)"
| "claim_seq ((it, q) # qs) r =
    (case find_existing_peer_and_claim it r q of (res, r') \<Rightarrow>
      (case claim_seq qs r' of (ress, r'') \<Rightarrow> (map_option fst res # ress, r'')))"

text \<open>The states a register goes through, whatever the order in which its users call it.\<close>

inductive reg_reachable :: "register \<Rightarrow> bool" where
  new: "reg_reachable register_new"
| fresh_id: "reg_reachable r \<Longrightarrow> reg_room r \<Longrightarrow> reg_reachable (snd (register_id r))"
| updated: "reg_reachable r \<Longrightarrow> ident < reg_serial r \<Longrightarrow>
    reg_reachable (snd (update_info r ident i))"
| removed: "reg_reachable r \<Longrightarrow> reg_reachable (snd (reg_remove r ident))"
| reclaimed: "reg_reachable r \<Longrightarrow> reg_reachable (snd (remove_if_disconnected r ident))"
| peer_claimed: "reg_reachable r \<Longrightarrow> reg_reachable (snd (find_existing_peer_and_claim it r q))"
| router_claimed: "reg_reachable r \<Longrightarrow>
    reg_reachable (snd (find_existing_bmp_router_and_claim it r q))"

subsection \<open>Reads after writes\<close>

lemma reg_get_register_id [simp]: "reg_get (snd (register_id r)) j = reg_get r j"
  by (simp add: register_id_def reg_get_def)

lemma update_info_None: "fst (update_info r ident new) = None"
  by (simp add: update_info_def hm_take_def hm_put_def split: option.splits)

lemma reg_get_update_info [simp]:
  "reg_get (snd (update_info r ident new)) j =
    (if j = ident
     then Some (case reg_get r ident of None \<Rightarrow> new | Some old \<Rightarrow> merge_info old new)
     else reg_get r j)"
  by (simp add: update_info_def hm_take_def hm_put_def reg_get_def split: option.splits)

lemma reg_serial_update_info [simp]: "reg_serial (snd (update_info r ident new)) = reg_serial r"
  by (simp add: update_info_def hm_take_def hm_put_def split: option.splits)

lemma hm_wf_update_info [simp]:
  "hm_wf (reg_info r) \<Longrightarrow> hm_wf (reg_info (snd (update_info r ident new)))"
  by (simp add: update_info_def hm_take_def hm_put_def split: option.splits)

lemma reg_get_remove [simp]:
  "reg_get (snd (reg_remove r ident)) j = (if j = ident then None else reg_get r j)"
  by (simp add: reg_remove_def hm_take_def reg_get_def)

lemma reg_serial_remove [simp]: "reg_serial (snd (reg_remove r ident)) = reg_serial r"
  by (simp add: reg_remove_def hm_take_def)

lemma fst_reg_remove [simp]: "fst (reg_remove r ident) = reg_get r ident"
  by (simp add: reg_remove_def hm_take_def reg_get_def)

lemma hm_wf_remove_reg [simp]:
  "hm_wf (reg_info r) \<Longrightarrow> hm_wf (reg_info (snd (reg_remove r ident)))"
  by (simp add: reg_remove_def hm_take_def)

lemma remove_if_disconnected_cases:
  "remove_if_disconnected r ident =
    (if \<exists>info. reg_get r ident = Some info \<and> ii_state info = Some Disconnected
     then (reg_get r ident, snd (reg_remove r ident)) else (None, r))"
  by (auto simp: remove_if_disconnected_def reg_get_def reg_remove_def hm_take_def
      split: option.splits)

subsection \<open>Claims\<close>

lemma claim_entry_Some:
  assumes "hm_wf (reg_info r)" and "claim_entry it matches r = (Some (ident, info'), r')"
  shows "\<exists>info. reg_get r ident = Some info \<and> ii_state info \<noteq> Some Connected \<and> matches info
    \<and> info' = with_state Connected info
    \<and> (\<forall>j. reg_get r' j = (if j = ident then Some info' else reg_get r j))
    \<and> hm_wf (reg_info r') \<and> reg_serial r' = reg_serial r"
proof -
  let ?P = "\<lambda>(_, info). ii_state info \<noteq> Some Connected \<and> matches info"
  obtain info where f: "find ?P (iterate it (reg_info r)) = Some (ident, info)"
    and eqs: "info' = with_state Connected info"
      "r' = r\<lparr>reg_info := hm_insert ident info' (reg_info r)\<rparr>"
    using assms(2) by (auto simp: claim_entry_def Let_def split: option.splits prod.splits)
  show ?thesis
    using hm.find_entry_Some [OF assms(1) f] assms(1) eqs by (auto simp: reg_get_def)
qed

lemma claim_entry_None:
  assumes "hm_wf (reg_info r)" and "claim_entry it matches r = (None, r')"
  shows "r' = r \<and> (\<forall>j info. reg_get r j = Some info \<longrightarrow> matches info \<longrightarrow> ii_state info = Some Connected)"
proof -
  let ?P = "\<lambda>(_, info). ii_state info \<noteq> Some Connected \<and> matches info"
  have f: "find ?P (iterate it (reg_info r)) = None" and "r' = r"
    using assms(2) by (auto simp: claim_entry_def Let_def split: option.splits prod.splits)
  then show ?thesis
    using iffD1 [OF hm.find_entry_None [OF assms(1)] f] by (fastforce simp: reg_get_def)
qed

lemma with_state_simps [simp]:
  "ii_state (with_state s i) = Some s" "ii_ingress_type (with_state s i) = ii_ingress_type i"
  "ii_parent_ingress (with_state s i) = ii_parent_ingress i"
  by (simp_all add: with_state_def)

lemma merge_info_state:
  "ii_state (merge_info old new) = (if ii_state new \<noteq> None then ii_state new else ii_state old)"
  by (simp add: merge_info_def update_field_def)

subsection \<open>The contract of the register\<close>

text \<open>
  What the session code needs of the register to give each live peer an id of its own: a claim
  returns an entry that nobody holds (it was not \<open>Connected\<close>) and marks it held; a fresh id
  names no entry; \<open>upd\<close> writes one entry. \<open>bind\<close> is the sequence both callers run: claim an
  old entry or take a fresh id, then store the new info.
\<close>

locale ingress_api =
  fixes get :: "'r \<Rightarrow> ingress_id \<Rightarrow> ingress_info option"
    and claim :: "'r \<Rightarrow> ingress_info \<Rightarrow> (ingress_id \<times> ingress_info) option \<times> 'r"
    and fresh :: "'r \<Rightarrow> ingress_id \<times> 'r"
    and upd :: "'r \<Rightarrow> ingress_id \<Rightarrow> ingress_info \<Rightarrow> 'r"
    and ok :: "'r \<Rightarrow> bool"
    and room :: "'r \<Rightarrow> bool"
  assumes claim_Some: "\<lbrakk>ok r; claim r q = (Some (ident, i), r')\<rbrakk> \<Longrightarrow>
      ok r' \<and> (\<exists>old. get r ident = Some old \<and> ii_state old \<noteq> Some Connected) \<and>
      ii_state i = Some Connected \<and>
      (\<forall>j. get r' j = (if j = ident then Some i else get r j))"
    and claim_None: "\<lbrakk>ok r; claim r q = (None, r')\<rbrakk> \<Longrightarrow> r' = r"
    and fresh_unused: "\<lbrakk>ok r; room r; fresh r = (ident, r')\<rbrakk> \<Longrightarrow>
      get r ident = None \<and> get r' = get r \<and> (\<forall>i. ok (upd r' ident i))"
    and upd_ok: "\<lbrakk>ok r; get r ident \<noteq> None\<rbrakk> \<Longrightarrow> ok (upd r ident i)"
    and get_upd: "get (upd r ident i) j =
      (if j = ident then Some (case get r ident of None \<Rightarrow> i | Some old \<Rightarrow> merge_info old i)
       else get r j)"
begin

definition bind :: "'r \<Rightarrow> ingress_info \<Rightarrow> ingress_id \<times> 'r" where
  "bind r q =
    (case claim r q of
      (Some (ident, _), r') \<Rightarrow> (ident, upd r' ident q)
    | (None, r') \<Rightarrow> (case fresh r' of (ident, r'') \<Rightarrow> (ident, upd r'' ident q)))"

lemma bind_spec:
  assumes "ok r" and "room r" and "ii_state q = Some Connected" and "bind r q = (ident, r')"
  shows "ok r'" and "\<forall>i. get r ident = Some i \<longrightarrow> ii_state i \<noteq> Some Connected"
    and "\<exists>i. get r' ident = Some i \<and> ii_state i = Some Connected"
    and "\<And>j. j \<noteq> ident \<Longrightarrow> get r' j = get r j"
proof -
  have "ok r' \<and> (\<forall>i. get r ident = Some i \<longrightarrow> ii_state i \<noteq> Some Connected)
    \<and> (\<exists>i. get r' ident = Some i \<and> ii_state i = Some Connected)
    \<and> (\<forall>j. j \<noteq> ident \<longrightarrow> get r' j = get r j)"
  proof (cases "claim r q")
    case (Pair res r1)
    show ?thesis
    proof (cases res)
      case None
      have r1: "r1 = r" using claim_None [OF assms(1)] Pair None by blast
      obtain i2 r2 where fr: "fresh r = (i2, r2)" by force
      note f = fresh_unused [OF assms(1,2) fr]
      have "ident = i2" and "r' = upd r2 i2 q"
        using assms(4) Pair None r1 fr by (auto simp: bind_def)
      then show ?thesis using f assms(3) get_upd [of r2 i2 q] by auto
    next
      case (Some a)
      obtain i2 info where a: "a = (i2, info)" by force
      note c = claim_Some [OF assms(1) Pair [unfolded Some a]]
      have "ident = i2" and "r' = upd r1 i2 q"
        using assms(4) Pair Some a by (auto simp: bind_def)
      then show ?thesis
        using c assms(3) upd_ok [of r1 i2 q] get_upd [of r1 i2 q] by (auto simp: merge_info_state)
    qed
  qed
  then show "ok r'" and "\<forall>i. get r ident = Some i \<longrightarrow> ii_state i \<noteq> Some Connected"
    and "\<exists>i. get r' ident = Some i \<and> ii_state i = Some Connected"
    and "\<And>j. j \<noteq> ident \<Longrightarrow> get r' j = get r j" by blast+
qed

end

subsection \<open>The invariant is kept\<close>

lemma reg_wf_new: "reg_wf register_new"
  by (simp add: reg_wf_def register_new_def reg_get_def)

lemma reg_wf_update:
  "\<lbrakk>reg_wf r; ident < reg_serial r\<rbrakk> \<Longrightarrow> reg_wf (snd (update_info r ident new))"
  by (auto simp: reg_wf_def)

lemma reg_wf_remove: "reg_wf r \<Longrightarrow> reg_wf (snd (reg_remove r ident))"
  by (auto simp: reg_wf_def)

lemma reg_wf_remove_if_disconnected: "reg_wf r \<Longrightarrow> reg_wf (snd (remove_if_disconnected r ident))"
  by (simp add: remove_if_disconnected_cases reg_wf_remove)

lemma serial_succ: "reg_room r \<Longrightarrow> reg_serial r < reg_serial r + 1"
  unfolding reg_room_def using inc_less_eq_triv_imp verit_comp_simplify1(3) by blast

lemma reg_wf_register: "\<lbrakk>reg_wf r; reg_room r\<rbrakk> \<Longrightarrow> reg_wf (snd (register_id r))"
  using serial_succ [of r]
  by (auto simp: reg_wf_def register_id_def reg_get_def intro: less_trans)

lemma reg_wf_claim: "reg_wf r \<Longrightarrow> reg_wf (snd (claim_entry it matches r))"
proof (cases "claim_entry it matches r")
  case (Pair res r')
  assume wf: "reg_wf r"
  then have hw: "hm_wf (reg_info r)" by (simp add: reg_wf_def)
  show ?thesis
  proof (cases res)
    case None
    then show ?thesis using claim_entry_None [OF hw Pair [unfolded None]] wf Pair by simp
  next
    case (Some a)
    with Pair have "claim_entry it matches r = (Some (fst a, snd a), r')" by simp
    from claim_entry_Some [OF hw this] obtain info where "reg_get r (fst a) = Some info"
      and "\<And>j. reg_get r' j = (if j = fst a then Some (snd a) else reg_get r j)"
      and "hm_wf (reg_info r')" and "reg_serial r' = reg_serial r" by blast
    then show ?thesis using wf Pair by (auto simp: reg_wf_def)
  qed
qed

interpretation reg: ingress_api reg_get "find_existing_peer_and_claim it" register_id
  "\<lambda>r ident i. snd (update_info r ident i)" reg_wf reg_room
  for it
proof
  fix r q ident i r'
  assume "reg_wf r" and c: "find_existing_peer_and_claim it r q = (Some (ident, i), r')"
  then have hw: "hm_wf (reg_info r)" by (simp add: reg_wf_def)
  from c have c': "claim_entry it (\<lambda>info. peer_matches info q) r = (Some (ident, i), r')"
    by (simp add: find_existing_peer_and_claim_def)
  show "reg_wf r' \<and> (\<exists>old. reg_get r ident = Some old \<and> ii_state old \<noteq> Some Connected) \<and>
      ii_state i = Some Connected \<and> (\<forall>j. reg_get r' j = (if j = ident then Some i else reg_get r j))"
    using claim_entry_Some [OF hw c'] reg_wf_claim [OF \<open>reg_wf r\<close>, of it] c'
    by (metis snd_conv with_state_simps(1))
next
  fix r q r'
  assume "reg_wf r" and "find_existing_peer_and_claim it r q = (None, r')"
  then show "r' = r"
    using claim_entry_None by (auto simp: find_existing_peer_and_claim_def reg_wf_def)
next
  fix r ident r'
  assume wf: "reg_wf r" and room: "reg_room r" and f: "register_id r = (ident, r')"
  have "reg_wf r'" using reg_wf_register [OF wf room] f by simp
  moreover have "ident < reg_serial r'"
    using f serial_succ [OF room] by (auto simp: register_id_def)
  moreover have "reg_get r ident = None"
    using wf f by (auto simp: reg_wf_def register_id_def)
  ultimately show "reg_get r ident = None \<and> reg_get r' = reg_get r \<and>
      (\<forall>i. reg_wf (snd (update_info r' ident i)))"
    using f reg_wf_update by (auto simp: register_id_def reg_get_def)
next
  fix r ident i
  assume "reg_wf r" and "reg_get r ident \<noteq> None"
  then show "reg_wf (snd (update_info r ident i))"
    by (auto simp: reg_wf_def)
qed simp

subsection \<open>Sequences of callers\<close>

lemma register_many_eq:
  "fst (register_many n r) = map (\<lambda>k. reg_serial r + of_nat k) [0..<n]"
proof (induction n arbitrary: r)
  case 0
  then show ?case by simp
next
  case (Suc n)
  have "map (\<lambda>k. reg_serial r + of_nat k) [0..<Suc n] =
      reg_serial r # map (\<lambda>k. reg_serial r + 1 + of_nat k) [0..<n]"
    by (simp add: upt_conv_Cons map_Suc_upt [symmetric] add.assoc del: upt_Suc)
  then show ?case
    using Suc.IH [of "snd (register_id r)"]
    by (auto simp: register_id_def split: prod.splits)
qed

lemma claim_seq_spec:
  assumes "hm_wf (reg_info r)" and "claim_seq qs r = (ress, r')"
  shows "hm_wf (reg_info r') \<and>
    (\<forall>ident \<in> set (List.map_filter (\<lambda>x. x) ress).
       (\<exists>old. reg_get r ident = Some old \<and> ii_state old \<noteq> Some Connected) \<and>
       (\<exists>i. reg_get r' ident = Some i \<and> ii_state i = Some Connected)) \<and>
    distinct (List.map_filter (\<lambda>x. x) ress) \<and>
    (\<forall>ident i. reg_get r ident = Some i \<longrightarrow> ii_state i = Some Connected \<longrightarrow>
       reg_get r' ident = Some i)"
  using assms
proof (induction qs arbitrary: r ress r')
  case Nil
  then show ?case by (simp add: List.map_filter_def)
next
  case (Cons a qs)
  obtain it q where a: "a = (it, q)" by force
  obtain res r1 where c: "find_existing_peer_and_claim it r q = (res, r1)" by force
  obtain ress1 where s: "claim_seq qs r1 = (ress1, r')" and ress: "ress = map_option fst res # ress1"
    using Cons.prems(2) a c by (auto split: prod.splits)
  from c have c': "claim_entry it (\<lambda>info. peer_matches info q) r = (res, r1)"
    by (simp add: find_existing_peer_and_claim_def)
  show ?case
  proof (cases res)
    case None
    then have "r1 = r" using claim_entry_None [OF Cons.prems(1)] c' by blast
    with Cons.IH [OF _ s] Cons.prems(1) None ress show ?thesis
      by (simp add: List.map_filter_def)
  next
    case (Some x)
    obtain ident i where x: "x = (ident, i)" by force
    note cl = claim_entry_Some [OF Cons.prems(1) c' [unfolded Some x]]
    then have "hm_wf (reg_info r1)" and con: "ii_state i = Some Connected"
      and old: "\<exists>old. reg_get r ident = Some old \<and> ii_state old \<noteq> Some Connected"
      and g1: "\<And>j. reg_get r1 j = (if j = ident then Some i else reg_get r j)" by auto
    note ih = Cons.IH [OF \<open>hm_wf (reg_info r1)\<close> s]
    have new: "ident \<notin> set (List.map_filter (\<lambda>x. x) ress1)"
      using ih g1 con by (metis option.inject)
    have held: "reg_get r' ident = Some i" using ih g1 con by auto
    have F: "List.map_filter (\<lambda>x. x) ress = ident # List.map_filter (\<lambda>x. x) ress1"
      using ress Some x by simp
    have "\<exists>old. reg_get r y = Some old \<and> ii_state old \<noteq> Some Connected"
      if "y \<in> set (List.map_filter (\<lambda>x. x) ress1)" for y
    proof -
      have "y \<noteq> ident" using that new by blast
      then show ?thesis using that ih g1 [of y] by (metis (no_types, lifting))
    qed
    moreover have "reg_get r' y = Some i'"
      if "reg_get r y = Some i'" and "ii_state i' = Some Connected" for y i'
      using that old ih g1 [of y] by (cases "y = ident") auto
    ultimately show ?thesis
      unfolding F using ih old held con new by (intro conjI ballI) auto
  qed
qed

subsection \<open>Tallies\<close>

lemma tally_fold:
  "rms_total (fold tally xs s) = rms_total s"
  "rms_connected (fold tally xs s) =
    rms_connected s + length (filter (\<lambda>i. ii_state i = Some Connected) xs)"
  "rms_disconnected (fold tally xs s) =
    rms_disconnected s + length (filter (\<lambda>i. ii_state i = Some Disconnected) xs)"
  "rms_non_network (fold tally xs s) =
    rms_non_network s + length (filter (\<lambda>i. ii_state i = Some NonNetwork) xs)"
  "rms_state_unset (fold tally xs s) =
    rms_state_unset s + length (filter (\<lambda>i. ii_state i = None) xs)"
  "rms_bgp_via_bmp (fold tally xs s) =
    rms_bgp_via_bmp s + length (filter (\<lambda>i. ii_ingress_type i = Some IT_BgpViaBmp) xs)"
  by (induction xs arbitrary: s)
    (auto simp: tally_def Let_def split: option.splits ingress_state.splits)

lemma state_partition:
  "length (filter (\<lambda>i. ii_state i = Some Connected) xs) +
   length (filter (\<lambda>i. ii_state i = Some Disconnected) xs) +
   length (filter (\<lambda>i. ii_state i = Some NonNetwork) xs) +
   length (filter (\<lambda>i. ii_state i = None) xs) = length xs"
proof (induction xs)
  case Nil
  then show ?case by simp
next
  case (Cons i xs)
  then show ?case by (cases "ii_state i"; cases "the (ii_state i)") auto
qed

lemma length_filter_iterate [simp]: "length (filter P (iterate it xs)) = length (filter P xs)"
proof -
  have "mset (filter P (iterate it xs)) = mset (filter P xs)" by (simp add: mset_filter)
  then show ?thesis by (rule mset_eq_length)
qed

lemma search_entries:
  assumes "reg_wf r"
  shows "(ident, info) \<in> set (search it r f) \<longleftrightarrow> reg_get r ident = Some info \<and> qf_filter f info"
  using assms hm_entries_get [of "reg_info r"] by (auto simp: search_def reg_get_def reg_wf_def)

lemma search_distinct:
  assumes "reg_wf r"
  shows "distinct (map fst (search it r f))"
proof -
  have "distinct (map fst (iterate it (reg_info r)))" using assms by (simp add: reg_wf_def hm_wf_def)
  then show ?thesis unfolding search_def by (rule distinct_map_filter)
qed

subsection \<open>Properties\<close>

text \<open>
  The ids that successive \<open>register\<close> calls hand out are pairwise distinct exactly as long as
  there are at most \<open>2 ^ 32\<close> of them: the 32-bit serial then wraps and the next call repeats
  the first id.
\<close>

lemma register_ids_distinct: "distinct (fst (register_many n r)) \<longleftrightarrow> n \<le> 2 ^ 32"
proof
  assume "n \<le> 2 ^ 32"
  have "inj_on (\<lambda>k. reg_serial r + of_nat k) {0..<n}"
  proof (rule inj_onI)
    fix k l assume "k \<in> {0..<n}" and "l \<in> {0..<n}"
      and eq: "reg_serial r + of_nat k = reg_serial r + of_nat l"
    then have "k < 4294967296" and "l < 4294967296" using \<open>n \<le> 2 ^ 32\<close> by auto
    moreover from eq have "unat (of_nat k :: u32) = unat (of_nat l :: u32)" by simp
    ultimately show "k = l" by (simp add: unat_of_nat_small)
  qed
  then show "distinct (fst (register_many n r))"
    by (simp add: register_many_eq distinct_map)
next
  assume "distinct (fst (register_many n r))"
  then have inj: "inj_on (\<lambda>k. reg_serial r + of_nat k) {0..<n}"
    by (simp add: register_many_eq distinct_map)
  show "n \<le> 2 ^ 32"
  proof (rule ccontr)
    assume "\<not> n \<le> 2 ^ 32"
    then have "(0::nat) \<in> {0..<n}" and "4294967296 \<in> {0..<n}" by auto
    moreover have "reg_serial r + of_nat 0 = reg_serial r + of_nat 4294967296" by simp
    ultimately have "(0::nat) = 4294967296" using inj by (metis (no_types, lifting) inj_onD)
    then show False by simp
  qed
qed

text \<open>
  C7: When several sessions claim peers one after the other, whatever they ask for and however
  the map iterates, no two of them get the same id; every id handed out belonged to an entry
  that was not connected and is connected afterwards, and entries that were connected before
  are left as they were.
\<close>

theorem concurrent_claims_disjoint:
  assumes "reg_wf r" and "claim_seq qs r = (ress, r')"
  shows "distinct (List.map_filter (\<lambda>x. x) ress) \<and>
    (\<forall>ident. Some ident \<in> set ress \<longrightarrow>
      (\<exists>old. reg_get r ident = Some old \<and> ii_state old \<noteq> Some Connected) \<and>
      (\<exists>i. reg_get r' ident = Some i \<and> ii_state i = Some Connected)) \<and>
    (\<forall>ident i. reg_get r ident = Some i \<longrightarrow> ii_state i = Some Connected \<longrightarrow>
      reg_get r' ident = Some i)"
proof -
  have "hm_wf (reg_info r)" using assms(1) by (simp add: reg_wf_def)
  note c = claim_seq_spec [OF this assms(2)]
  have "ident \<in> set (List.map_filter (\<lambda>x. x) ress)" if "Some ident \<in> set ress" for ident
    using that by (force simp: List.map_filter_def)
  with c show ?thesis by blast
qed

definition sample_peer :: ingress_info where
  "sample_peer = ingress_info_new\<lparr>ii_parent_ingress := Some 1, ii_remote_addr := Some (V4 10),
     ii_remote_asn := Some 65000, ii_state := Some Disconnected\<rparr>"

definition sample_register :: register where
  "sample_register = \<lparr>reg_serial = 3, reg_info = [(2, sample_peer)]\<rparr>"

lemma sample_register_wf: "reg_wf sample_register"
  by (auto simp: sample_register_def reg_wf_def hm_wf_def reg_get_def hm_get_def)

theorem concurrent_claims_disjoint_witness:
  "reg_wf sample_register \<and>
   fst (claim_seq [(\<lambda>xs. xs, sample_peer), (rev, sample_peer)] sample_register) = [Some 2, None] \<and>
   distinct (List.map_filter (\<lambda>x. x)
     (fst (claim_seq [(\<lambda>xs. xs, sample_peer), (rev, sample_peer)] sample_register)))"
proof -
  let ?c = "claim_seq [(\<lambda>xs. xs, sample_peer), (rev, sample_peer)] sample_register"
  have "distinct (List.map_filter (\<lambda>x. x) (fst ?c))"
    using concurrent_claims_disjoint
      [OF sample_register_wf prod.collapse [symmetric, of ?c]] by blast
  moreover have "fst ?c = [Some 2, None]"
    by (simp add: sample_register_def sample_peer_def ingress_info_new_def hm_insert_def
        find_existing_peer_and_claim_def claim_entry_def with_state_def peer_matches_def
        mandatory_eq_def Let_def)
  ultimately show ?thesis using sample_register_wf by blast
qed

text \<open>
  \<open>update_info\<close> merges: each field of the stored info is the new one where that is set and
  the old one otherwise (an absent entry is created from the new info), other entries are
  untouched, and the value returned is always \<open>None\<close>, also when an entry was replaced.
\<close>

lemma update_info_merges:
  "fst (update_info r ident new) = None \<and>
   reg_get (snd (update_info r ident new)) j =
    (if j = ident
     then Some (case reg_get r ident of None \<Rightarrow> new | Some old \<Rightarrow> merge_info old new)
     else reg_get r j) \<and>
   reg_serial (snd (update_info r ident new)) = reg_serial r"
  by (simp_all add: update_info_None)



text \<open>
  A search returns exactly the entries that agree with every field the filter sets, each
  once.
\<close>

lemma search_exact:
  assumes "reg_wf r"
  shows "((ident, info) \<in> set (search it r f) \<longleftrightarrow>
      reg_get r ident = Some info \<and>
      qf_ingress_type f \<in> {None, ii_ingress_type info} \<and>
      qf_ingress_state f \<in> {None, ii_state info} \<and>
      qf_rib_type f \<in> {None, ii_peer_rib_type info} \<and>
      qf_remote_addr f \<in> {None, ii_remote_addr info} \<and>
      qf_remote_asn f \<in> {None, ii_remote_asn info}) \<and>
    distinct (map fst (search it r f))"
  using search_entries [OF assms] search_distinct [OF assms] by (auto simp: qf_filter_def)

text \<open>
  The memory summary counts every entry in exactly one of the four states, for every
  iteration order.
\<close>

lemma memory_summary_partition:
  "rms_connected (memory_summary it r) + rms_disconnected (memory_summary it r) +
   rms_non_network (memory_summary it r) + rms_state_unset (memory_summary it r) =
   rms_total (memory_summary it r) \<and>
   rms_total (memory_summary it r) = length (reg_info r) \<and>
   rms_bgp_via_bmp (memory_summary it r) =
    length (filter (\<lambda>i. ii_ingress_type i = Some IT_BgpViaBmp) (map snd (reg_info r)))"
  using state_partition [of "map snd (reg_info r)"]
  by (simp add: memory_summary_def tally_fold)

end
