(* ===== verification/Payload.thy ===== *)
theory Payload
  imports Rpki Ingress_Register
begin

text \<open>
  Routes and updates as they travel between the units (src/payload.rs).

  \<open>rotonda_pa_map\<close> is \<open>RotondaPaMap\<close>: one octet of \<open>RpkiInfo\<close>, one of \<open>PduParseInfo\<close>, then
  the path attributes as they were received. A routecore \<open>PduParseInfo\<close> is modelled by its one
  observable, whether four-octet AS numbers are enabled. Reading an octet that is not there
  panics in the code: those reads return an option.

  The \<open>PathAttributeInterner\<close> is modelled over an explicit heap of reference-counted blobs
  (\<open>arc_heap\<close>), because what it promises is about sharing: \<open>intern\<close> returns an \<open>Arc\<close> with the
  given content, the one already in the table when a live one exists. \<open>interner_wf\<close> is the
  invariant behind it. The hash function is an argument (\<open>DefaultHasher\<close> does not specify
  its algorithm).
\<close>

subsection \<open>Path attribute maps\<close>

type_synonym pdu_parse_info = bool

type_synonym owned_path_attributes = "pdu_parse_info \<times> bytes"

record rotonda_pa_map =
  pm_raw :: bytes

definition ppi_to_byte :: "pdu_parse_info \<Rightarrow> u8" where
  "ppi_to_byte four_octet = (if four_octet then 1 else 0)"

definition byte_to_ppi :: "u8 \<Rightarrow> pdu_parse_info" where
  "byte_to_ppi b = (if b = 1 then True else False)"

definition pa_map_new :: "owned_path_attributes \<Rightarrow> rotonda_pa_map" where
  "pa_map_new pas =
    \<lparr>pm_raw = u8_from_rpki_info rpki_info_default # ppi_to_byte (fst pas) # snd pas\<rparr>"

definition pa_map_from_vec :: "bytes \<Rightarrow> rotonda_pa_map" where
  "pa_map_from_vec value = pa_map_new (True, value)"

definition empty_path_attributes :: rotonda_pa_map where
  "empty_path_attributes = pa_map_new (True, [])"

definition pa_map_default :: rotonda_pa_map where
  "pa_map_default = \<lparr>pm_raw = []\<rparr>"

definition set_rpki_info :: "rpki_info \<Rightarrow> rotonda_pa_map \<Rightarrow> rotonda_pa_map option" where
  "set_rpki_info i pm =
    (case pm_raw pm of [] \<Rightarrow> None | _ # rest \<Rightarrow> Some \<lparr>pm_raw = u8_from_rpki_info i # rest\<rparr>)"

definition get_rpki_info :: "rotonda_pa_map \<Rightarrow> rpki_info option" where
  "get_rpki_info pm = (case pm_raw pm of [] \<Rightarrow> None | b # _ \<Rightarrow> Some (rpki_info_from_u8 b))"

definition path_attributes :: "rotonda_pa_map \<Rightarrow> owned_path_attributes option" where
  "path_attributes pm =
    (case pm_raw pm of _ # p # blob \<Rightarrow> Some (byte_to_ppi p, blob) | _ \<Rightarrow> None)"

subsection \<open>Routes, payloads and updates\<close>

datatype rotonda_route =
    RR_Ipv4Unicast prefix rotonda_pa_map
  | RR_Ipv6Unicast prefix rotonda_pa_map
  | RR_Ipv4Multicast prefix rotonda_pa_map
  | RR_Ipv6Multicast prefix rotonda_pa_map

fun rotonda_pamap :: "rotonda_route \<Rightarrow> rotonda_pa_map" where
  "rotonda_pamap (RR_Ipv4Unicast _ p) = p"
| "rotonda_pamap (RR_Ipv6Unicast _ p) = p"
| "rotonda_pamap (RR_Ipv4Multicast _ p) = p"
| "rotonda_pamap (RR_Ipv6Multicast _ p) = p"

definition owned_map :: "rotonda_route \<Rightarrow> owned_path_attributes option" where
  "owned_map r = path_attributes (rotonda_pamap r)"

datatype route_status = Active | InActive | Withdrawn

record payload =
  pl_rx_value :: rotonda_route
  pl_trace_id :: "u8 option"
  pl_received :: nat
  pl_ingress_id :: ingress_id
  pl_route_status :: route_status

definition payload_eq :: "payload \<Rightarrow> payload \<Rightarrow> bool" where
  "payload_eq a b = (pl_rx_value a = pl_rx_value b \<and> pl_trace_id a = pl_trace_id b)"

text \<open>
  \<open>'osm\<close> is \<open>OutputStreamMessage\<close>, the output of the roto scripts, and \<open>'rtr\<close> an RTR update.
\<close>

datatype ('osm, 'rtr) update =
    Single payload
  | Bulk "payload list"
  | Withdraw ingress_id "afisafi option"
  | WithdrawBulk "(ingress_id \<times> ingress_info option) list"
  | IngressReappeared ingress_id
  | UpstreamStatusChange ingress_id
  | OutputStream "'osm list"
  | Rtr 'rtr
  | PeerStats ingress_id bytes

fun trace_ids :: "('osm, 'rtr) update \<Rightarrow> payload list" where
  "trace_ids (Single p) = (if pl_trace_id p \<noteq> None then [p] else [])"
| "trace_ids (Bulk ps) = filter (\<lambda>p. pl_trace_id p \<noteq> None) ps"
| "trace_ids _ = []"

record type_sizes =
  sz_update :: nat
  sz_payload :: nat
  sz_withdraw_entry :: nat
  sz_output_stream_message :: nat

fun shallow_bytes :: "type_sizes \<Rightarrow> ('osm, 'rtr) update \<Rightarrow> nat" where
  "shallow_bytes sz (Bulk ps) = sz_update sz + length ps * sz_payload sz"
| "shallow_bytes sz (WithdrawBulk es) = sz_update sz + length es * sz_withdraw_entry sz"
| "shallow_bytes sz (OutputStream ms) = sz_update sz + length ms * sz_output_stream_message sz"
| "shallow_bytes sz _ = sz_update sz"

subsection \<open>The interner\<close>

text \<open>
  An \<open>Arc\<close> is an address; the heap gives its content and its strong count. A \<open>Weak\<close> is the
  address too, and can be upgraded while the strong count is positive.
\<close>

record arc_heap =
  ah_blob :: "nat \<Rightarrow> bytes"
  ah_strong :: "nat \<Rightarrow> nat"
  ah_next :: nat

definition arc_live :: "arc_heap \<Rightarrow> nat \<Rightarrow> bool" where
  "arc_live h a = (0 < ah_strong h a)"

definition arc_clone :: "nat \<Rightarrow> arc_heap \<Rightarrow> arc_heap" where
  "arc_clone a h = h\<lparr>ah_strong := (ah_strong h)(a := ah_strong h a + 1)\<rparr>"

definition arc_drop :: "nat \<Rightarrow> arc_heap \<Rightarrow> arc_heap" where
  "arc_drop a h = h\<lparr>ah_strong := (ah_strong h)(a := ah_strong h a - 1)\<rparr>"

definition arc_from :: "bytes \<Rightarrow> arc_heap \<Rightarrow> nat \<times> arc_heap" where
  "arc_from raw h =
    (ah_next h,
     h\<lparr>ah_blob := (ah_blob h)(ah_next h := raw),
       ah_strong := (ah_strong h)(ah_next h := 1), ah_next := ah_next h + 1\<rparr>)"

type_synonym interner = "(u64, nat list) hmap list"

definition interner_default :: interner where
  "interner_default = replicate 64 []"

definition swap_remove :: "nat \<Rightarrow> 'a list \<Rightarrow> 'a list" where
  "swap_remove i xs = (if Suc i = length xs then butlast xs else (butlast xs)[i := last xs])"

function intern_scan :: "arc_heap \<Rightarrow> bytes \<Rightarrow> nat list \<Rightarrow> nat \<Rightarrow> nat option \<times> nat list" where
  "intern_scan h raw entries idx =
    (if idx < length entries then
       (if arc_live h (entries ! idx) then
          (if ah_blob h (entries ! idx) = raw then (Some (entries ! idx), entries)
           else intern_scan h raw entries (idx + 1))
        else intern_scan h raw (swap_remove idx entries) idx)
     else (None, entries))"
  by pat_completeness auto
termination
  by (relation "measure (\<lambda>(h, raw, entries, idx). length entries - idx)")
    (auto simp: swap_remove_def)

declare intern_scan.simps [simp del]

definition intern ::
  "(bytes \<Rightarrow> u64) \<Rightarrow> bytes \<Rightarrow> interner \<Rightarrow> arc_heap \<Rightarrow> nat \<times> interner \<times> arc_heap" where
  "intern hash_bytes raw shards h =
    (let hash = hash_bytes raw;
         shard_index = unat hash mod length shards;
         shard = shards ! shard_index;
         entries = (case hm_get shard hash of Some es \<Rightarrow> es | None \<Rightarrow> [])
     in case intern_scan h raw entries 0 of
          (Some a, entries') \<Rightarrow>
            (a, shards[shard_index := hm_insert hash entries' shard], arc_clone a h)
        | (None, entries') \<Rightarrow>
            (case arc_from raw h of (a, h') \<Rightarrow>
              (a, shards[shard_index := hm_insert hash (entries' @ [a]) shard], h')))"

definition interner_stats :: "interner \<Rightarrow> arc_heap \<Rightarrow> nat \<times> nat \<times> nat" where
  "interner_stats shards h =
    (sum_list (map length shards),
     sum_list (map (\<lambda>shard. sum_list (map (length \<circ> snd) shard)) shards),
     sum_list (map (\<lambda>shard. sum_list (map (\<lambda>e. length (filter (arc_live h) (snd e))) shard)) shards))"

definition dedup_with ::
  "(bytes \<Rightarrow> u64) \<Rightarrow> rotonda_pa_map \<Rightarrow> interner \<Rightarrow> arc_heap \<Rightarrow>
     rotonda_pa_map \<times> nat \<times> interner \<times> arc_heap" where
  "dedup_with hash_bytes pm shards h =
    (case intern hash_bytes (pm_raw pm) shards h of
      (a, shards', h') \<Rightarrow> (\<lparr>pm_raw = ah_blob h' a\<rparr>, a, shards', h'))"

subsection \<open>Sharing\<close>

text \<open>
  The invariant of the table: a bucket sits in the shard its hash selects, its slots are
  distinct allocated addresses whose content has that hash, and no two live slots hold the
  same content.
\<close>

definition bucket_wf :: "(bytes \<Rightarrow> u64) \<Rightarrow> arc_heap \<Rightarrow> u64 \<Rightarrow> nat list \<Rightarrow> bool" where
  "bucket_wf hb h hash es \<longleftrightarrow> distinct es \<and>
    (\<forall>a \<in> set es. a < ah_next h \<and> hb (ah_blob h a) = hash) \<and>
    (\<forall>a \<in> set es. \<forall>b \<in> set es.
      arc_live h a \<longrightarrow> arc_live h b \<longrightarrow> ah_blob h a = ah_blob h b \<longrightarrow> a = b)"

definition interner_wf :: "(bytes \<Rightarrow> u64) \<Rightarrow> interner \<Rightarrow> arc_heap \<Rightarrow> bool" where
  "interner_wf hb shards h \<longleftrightarrow> shards \<noteq> [] \<and>
    (\<forall>i < length shards. \<forall>hash es. hm_get (shards ! i) hash = Some es \<longrightarrow>
      i = unat hash mod length shards \<and> bucket_wf hb h hash es)"

definition in_table :: "interner \<Rightarrow> nat \<Rightarrow> bool" where
  "in_table shards a \<longleftrightarrow>
    (\<exists>i < length shards. \<exists>hash es. hm_get (shards ! i) hash = Some es \<and> a \<in> set es)"

text \<open>
  The table under any interleaving of its users: they intern blobs, clone an \<open>Arc\<close> they hold
  and drop one. \<open>issued\<close> collects the addresses that \<open>intern\<close> has returned.
\<close>

inductive interner_reach ::
  "(bytes \<Rightarrow> u64) \<Rightarrow> interner \<Rightarrow> arc_heap \<Rightarrow> nat set \<Rightarrow> bool" for hb where
  start: "interner_reach hb interner_default
    \<lparr>ah_blob = (\<lambda>_. []), ah_strong = (\<lambda>_. 0), ah_next = 0\<rparr> {}"
| interned: "\<lbrakk>interner_reach hb shards h issued; intern hb raw shards h = (a, shards', h')\<rbrakk> \<Longrightarrow>
    interner_reach hb shards' h' (insert a issued)"
| cloned: "\<lbrakk>interner_reach hb shards h issued; a \<in> issued; arc_live h a\<rbrakk> \<Longrightarrow>
    interner_reach hb shards (arc_clone a h) issued"
| dropped: "\<lbrakk>interner_reach hb shards h issued; a \<in> issued; arc_live h a\<rbrakk> \<Longrightarrow>
    interner_reach hb shards (arc_drop a h) issued"

lemma length_swap_remove [simp]: "length (swap_remove i xs) = length xs - 1"
  by (simp add: swap_remove_def)

lemma swap_remove_mset:
  assumes "i < length xs"
  shows "add_mset (xs ! i) (mset (swap_remove i xs)) = mset xs"
proof -
  have "xs \<noteq> []" using assms by auto
  then have xs: "xs = butlast xs @ [last xs]" by simp
  show ?thesis
  proof (cases "Suc i = length xs")
    case True
    then have "xs ! i = last xs" using \<open>xs \<noteq> []\<close> by (metis diff_Suc_1 last_conv_nth)
    then show ?thesis using True xs by (metis mset.simps(2) mset_append mset.simps(1)
          add_mset_add_single swap_remove_def)
  next
    case False
    then have i: "i < length (butlast xs)" using assms by simp
    then have n: "xs ! i = butlast xs ! i" by (metis nth_butlast)
    have "mset ((butlast xs)[i := last xs]) =
        add_mset (last xs) (mset (butlast xs) - {#butlast xs ! i#})"
      using i by (rule mset_update)
    moreover have "butlast xs ! i \<in># mset (butlast xs)" using i by simp
    moreover have "mset xs = add_mset (last xs) (mset (butlast xs))"
      by (subst xs) simp
    ultimately show ?thesis using False n by (simp add: swap_remove_def)
  qed
qed

lemma swap_remove_take: "i < length xs \<Longrightarrow> take i (swap_remove i xs) = take i xs"
  by (auto simp: swap_remove_def take_butlast butlast_conv_take)

lemma intern_scan_spec:
  assumes "intern_scan h raw es idx = (r, es')"
    and "\<forall>b \<in> set (take idx es). arc_live h b \<and> ah_blob h b \<noteq> raw"
  shows "mset es' \<subseteq># mset es \<and> (\<forall>b \<in> set es. arc_live h b \<longrightarrow> b \<in> set es') \<and>
    (case r of
      Some a \<Rightarrow> a \<in> set es' \<and> arc_live h a \<and> ah_blob h a = raw
    | None \<Rightarrow> \<forall>b \<in> set es'. arc_live h b \<and> ah_blob h b \<noteq> raw)"
  using assms
proof (induction h raw es idx arbitrary: r es' rule: intern_scan.induct)
  case (1 h raw es idx)
  consider (finished) "\<not> idx < length es"
    | (hit) "idx < length es" "arc_live h (es ! idx)" "ah_blob h (es ! idx) = raw"
    | (miss) "idx < length es" "arc_live h (es ! idx)" "ah_blob h (es ! idx) \<noteq> raw"
    | (dead) "idx < length es" "\<not> arc_live h (es ! idx)"
    by blast
  then show ?case
  proof cases
    case finished
    then show ?thesis using 1(3,4) by (subst (asm) intern_scan.simps) auto
  next
    case hit
    then show ?thesis using 1(3) by (subst (asm) intern_scan.simps) auto
  next
    case miss
    then have "intern_scan h raw es (idx + 1) = (r, es')"
      using 1(3) by (subst (asm) intern_scan.simps) simp
    moreover have "\<forall>b \<in> set (take (idx + 1) es). arc_live h b \<and> ah_blob h b \<noteq> raw"
      using 1(4) miss by (auto simp: take_Suc_conv_app_nth)
    ultimately show ?thesis using 1(1) [OF miss] by blast
  next
    case dead
    then have s: "intern_scan h raw (swap_remove idx es) idx = (r, es')"
      using 1(3) by (subst (asm) intern_scan.simps) simp
    have m: "add_mset (es ! idx) (mset (swap_remove idx es)) = mset es"
      using dead(1) by (rule swap_remove_mset)
    have sub: "mset (swap_remove idx es) \<subseteq># mset es"
      by (simp add: m [symmetric])
    have "insert (es ! idx) (set (swap_remove idx es)) = set es"
      using arg_cong [OF m, of set_mset] by simp
    then have mem: "b \<in> set (swap_remove idx es)" if "b \<in> set es" "arc_live h b" for b
      using that dead(2) by (metis insertE)
    show ?thesis
      using 1(2) [OF dead s] 1(4) swap_remove_take [OF dead(1)] sub mem
      by (auto intro: subset_mset.order_trans)
  qed
qed

lemma bucket_wf_transfer:
  assumes "bucket_wf hb h hash es" and "ah_next h \<le> ah_next h'"
    and "\<forall>a < ah_next h. ah_blob h' a = ah_blob h a \<and> (arc_live h' a \<longrightarrow> arc_live h a)"
  shows "bucket_wf hb h' hash es"
  using assms unfolding bucket_wf_def by (metis order.strict_trans2)

lemma bucket_wf_subset:
  assumes "bucket_wf hb h hash es" and "mset es' \<subseteq># mset es"
  shows "bucket_wf hb h hash es'"
proof -
  have "set es' \<subseteq> set es" using assms(2) by (metis set_mset_mono set_mset_mset)
  moreover obtain zs where "mset es = mset (es' @ zs)"
    using assms(2) by (metis ex_mset mset_append subset_mset.le_iff_add)
  then have "distinct es'"
    using assms(1) mset_eq_imp_distinct_iff unfolding bucket_wf_def by (metis distinct_append)
  ultimately show ?thesis using assms(1) unfolding bucket_wf_def by blast
qed

lemma bucket_wf_grow:
  assumes "bucket_wf hb h hash es" and "\<forall>b \<in> set es. ah_blob h b \<noteq> raw" and "hb raw = hash"
    and "arc_from raw h = (a, h')"
  shows "bucket_wf hb h' hash (es @ [a])"
proof -
  have a: "a = ah_next h" and h': "ah_next h' = Suc (ah_next h)" "ah_blob h' a = raw"
    "\<And>b. b \<noteq> a \<Longrightarrow> ah_blob h' b = ah_blob h b \<and> arc_live h' b = arc_live h b"
    using assms(4) by (auto simp: arc_from_def arc_live_def)
  have "\<forall>b \<in> set es. b < a" using assms(1) a by (simp add: bucket_wf_def)
  then have "a \<notin> set es" by blast
  moreover have "bucket_wf hb h' hash es"
    using assms(1) by (rule bucket_wf_transfer) (use a h' in auto)
  ultimately show ?thesis
    using assms(2,3) h' a \<open>\<forall>b \<in> set es. b < a\<close> unfolding bucket_wf_def by fastforce
qed

lemma interner_wf_bucket:
  assumes "interner_wf hb shards h" and "i = unat hash mod length shards"
  shows "i < length shards"
    and "bucket_wf hb h hash (case hm_get (shards ! i) hash of Some es \<Rightarrow> es | None \<Rightarrow> [])"
proof -
  show "i < length shards" using assms by (simp add: interner_wf_def)
  then show "bucket_wf hb h hash (case hm_get (shards ! i) hash of Some es \<Rightarrow> es | None \<Rightarrow> [])"
    using assms(1) by (auto simp: interner_wf_def bucket_wf_def split: option.split)
qed

lemma interner_wf_put:
  assumes "interner_wf hb shards h" and "i = unat hash mod length shards"
    and "bucket_wf hb h' hash es" and "ah_next h \<le> ah_next h'"
    and "\<forall>a < ah_next h. ah_blob h' a = ah_blob h a \<and> (arc_live h' a \<longrightarrow> arc_live h a)"
  shows "interner_wf hb (shards[i := hm_insert hash es (shards ! i)]) h'"
  unfolding interner_wf_def
proof (intro conjI allI impI)
  show "shards[i := hm_insert hash es (shards ! i)] \<noteq> []"
    using assms(1) by (simp add: interner_wf_def)
  fix j hash' es'
  assume j: "j < length (shards[i := hm_insert hash es (shards ! i)])"
    and g: "hm_get (shards[i := hm_insert hash es (shards ! i)] ! j) hash' = Some es'"
  have i: "i < length shards" using assms(1,2) by (simp add: interner_wf_def)
  have "(j = i \<and> hash' = hash \<and> es' = es) \<or> hm_get (shards ! j) hash' = Some es'"
    using g i j by (cases "j = i") (auto split: if_splits)
  then have "j = unat hash' mod length shards \<and> bucket_wf hb h' hash' es'"
    using assms j bucket_wf_transfer [OF _ assms(4,5)] by (auto simp: interner_wf_def)
  then show "j = unat hash' mod length (shards[i := hm_insert hash es (shards ! i)])"
    and "bucket_wf hb h' hash' es'" by simp_all
qed

lemma in_table_put:
  assumes "i < length shards" and "in_table shards b"
    and "\<And>es. \<lbrakk>hm_get (shards ! i) hash = Some es; b \<in> set es\<rbrakk> \<Longrightarrow> b \<in> set es'"
  shows "in_table (shards[i := hm_insert hash es' (shards ! i)]) b"
proof -
  obtain j hash' es where j: "j < length shards" "hm_get (shards ! j) hash' = Some es" "b \<in> set es"
    using assms(2) by (auto simp: in_table_def)
  show ?thesis
  proof (cases "j = i \<and> hash' = hash")
    case True
    with assms(1,3) j show ?thesis by (force simp: in_table_def)
  next
    case False
    then have "hm_get (shards[i := hm_insert hash es' (shards ! i)] ! j) hash' = Some es"
      using assms(1) j by (cases "j = i") auto
    with j show ?thesis by (auto simp: in_table_def)
  qed
qed

lemma in_table_put_new:
  "\<lbrakk>i < length shards; a \<in> set es'\<rbrakk> \<Longrightarrow>
    in_table (shards[i := hm_insert hash es' (shards ! i)]) a"
  by (force simp: in_table_def)

lemma in_table_unique:
  assumes "interner_wf hb shards h" and "in_table shards a" and "in_table shards b"
    and "arc_live h a" and "arc_live h b" and "ah_blob h a = ah_blob h b"
  shows "a = b"
proof -
  obtain i hash es where a: "i < length shards" "hm_get (shards ! i) hash = Some es" "a \<in> set es"
    using assms(2) by (auto simp: in_table_def)
  obtain j hash' es' where b: "j < length shards" "hm_get (shards ! j) hash' = Some es'" "b \<in> set es'"
    using assms(3) by (auto simp: in_table_def)
  have wa: "i = unat hash mod length shards" "bucket_wf hb h hash es"
    and wb: "j = unat hash' mod length shards" "bucket_wf hb h hash' es'"
    using assms(1) a b by (auto simp: interner_wf_def)
  then have "hash = hash'" using a b assms(6) by (metis bucket_wf_def)
  then have "es' = es" using a b wa wb by simp
  then show ?thesis using wa(2) a(3) b(3) assms(4-6) unfolding bucket_wf_def by blast
qed

lemma intern_spec:
  assumes wf: "interner_wf hb shards h" and i: "intern hb raw shards h = (a, shards', h')"
  shows "interner_wf hb shards' h' \<and> arc_live h' a \<and> ah_blob h' a = raw \<and> in_table shards' a"
    and "\<forall>b. in_table shards b \<and> arc_live h b \<longrightarrow> in_table shards' b"
    and "\<forall>b. arc_live h' b \<longrightarrow> b = a \<or> arc_live h b"
    and "\<forall>b < ah_next h. ah_blob h' b = ah_blob h b" and "a < ah_next h' \<or> a < ah_next h"
    and "ah_next h \<le> ah_next h'"
proof -
  define hash where "hash = hb raw"
  define k where "k = unat hash mod length shards"
  define es where "es = (case hm_get (shards ! k) hash of Some es \<Rightarrow> es | None \<Rightarrow> [])"
  obtain r es' where sc: "intern_scan h raw es 0 = (r, es')" by force
  note sp = intern_scan_spec [OF sc, simplified]
  have k: "k < length shards" and bw: "bucket_wf hb h hash es"
    using interner_wf_bucket [OF wf k_def] by (simp_all add: es_def)
  have bw': "bucket_wf hb h hash es'" using bucket_wf_subset [OF bw] sp by blast
  have keep: "in_table (shards[k := hm_insert hash es'' (shards ! k)]) b"
    if "in_table shards b" "arc_live h b" "set es' \<subseteq> set es''" for b es''
    using k that(1) by (rule in_table_put) (use that sp in \<open>auto simp: es_def\<close>)
  have "(interner_wf hb shards' h' \<and> arc_live h' a \<and> ah_blob h' a = raw \<and> in_table shards' a) \<and>
    (\<forall>b. in_table shards b \<and> arc_live h b \<longrightarrow> in_table shards' b) \<and>
    (\<forall>b. arc_live h' b \<longrightarrow> b = a \<or> arc_live h b) \<and>
    (\<forall>b < ah_next h. ah_blob h' b = ah_blob h b) \<and> (a < ah_next h' \<or> a < ah_next h) \<and>
    ah_next h \<le> ah_next h'"
  proof (cases r)
    case (Some x)
    have res: "a = x" "shards' = shards[k := hm_insert hash es' (shards ! k)]" "h' = arc_clone x h"
      using i sc Some by (auto simp: intern_def Let_def hash_def k_def es_def)
    have live: "arc_live h' b \<longleftrightarrow> arc_live h b" for b
      using sp Some res(3) by (auto simp: arc_clone_def arc_live_def)
    have same: "ah_blob h' = ah_blob h" "ah_next h' = ah_next h"
      using res(3) by (simp_all add: arc_clone_def)
    have "interner_wf hb shards' h'"
      unfolding res(2) by (rule interner_wf_put [OF wf k_def bucket_wf_transfer [OF bw']])
        (simp_all add: live same)
    moreover have "a \<in> set es'" "a < ah_next h"
      using sp Some res(1) bw' by (auto simp: bucket_wf_def)
    ultimately show ?thesis
      using sp Some res(1) keep [of _ es'] live same k res(2) by (auto intro: in_table_put_new)
  next
    case None
    have af: "arc_from raw h = (a, h')" and s': "shards' = shards[k := hm_insert hash (es' @ [a]) (shards ! k)]"
      using i sc None by (simp_all add: intern_def Let_def hash_def k_def es_def split: prod.splits)
    have a: "a = ah_next h" "ah_next h' = Suc (ah_next h)" "ah_blob h' a = raw" "arc_live h' a"
      "\<And>b. b \<noteq> a \<Longrightarrow> ah_blob h' b = ah_blob h b \<and> arc_live h' b = arc_live h b"
      using af by (auto simp: arc_from_def arc_live_def)
    have "bucket_wf hb h' hash (es' @ [a])"
      by (rule bucket_wf_grow [OF bw' _ _ af]) (use sp None in \<open>auto simp: hash_def\<close>)
    then have "interner_wf hb shards' h'"
      unfolding s' by (rule interner_wf_put [OF wf k_def]) (use a in auto)
    then show ?thesis
      using a k s' keep [of _ "es' @ [a]"] by (auto intro: in_table_put_new)
  qed
  then show "interner_wf hb shards' h' \<and> arc_live h' a \<and> ah_blob h' a = raw \<and> in_table shards' a"
    and "\<forall>b. in_table shards b \<and> arc_live h b \<longrightarrow> in_table shards' b"
    and "\<forall>b. arc_live h' b \<longrightarrow> b = a \<or> arc_live h b"
    and "\<forall>b < ah_next h. ah_blob h' b = ah_blob h b" and "a < ah_next h' \<or> a < ah_next h"
    and "ah_next h \<le> ah_next h'"
    by blast+
qed

lemma intern_keeps_live:
  assumes "intern hb raw shards h = (a, shards', h')" and "arc_live h b"
  shows "arc_live h' b"
proof -
  have "(\<exists>x. h' = arc_clone x h) \<or> h' = snd (arc_from raw h)"
    using assms(1) by (force simp: intern_def Let_def split: prod.splits option.splits)
  with assms(2) show ?thesis
    by (auto simp: arc_clone_def arc_from_def arc_live_def)
qed

lemma interner_wf_transfer:
  assumes "interner_wf hb shards h" and "ah_next h' = ah_next h" and "ah_blob h' = ah_blob h"
    and "\<And>a. arc_live h' a \<Longrightarrow> arc_live h a"
  shows "interner_wf hb shards h'"
proof -
  have "bucket_wf hb h' hash es" if "bucket_wf hb h hash es" for hash es
    using that by (rule bucket_wf_transfer) (use assms in auto)
  then show ?thesis using assms(1) unfolding interner_wf_def by blast
qed

lemma interner_reach_inv:
  "interner_reach hb shards h issued \<Longrightarrow>
    interner_wf hb shards h \<and> (\<forall>b \<in> issued. b < ah_next h) \<and>
    (\<forall>b \<in> issued. arc_live h b \<longrightarrow> in_table shards b)"
proof (induction rule: interner_reach.induct)
  case start
  show ?case by (simp add: interner_wf_def interner_default_def)
next
  case (interned shards h issued raw a shards' h')
  then have "interner_wf hb shards h" by blast
  note sp = intern_spec [OF this interned(2)]
  have "in_table shards' b" if "b \<in> insert a issued" and "arc_live h' b" for b
    using sp(1-3) interned.IH that by blast
  moreover have "b < ah_next h'" if "b \<in> insert a issued" for b
    using sp(5,6) interned.IH that by auto
  ultimately show ?case using sp(1) by blast
next
  case (cloned shards h issued a)
  have live: "arc_live (arc_clone a h) b \<longleftrightarrow> arc_live h b" for b
    using cloned(3) by (simp add: arc_clone_def arc_live_def)
  have "interner_wf hb shards (arc_clone a h)"
    by (rule interner_wf_transfer [of hb shards h]) (use cloned.IH live in \<open>auto simp: arc_clone_def\<close>)
  with cloned.IH live show ?case by (simp add: arc_clone_def)
next
  case (dropped shards h issued a)
  have live: "arc_live (arc_drop a h) b \<Longrightarrow> arc_live h b" for b
    by (simp add: arc_drop_def arc_live_def split: if_splits)
  have "interner_wf hb shards (arc_drop a h)"
    by (rule interner_wf_transfer [of hb shards h]) (use dropped.IH live in \<open>auto simp: arc_drop_def\<close>)
  moreover have "ah_next (arc_drop a h) = ah_next h" by (simp add: arc_drop_def)
  ultimately show ?case using dropped.IH live by metis
qed

subsection \<open>Properties\<close>

text \<open>
  C32: Interned attribute blobs are shared: under any interleaving of interning, cloning and
  dropping, two live \<open>Arc\<close>s that \<open>intern\<close> has returned and that hold the same octets are the
  same allocation, and interning more octets returns a live \<open>Arc\<close> that holds exactly them
  without changing the content of any allocated blob.
\<close>

theorem interner_shares:
  assumes "interner_reach hb shards h issued"
  shows "(\<forall>a \<in> issued. \<forall>b \<in> issued.
      arc_live h a \<longrightarrow> arc_live h b \<longrightarrow> ah_blob h a = ah_blob h b \<longrightarrow> a = b) \<and>
    (case intern hb raw shards h of (a, shards', h') \<Rightarrow>
      arc_live h' a \<and> ah_blob h' a = raw \<and>
      (\<forall>b < ah_next h. ah_blob h' b = ah_blob h b))"
proof -
  note inv = interner_reach_inv [OF assms]
  obtain a shards' h' where i: "intern hb raw shards h = (a, shards', h')"
    using prod_cases3 by blast
  have wf: "interner_wf hb shards h" using inv by blast
  have "\<forall>a \<in> issued. \<forall>b \<in> issued.
      arc_live h a \<longrightarrow> arc_live h b \<longrightarrow> ah_blob h a = ah_blob h b \<longrightarrow> a = b"
    using inv in_table_unique [OF wf] by blast
  with intern_spec [OF wf i] i show ?thesis by simp
qed

theorem interner_shares_witness:
  "(case intern (\<lambda>bs. of_nat (length bs)) [1, 2, 3] interner_default
      \<lparr>ah_blob = (\<lambda>_. []), ah_strong = (\<lambda>_. 0), ah_next = 0\<rparr> of
    (a, shards, h) \<Rightarrow> arc_live h a \<and>
      (case intern (\<lambda>bs. of_nat (length bs)) [1, 2, 3] shards h of
        (b, shards', h') \<Rightarrow> arc_live h' b \<and> ah_blob h' b = [1, 2, 3] \<and> a = b))"
proof -
  let ?hb = "\<lambda>bs :: bytes. of_nat (length bs) :: u64"
  let ?h0 = "\<lparr>ah_blob = (\<lambda>_. []), ah_strong = (\<lambda>_. 0), ah_next = 0\<rparr> :: arc_heap"
  obtain a s h where i1: "intern ?hb [1, 2, 3] interner_default ?h0 = (a, s, h)"
    using prod_cases3 by blast
  obtain b s' h' where i2: "intern ?hb [1, 2, 3] s h = (b, s', h')" using prod_cases3 by blast
  have r1: "interner_reach ?hb s h {a}"
    by (rule interner_reach.interned [OF interner_reach.start i1])
  have r2: "interner_reach ?hb s' h' {b, a}" by (rule interner_reach.interned [OF r1 i2])
  have "arc_live h a \<and> ah_blob h a = [1, 2, 3] \<and> a < ah_next h"
    using interner_shares [OF interner_reach.start [of ?hb], of "[1, 2, 3]"] i1
      interner_reach_inv [OF r1] by simp
  moreover have "arc_live h' b \<and> ah_blob h' b = [1, 2, 3] \<and> ah_blob h' a = [1, 2, 3]"
    using interner_shares [OF r1, of "[1, 2, 3]"] i2 calculation by simp
  moreover have "arc_live h' a"
    using intern_keeps_live [OF i2] calculation(1) by blast
  moreover have "a = b"
    using bspec [OF bspec [OF conjunct1 [OF interner_shares [OF r2]], of a], of b] calculation
    by (metis insertI1 insertI2)
  ultimately show ?thesis unfolding i1 i2 prod.case by blast
qed

end
