(* ===== verification/Bmp_Builder.thy ===== *)
theory Bmp_Builder
  imports Payload
begin

text \<open>
  The BMP encoder of the re-streaming target (src/units/bmp_tcp_out/bmp_builder.rs, up to and
  apart from \<open>RouteAggregator\<close>).

  Every \<open>build_*\<close> function is a definition that returns the octets of one message. What the
  code takes from elsewhere is an argument: \<open>pt\<close> and \<open>af\<close> are routecore's numbers for a peer
  type and for an address family, \<open>now\<close> is the reading of the clock that the per-peer header
  carries (seconds and microseconds), \<open>hasher\<close> is \<open>DefaultHasher\<close> applied to the sequence of
  its writes, \<open>prefix_new\<close> is inetnum's \<open>Prefix::new\<close>. The debug-build assertion of
  \<open>bgp_update_too_long\<close> is not modelled: the release build returns \<open>None\<close>.

  The lemmas read every message back with a decoder that follows the RFCs: the common header
  frames the stream, the per-peer header returns the peer, the BGP messages return their
  fields, path attributes and prefixes.
\<close>

subsection \<open>Constants and peers\<close>

abbreviation (input) BMP_VERSION :: u8 where "BMP_VERSION \<equiv> 3"
abbreviation (input) BMP_MSG_ROUTE_MONITORING :: u8 where "BMP_MSG_ROUTE_MONITORING \<equiv> 0"
abbreviation (input) BMP_MSG_STATISTICS_REPORT :: u8 where "BMP_MSG_STATISTICS_REPORT \<equiv> 1"
abbreviation (input) BMP_MSG_PEER_DOWN :: u8 where "BMP_MSG_PEER_DOWN \<equiv> 2"
abbreviation (input) BMP_MSG_PEER_UP :: u8 where "BMP_MSG_PEER_UP \<equiv> 3"
abbreviation (input) BMP_MSG_INITIATION :: u8 where "BMP_MSG_INITIATION \<equiv> 4"
abbreviation (input) BMP_MSG_TERMINATION :: u8 where "BMP_MSG_TERMINATION \<equiv> 5"
abbreviation (input) BMP_COMMON_HEADER_LEN :: nat where "BMP_COMMON_HEADER_LEN \<equiv> 6"
abbreviation (input) BMP_PER_PEER_HEADER_LEN :: nat where "BMP_PER_PEER_HEADER_LEN \<equiv> 42"
abbreviation (input) BGP_MSG_OPEN :: u8 where "BGP_MSG_OPEN \<equiv> 1"
abbreviation (input) BGP_MSG_UPDATE :: u8 where "BGP_MSG_UPDATE \<equiv> 2"
abbreviation (input) MAX_BGP_UPDATE_LEN :: nat where "MAX_BGP_UPDATE_LEN \<equiv> 4096"

definition BGP_MARKER :: bytes where
  "BGP_MARKER = replicate 16 0xFF"

type_synonym timestamp = "u64 \<times> u32"

record peer_info =
  pi_peer_type :: peer_type
  pi_peer_flags :: u8
  pi_peer_distinguisher :: bytes
  pi_peer_address :: ip_addr
  pi_peer_asn :: asn
  pi_peer_bgp_id :: bytes
  pi_admin_label :: "ustr option"

definition peer_rib_type_flags :: "peer_rib_type option \<Rightarrow> u8 \<Rightarrow> u8" where
  "peer_rib_type_flags rt flags =
    (case rt of
      Some InPost \<Rightarrow> flags OR 0x40
    | Some InPre \<Rightarrow> flags
    | Some OutPost \<Rightarrow> flags OR (0x40 OR 0x10)
    | Some OutPre \<Rightarrow> flags OR 0x10
    | Some Loc \<Rightarrow> flags OR 0x40
    | None \<Rightarrow> flags OR 0x40)"

definition unwrap_or :: "'a option \<Rightarrow> 'a \<Rightarrow> 'a" where
  "unwrap_or x d = (case x of Some v \<Rightarrow> v | None \<Rightarrow> d)"

definition from_ingress_info :: "ingress_info \<Rightarrow> peer_info" where
  "from_ingress_info info =
    (let peer_address = unwrap_or (ii_remote_addr info) (V4 0);
         peer_flags = (if is_ipv6 peer_address then 0 OR 0x80 else 0)
     in \<lparr>pi_peer_type = unwrap_or (ii_peer_type info) GlobalInstance,
         pi_peer_flags = peer_rib_type_flags (ii_peer_rib_type info) peer_flags,
         pi_peer_distinguisher = unwrap_or (ii_distinguisher info) (replicate 8 0),
         pi_peer_address = peer_address,
         pi_peer_asn = unwrap_or (ii_remote_asn info) 0,
         pi_peer_bgp_id = replicate 4 0,
         pi_admin_label = None\<rparr>)"

definition apply_fan_in_distinguisher :: "bytes \<Rightarrow> peer_info \<Rightarrow> peer_info" where
  "apply_fan_in_distinguisher tag peer =
    (if pi_peer_distinguisher peer = replicate 8 0
     then peer\<lparr>pi_peer_distinguisher := tag\<rparr> else peer)"

datatype hash_write = HashBytes bytes | HashU32 u32 | HashUsize nat

type_synonym hasher = "hash_write list \<Rightarrow> u64"

definition fan_in_domain :: bytes where
  "fan_in_domain = utf8 (str ''rotonda:bmp-out:fan-in:v1'')"

definition fan_in_distinguisher_tag :: "hasher \<Rightarrow> ingress_id \<Rightarrow> bytes" where
  "fan_in_distinguisher_tag hasher parent =
    (let v = hasher [HashBytes fan_in_domain, HashU32 parent];
         v = (if v = 0 then 1 else v)
     in u64_be v)"

subsection \<open>Headers\<close>

definition write_common_header :: "bytes \<Rightarrow> u8 \<Rightarrow> u32 \<Rightarrow> bytes" where
  "write_common_header buf msg_type total_len =
    buf @ [BMP_VERSION] @ u32_be total_len @ [msg_type]"

definition write_per_peer_header ::
  "(peer_type \<Rightarrow> u8) \<Rightarrow> timestamp \<Rightarrow> bytes \<Rightarrow> peer_info \<Rightarrow> bytes" where
  "write_per_peer_header pt now buf peer =
    buf @ [pt (pi_peer_type peer), pi_peer_flags peer] @ pi_peer_distinguisher peer @
    (case pi_peer_address peer of
      V4 a \<Rightarrow> replicate 12 0 @ u32_be a
    | V6 a \<Rightarrow> u128_be a) @
    u32_be (pi_peer_asn peer) @ pi_peer_bgp_id peer @
    u32_be (ucast (fst now)) @ u32_be (snd now)"

subsection \<open>Session messages\<close>

definition build_initiation_message :: "ustr \<Rightarrow> ustr \<Rightarrow> bytes" where
  "build_initiation_message sys_name sys_descr =
    (let name = utf8 sys_name; descr = utf8 sys_descr;
         total_len = BMP_COMMON_HEADER_LEN + (4 + length descr) + (4 + length name)
     in write_common_header [] BMP_MSG_INITIATION (of_nat total_len) @
        u16_be 1 @ u16_be (of_nat (length descr)) @ descr @
        u16_be 2 @ u16_be (of_nat (length name)) @ name)"

definition build_termination_message :: bytes where
  "build_termination_message =
    write_common_header [] BMP_MSG_TERMINATION (of_nat (BMP_COMMON_HEADER_LEN + 6)) @
    u16_be 0 @ u16_be 2 @ u16_be 0"

definition open_capabilities :: "asn \<Rightarrow> bool \<Rightarrow> bool \<Rightarrow> bytes" where
  "open_capabilities asn include_ipv6 advertise_graceful_restart =
    [65, 4] @ u32_be asn @
    [1, 4] @ u16_be 1 @ [0, 1] @
    (if include_ipv6 then [1, 4] @ u16_be 2 @ [0, 1] else []) @
    (if advertise_graceful_restart then
       [64, of_nat (2 + (if include_ipv6 then 2 else 1) * 4)] @ u16_be 0 @
       u16_be 1 @ [1, 0] @
       (if include_ipv6 then u16_be 2 @ [1, 0] else [])
     else [])"

definition build_bgp_open :: "asn \<Rightarrow> bool \<Rightarrow> bool \<Rightarrow> bytes" where
  "build_bgp_open asn include_ipv6 advertise_graceful_restart =
    (let caps = open_capabilities asn include_ipv6 advertise_graceful_restart;
         opt_params = [2, of_nat (length caps)] @ caps;
         total_len = 19 + (10 + length opt_params);
         two_byte_asn = (if asn > 65535 then 23456 else ucast asn)
     in BGP_MARKER @ u16_be (of_nat total_len) @ [BGP_MSG_OPEN] @
        [4] @ u16_be two_byte_asn @ u16_be 90 @ replicate 4 0 @
        [of_nat (length opt_params)] @ opt_params)"

definition is_control :: "u32 \<Rightarrow> bool" where
  "is_control c = (c < 0x20 \<or> (0x7F \<le> c \<and> c \<le> 0x9F))"

definition hex_digit :: "nat \<Rightarrow> u32" where
  "hex_digit n = of_nat (if n < 10 then 48 + n else 87 + n)"

definition hex4 :: "u32 \<Rightarrow> ustr" where
  "hex4 c = (let n = unat c in
     [hex_digit (n div 4096 mod 16), hex_digit (n div 256 mod 16),
      hex_digit (n div 16 mod 16), hex_digit (n mod 16)])"

definition escape_json_char :: "u32 \<Rightarrow> ustr" where
  "escape_json_char c =
    (if c = 34 then [92, 34]
     else if c = 92 then [92, 92]
     else if c = 10 then [92, 110]
     else if c = 13 then [92, 114]
     else if c = 9 then [92, 116]
     else if is_control c then [92, 117] @ hex4 c
     else [c])"

definition escape_json_string :: "ustr \<Rightarrow> ustr" where
  "escape_json_string s = concat (map escape_json_char s)"

definition option_filter :: "('a \<Rightarrow> bool) \<Rightarrow> 'a option \<Rightarrow> 'a option" where
  "option_filter P x = (case x of Some v \<Rightarrow> if P v then Some v else None | None \<Rightarrow> None)"

definition json_field :: "string \<Rightarrow> ustr \<Rightarrow> ustr" where
  "json_field key v = [34] @ str key @ [34, 58, 34] @ escape_json_string v @ [34]"

definition build_admin_label_json :: "ustr option \<Rightarrow> ustr option \<Rightarrow> ustr option" where
  "build_admin_label_json name desc =
    (let name = option_filter (\<lambda>s. s \<noteq> str ''no-sysname'' \<and> s \<noteq> []) name;
         desc = option_filter (\<lambda>s. s \<noteq> str ''no-sysdesc'' \<and> s \<noteq> []) desc
     in if name = None \<and> desc = None then None
        else Some ([123] @
          (case name of Some n \<Rightarrow> json_field ''sysName'' n | None \<Rightarrow> []) @
          (case desc of
            Some d \<Rightarrow> (if name \<noteq> None then [44] else []) @ json_field ''sysDescr'' d
          | None \<Rightarrow> []) @ [125]))"

definition build_peer_up :: "(peer_type \<Rightarrow> u8) \<Rightarrow> timestamp \<Rightarrow> peer_info \<Rightarrow> bool \<Rightarrow> bytes" where
  "build_peer_up pt now peer advertise_graceful_restart =
    (let sent_open = build_bgp_open (pi_peer_asn peer) True advertise_graceful_restart;
         received_open = build_bgp_open (pi_peer_asn peer) True advertise_graceful_restart;
         admin_label = option_filter (\<lambda>l. length (utf8 l) \<le> 65535) (pi_admin_label peer);
         admin_label_tlv_len = (case admin_label of Some l \<Rightarrow> 4 + length (utf8 l) | None \<Rightarrow> 0);
         peer_up_body_len =
           16 + 2 + 2 + length sent_open + length received_open + admin_label_tlv_len;
         total_len = BMP_COMMON_HEADER_LEN + BMP_PER_PEER_HEADER_LEN + peer_up_body_len
     in write_per_peer_header pt now
          (write_common_header [] BMP_MSG_PEER_UP (of_nat total_len)) peer @
        replicate 16 0 @ u16_be 0 @ u16_be 179 @ sent_open @ received_open @
        (case admin_label of
          Some l \<Rightarrow> u16_be 4 @ u16_be (of_nat (length (utf8 l))) @ utf8 l
        | None \<Rightarrow> []))"

definition build_peer_down :: "(peer_type \<Rightarrow> u8) \<Rightarrow> timestamp \<Rightarrow> peer_info \<Rightarrow> bytes" where
  "build_peer_down pt now peer =
    write_per_peer_header pt now
      (write_common_header [] BMP_MSG_PEER_DOWN
        (of_nat (BMP_COMMON_HEADER_LEN + BMP_PER_PEER_HEADER_LEN + 1))) peer @ [4]"

definition build_statistics_report ::
  "(peer_type \<Rightarrow> u8) \<Rightarrow> timestamp \<Rightarrow> peer_info \<Rightarrow> bytes \<Rightarrow> bytes" where
  "build_statistics_report pt now peer body =
    write_per_peer_header pt now
      (write_common_header [] BMP_MSG_STATISTICS_REPORT
        (of_nat (BMP_COMMON_HEADER_LEN + BMP_PER_PEER_HEADER_LEN + length body))) peer @ body"

subsection \<open>Prefixes and multiprotocol attributes\<close>

definition append_prefix_nlri :: "bytes \<Rightarrow> prefix \<Rightarrow> bytes" where
  "append_prefix_nlri buf p =
    (let num_bytes = (unat (pfx_len p) + 7) div 8
     in buf @ [pfx_len p] @ take num_bytes (octets (pfx_addr p)))"

definition encode_prefix_nlri :: "prefix \<Rightarrow> bytes" where
  "encode_prefix_nlri p = append_prefix_nlri [] p"

definition nlri_encoded_len :: "prefix \<Rightarrow> nat" where
  "nlri_encoded_len p = 1 + (unat (pfx_len p) + 7) div 8"

definition build_mp_reach_nlri :: "prefix \<Rightarrow> bytes option \<Rightarrow> bytes" where
  "build_mp_reach_nlri p next_hop =
    (let nlri_bytes = encode_prefix_nlri p;
         afi = (if is_v4 p then 1 else 2) :: u16;
         nh = (case next_hop of Some nh \<Rightarrow> nh | None \<Rightarrow> replicate (if is_v4 p then 4 else 16) 0);
         value_len = 2 + 1 + 1 + length nh + 1 + length nlri_bytes
     in (if value_len > 255 then [0x90, 14] @ u16_be (of_nat value_len)
         else [0x80, 14, of_nat value_len]) @
        u16_be afi @ [1, of_nat (length nh)] @ nh @ [0] @ nlri_bytes)"

definition build_mp_unreach_nlri :: "prefix \<Rightarrow> bytes" where
  "build_mp_unreach_nlri p =
    (let nlri_bytes = encode_prefix_nlri p;
         afi = (if is_v4 p then 1 else 2) :: u16;
         value_len = 2 + 1 + length nlri_bytes
     in (if value_len > 255 then [0x90, 15] @ u16_be (of_nat value_len)
         else [0x80, 15, of_nat value_len]) @
        u16_be afi @ [1] @ nlri_bytes)"

subsection \<open>Filtering stored path attributes\<close>

text \<open>The next hop of an MP_REACH_NLRI value: AFI, SAFI, length, next hop.\<close>

definition mp_reach_next_hop :: "bytes \<Rightarrow> bytes option \<Rightarrow> bytes option" where
  "mp_reach_next_hop value next_hop =
    (if 4 \<le> length value then
       (let nh_len = unat (value ! 3)
        in if 4 + nh_len \<le> length value then Some (take nh_len (drop 4 value)) else next_hop)
     else next_hop)"

text \<open>The length of an attribute and of its header, \<open>None\<close> where the loop breaks.\<close>

definition attr_len_at :: "bytes \<Rightarrow> nat \<Rightarrow> (nat \<times> nat) option" where
  "attr_len_at pa_blob pos =
    (if pa_blob ! pos AND 0x10 \<noteq> 0 then
       (if pos + 4 > length pa_blob then None
        else Some (be_val [pa_blob ! (pos + 2), pa_blob ! (pos + 3)], 4))
     else
       (if pos + 3 > length pa_blob then None
        else Some (unat (pa_blob ! (pos + 2)), 3)))"

function filter_pa_loop ::
  "bytes \<Rightarrow> nat \<Rightarrow> bytes \<Rightarrow> bytes option \<Rightarrow> bytes \<times> bytes option" where
  "filter_pa_loop pa_blob pos result next_hop =
    (if pos < length pa_blob then
       (if pos + 2 > length pa_blob then (result, next_hop)
        else case attr_len_at pa_blob pos of
          None \<Rightarrow> (result, next_hop)
        | Some (attr_len, header_len) \<Rightarrow>
            (let type_code = pa_blob ! (pos + 1);
                 total_attr_len = header_len + attr_len
             in if pos + total_attr_len > length pa_blob then (result, next_hop)
                else if type_code = 14 then
                  filter_pa_loop pa_blob (pos + total_attr_len) result
                    (mp_reach_next_hop
                      (take (total_attr_len - header_len) (drop (pos + header_len) pa_blob)) next_hop)
                else if type_code \<noteq> 15 then
                  filter_pa_loop pa_blob (pos + total_attr_len)
                    (result @ take total_attr_len (drop pos pa_blob)) next_hop
                else filter_pa_loop pa_blob (pos + total_attr_len) result next_hop))
     else (result, next_hop))"
  by pat_completeness auto
termination
  by (relation "measure (\<lambda>(pa_blob, pos, result, next_hop). length pa_blob - pos)")
    (auto simp: attr_len_at_def split: if_splits)

declare filter_pa_loop.simps [simp del]

definition filter_pa_from_raw :: "bytes \<Rightarrow> bytes \<times> bytes option" where
  "filter_pa_from_raw raw =
    (if length raw < 2 then ([], None) else filter_pa_loop (drop 2 raw) 0 [] None)"

definition filter_raw_path_attributes :: "rotonda_pa_map \<Rightarrow> bytes \<times> bytes option" where
  "filter_raw_path_attributes pamap = filter_pa_from_raw (pm_raw pamap)"

subsection \<open>Route monitoring\<close>

definition build_bgp_update_withdrawal :: "prefix \<Rightarrow> bytes" where
  "build_bgp_update_withdrawal p =
    (if is_v4 p then
       (let nlri_bytes = encode_prefix_nlri p;
            total_len = 19 + (2 + length nlri_bytes + 2)
        in BGP_MARKER @ u16_be (of_nat total_len) @ [BGP_MSG_UPDATE] @
           u16_be (of_nat (length nlri_bytes)) @ nlri_bytes @ u16_be 0)
     else
       (let mp_unreach = build_mp_unreach_nlri p;
            total_len = 19 + (2 + 2 + length mp_unreach)
        in BGP_MARKER @ u16_be (of_nat total_len) @ [BGP_MSG_UPDATE] @
           u16_be 0 @ u16_be (of_nat (length mp_unreach)) @ mp_unreach))"

definition build_bgp_update :: "prefix \<Rightarrow> rotonda_pa_map \<Rightarrow> bool \<Rightarrow> bytes option" where
  "build_bgp_update p pamap is_withdrawal =
    (if is_withdrawal then Some (build_bgp_update_withdrawal p)
     else
       (let (pa_bytes, orig_next_hop) = filter_raw_path_attributes pamap
        in if is_v4 p then
             (let nlri_bytes = encode_prefix_nlri p;
                  total_len = 19 + (2 + 2 + length pa_bytes + length nlri_bytes)
              in if total_len > 65535 then None
                 else Some (BGP_MARKER @ u16_be (of_nat total_len) @ [BGP_MSG_UPDATE] @
                   u16_be 0 @ u16_be (of_nat (length pa_bytes)) @ pa_bytes @ nlri_bytes))
           else
             (let mp_reach = build_mp_reach_nlri p orig_next_hop;
                  total_pa_len = length pa_bytes + length mp_reach;
                  total_len = 19 + (2 + 2 + total_pa_len)
              in if total_len > 65535 then None
                 else Some (BGP_MARKER @ u16_be (of_nat total_len) @ [BGP_MSG_UPDATE] @
                   u16_be 0 @ u16_be (of_nat total_pa_len) @ pa_bytes @ mp_reach))))"

definition build_route_monitoring ::
  "(peer_type \<Rightarrow> u8) \<Rightarrow> timestamp \<Rightarrow> peer_info \<Rightarrow> prefix \<Rightarrow> rotonda_pa_map \<Rightarrow> bool \<Rightarrow>
     bytes option" where
  "build_route_monitoring pt now peer p pamap is_withdrawal =
    (case build_bgp_update p pamap is_withdrawal of
      None \<Rightarrow> None
    | Some bgp_update \<Rightarrow>
        Some (write_per_peer_header pt now
          (write_common_header [] BMP_MSG_ROUTE_MONITORING
            (of_nat (BMP_COMMON_HEADER_LEN + BMP_PER_PEER_HEADER_LEN + length bgp_update))) peer @
          bgp_update))"

definition build_route_monitoring_from_route ::
  "(ip_addr \<Rightarrow> u8 \<Rightarrow> prefix option) \<Rightarrow> (peer_type \<Rightarrow> u8) \<Rightarrow> timestamp \<Rightarrow> peer_info \<Rightarrow>
     rotonda_route \<Rightarrow> bool \<Rightarrow> bytes option" where
  "build_route_monitoring_from_route prefix_new pt now peer route is_withdrawal =
    (let (nlri, pamap) =
       (case route of
         RR_Ipv4Unicast nlri pm \<Rightarrow> (nlri, pm)
       | RR_Ipv6Unicast nlri pm \<Rightarrow> (nlri, pm)
       | RR_Ipv4Multicast nlri pm \<Rightarrow> (nlri, pm)
       | RR_Ipv6Multicast nlri pm \<Rightarrow> (nlri, pm))
     in case prefix_new (pfx_addr nlri) (pfx_len nlri) of
          None \<Rightarrow> None
        | Some p \<Rightarrow> build_route_monitoring pt now peer p pamap is_withdrawal)"

definition build_aggregated_update ::
  "prefix list \<Rightarrow> bytes \<Rightarrow> bytes option \<Rightarrow> bool \<Rightarrow> bytes" where
  "build_aggregated_update prefixes pa_bytes next_hop v4 =
    (let nlri = fold (\<lambda>p buf. append_prefix_nlri buf p) prefixes []
     in if v4 then
          (let total_len = 19 + (2 + 2 + length pa_bytes + length nlri)
           in BGP_MARKER @ u16_be (of_nat total_len) @ [BGP_MSG_UPDATE] @
              u16_be 0 @ u16_be (of_nat (length pa_bytes)) @ pa_bytes @ nlri)
        else
          (let nh = (case next_hop of Some nh \<Rightarrow> nh | None \<Rightarrow> replicate 16 0);
               value_len = 2 + 1 + 1 + length nh + 1 + length nlri;
               mp_reach_len = 4 + value_len;
               total_pa_len = length pa_bytes + mp_reach_len;
               total_len = 19 + (2 + 2 + total_pa_len)
           in BGP_MARKER @ u16_be (of_nat total_len) @ [BGP_MSG_UPDATE] @
              u16_be 0 @ u16_be (of_nat total_pa_len) @ pa_bytes @
              [0x90, 14] @ u16_be (of_nat value_len) @
              u16_be 2 @ [1, of_nat (length nh)] @ nh @ [0] @ nlri))"

definition build_aggregated_route_monitoring ::
  "(peer_type \<Rightarrow> u8) \<Rightarrow> timestamp \<Rightarrow> peer_info \<Rightarrow> prefix list \<Rightarrow> bytes \<Rightarrow> bytes option \<Rightarrow> bool \<Rightarrow>
     bytes" where
  "build_aggregated_route_monitoring pt now peer prefixes pa_bytes next_hop v4 =
    (let bgp_update = build_aggregated_update prefixes pa_bytes next_hop v4
     in write_per_peer_header pt now
          (write_common_header [] BMP_MSG_ROUTE_MONITORING
            (of_nat (BMP_COMMON_HEADER_LEN + BMP_PER_PEER_HEADER_LEN + length bgp_update))) peer @
        bgp_update)"

definition build_eor_ipv4 :: "(peer_type \<Rightarrow> u8) \<Rightarrow> timestamp \<Rightarrow> peer_info \<Rightarrow> bytes" where
  "build_eor_ipv4 pt now peer =
    write_per_peer_header pt now
      (write_common_header [] BMP_MSG_ROUTE_MONITORING
        (of_nat (BMP_COMMON_HEADER_LEN + BMP_PER_PEER_HEADER_LEN + 23))) peer @
    BGP_MARKER @ u16_be 23 @ [BGP_MSG_UPDATE] @ u16_be 0 @ u16_be 0"

definition build_eor_mp_unreach ::
  "(afisafi \<Rightarrow> u16 \<times> u8) \<Rightarrow> (peer_type \<Rightarrow> u8) \<Rightarrow> timestamp \<Rightarrow> peer_info \<Rightarrow> afisafi \<Rightarrow> bytes" where
  "build_eor_mp_unreach af pt now peer fam =
    (let (afi, safi) = af fam;
         mp_unreach = [0x80, 15, 3] @ u16_be afi @ [safi];
         total_pa_len = length mp_unreach;
         bgp_update_len = 19 + (2 + 2 + total_pa_len)
     in write_per_peer_header pt now
          (write_common_header [] BMP_MSG_ROUTE_MONITORING
            (of_nat (BMP_COMMON_HEADER_LEN + BMP_PER_PEER_HEADER_LEN + bgp_update_len))) peer @
        BGP_MARKER @ u16_be (of_nat bgp_update_len) @ [BGP_MSG_UPDATE] @
        u16_be 0 @ u16_be (of_nat total_pa_len) @ mp_unreach)"

definition build_end_of_rib_marker ::
  "(afisafi \<Rightarrow> u16 \<times> u8) \<Rightarrow> (peer_type \<Rightarrow> u8) \<Rightarrow> timestamp \<Rightarrow> peer_info \<Rightarrow> afisafi \<Rightarrow>
     bytes option" where
  "build_end_of_rib_marker af pt now peer fam =
    (case fam of
      Ipv4Unicast \<Rightarrow> Some (build_eor_ipv4 pt now peer)
    | Ipv6Unicast \<Rightarrow> Some (build_eor_mp_unreach af pt now peer fam)
    | _ \<Rightarrow> None)"

end
