(* ===== verification/Bmp_Decode.thy ===== *)
theory Bmp_Decode
  imports Bmp_Builder
begin

text \<open>
  Reading the encoder's messages back. The decoders follow RFC 7854 (BMP), RFC 4271 (BGP),
  RFC 4760 (multiprotocol NLRI) and RFC 5492 (capabilities); they are the specification that
  the builders of \<open>Bmp_Builder\<close> are proved against. Prefixes, path attributes and whole BMP
  messages are interpretations of the locale \<open>codec\<close>, so sequences of them read back too.
\<close>

subsection \<open>Decoders\<close>

definition dec_frame :: "bytes \<Rightarrow> (bytes \<times> bytes) option" where
  "dec_frame bs =
    (case bs of
      [] \<Rightarrow> None
    | v # rest \<Rightarrow>
        (if v \<noteq> BMP_VERSION then None
         else case dec_num 4 rest of
           None \<Rightarrow> None
         | Some (n, _) \<Rightarrow> if 6 \<le> n then take_exact n bs else None))"

definition framed :: "bytes \<Rightarrow> bool" where
  "framed m \<longleftrightarrow> 6 \<le> length m \<and> hd m = BMP_VERSION \<and> be_val (take 4 (tl m)) = length m"

record per_peer =
  pp_type :: u8
  pp_flags :: u8
  pp_distinguisher :: bytes
  pp_address :: ip_addr
  pp_asn :: asn
  pp_bgp_id :: bytes
  pp_secs :: u32
  pp_usecs :: u32

definition dec_addr16 :: "bool \<Rightarrow> bytes \<Rightarrow> ip_addr" where
  "dec_addr16 v6 bs = (if v6 then V6 (of_nat (be_val bs)) else V4 (of_nat (be_val (drop 12 bs))))"

definition dec_per_peer :: "bytes \<Rightarrow> (per_peer \<times> bytes) option" where
  "dec_per_peer bs =
    (case take_exact 42 bs of
      None \<Rightarrow> None
    | Some (h, rest) \<Rightarrow> Some
        (\<lparr>pp_type = h ! 0, pp_flags = h ! 1, pp_distinguisher = take 8 (drop 2 h),
          pp_address = dec_addr16 (h ! 1 AND 0x80 \<noteq> 0) (take 16 (drop 10 h)),
          pp_asn = of_nat (be_val (take 4 (drop 26 h))),
          pp_bgp_id = take 4 (drop 30 h),
          pp_secs = of_nat (be_val (take 4 (drop 34 h))),
          pp_usecs = of_nat (be_val (take 4 (drop 38 h)))\<rparr>, rest))"

definition dec_bgp :: "bytes \<Rightarrow> ((u8 \<times> bytes) \<times> bytes) option" where
  "dec_bgp bs =
    (case take_exact 16 bs of None \<Rightarrow> None
     | Some (marker, bs1) \<Rightarrow> (if marker \<noteq> BGP_MARKER then None
       else case dec_num 2 bs1 of None \<Rightarrow> None
     | Some (n, bs2) \<Rightarrow> (case bs2 of [] \<Rightarrow> None
     | t # bs3 \<Rightarrow> (if n < 19 then None
       else map_option (\<lambda>(body, rest). ((t, body), rest)) (take_exact (n - 19) bs3)))))"

record bgp_open =
  bo_version :: u8
  bo_asn :: u16
  bo_hold_time :: u16
  bo_identifier :: bytes
  bo_params :: "(u8 \<times> bytes) list"

definition dec_open :: "bytes \<Rightarrow> bgp_open option" where
  "dec_open body =
    (case take_exact 10 body of None \<Rightarrow> None
     | Some (h, params) \<Rightarrow>
        (if unat (h ! 9) \<noteq> length params then None
         else map_option (\<lambda>ps.
           \<lparr>bo_version = h ! 0, bo_asn = of_nat (be_val (take 2 (drop 1 h))),
            bo_hold_time = of_nat (be_val (take 2 (drop 3 h))),
            bo_identifier = take 4 (drop 5 h), bo_params = ps\<rparr>) (dec_seq dec_cap params)))"

definition open_caps :: "bgp_open \<Rightarrow> (u8 \<times> bytes) list option" where
  "open_caps bo = (case bo_params bo of [(p, v)] \<Rightarrow> if p = 2 then dec_seq dec_cap v else None | _ \<Rightarrow> None)"

text \<open>Prefixes of a family, padded with zero octets to a full address.\<close>

definition dec_nlri :: "bool \<Rightarrow> bytes \<Rightarrow> (prefix \<times> bytes) option" where
  "dec_nlri v6 bs =
    (case bs of
      [] \<Rightarrow> None
    | l # rest \<Rightarrow>
        (let n = (unat l + 7) div 8; w = (if v6 then 16 else 4) in
         if w < n then None
         else case take_exact n rest of
           None \<Rightarrow> None
         | Some (f, rest') \<Rightarrow>
             (let v = be_val (f @ replicate (w - n) 0)
              in Some (\<lparr>pfx_addr = (if v6 then V6 (of_nat v) else V4 (of_nat v)), pfx_len = l\<rparr>, rest'))))"

definition family_ok :: "bool \<Rightarrow> prefix \<Rightarrow> bool" where
  "family_ok v6 p \<longleftrightarrow> prefix_ok p \<and> is_ipv6 (pfx_addr p) = v6"

text \<open>Path attributes: flags, type code, value.\<close>

type_synonym attr = "u8 \<times> u8 \<times> bytes"

definition ext_len :: "u8 \<Rightarrow> bool" where
  "ext_len flags = (flags AND 0x10 \<noteq> 0)"

definition enc_attr :: "attr \<Rightarrow> bytes" where
  "enc_attr a = (case a of (flags, t, v) \<Rightarrow>
    [flags, t] @ (if ext_len flags then u16_be (of_nat (length v)) else [of_nat (length v)]) @ v)"

definition dec_attr :: "bytes \<Rightarrow> (attr \<times> bytes) option" where
  "dec_attr bs =
    (case bs of
      flags # t # bs1 \<Rightarrow>
        (case dec_num (if ext_len flags then 2 else 1) bs1 of None \<Rightarrow> None
         | Some (n, bs2) \<Rightarrow> map_option (\<lambda>(v, rest). ((flags, t, v), rest)) (take_exact n bs2))
    | _ \<Rightarrow> None)"

definition attr_ok :: "attr \<Rightarrow> bool" where
  "attr_ok a = (case a of (flags, t, v) \<Rightarrow> length v < (if ext_len flags then 65536 else 256))"

record bgp_update =
  bu_withdrawn :: "prefix list"
  bu_attrs :: "attr list"
  bu_nlri :: "prefix list"

definition dec_update :: "bytes \<Rightarrow> bgp_update option" where
  "dec_update body =
    (case dec_num 2 body of None \<Rightarrow> None
     | Some (wl, b1) \<Rightarrow> (case take_exact wl b1 of None \<Rightarrow> None
     | Some (w, b2) \<Rightarrow> (case dec_num 2 b2 of None \<Rightarrow> None
     | Some (al, b3) \<Rightarrow> (case take_exact al b3 of None \<Rightarrow> None
     | Some (a, nlri) \<Rightarrow>
        (case (dec_seq (dec_nlri False) w, dec_seq dec_attr a, dec_seq (dec_nlri False) nlri) of
          (Some ws, Some as, Some ns) \<Rightarrow> Some \<lparr>bu_withdrawn = ws, bu_attrs = as, bu_nlri = ns\<rparr>
        | _ \<Rightarrow> None)))))"

definition dec_bgp_update :: "bytes \<Rightarrow> bgp_update option" where
  "dec_bgp_update bs =
    (case dec_bgp bs of Some ((t, body), []) \<Rightarrow> if t = BGP_MSG_UPDATE then dec_update body else None
     | _ \<Rightarrow> None)"

text \<open>Values of MP_REACH_NLRI and MP_UNREACH_NLRI for unicast prefixes of a family.\<close>

definition mp_reach_value :: "bool \<Rightarrow> bytes \<Rightarrow> prefix list \<Rightarrow> bytes" where
  "mp_reach_value v6 nh ps =
    u16_be (if v6 then 2 else 1) @ [1, of_nat (length nh)] @ nh @ [0] @
    concat (map encode_prefix_nlri ps)"

definition dec_mp_reach :: "bool \<Rightarrow> bytes \<Rightarrow> (bytes \<times> prefix list) option" where
  "dec_mp_reach v6 value =
    (case dec_num 2 value of None \<Rightarrow> None
     | Some (afi, b1) \<Rightarrow> (case b1 of
         safi # nhl # b2 \<Rightarrow> (case take_exact (unat nhl) b2 of None \<Rightarrow> None
           | Some (nh, b3) \<Rightarrow> (case b3 of [] \<Rightarrow> None
           | _ # nlri \<Rightarrow>
             (if afi = (if v6 then 2 else 1) \<and> safi = 1
              then map_option (\<lambda>ps. (nh, ps)) (dec_seq (dec_nlri v6) nlri) else None)))
       | _ \<Rightarrow> None))"

definition dec_mp_unreach :: "bool \<Rightarrow> bytes \<Rightarrow> prefix list option" where
  "dec_mp_unreach v6 value =
    (case dec_num 2 value of None \<Rightarrow> None
     | Some (afi, b1) \<Rightarrow> (case b1 of
         safi # nlri \<Rightarrow>
           (if afi = (if v6 then 2 else 1) \<and> safi = 1 then dec_seq (dec_nlri v6) nlri else None)
       | [] \<Rightarrow> None))"

subsection \<open>Framing\<close>

interpretation frame: codec "\<lambda>m. m" dec_frame framed
proof unfold_locales
  fix m rest
  assume m: "framed m"
  then obtain v m' where v: "m = v # m'" by (cases m) (auto simp: framed_def)
  with m have "4 \<le> length m'" and len: "be_val (take 4 m') = length m" and "v = 3"
    by (auto simp: framed_def)
  then have "dec_num 4 (m' @ rest) = Some (length m, drop 4 m' @ rest)"
    by (simp add: dec_num_def take_exact_def)
  then show "dec_frame (m @ rest) = Some (m, rest)"
    using m v \<open>v = 3\<close> by (simp add: dec_frame_def framed_def take_exact_def)
  show "m \<noteq> []" using m by (auto simp: framed_def)
qed

lemma framed_common_header:
  assumes "n = 6 + length rest" and "n < 4294967296"
  shows "framed (write_common_header [] t (of_nat n) @ rest)"
proof -
  have "be_val (u32_be (of_nat n)) = n" using assms(2) by (simp add: unat_of_nat_small)
  then show ?thesis using assms(1) by (simp add: framed_def write_common_header_def)
qed

lemma write_per_peer_header_buf:
  "write_per_peer_header pt now buf peer = buf @ write_per_peer_header pt now [] peer"
  by (simp add: write_per_peer_header_def)

definition peer_info_wf :: "peer_info \<Rightarrow> bool" where
  "peer_info_wf p \<longleftrightarrow> length (pi_peer_distinguisher p) = 8 \<and> length (pi_peer_bgp_id p) = 4"

lemma length_per_peer_header [wire_simps]:
  "peer_info_wf p \<Longrightarrow> length (write_per_peer_header pt now [] p) = 42"
  by (simp add: write_per_peer_header_def peer_info_wf_def split: ip_addr.split)

lemma framed_peer_message:
  assumes "peer_info_wf p" and "n = 48 + length body" and "n < 4294967296"
  shows "framed (write_per_peer_header pt now (write_common_header [] t (of_nat n)) p @ body)"
  using framed_common_header [of n "write_per_peer_header pt now [] p @ body"] assms
  by (subst write_per_peer_header_buf) (simp add: wire_simps)

lemma length_BGP_MARKER [simp]: "length BGP_MARKER = 16"
  by (simp add: BGP_MARKER_def)

lemma length_open_capabilities:
  "length (open_capabilities asn v6 gr) =
    12 + (if v6 then 6 else 0) + (if gr then (if v6 then 12 else 8) else 0)"
  by (simp add: open_capabilities_def)

lemma length_bgp_open:
  "length (build_bgp_open asn v6 gr) = 31 + length (open_capabilities asn v6 gr)"
  by (simp add: build_bgp_open_def Let_def)

lemma length_bgp_open_le: "length (build_bgp_open asn v6 gr) \<le> 61"
  by (simp add: length_bgp_open length_open_capabilities)

lemma framed_initiation:
  "14 + length (utf8 name) + length (utf8 descr) < 4294967296 \<Longrightarrow>
    framed (build_initiation_message name descr)"
  unfolding build_initiation_message_def Let_def by (rule framed_common_header) simp_all

lemma framed_termination: "framed build_termination_message"
  unfolding build_termination_message_def by (rule framed_common_header) simp_all

lemma framed_peer_up: "peer_info_wf p \<Longrightarrow> framed (build_peer_up pt now p gr)"
  unfolding build_peer_up_def Let_def
  by (rule framed_peer_message)
    (use length_bgp_open_le [of "pi_peer_asn p" True gr] in
      \<open>auto simp: option_filter_def split: option.splits if_splits\<close>)

lemma framed_peer_down: "peer_info_wf p \<Longrightarrow> framed (build_peer_down pt now p)"
  unfolding build_peer_down_def by (rule framed_peer_message) simp_all

lemma framed_statistics:
  "\<lbrakk>peer_info_wf p; 48 + length body < 4294967296\<rbrakk> \<Longrightarrow>
    framed (build_statistics_report pt now p body)"
  unfolding build_statistics_report_def by (rule framed_peer_message) simp_all

lemma framed_eor_ipv4: "peer_info_wf p \<Longrightarrow> framed (build_eor_ipv4 pt now p)"
  unfolding build_eor_ipv4_def by (rule framed_peer_message) simp_all

lemma framed_eor_mp_unreach: "peer_info_wf p \<Longrightarrow> framed (build_eor_mp_unreach af pt now p fam)"
  unfolding build_eor_mp_unreach_def Let_def case_prod_unfold
  by (rule framed_peer_message) simp_all

lemma framed_eor:
  "peer_info_wf p \<Longrightarrow> build_end_of_rib_marker af pt now p fam = Some m \<Longrightarrow> framed m"
  unfolding build_end_of_rib_marker_def
  by (auto simp: framed_eor_ipv4 framed_eor_mp_unreach split: afisafi.splits)

subsection \<open>Prefixes\<close>

lemma length_encode_prefix_nlri:
  "prefix_ok p \<Longrightarrow> length (encode_prefix_nlri p) = nlri_encoded_len p"
  using prefix_ok_octets [of p]
  by (simp add: encode_prefix_nlri_def append_prefix_nlri_def nlri_encoded_len_def Let_def)

lemma length_nlri_le: "length (encode_prefix_nlri p) \<le> 17"
  by (simp add: encode_prefix_nlri_def append_prefix_nlri_def Let_def min_def)

lemma be_val_zeros: "be_val (bs @ replicate j 0) = be_val bs * 256 ^ j"
proof (induction j)
  case (Suc j)
  have "bs @ replicate (Suc j) 0 = (bs @ replicate j 0) @ [0]"
    by (simp add: replicate_append_same [symmetric])
  then have "be_val (bs @ replicate (Suc j) 0) = be_val (bs @ replicate j 0) * 256"
    by (metis add.right_neutral be_val_snoc unat_0)
  with Suc show ?case by simp
qed simp

lemma be_bytes_split: "be_bytes (k + j) v = be_bytes k (v div 256 ^ j) @ be_bytes j v"
proof (induction j arbitrary: v)
  case (Suc j)
  have "v div 256 div 256 ^ j = v div 256 ^ Suc j" by (simp add: div_mult2_eq)
  with Suc show ?case by simp
qed simp

lemma be_val_take_octets:
  assumes "256 ^ (n - k) dvd v" and "k \<le> n" and "v < 256 ^ n"
  shows "be_val (take k (be_bytes n v) @ replicate (n - k) 0) = v"
proof -
  have "be_bytes n v = be_bytes k (v div 256 ^ (n - k)) @ be_bytes (n - k) v"
    using be_bytes_split [of k "n - k" v] assms(2) by simp
  moreover have "v div 256 ^ (n - k) < 256 ^ k"
    using assms(2,3) by (simp add: less_mult_imp_div_less flip: power_add)
  ultimately show ?thesis using assms(1) by (simp add: be_val_zeros)
qed

lemma prefix_ok_dvd:
  assumes "prefix_ok p"
  shows "256 ^ (addr_bits (pfx_addr p) div 8 - (unat (pfx_len p) + 7) div 8) dvd addr_val (pfx_addr p)"
proof -
  let ?b = "addr_bits (pfx_addr p)" and ?l = "unat (pfx_len p)"
  have "8 * (?b div 8 - (?l + 7) div 8) \<le> ?b - ?l"
    by (simp add: addr_bits_def)
  then have "(2 :: nat) ^ (8 * (?b div 8 - (?l + 7) div 8)) dvd 2 ^ (?b - ?l)"
    by (rule le_imp_power_dvd)
  moreover have "2 ^ (?b - ?l) dvd addr_val (pfx_addr p)"
    using assms by (simp add: prefix_ok_def)
  moreover have "(256 :: nat) ^ k = 2 ^ (8 * k)" for k by (simp add: power_mult)
  ultimately show ?thesis using dvd_trans by metis
qed

interpretation nlri: codec encode_prefix_nlri "dec_nlri v6" "family_ok v6" for v6
proof unfold_locales
  fix p rest
  assume f: "family_ok v6 p"
  let ?n = "(unat (pfx_len p) + 7) div 8" and ?w = "(if v6 then 16 else 4) :: nat"
  have ok: "prefix_ok p" and fam: "is_ipv6 (pfx_addr p) = v6" using f by (simp_all add: family_ok_def)
  have n: "?n \<le> ?w" using prefix_ok_octets [OF ok] fam by simp
  have w: "addr_bits (pfx_addr p) div 8 = ?w" using fam by (simp add: addr_bits_def)
  have "octets (pfx_addr p) = be_bytes ?w (addr_val (pfx_addr p))"
    and "addr_val (pfx_addr p) < 256 ^ ?w"
    using fam unsigned_less [where ?'a = nat, of "_ :: u128"]
    by (cases "pfx_addr p"; simp add: u32_be_def u128_be_def)+
  then have v: "be_val (take ?n (octets (pfx_addr p)) @ replicate (?w - ?n) 0) = addr_val (pfx_addr p)"
    using be_val_take_octets [OF _ n] prefix_ok_dvd [OF ok] w by simp
  have "(if v6 then V6 (of_nat (addr_val (pfx_addr p))) else V4 (of_nat (addr_val (pfx_addr p)))) = pfx_addr p"
    using fam by (cases "pfx_addr p") auto
  moreover have "take_exact ?n (take ?n (octets (pfx_addr p)) @ rest) =
      Some (take ?n (octets (pfx_addr p)), rest)"
    using prefix_ok_octets [OF ok] by (intro take_exact_append) simp
  ultimately show "dec_nlri v6 (encode_prefix_nlri p @ rest) = Some (p, rest)"
    using n v unfolding dec_nlri_def encode_prefix_nlri_def append_prefix_nlri_def Let_def
    by (cases v6) simp_all
  show "encode_prefix_nlri p \<noteq> []"
    by (simp add: encode_prefix_nlri_def append_prefix_nlri_def Let_def)
qed

subsection \<open>Path attributes\<close>

interpretation attr: codec enc_attr dec_attr attr_ok
proof unfold_locales
  fix a :: attr and rest
  assume ok: "attr_ok a"
  obtain flags t v where a: "a = (flags, t, v)" by (cases a) auto
  show "dec_attr (enc_attr a @ rest) = Some (a, rest)"
    using ok a by (cases "ext_len flags")
      (simp_all add: enc_attr_def dec_attr_def attr_ok_def unat_of_nat_small)
  show "enc_attr a \<noteq> []" using a by (simp add: enc_attr_def)
qed

lemma length_enc_attr:
  "length (enc_attr (flags, t, v)) = (if ext_len flags then 4 else 3) + length v"
  by (simp add: enc_attr_def)

text \<open>
  The filter keeps every attribute but MP_REACH_NLRI and MP_UNREACH_NLRI; the next hop is that
  of the last MP_REACH_NLRI that has one.
\<close>

definition kept :: "attr list \<Rightarrow> attr list" where
  "kept as = filter (\<lambda>(_, t, _). t \<noteq> 14 \<and> t \<noteq> 15) as"

definition next_hop_of :: "attr list \<Rightarrow> bytes option \<Rightarrow> bytes option" where
  "next_hop_of as nh = fold (\<lambda>(_, t, v) nh. if t = 14 then mp_reach_next_hop v nh else nh) as nh"

text \<open>A blob is a sequence of complete attributes and a rest that does not start with one.\<close>

lemma dec_attr_SomeD:
  assumes "dec_attr bs = Some (a, rest)"
  shows "attr_ok a \<and> bs = enc_attr a @ rest"
proof -
  obtain flags t bs1 where bs: "bs = flags # t # bs1"
    using assms by (auto simp: dec_attr_def split: list.splits)
  let ?k = "if ext_len flags then 2 else 1 :: nat"
  obtain n bs2 v where n: "dec_num ?k bs1 = Some (n, bs2)"
    and t: "take_exact n bs2 = Some (v, rest)" and a: "a = (flags, t, v)"
    using assms bs by (auto simp: dec_attr_def split: option.splits)
  from dec_num_SomeD [OF n] obtain f where f: "bs1 = f @ bs2" "length f = ?k" "n = be_val f"
    by blast
  from take_exact_SomeD [OF t] have v: "bs2 = v @ rest" "length v = n" by blast+
  show ?thesis
  proof (cases "ext_len flags")
    case True
    with f have "u16_be (of_nat n) = f" and "n < 65536" using u16_be_be_val [of f] by simp_all
    then show ?thesis by (simp add: a bs f(1) v True attr_ok_def enc_attr_def)
  next
    case False
    with f obtain x where x: "f = [x]" by (cases f) auto
    with f have "of_nat n = x" and "n < 256" by (simp_all add: be_val_def)
    then show ?thesis by (simp add: a bs f(1) x v False attr_ok_def enc_attr_def)
  qed
qed

lemma attr_len_at_dec:
  assumes "pos + 2 \<le> length blob"
  shows "(case attr_len_at blob pos of
      None \<Rightarrow> None
    | Some (n, h) \<Rightarrow>
        if pos + (h + n) > length blob then None
        else Some ((blob ! pos, blob ! (pos + 1), take n (drop (pos + h) blob)),
          drop (pos + (h + n)) blob)) = dec_attr (drop pos blob)"
proof -
  have d: "drop pos blob = blob ! pos # blob ! (pos + 1) # drop (pos + 2) blob"
    using assms by (simp add: Cons_nth_drop_Suc)
  show ?thesis
  proof (cases "ext_len (blob ! pos)")
    case True
    have "dec_num 2 (drop (pos + 2) blob) =
        (if pos + 4 > length blob then None
         else Some (be_val [blob ! (pos + 2), blob ! (pos + 3)], drop (pos + 4) blob))"
    proof (cases "pos + 4 > length blob")
      case True
      then show ?thesis by (simp add: dec_num_def take_exact_def)
    next
      case False
      then have "drop (pos + 2) blob = blob ! (pos + 2) # blob ! (pos + 3) # drop (pos + 4) blob"
        by (simp add: Cons_nth_drop_Suc eval_nat_numeral)
      then show ?thesis using False by (simp add: dec_num_def take_exact_def)
    qed
    with True show ?thesis unfolding d
      by (auto simp: attr_len_at_def dec_attr_def take_exact_def ext_len_def ac_simps)
  next
    case False
    have "dec_num 1 (drop (pos + 2) blob) =
        (if pos + 3 > length blob then None
         else Some (unat (blob ! (pos + 2)), drop (pos + 3) blob))"
    proof (cases "pos + 3 > length blob")
      case True
      then show ?thesis by (simp add: dec_num_def take_exact_def)
    next
      case False
      then have "drop (pos + 2) blob = blob ! (pos + 2) # drop (pos + 3) blob"
        by (simp add: Cons_nth_drop_Suc eval_nat_numeral)
      then show ?thesis using False by simp
    qed
    with False show ?thesis unfolding d
      by (auto simp: attr_len_at_def dec_attr_def take_exact_def ext_len_def ac_simps)
  qed
qed

lemma dec_attr_short: "length bs < 2 \<Longrightarrow> dec_attr bs = None"
  by (cases bs; cases "tl bs") (auto simp: dec_attr_def)

lemma filter_pa_loop_dec:
  "filter_pa_loop blob pos res nh =
    (case dec_attr (drop pos blob) of
      None \<Rightarrow> (res, nh)
    | Some ((flags, t, v), rest) \<Rightarrow>
        filter_pa_loop blob (pos + length (enc_attr (flags, t, v)))
          (if t = 14 \<or> t = 15 then res else res @ enc_attr (flags, t, v))
          (if t = 14 then mp_reach_next_hop v nh else nh))"
proof (cases "pos + 2 \<le> length blob")
  case False
  then have "dec_attr (drop pos blob) = None" by (intro dec_attr_short) simp
  then show ?thesis using False by (subst filter_pa_loop.simps) simp
next
  case True
  note al = attr_len_at_dec [OF True, symmetric]
  show ?thesis
  proof (cases "dec_attr (drop pos blob)")
    case None
    then show ?thesis
      using True al by (subst filter_pa_loop.simps) (auto split: option.splits if_splits)
  next
    case (Some ar)
    obtain flags t v rest where ar: "ar = ((flags, t, v), rest)" by (metis prod.exhaust)
    from Some al obtain n h where nh: "attr_len_at blob pos = Some (n, h)" "pos + (h + n) \<le> length blob"
      "flags = blob ! pos" "t = blob ! (pos + 1)" "v = take n (drop (pos + h) blob)"
      "rest = drop (pos + (h + n)) blob"
      by (auto simp: ar split: option.splits if_splits)
    have e: "drop pos blob = enc_attr (flags, t, v) @ rest"
      using dec_attr_SomeD Some ar by blast
    have "length (enc_attr (flags, t, v)) + length rest = length blob - pos"
      using arg_cong [OF e, of length] by simp
    then have l: "length (enc_attr (flags, t, v)) = h + n" using nh(2,6) by simp
    then have "take (h + n) (drop pos blob) = enc_attr (flags, t, v)" using e by simp
    with Some ar nh l True show ?thesis
      by (subst filter_pa_loop.simps) (simp add: Let_def)
  qed
qed

lemma filter_pa_loop_spec:
  assumes "list_all attr_ok as" and "dec_attr junk = None"
    and "drop pos blob = concat (map enc_attr as) @ junk"
  shows "filter_pa_loop blob pos res nh = (res @ concat (map enc_attr (kept as)), next_hop_of as nh)"
  using assms(1,3)
proof (induction as arbitrary: pos res nh)
  case Nil
  then show ?case using assms(2) by (simp add: filter_pa_loop_dec kept_def next_hop_of_def)
next
  case (Cons a as)
  obtain flags t v where a: "a = (flags, t, v)" by (cases a) auto
  have d: "dec_attr (drop pos blob) = Some (a, concat (map enc_attr as) @ junk)"
    using Cons.prems attr.dec_enc by simp
  have r: "drop (pos + length (enc_attr a)) blob = concat (map enc_attr as) @ junk"
    using Cons.prems(2) by (metis append.assoc append_eq_conv_conj concat.simps(2) drop_drop
        list.simps(9) add.commute)
  show ?case
    using Cons.IH [OF _ r] Cons.prems(1) d a
    by (subst filter_pa_loop_dec) (auto simp: kept_def next_hop_of_def)
qed

lemma attr_split: "\<exists>as junk. blob = concat (map enc_attr as) @ junk \<and> list_all attr_ok as \<and> dec_attr junk = None"
proof (induction "length blob" arbitrary: blob rule: less_induct)
  case less
  show ?case
  proof (cases "dec_attr blob")
    case None
    then have "blob = concat (map enc_attr []) @ blob \<and> list_all attr_ok [] \<and> dec_attr blob = None"
      by simp
    then show ?thesis by blast
  next
    case (Some ar)
    then obtain a rest where ar: "dec_attr blob = Some (a, rest)" by (cases ar) auto
    then have b: "attr_ok a" "blob = enc_attr a @ rest" using dec_attr_SomeD by blast+
    then have "length rest < length blob" using attr.enc_nonempty by simp
    with less obtain as junk where "rest = concat (map enc_attr as) @ junk" "list_all attr_ok as"
      "dec_attr junk = None" by blast
    with b show ?thesis by (intro exI [of _ "a # as"] exI [of _ junk]) simp
  qed
qed

lemma list_all_kept: "list_all attr_ok as \<Longrightarrow> list_all attr_ok (kept as)"
  by (auto simp: kept_def list_all_iff)

text \<open>The complete attributes at the front of a blob.\<close>

fun take_attrs :: "nat \<Rightarrow> bytes \<Rightarrow> attr list" where
  "take_attrs 0 bs = []"
| "take_attrs (Suc n) bs =
    (case dec_attr bs of None \<Rightarrow> [] | Some (a, rest) \<Rightarrow> a # take_attrs n rest)"

definition blob_attrs :: "bytes \<Rightarrow> attr list" where
  "blob_attrs bs = take_attrs (length bs) bs"

definition route_attrs :: "rotonda_pa_map \<Rightarrow> attr list" where
  "route_attrs pm = blob_attrs (drop 2 (pm_raw pm))"

lemma take_attrs_enc:
  "\<lbrakk>list_all attr_ok as; dec_attr junk = None; length as \<le> n\<rbrakk> \<Longrightarrow>
    take_attrs n (concat (map enc_attr as) @ junk) = as"
proof (induction as arbitrary: n)
  case Nil
  then show ?case by (cases n) simp_all
next
  case (Cons a as)
  then obtain m where "n = Suc m" by (cases n) auto
  with Cons show ?case by (simp add: attr.dec_enc)
qed

lemma blob_attrs_enc:
  "\<lbrakk>list_all attr_ok as; dec_attr junk = None\<rbrakk> \<Longrightarrow> blob_attrs (concat (map enc_attr as) @ junk) = as"
  unfolding blob_attrs_def by (rule take_attrs_enc) (use attr.length_enc_seq in \<open>auto intro: trans_le_add1\<close>)

lemma route_attrs_split:
  "list_all attr_ok (route_attrs pm) \<and>
   (\<exists>junk. drop 2 (pm_raw pm) = concat (map enc_attr (route_attrs pm)) @ junk \<and> dec_attr junk = None)"
  using attr_split [of "drop 2 (pm_raw pm)"] blob_attrs_enc unfolding route_attrs_def by metis

lemma filter_raw_attrs:
  "filter_raw_path_attributes pm =
    (concat (map enc_attr (kept (route_attrs pm))), next_hop_of (route_attrs pm) None)"
proof -
  obtain junk where ok: "list_all attr_ok (route_attrs pm)"
    and j: "dec_attr junk = None"
    and d: "drop 2 (pm_raw pm) = concat (map enc_attr (route_attrs pm)) @ junk"
    using route_attrs_split by blast
  have l: "filter_pa_loop (drop 2 (pm_raw pm)) 0 [] None =
      (concat (map enc_attr (kept (route_attrs pm))), next_hop_of (route_attrs pm) None)"
    using filter_pa_loop_spec [OF ok j, of 0 "drop 2 (pm_raw pm)"] d by simp
  show ?thesis
  proof (cases "length (pm_raw pm) < 2")
    case True
    then have "route_attrs pm = []" by (simp add: route_attrs_def blob_attrs_def)
    with True show ?thesis
      by (simp add: filter_raw_path_attributes_def filter_pa_from_raw_def kept_def next_hop_of_def)
  next
    case False
    with l show ?thesis by (simp add: filter_raw_path_attributes_def filter_pa_from_raw_def)
  qed
qed

lemma mp_reach_next_hop_length:
  "\<lbrakk>mp_reach_next_hop v nh = Some h; \<And>h. nh = Some h \<Longrightarrow> length h < 256\<rbrakk> \<Longrightarrow> length h < 256"
  using unat_less_pow(1) [of "v ! 3"]
  by (auto simp: mp_reach_next_hop_def Let_def split: if_splits)

lemma next_hop_of_length:
  assumes "next_hop_of as nh = Some h" and "\<And>h. nh = Some h \<Longrightarrow> length h < 256"
  shows "length h < 256"
  using assms
proof (induction as arbitrary: nh)
  case Nil
  then show ?case by (simp add: next_hop_of_def)
next
  case (Cons a as)
  obtain flags t v where a: "a = (flags, t, v)" by (cases a) auto
  have "next_hop_of as (if t = 14 then mp_reach_next_hop v nh else nh) = Some h"
    using Cons.prems(1) a by (simp add: next_hop_of_def)
  moreover have "length h' < 256" if "(if t = 14 then mp_reach_next_hop v nh else nh) = Some h'" for h'
    using that Cons.prems(2) mp_reach_next_hop_length by (auto split: if_splits)
  ultimately show ?case by (rule Cons.IH)
qed

subsection \<open>BGP messages\<close>

lemma dec_bgp_build:
  "\<lbrakk>n = 19 + length body; n < 65536\<rbrakk> \<Longrightarrow>
    dec_bgp (BGP_MARKER @ u16_be (of_nat n) @ [t] @ body @ rest) = Some ((t, body), rest)"
proof -
  assume n: "n = 19 + length body" and "n < 65536"
  then have u: "unat (of_nat n :: u16) = n" by (simp only: unat_of_nat_small)
  have "take_exact (n - 19) (body @ rest) = Some (body, rest)" and "\<not> n < 19" using n by simp_all
  then show ?thesis by (simp add: dec_bgp_def u)
qed

lemma dec_update_build:
  assumes "list_all (family_ok False) ws" and "list_all attr_ok as" and "list_all (family_ok False) ns"
    and "W = concat (map encode_prefix_nlri ws)" and "A = concat (map enc_attr as)"
    and "N = concat (map encode_prefix_nlri ns)"
    and "length W < 65536" and "length A < 65536"
  shows "dec_update (u16_be (of_nat (length W)) @ W @ u16_be (of_nat (length A)) @ A @ N) =
    Some \<lparr>bu_withdrawn = ws, bu_attrs = as, bu_nlri = ns\<rparr>"
  using assms by (simp add: dec_update_def unat_of_nat_small nlri.dec_seq_enc attr.dec_seq_enc)

lemma fold_append_nlri:
  "fold (\<lambda>p buf. append_prefix_nlri buf p) ps buf = buf @ concat (map encode_prefix_nlri ps)"
  by (induction ps arbitrary: buf)
    (simp_all add: append_prefix_nlri_def encode_prefix_nlri_def Let_def)

lemma dec_mp_reach_value:
  assumes "length nh < 256" and "list_all (family_ok v6) ps"
  shows "dec_mp_reach v6 (mp_reach_value v6 nh ps) = Some (nh, ps)"
  using assms by (simp add: dec_mp_reach_def mp_reach_value_def unat_of_nat_small nlri.dec_seq_enc)

definition default_next_hop :: "bytes option \<Rightarrow> bytes" where
  "default_next_hop nh = (case nh of Some h \<Rightarrow> h | None \<Rightarrow> replicate 16 0)"

definition mp_flags :: "bytes \<Rightarrow> u8" where
  "mp_flags value = (if length value > 255 then 0x90 else 0x80)"

lemma ext_len_mp_flags [simp]: "ext_len (mp_flags value) \<longleftrightarrow> length value > 255" "ext_len 0x90" "\<not> ext_len 0x80"
  by (simp_all add: ext_len_def mp_flags_def)

lemma build_mp_reach_attr:
  assumes "\<not> is_v4 p"
  shows "build_mp_reach_nlri p nh =
    (let value = mp_reach_value True (default_next_hop nh) [p]
     in enc_attr (mp_flags value, 14, value))"
proof -
  let ?val = "mp_reach_value True (default_next_hop nh) [p]"
  have l: "2 + 1 + 1 + length (default_next_hop nh) + 1 + length (encode_prefix_nlri p) = length ?val"
    by (simp add: mp_reach_value_def)
  show ?thesis
    using assms l unfolding build_mp_reach_nlri_def enc_attr_def Let_def mp_flags_def default_next_hop_def
    by (cases nh) (simp_all add: mp_reach_value_def)
qed

lemma build_mp_unreach_attr:
  assumes "\<not> is_v4 p"
  shows "build_mp_unreach_nlri p = enc_attr (0x80, 15, u16_be 2 @ [1] @ encode_prefix_nlri p)"
  using assms length_nlri_le [of p]
  by (simp add: build_mp_unreach_nlri_def enc_attr_def Let_def)

lemma attr_ok_mp_reach:
  assumes "length nh < 256"
  shows "attr_ok (mp_flags (mp_reach_value v6 nh [p]), 14, mp_reach_value v6 nh [p])"
  using assms length_nlri_le [of p] by (simp add: attr_ok_def mp_reach_value_def)

lemma default_next_hop_length:
  "length (default_next_hop (next_hop_of as None)) < 256"
  using next_hop_of_length [of as None] by (auto simp: default_next_hop_def split: option.splits)

lemma family_ok_v4: "\<lbrakk>prefix_ok p; is_v4 p\<rbrakk> \<Longrightarrow> family_ok False p"
  and family_ok_v6: "\<lbrakk>prefix_ok p; \<not> is_v4 p\<rbrakk> \<Longrightarrow> family_ok True p"
  by (simp_all add: family_ok_def is_v4_def)

text \<open>Any announcement whose length fits the length field decodes to its parts.\<close>

lemma dec_announcement:
  assumes "list_all attr_ok as" and "list_all (family_ok False) ns"
    and "A = concat (map enc_attr as)" and "N = concat (map encode_prefix_nlri ns)"
    and "n = 19 + (2 + 2 + length A + length N)" and "n < 65536"
  shows "dec_bgp_update (BGP_MARKER @ u16_be (of_nat n) @ [2] @ u16_be 0 @
      u16_be (of_nat (length A)) @ A @ N) =
    Some \<lparr>bu_withdrawn = [], bu_attrs = as, bu_nlri = ns\<rparr>"
proof -
  let ?body = "u16_be (of_nat (length ([] :: bytes))) @ ([] :: bytes) @ u16_be (of_nat (length A)) @ A @ N"
  have "dec_bgp (BGP_MARKER @ u16_be (of_nat n) @ [2] @ ?body @ []) = Some ((2, ?body), [])"
    by (rule dec_bgp_build) (use assms(5,6) in simp_all)
  moreover have "dec_update ?body = Some \<lparr>bu_withdrawn = [], bu_attrs = as, bu_nlri = ns\<rparr>"
    by (rule dec_update_build) (use assms in simp_all)
  ultimately show ?thesis by (simp add: dec_bgp_update_def)
qed

subsection \<open>The per-peer header\<close>

text \<open>What a header says of a peer, and a whole message with a per-peer header.\<close>

definition peer_view :: "(peer_type \<Rightarrow> u8) \<Rightarrow> timestamp \<Rightarrow> peer_info \<Rightarrow> per_peer" where
  "peer_view pt now p =
    \<lparr>pp_type = pt (pi_peer_type p), pp_flags = pi_peer_flags p,
     pp_distinguisher = pi_peer_distinguisher p, pp_address = pi_peer_address p,
     pp_asn = pi_peer_asn p, pp_bgp_id = pi_peer_bgp_id p,
     pp_secs = ucast (fst now), pp_usecs = snd now\<rparr>"

definition v_flag_ok :: "peer_info \<Rightarrow> bool" where
  "v_flag_ok p \<longleftrightarrow> (pi_peer_flags p AND 0x80 \<noteq> 0) = is_ipv6 (pi_peer_address p)"

definition dec_peer_msg :: "bytes \<Rightarrow> (u8 \<times> per_peer \<times> bytes) option" where
  "dec_peer_msg bs =
    (case dec_frame bs of
      Some (m, []) \<Rightarrow> map_option (\<lambda>(h, body). (m ! 5, h, body)) (dec_per_peer (drop 6 m))
    | _ \<Rightarrow> None)"

lemma dec_addr16_octets:
  "dec_addr16 (is_ipv6 a) (case a of V4 x \<Rightarrow> replicate 12 0 @ u32_be x | V6 x \<Rightarrow> u128_be x) = a"
  by (cases a) (simp_all add: dec_addr16_def)

lemma dec_per_peer_header:
  assumes "peer_info_wf p" and "v_flag_ok p"
  shows "dec_per_peer (write_per_peer_header pt now [] p @ rest) = Some (peer_view pt now p, rest)"
proof -
  let ?addr = "case pi_peer_address p of V4 x \<Rightarrow> replicate 12 0 @ u32_be x | V6 x \<Rightarrow> u128_be x"
  let ?h = "write_per_peer_header pt now [] p"
  have la: "length ?addr = 16" by (simp split: ip_addr.split)
  have h: "?h = pt (pi_peer_type p) # pi_peer_flags p # pi_peer_distinguisher p @ ?addr @
      u32_be (pi_peer_asn p) @ pi_peer_bgp_id p @ u32_be (ucast (fst now)) @ u32_be (snd now)"
    by (simp add: write_per_peer_header_def)
  have wf: "length (pi_peer_distinguisher p) = 8" "length (pi_peer_bgp_id p) = 4"
    using assms(1) by (simp_all add: peer_info_wf_def)
  have "take_exact 42 (?h @ rest) = Some (?h, rest)"
    using length_per_peer_header [OF assms(1)] by simp
  moreover have "dec_addr16 (pi_peer_flags p AND 0x80 \<noteq> 0) ?addr = pi_peer_address p"
    using assms(2) dec_addr16_octets [of "pi_peer_address p"] by (simp add: v_flag_ok_def)
  ultimately show ?thesis
    using wf la unfolding dec_per_peer_def h by (simp add: peer_view_def)
qed

lemma dec_peer_message:
  assumes "peer_info_wf p" and "v_flag_ok p" and "n = 48 + length body" and "n < 4294967296"
  shows "dec_peer_msg (write_per_peer_header pt now (write_common_header [] t (of_nat n)) p @ body) =
    Some (t, peer_view pt now p, body)"
proof -
  let ?c = "write_common_header [] t (of_nat n)"
  let ?m = "write_per_peer_header pt now ?c p @ body"
  have m: "?m = ?c @ write_per_peer_header pt now [] p @ body"
    by (subst write_per_peer_header_buf) simp
  have "length ?c = 6" and "?c ! 5 = t"
    by (simp_all add: write_common_header_def nth_append)
  then have "drop 6 ?m = write_per_peer_header pt now [] p @ body" and "?m ! 5 = t"
    unfolding m by (simp_all add: nth_append)
  moreover have "dec_frame ?m = Some (?m, [])"
    using frame.dec_enc [OF framed_peer_message [OF assms(1,3,4)], of pt now t "[]"] by simp
  ultimately show ?thesis
    using dec_per_peer_header [OF assms(1,2)] by (simp add: dec_peer_msg_def)
qed

lemma flags_V:
  "(peer_rib_type_flags rt 0x80 AND 0x80 \<noteq> 0)" "(peer_rib_type_flags rt 0 AND 0x80 = 0)"
  by (simp_all add: peer_rib_type_flags_def split: option.split peer_rib_type.split)

lemma from_ingress_info_ok:
  assumes "\<And>d. ii_distinguisher info = Some d \<Longrightarrow> length d = 8"
  shows "peer_info_wf (from_ingress_info info)" and "v_flag_ok (from_ingress_info info)"
  using assms flags_V [of "ii_peer_rib_type info"]
  by (auto simp: peer_info_wf_def v_flag_ok_def from_ingress_info_def Let_def unwrap_or_def
      split: option.splits)

lemma fan_in_tag: "length (fan_in_distinguisher_tag hasher parent) = 8"
    and fan_in_tag_nonzero: "fan_in_distinguisher_tag hasher parent \<noteq> replicate 8 0"
  by (simp_all add: fan_in_distinguisher_tag_def Let_def u64_be_zero_iff)

lemma apply_fan_in_ok:
  "\<lbrakk>peer_info_wf p; length tag = 8\<rbrakk> \<Longrightarrow> peer_info_wf (apply_fan_in_distinguisher tag p)"
  "v_flag_ok p \<Longrightarrow> v_flag_ok (apply_fan_in_distinguisher tag p)"
  by (simp_all add: peer_info_wf_def v_flag_ok_def apply_fan_in_distinguisher_def)

subsection \<open>Announcements and withdrawals\<close>

definition announces :: "rotonda_pa_map \<Rightarrow> prefix \<Rightarrow> bytes \<Rightarrow> bool" where
  "announces pm p bs \<longleftrightarrow>
    (if is_v4 p then
       dec_bgp_update bs = Some \<lparr>bu_withdrawn = [], bu_attrs = kept (route_attrs pm), bu_nlri = [p]\<rparr>
     else
       (\<exists>flags v. dec_bgp_update bs =
          Some \<lparr>bu_withdrawn = [], bu_attrs = kept (route_attrs pm) @ [(flags, 14, v)], bu_nlri = []\<rparr> \<and>
        dec_mp_reach True v = Some (default_next_hop (next_hop_of (route_attrs pm) None), [p])))"

definition withdraws :: "prefix \<Rightarrow> bytes \<Rightarrow> bool" where
  "withdraws p bs \<longleftrightarrow>
    (if is_v4 p then dec_bgp_update bs = Some \<lparr>bu_withdrawn = [p], bu_attrs = [], bu_nlri = []\<rparr>
     else
       (\<exists>flags v. dec_bgp_update bs =
          Some \<lparr>bu_withdrawn = [], bu_attrs = [(flags, 15, v)], bu_nlri = []\<rparr> \<and>
        dec_mp_unreach True v = Some [p]))"

text \<open>The length an announcement would have, as it decides whether the route is dropped.\<close>

definition announcement_len :: "rotonda_pa_map \<Rightarrow> prefix \<Rightarrow> nat" where
  "announcement_len pm p =
    23 + length (concat (map enc_attr (kept (route_attrs pm)))) +
    (if is_v4 p then length (encode_prefix_nlri p)
     else length (build_mp_reach_nlri p (next_hop_of (route_attrs pm) None)))"

lemma announcement_v4:
  assumes "prefix_ok p" and "is_v4 p" and "announcement_len pm p \<le> 65535"
  shows "\<exists>bs. build_bgp_update p pm False = Some bs \<and> length bs = announcement_len pm p \<and>
    announces pm p bs"
proof -
  let ?A = "concat (map enc_attr (kept (route_attrs pm)))" and ?N = "encode_prefix_nlri p"
  let ?n = "19 + (2 + 2 + length ?A + length ?N)"
  let ?bs = "BGP_MARKER @ u16_be (of_nat ?n) @ [2] @ u16_be 0 @ u16_be (of_nat (length ?A)) @ ?A @ ?N"
  have n: "?n = announcement_len pm p" using assms(2) by (simp add: announcement_len_def)
  have "build_bgp_update p pm False = Some ?bs"
    using assms(2,3) n by (simp add: build_bgp_update_def filter_raw_attrs Let_def)
  moreover have "announces pm p ?bs"
    unfolding announces_def using assms(2)
    by (simp only: if_True)
      (rule dec_announcement, use list_all_kept route_attrs_split family_ok_v4 assms n in \<open>simp_all\<close>)
  moreover have "length ?bs = announcement_len pm p" using n by simp
  ultimately show ?thesis by blast
qed

lemma announcement_v6:
  assumes "prefix_ok p" and "\<not> is_v4 p" and "announcement_len pm p \<le> 65535"
  shows "\<exists>bs. build_bgp_update p pm False = Some bs \<and> length bs = announcement_len pm p \<and>
    announces pm p bs"
proof -
  let ?nh = "next_hop_of (route_attrs pm) None"
  let ?v = "mp_reach_value True (default_next_hop ?nh) [p]"
  let ?as = "kept (route_attrs pm) @ [(mp_flags ?v, 14, ?v)]"
  let ?A = "concat (map enc_attr ?as)"
  have m: "build_mp_reach_nlri p ?nh = enc_attr (mp_flags ?v, 14, ?v)"
    using build_mp_reach_attr [OF assms(2)] by (simp add: Let_def)
  let ?n = "19 + (2 + 2 + length ?A + length ([] :: bytes))"
  let ?bs = "BGP_MARKER @ u16_be (of_nat ?n) @ [2] @ u16_be 0 @ u16_be (of_nat (length ?A)) @ ?A @ []"
  have n: "?n = announcement_len pm p" using assms(2) m by (simp add: announcement_len_def)
  have "build_bgp_update p pm False = Some ?bs"
    using assms(2,3) n m by (simp add: build_bgp_update_def filter_raw_attrs Let_def)
  moreover have "dec_bgp_update ?bs = Some \<lparr>bu_withdrawn = [], bu_attrs = ?as, bu_nlri = []\<rparr>"
    by (rule dec_announcement)
      (use list_all_kept route_attrs_split attr_ok_mp_reach default_next_hop_length assms(3) n in
        \<open>simp_all\<close>)
  moreover have "dec_mp_reach True ?v = Some (default_next_hop ?nh, [p])"
    by (rule dec_mp_reach_value) (use default_next_hop_length family_ok_v6 assms in simp_all)
  ultimately have "announces pm p ?bs" using assms(2) by (auto simp: announces_def)
  moreover have "length ?bs = announcement_len pm p" using n by simp
  ultimately show ?thesis using \<open>build_bgp_update p pm False = Some ?bs\<close> by blast
qed

lemma build_bgp_update_None:
  "build_bgp_update p pm False = None \<longleftrightarrow> announcement_len pm p > 65535"
  by (simp add: build_bgp_update_def filter_raw_attrs announcement_len_def Let_def)

lemma build_bgp_update_announces:
  assumes "prefix_ok p" and "build_bgp_update p pm False = Some bs"
  shows "announces pm p bs" and "length bs \<le> 65535"
proof -
  have l: "announcement_len pm p \<le> 65535" using build_bgp_update_None [of p pm] assms(2) by simp
  then obtain bs' where "build_bgp_update p pm False = Some bs'" "length bs' = announcement_len pm p"
    "announces pm p bs'"
    using announcement_v4 announcement_v6 assms(1) by metis
  with l assms(2) show "announces pm p bs" and "length bs \<le> 65535" by simp_all
qed

lemma withdrawal_v4:
  assumes "prefix_ok p" and "is_v4 p"
  shows "withdraws p (build_bgp_update_withdrawal p)"
proof -
  let ?W = "encode_prefix_nlri p"
  let ?n = "19 + (2 + length ?W + 2)"
  let ?body = "u16_be (of_nat (length ?W)) @ ?W @ u16_be (of_nat (length ([] :: bytes))) @
    ([] :: bytes) @ ([] :: bytes)"
  have "dec_bgp (BGP_MARKER @ u16_be (of_nat ?n) @ [2] @ ?body @ []) = Some ((2, ?body), [])"
    by (rule dec_bgp_build) (use length_nlri_le [of p] in simp_all)
  moreover have "dec_update ?body = Some \<lparr>bu_withdrawn = [p], bu_attrs = [], bu_nlri = []\<rparr>"
    by (rule dec_update_build) (use family_ok_v4 assms length_nlri_le [of p] in simp_all)
  ultimately show ?thesis
    using assms(2) by (simp add: withdraws_def build_bgp_update_withdrawal_def Let_def dec_bgp_update_def)
qed

lemma withdrawal_v6:
  assumes "prefix_ok p" and "\<not> is_v4 p"
  shows "withdraws p (build_bgp_update_withdrawal p)"
proof -
  let ?v = "u16_be 2 @ [1] @ encode_prefix_nlri p"
  let ?A = "concat (map enc_attr [(0x80, 15, ?v)])"
  let ?n = "19 + (2 + 2 + length ?A + length ([] :: bytes))"
  have "dec_bgp_update (BGP_MARKER @ u16_be (of_nat ?n) @ [2] @ u16_be 0 @
      u16_be (of_nat (length ?A)) @ ?A @ []) =
    Some \<lparr>bu_withdrawn = [], bu_attrs = [(0x80, 15, ?v)], bu_nlri = []\<rparr>"
    by (rule dec_announcement)
      (use length_nlri_le [of p] in \<open>simp_all add: attr_ok_def length_enc_attr\<close>)
  moreover have "dec_mp_unreach True ?v = Some [p]"
    using nlri.dec_seq_one [OF family_ok_v6 [OF assms]] by (simp add: dec_mp_unreach_def)
  ultimately show ?thesis
    using assms(2) build_mp_unreach_attr [OF assms(2)]
    by (auto simp: withdraws_def build_bgp_update_withdrawal_def Let_def)
qed

lemma length_update_le: "build_bgp_update p pm w = Some bs \<Longrightarrow> length bs \<le> 65535"
  using length_nlri_le [of p]
  by (auto simp: build_bgp_update_def build_bgp_update_withdrawal_def build_mp_unreach_nlri_def Let_def
      filter_raw_attrs split: if_splits)

lemma announces_message:
  assumes "peer_info_wf peer" and "v_flag_ok peer" and "prefix_ok p"
    and "build_route_monitoring pt now peer p pm w = Some msg"
  shows "framed msg \<and> (\<exists>bs. build_bgp_update p pm w = Some bs \<and>
    dec_peer_msg msg = Some (0, peer_view pt now peer, bs))"
proof -
  obtain bs where bs: "build_bgp_update p pm w = Some bs"
    and msg: "msg = write_per_peer_header pt now (write_common_header [] 0 (of_nat (6 + 42 + length bs))) peer @ bs"
    using assms(4) by (auto simp: build_route_monitoring_def split: option.splits)
  have "length bs \<le> 65535" using bs by (rule length_update_le)
  then show ?thesis
    using bs msg framed_peer_message [OF assms(1), of "6 + 42 + length bs" bs pt now 0]
      dec_peer_message [OF assms(1,2), of "6 + 42 + length bs" bs pt now 0] by simp
qed

subsection \<open>Properties\<close>

text \<open>
  C27: An announcement survives re-encoding: the Route Monitoring message built for a stored
  route decodes to the peer's header and to a BGP UPDATE that announces exactly that prefix,
  with the stored path attributes in order apart from MP_REACH_NLRI and MP_UNREACH_NLRI; an IPv6
  prefix travels in a new MP_REACH_NLRI with the next hop of the stored one (sixteen zero octets
  if it had none). The route is dropped exactly when the UPDATE would not fit the two-octet
  length field. This holds for any stored octets, malformed trailing attributes included.
\<close>

theorem route_monitoring_announces:
  assumes "peer_info_wf peer" and "v_flag_ok peer" and "prefix_ok p"
  shows "case build_route_monitoring pt now peer p pm False of
      None \<Rightarrow> 65535 < announcement_len pm p
    | Some msg \<Rightarrow> announcement_len pm p \<le> 65535 \<and>
        (\<exists>bs. dec_peer_msg msg = Some (0, peer_view pt now peer, bs) \<and> announces pm p bs)"
proof (cases "build_route_monitoring pt now peer p pm False")
  case None
  then have "build_bgp_update p pm False = None"
    by (simp add: build_route_monitoring_def split: option.splits)
  with None show ?thesis using build_bgp_update_None by simp
next
  case (Some msg)
  then obtain bs where bs: "build_bgp_update p pm False = Some bs"
    "dec_peer_msg msg = Some (0, peer_view pt now peer, bs)"
    using announces_message [OF assms] by blast
  moreover have "announcement_len pm p \<le> 65535" using build_bgp_update_None [of p pm] bs by simp
  ultimately show ?thesis using Some build_bgp_update_announces(1) [OF assms(3)] by auto
qed

definition sample_peer_info :: peer_info where
  "sample_peer_info = from_ingress_info (sample_peer\<lparr>ii_peer_rib_type := Some OutPost\<rparr>)"

lemma sample_peer_info_ok: "peer_info_wf sample_peer_info" "v_flag_ok sample_peer_info"
  unfolding sample_peer_info_def
  by (rule from_ingress_info_ok, simp add: sample_peer_def ingress_info_new_def)+

definition sample_v6 :: prefix where
  "sample_v6 = \<lparr>pfx_addr = V6 (0x20010DB8 * 2 ^ 96), pfx_len = 32\<rparr>"

lemma sample_v6_ok: "prefix_ok sample_v6"
proof -
  have "unat (0x20010DB8 * 2 ^ 96 :: u128) = 0x20010DB8 * 2 ^ 96" by simp
  then show ?thesis by (simp add: prefix_ok_def sample_v6_def addr_bits_def)
qed

theorem route_monitoring_announces_witness:
  "case build_route_monitoring (\<lambda>_. 0) (1, 2) sample_peer_info sample_v6 (pa_map_new (True, [0x40, 1, 1, 0])) False of
      None \<Rightarrow> False
    | Some msg \<Rightarrow>
        (\<exists>bs. dec_peer_msg msg = Some (0, peer_view (\<lambda>_. 0) (1, 2) sample_peer_info, bs) \<and>
          announces (pa_map_new (True, [0x40, 1, 1, 0])) sample_v6 bs)"
proof -
  let ?pm = "pa_map_new (True, [0x40, 1, 1, 0])"
  have r: "route_attrs ?pm = [(0x40, 1, [0])]"
    by (simp add: route_attrs_def blob_attrs_def pa_map_new_def dec_attr_def ext_len_def take_exact_def
        eval_nat_numeral)
  have "\<not> is_v4 sample_v6" by (simp add: is_v4_def sample_v6_def)
  then have "announcement_len ?pm sample_v6 \<le> 65535"
    using length_nlri_le [of sample_v6]
    by (simp add: announcement_len_def r kept_def length_enc_attr ext_len_def next_hop_of_def
        build_mp_reach_nlri_def Let_def)
  then show ?thesis
    using route_monitoring_announces [OF sample_peer_info_ok sample_v6_ok,
        where pt = "\<lambda>_. 0" and now = "(1, 2)" and pm = ?pm]
    by (auto split: option.splits)
qed

text \<open>
  A withdrawal is always sent, and decodes to the peer's header and to a BGP UPDATE that
  withdraws exactly the prefix: in the withdrawn routes field for IPv4, in an MP_UNREACH_NLRI
  attribute for IPv6. The stored attributes play no part in it.
\<close>

lemma route_monitoring_withdraws:
  assumes "peer_info_wf peer" and "v_flag_ok peer" and "prefix_ok p"
  shows "\<exists>msg bs. build_route_monitoring pt now peer p pm True = Some msg \<and>
    dec_peer_msg msg = Some (0, peer_view pt now peer, bs) \<and> withdraws p bs"
proof -
  have b: "build_bgp_update p pm True = Some (build_bgp_update_withdrawal p)"
    by (simp add: build_bgp_update_def)
  then obtain msg where msg: "build_route_monitoring pt now peer p pm True = Some msg"
    by (simp add: build_route_monitoring_def)
  have "withdraws p (build_bgp_update_withdrawal p)"
    using withdrawal_v4 withdrawal_v6 assms(3) by blast
  with msg b announces_message [OF assms msg] show ?thesis by simp
qed

text \<open>
  C28: The per-peer header identifies the peer. Reading it back gives the address, AS number and
  distinguisher of the register entry (their defaults where the entry has none); the V flag is
  set exactly for an IPv6 address, so that the sixteen address octets are read as written; the
  L and O flags tell the pre- and post-policy, in and out variants apart. With the fan-in tag
  the distinguisher is never zero, and a distinguisher that came from upstream is kept.
\<close>

theorem header_identifies_peer:
  assumes "\<forall>d. ii_distinguisher info = Some d \<longrightarrow> length d = 8"
    and "peer = apply_fan_in_distinguisher (fan_in_distinguisher_tag hasher parent) (from_ingress_info info)"
  shows "dec_per_peer (write_per_peer_header pt now [] peer @ rest) = Some (peer_view pt now peer, rest) \<and>
    pp_address (peer_view pt now peer) = unwrap_or (ii_remote_addr info) (V4 0) \<and>
    pp_asn (peer_view pt now peer) = unwrap_or (ii_remote_asn info) 0 \<and>
    pp_distinguisher (peer_view pt now peer) =
      (let rd = unwrap_or (ii_distinguisher info) (replicate 8 0)
       in if rd = replicate 8 0 then fan_in_distinguisher_tag hasher parent else rd) \<and>
    pp_distinguisher (peer_view pt now peer) \<noteq> replicate 8 0 \<and>
    (pp_flags (peer_view pt now peer) AND 0x40 = 0 \<longleftrightarrow>
      ii_peer_rib_type info \<in> {Some InPre, Some OutPre}) \<and>
    (pp_flags (peer_view pt now peer) AND 0x10 = 0 \<longleftrightarrow>
      ii_peer_rib_type info \<notin> {Some OutPre, Some OutPost})"
proof -
  have d: "\<And>x. ii_distinguisher info = Some x \<Longrightarrow> length x = 8" using assms(1) by blast
  have "peer_info_wf peer" and "v_flag_ok peer"
    using assms(2) from_ingress_info_ok [OF d] apply_fan_in_ok fan_in_tag by simp_all
  then have "dec_per_peer (write_per_peer_header pt now [] peer @ rest) = Some (peer_view pt now peer, rest)"
    by (rule dec_per_peer_header)
  then show ?thesis
    unfolding assms(2)
    by (simp add: peer_view_def apply_fan_in_distinguisher_def from_ingress_info_def Let_def
        fan_in_tag_nonzero peer_rib_type_flags_def split: option.split peer_rib_type.split)
qed

theorem header_identifies_peer_witness:
  "dec_per_peer (write_per_peer_header (\<lambda>_. 0) (1, 2) []
      (apply_fan_in_distinguisher (fan_in_distinguisher_tag (\<lambda>_. 0) 7)
        (from_ingress_info (sample_peer\<lparr>ii_peer_rib_type := Some InPre\<rparr>))) @ []) =
    Some (peer_view (\<lambda>_. 0) (1, 2) (apply_fan_in_distinguisher (fan_in_distinguisher_tag (\<lambda>_. 0) 7)
        (from_ingress_info (sample_peer\<lparr>ii_peer_rib_type := Some InPre\<rparr>))), [])"
  using header_identifies_peer [of "sample_peer\<lparr>ii_peer_rib_type := Some InPre\<rparr>" _ "\<lambda>_. 0" 7
      "\<lambda>_. 0" "(1, 2)" "[]"]
  by (simp add: sample_peer_def ingress_info_new_def)

text \<open>The messages that the builders put on a client's stream.\<close>

inductive bmp_message :: "bytes \<Rightarrow> bool" where
  initiation: "14 + length (utf8 name) + length (utf8 descr) < 2 ^ 32 \<Longrightarrow>
    bmp_message (build_initiation_message name descr)"
| termination_msg: "bmp_message build_termination_message"
| peer_up: "peer_info_wf peer \<Longrightarrow> bmp_message (build_peer_up pt now peer gr)"
| peer_down: "peer_info_wf peer \<Longrightarrow> bmp_message (build_peer_down pt now peer)"
| route: "\<lbrakk>peer_info_wf peer; build_route_monitoring pt now peer p pm w = Some m\<rbrakk> \<Longrightarrow> bmp_message m"
| aggregated: "\<lbrakk>peer_info_wf peer; length (build_aggregated_update ps pa nh v4) \<le> 65535\<rbrakk> \<Longrightarrow>
    bmp_message (build_aggregated_route_monitoring pt now peer ps pa nh v4)"
| end_of_rib: "\<lbrakk>peer_info_wf peer; build_end_of_rib_marker af pt now peer fam = Some m\<rbrakk> \<Longrightarrow> bmp_message m"
| statistics: "\<lbrakk>peer_info_wf peer; 48 + length body < 2 ^ 32\<rbrakk> \<Longrightarrow>
    bmp_message (build_statistics_report pt now peer body)"

lemma bmp_message_framed: "bmp_message m \<Longrightarrow> framed m"
proof (induction rule: bmp_message.induct)
  case (route peer pt now p pm w m)
  then obtain bs where bs: "build_bgp_update p pm w = Some bs"
    and m: "m = write_per_peer_header pt now (write_common_header [] 0 (of_nat (6 + 42 + length bs))) peer @ bs"
    by (auto simp: build_route_monitoring_def split: option.splits)
  show ?case
    unfolding m by (rule framed_peer_message) (use route length_update_le [OF bs] in simp_all)
next
  case (aggregated peer ps pa nh v4 pt now)
  then show ?case
    unfolding build_aggregated_route_monitoring_def Let_def
    by (intro framed_peer_message) simp_all
qed (simp_all add: framed_initiation framed_termination framed_peer_up framed_peer_down framed_eor
    framed_statistics)

text \<open>
  The stream that a client receives can be split into messages: for any sequence of messages
  that the builders produce, a reader that takes the version octet and the four-octet length of
  the common header and then that many octets recovers exactly the messages sent, in order.
  Statistics bodies and initiation strings only need to keep the length below \<open>2 ^ 32\<close>.
\<close>

lemma stream_splits_into_messages:
  assumes "list_all bmp_message ms"
  shows "dec_seq dec_frame (concat ms) = Some ms"
proof -
  have "list_all framed ms" using assms bmp_message_framed by (simp add: list_all_iff)
  from frame.dec_seq_enc [OF this] show ?thesis by simp
qed

end
