(* ===== verification/Bmp_Peer_Up.thy ===== *)
theory Bmp_Peer_Up
  imports Bmp_Decode
begin

text \<open>
  Peer Up messages: the two synthetic OPEN messages and the Admin Label TLV that carries the
  upstream router's name and description as JSON. \<open>json_string\<close> and \<open>json_object\<close> are readers
  for the JSON that the label uses, strings with the escapes of RFC 8259 and objects whose
  members are strings; the label reads back to the name and the description.
\<close>

subsection \<open>OPEN messages\<close>

definition capabilities :: "asn \<Rightarrow> bool \<Rightarrow> bool \<Rightarrow> (u8 \<times> bytes) list" where
  "capabilities asn v6 gr =
    [(65, u32_be asn), (1, u16_be 1 @ [0, 1])] @
    (if v6 then [(1, u16_be 2 @ [0, 1])] else []) @
    (if gr then [(64, u16_be 0 @ u16_be 1 @ [1, 0] @ (if v6 then u16_be 2 @ [1, 0] else []))] else [])"

definition open_view :: "asn \<Rightarrow> bool \<Rightarrow> bool \<Rightarrow> bgp_open" where
  "open_view asn v6 gr =
    \<lparr>bo_version = 4, bo_asn = (if asn > 65535 then 23456 else ucast asn), bo_hold_time = 90,
     bo_identifier = replicate 4 0, bo_params = [(2, concat (map enc_cap (capabilities asn v6 gr)))]\<rparr>"

lemma open_capabilities_enc: "open_capabilities asn v6 gr = concat (map enc_cap (capabilities asn v6 gr))"
  by (simp add: open_capabilities_def capabilities_def enc_cap_def)

lemma capabilities_ok: "list_all (\<lambda>cv. length (snd cv) < 256) (capabilities asn v6 gr)"
  by (simp add: capabilities_def)

lemma open_caps_view: "open_caps (open_view asn v6 gr) = Some (capabilities asn v6 gr)"
  using cap.dec_seq_enc [OF capabilities_ok] by (simp add: open_caps_def open_view_def)

lemma dec_bgp_open:
  "\<exists>body. dec_bgp (build_bgp_open asn v6 gr @ rest) = Some ((1, body), rest) \<and>
    dec_open body = Some (open_view asn v6 gr)"
proof -
  define caps where "caps = open_capabilities asn v6 gr"
  define two where "two = (if asn > 65535 then 23456 else ucast asn :: u16)"
  let ?opt = "[2, of_nat (length caps)] @ caps"
  let ?h = "[4] @ u16_be two @ u16_be 90 @ replicate 4 0 @ [of_nat (length ?opt)]"
  let ?body = "?h @ ?opt"
  let ?n = "19 + (10 + length ?opt)"
  have lc: "length caps \<le> 30" unfolding caps_def by (simp add: length_open_capabilities)
  have b: "build_bgp_open asn v6 gr = BGP_MARKER @ u16_be (of_nat ?n) @ [1] @ ?body"
    by (simp add: build_bgp_open_def caps_def two_def Let_def)
  have "dec_bgp (BGP_MARKER @ u16_be (of_nat ?n) @ [1] @ ?body @ rest) = Some ((1, ?body), rest)"
    by (rule dec_bgp_build) (use lc in simp_all)
  then have 1: "dec_bgp (build_bgp_open asn v6 gr @ rest) = Some ((1, ?body), rest)"
    unfolding b by simp
  have "?opt = enc_cap (2, caps)" by (simp add: enc_cap_def)
  then have ps: "dec_seq dec_cap ?opt = Some [(2, caps)]"
    using cap.dec_seq_one [of "(2, caps)"] lc by simp
  have "take_exact 10 ?body = Some (?h, ?opt)" by (rule take_exact_append) simp
  moreover have "?h ! 9 = of_nat (length ?opt)" and "?h ! 0 = 4" and "take 2 (drop 1 ?h) = u16_be two"
    and "take 2 (drop 3 ?h) = u16_be 90" and "take 4 (drop 5 ?h) = replicate 4 0"
    by (simp_all add: nth_append nth_Cons' numeral_eq_Suc)
  moreover have "unat (of_nat (length ?opt) :: u8) = length ?opt"
    by (rule unat_of_nat_small) (use lc in simp)
  ultimately have "dec_open ?body = Some (open_view asn v6 gr)"
    using ps unfolding dec_open_def
    by (simp add: open_view_def caps_def open_capabilities_enc two_def)
  with 1 show ?thesis by blast
qed

subsection \<open>Peer Up\<close>

definition dec_peer_up ::
  "bytes \<Rightarrow> (bytes \<times> nat \<times> nat \<times> bgp_open \<times> bgp_open \<times> (u16 \<times> bytes) list) option" where
  "dec_peer_up body =
    (case take_exact 16 body of None \<Rightarrow> None
     | Some (addr, b1) \<Rightarrow> (case dec_num 2 b1 of None \<Rightarrow> None
     | Some (lport, b2) \<Rightarrow> (case dec_num 2 b2 of None \<Rightarrow> None
     | Some (rport, b3) \<Rightarrow> (case dec_bgp b3 of None \<Rightarrow> None
     | Some ((t1, o1), b4) \<Rightarrow> (case dec_bgp b4 of None \<Rightarrow> None
     | Some ((t2, o2), b5) \<Rightarrow>
        (if t1 = BGP_MSG_OPEN \<and> t2 = BGP_MSG_OPEN
         then (case (dec_open o1, dec_open o2, dec_seq dec_tlv b5) of
             (Some v1, Some v2, Some tlvs) \<Rightarrow> Some (addr, lport, rport, v1, v2, tlvs)
           | _ \<Rightarrow> None)
         else None))))))"

definition admin_label_tlvs :: "ustr option \<Rightarrow> (u16 \<times> bytes) list" where
  "admin_label_tlvs label =
    (case label of
      Some l \<Rightarrow> if length (utf8 l) \<le> 65535 then [(4, utf8 l)] else []
    | None \<Rightarrow> [])"

lemma dec_admin_label: "dec_seq dec_tlv (concat (map enc_tlv (admin_label_tlvs label))) = Some (admin_label_tlvs label)"
  by (rule tlv.dec_seq_enc) (simp add: admin_label_tlvs_def split: option.split)

lemma build_peer_up_parts:
  "build_peer_up pt now p gr =
    (let opn = build_bgp_open (pi_peer_asn p) True gr;
         tlvs = concat (map enc_tlv (admin_label_tlvs (pi_admin_label p)));
         body = replicate 16 0 @ u16_be 0 @ u16_be 179 @ opn @ opn @ tlvs
     in write_per_peer_header pt now (write_common_header [] 3 (of_nat (48 + length body))) p @ body)"
  by (auto simp: build_peer_up_def Let_def admin_label_tlvs_def option_filter_def enc_tlv_def
      split: option.split)

text \<open>
  C29: A Peer Up message decodes to the peer's header and to the fields of RFC 7854: a zero local
  address, ports 0 and 179, the sent and the received OPEN and the information TLVs. Both OPENs
  carry version 4, hold time 90, AS_TRANS in place of an AS number above 65535, and the
  capabilities four-octet AS (with the peer's number), multiprotocol IPv4 and IPv6 unicast and,
  when asked for, graceful restart for both families. The only TLV is the Admin Label, left out
  when there is none or when it is longer than a TLV can be.
\<close>

theorem peer_up_roundtrip:
  assumes "peer_info_wf p" and "v_flag_ok p"
  shows "\<exists>body. dec_peer_msg (build_peer_up pt now p gr) = Some (3, peer_view pt now p, body) \<and>
    dec_peer_up body = Some (replicate 16 0, 0, 179, open_view (pi_peer_asn p) True gr,
      open_view (pi_peer_asn p) True gr, admin_label_tlvs (pi_admin_label p)) \<and>
    open_caps (open_view (pi_peer_asn p) True gr) = Some (capabilities (pi_peer_asn p) True gr)"
proof -
  let ?o = "build_bgp_open (pi_peer_asn p) True gr"
  let ?t = "concat (map enc_tlv (admin_label_tlvs (pi_admin_label p)))"
  let ?body = "replicate 16 0 @ u16_be 0 @ u16_be 179 @ ?o @ ?o @ ?t"
  have "length ?t \<le> 65539"
    by (auto simp: admin_label_tlvs_def enc_tlv_def split: option.split)
  then have "48 + length ?body < 4294967296" using length_bgp_open_le [of "pi_peer_asn p" True gr] by simp
  then have "dec_peer_msg (build_peer_up pt now p gr) = Some (3, peer_view pt now p, ?body)"
    unfolding build_peer_up_parts Let_def by (intro dec_peer_message [OF assms]) simp_all
  moreover obtain o1 where "dec_bgp (?o @ ?o @ ?t) = Some ((1, o1), ?o @ ?t)"
    and "dec_open o1 = Some (open_view (pi_peer_asn p) True gr)" using dec_bgp_open by blast
  moreover obtain o2 where "dec_bgp (?o @ ?t) = Some ((1, o2), ?t)"
    and "dec_open o2 = Some (open_view (pi_peer_asn p) True gr)" using dec_bgp_open by blast
  ultimately show ?thesis
    by (auto simp: dec_peer_up_def dec_admin_label open_caps_view)
qed

theorem peer_up_roundtrip_witness:
  "\<exists>body. dec_peer_msg (build_peer_up (\<lambda>_. 0) (1, 2) (sample_peer_info\<lparr>pi_admin_label := Some (str ''r1'')\<rparr>) True) =
      Some (3, peer_view (\<lambda>_. 0) (1, 2) (sample_peer_info\<lparr>pi_admin_label := Some (str ''r1'')\<rparr>), body) \<and>
    dec_peer_up body = Some (replicate 16 0, 0, 179, open_view 65000 True True,
      open_view 65000 True True, [(4, [114, 49])])"
proof -
  let ?p = "sample_peer_info\<lparr>pi_admin_label := Some (str ''r1'')\<rparr>"
  have "peer_info_wf ?p" and "v_flag_ok ?p"
    using sample_peer_info_ok by (simp_all add: peer_info_wf_def v_flag_ok_def)
  note w = peer_up_roundtrip [OF this, of "\<lambda>_. 0" "(1, 2)" True]
  have "pi_peer_asn ?p = 65000"
    by (simp add: sample_peer_info_def from_ingress_info_def sample_peer_def Let_def unwrap_or_def)
  moreover have "admin_label_tlvs (pi_admin_label ?p) = [(4, [114, 49])]"
    by (simp add: admin_label_tlvs_def str_def utf8_def utf8_char_def Let_def)
  ultimately show ?thesis using w by auto
qed

subsection \<open>The Admin Label\<close>

definition hex_val :: "u32 \<Rightarrow> nat option" where
  "hex_val c =
    (if 48 \<le> c \<and> c \<le> 57 then Some (unat c - 48)
     else if 97 \<le> c \<and> c \<le> 102 then Some (unat c - 87)
     else if 65 \<le> c \<and> c \<le> 70 then Some (unat c - 55)
     else None)"

definition hex4_val :: "u32 \<Rightarrow> u32 \<Rightarrow> u32 \<Rightarrow> u32 \<Rightarrow> u32 option" where
  "hex4_val a b c d =
    (case (hex_val a, hex_val b, hex_val c, hex_val d) of
      (Some a, Some b, Some c, Some d) \<Rightarrow> Some (of_nat (a * 4096 + b * 256 + c * 16 + d))
    | _ \<Rightarrow> None)"

definition simple_escape :: "u32 \<Rightarrow> u32 option" where
  "simple_escape e =
    (if e = 34 \<or> e = 92 \<or> e = 47 then Some e
     else if e = 110 then Some 10 else if e = 114 then Some 13 else if e = 116 then Some 9
     else if e = 98 then Some 8 else if e = 102 then Some 12 else None)"

text \<open>The characters up to the closing quote, and what follows it.\<close>

fun json_string :: "ustr \<Rightarrow> (ustr \<times> ustr) option" where
  "json_string [] = None"
| "json_string (c # cs) =
    (if c = 34 then Some ([], cs)
     else if c = 92 then
       (case cs of
         [] \<Rightarrow> None
       | e # cs' \<Rightarrow>
           (if e = 117 then
              (case cs' of
                h1 # h2 # h3 # h4 # rest \<Rightarrow>
                  (case hex4_val h1 h2 h3 h4 of
                    None \<Rightarrow> None
                  | Some x \<Rightarrow> map_option (\<lambda>(s, r). (x # s, r)) (json_string rest))
              | _ \<Rightarrow> None)
            else
              (case simple_escape e of
                None \<Rightarrow> None
              | Some x \<Rightarrow> map_option (\<lambda>(s, r). (x # s, r)) (json_string cs'))))
     else if c < 0x20 then None
     else map_option (\<lambda>(s, r). (c # s, r)) (json_string cs))"

text \<open>An object whose members are strings: pairs of key and value.\<close>

fun json_members :: "nat \<Rightarrow> ustr \<Rightarrow> (ustr \<times> ustr) list option" where
  "json_members 0 cs = None"
| "json_members (Suc n) cs =
    (case cs of
      [] \<Rightarrow> None
    | q # cs1 \<Rightarrow>
      (if q \<noteq> 34 then None
       else case json_string cs1 of
         Some (k, c # q' # cs2) \<Rightarrow>
           (if c = 58 \<and> q' = 34
            then (case json_string cs2 of
                Some (v, e # cs3) \<Rightarrow>
                  (if e = 125 \<and> cs3 = [] then Some [(k, v)]
                   else if e = 44 then map_option (Cons (k, v)) (json_members n cs3)
                   else None)
              | _ \<Rightarrow> None)
            else None)
       | _ \<Rightarrow> None))"

definition json_object :: "ustr \<Rightarrow> (ustr \<times> ustr) list option" where
  "json_object cs = (case cs of c # cs' \<Rightarrow> if c = 123 then json_members (length cs) cs' else None | [] \<Rightarrow> None)"

lemma hex_val_digit: "n < 16 \<Longrightarrow> hex_val (hex_digit n) = Some n"
  by (auto simp: hex_val_def hex_digit_def word_le_nat_alt unat_of_nat)

lemma hex4_val_hex4:
  assumes "unat c < 65536"
  shows "\<exists>h1 h2 h3 h4. hex4 c = [h1, h2, h3, h4] \<and> hex4_val h1 h2 h3 h4 = Some c"
proof -
  let ?n = "unat c"
  have eq: "?n div 4096 mod 16 * 4096 + ?n div 256 mod 16 * 256 + ?n div 16 mod 16 * 16 + ?n mod 16 = ?n"
  proof -
    have "?n div 16 div 16 = ?n div 256" and "?n div 256 div 16 = ?n div 4096"
      and "?n div 4096 mod 16 = ?n div 4096"
      using assms by (simp_all add: div_mult2_eq [symmetric])
    then show ?thesis
      using div_mult_mod_eq [of ?n 16] div_mult_mod_eq [of "?n div 16" 16]
        div_mult_mod_eq [of "?n div 256" 16] by linarith
  qed
  have hv: "hex_val (hex_digit (k mod 16)) = Some (k mod 16)" for k
    by (rule hex_val_digit) simp
  have "hex4_val (hex_digit (?n div 4096 mod 16)) (hex_digit (?n div 256 mod 16))
      (hex_digit (?n div 16 mod 16)) (hex_digit (?n mod 16)) = Some c"
    unfolding hex4_val_def hv prod.case option.case eq by simp
  then show ?thesis by (simp add: hex4_def Let_def)
qed

lemma json_string_escape_char:
  "json_string (escape_json_char c @ cs) = map_option (\<lambda>(s, r). (c # s, r)) (json_string cs)"
proof -
  consider "c \<in> {34, 92, 10, 13, 9}" | "c \<notin> {34, 92, 10, 13, 9}" "is_control c"
    | "c \<notin> {34, 92, 10, 13, 9}" "\<not> is_control c" by blast
  then show ?thesis
  proof cases
    case 1
    then show ?thesis by (auto simp: escape_json_char_def simple_escape_def)
  next
    case 2
    then have "unat c < 65536" by (auto simp: is_control_def word_less_nat_alt word_le_nat_alt)
    from hex4_val_hex4 [OF this] 2 show ?thesis by (auto simp: escape_json_char_def)
  next
    case 3
    then have "\<not> c < 0x20" by (simp add: is_control_def)
    with 3 show ?thesis by (simp add: escape_json_char_def)
  qed
qed

lemma json_string_escape: "json_string (escape_json_string s @ 34 # rest) = Some (s, rest)"
  by (induction s) (simp_all add: escape_json_string_def json_string_escape_char)

lemma json_string_key: "k \<in> {''sysName'', ''sysDescr''} \<Longrightarrow> json_string (str k @ 34 # rest) = Some (str k, rest)"
  by (auto simp: str_def)

lemma json_members_field:
  assumes "k \<in> {''sysName'', ''sysDescr''}"
  shows "json_members (Suc n) (json_field k v @ [125]) = Some [(str k, v)]"
    and "json_members (Suc n) (json_field k v @ 44 # rest) = map_option (Cons (str k, v)) (json_members n rest)"
  using json_string_key [OF assms] json_string_escape [of v]
  by (simp_all add: json_field_def)

text \<open>The names that reach the label: present, not empty, not the upstream's placeholder.\<close>

definition label_members :: "ustr option \<Rightarrow> ustr option \<Rightarrow> (ustr \<times> ustr) list" where
  "label_members name desc =
    (case option_filter (\<lambda>s. s \<noteq> str ''no-sysname'' \<and> s \<noteq> []) name of
      Some n \<Rightarrow> [(str ''sysName'', n)] | None \<Rightarrow> []) @
    (case option_filter (\<lambda>s. s \<noteq> str ''no-sysdesc'' \<and> s \<noteq> []) desc of
      Some d \<Rightarrow> [(str ''sysDescr'', d)] | None \<Rightarrow> [])"

text \<open>
  C30: The Admin Label is JSON that reads back to the router's name and description, whatever
  characters they contain: quotes, backslashes and control characters are escaped. Absent, empty
  and placeholder values are left out, and there is no label when both are.
\<close>

theorem admin_label_roundtrip:
  "case build_admin_label_json name desc of
    Some label \<Rightarrow> json_object label = Some (label_members name desc)
  | None \<Rightarrow> label_members name desc = []"
proof -
  define n where "n = option_filter (\<lambda>s. s \<noteq> str ''no-sysname'' \<and> s \<noteq> []) name"
  define d where "d = option_filter (\<lambda>s. s \<noteq> str ''no-sysdesc'' \<and> s \<noteq> []) desc"
  have two: "json_members (Suc (Suc k)) (json_field ''sysName'' x @ 44 # json_field ''sysDescr'' y @ [125]) =
      Some [(str ''sysName'', x), (str ''sysDescr'', y)]" for k x y
    by (simp del: json_members.simps add: json_members_field)
  have len: "\<exists>k. length (json_field a x) = Suc k" for a x by (simp add: json_field_def)
  show ?thesis
    unfolding build_admin_label_json_def label_members_def n_def [symmetric] d_def [symmetric] Let_def
    using len
    by (cases n; cases d)
      (simp_all del: json_members.simps add: json_object_def json_members_field two)
qed

end
