(* ===== verification/Route_Aggregator.thy ===== *)
theory Route_Aggregator
  imports Bmp_Peer_Up
begin

text \<open>
  The aggregator of the initial dump (\<open>AggGroup\<close> and \<open>RouteAggregator\<close> in
  src/units/bmp_tcp_out/bmp_builder.rs): prefixes of a peer that share a family and an attribute
  set are packed into one BGP UPDATE.

  The sink closure of the code is \<open>env_send\<close> of an environment \<open>'k env\<close> whose state \<open>'k\<close> is
  threaded through every operation; the clock that the per-peer headers read is \<open>env_now\<close> of
  that state. \<open>usize\<close> subtractions use \<open>usize_sub\<close>, so that the accounting lemmas have to show
  that they do not wrap. The two iterations over the hash map of groups take its order as an
  argument; ties of the unstable sort in \<open>evict_until_under_budget\<close> are resolved by that order.

  The lemmas give the invariant \<open>agg_wf\<close> (the accounting is the sum of the groups' costs, every
  open group fits an UPDATE of 4096 octets, groups sit under the key of their peer, family and
  attributes), the memory bound, and that every added route is emitted exactly once.
\<close>

subsection \<open>Model\<close>

record 'k env =
  env_pt :: "peer_type \<Rightarrow> u8"
  env_hasher :: hasher
  env_now :: "'k \<Rightarrow> timestamp"
  env_send :: "'k \<Rightarrow> bytes \<Rightarrow> nat \<Rightarrow> bool \<times> 'k"

record agg_group =
  ag_raw :: bytes
  ag_is_v4 :: bool
  ag_prefixes :: "prefix list"
  ag_nlri_total :: nat
  ag_base_len :: nat

type_synonym agg_key = "ingress_id \<times> bool \<times> u64"

record route_aggregator =
  agg_groups :: "(agg_key, agg_group) hmap"
  agg_peer_info :: "(ingress_id, peer_info) hmap"
  agg_buffered_bytes :: nat
  agg_max_bytes :: nat
  agg_groups_created :: nat
  agg_budget_evictions :: nat

abbreviation (input) AGG_MEM_PER_PREFIX :: nat where "AGG_MEM_PER_PREFIX \<equiv> 32"
abbreviation (input) AGG_MEM_PER_GROUP :: nat where "AGG_MEM_PER_GROUP \<equiv> 128"

definition hash_pa_blob :: "hasher \<Rightarrow> bytes \<Rightarrow> u64" where
  "hash_pa_blob hasher blob = hasher [HashUsize (length blob), HashBytes blob]"

definition agg_group_new :: "rotonda_pa_map \<Rightarrow> bool \<Rightarrow> agg_group" where
  "agg_group_new pamap v4 =
    (let (pa_bytes, next_hop_opt) = filter_raw_path_attributes pamap;
         base_len =
           (if v4 then 19 + 2 + 2 + length pa_bytes
            else
              (let nh_len = (case next_hop_opt of Some n \<Rightarrow> length n | None \<Rightarrow> 16)
               in 19 + 2 + 2 + length pa_bytes + 4 + (2 + 1 + 1 + nh_len + 1)))
     in \<lparr>ag_raw = pm_raw pamap, ag_is_v4 = v4, ag_prefixes = [], ag_nlri_total = 0,
         ag_base_len = base_len\<rparr>)"

definition ag_blob :: "agg_group \<Rightarrow> bytes" where
  "ag_blob g = drop 2 (ag_raw g)"

definition ag_is_empty :: "agg_group \<Rightarrow> bool" where
  "ag_is_empty g = (ag_prefixes g = [])"

definition ag_bgp_update_len :: "agg_group \<Rightarrow> nat" where
  "ag_bgp_update_len g = ag_base_len g + ag_nlri_total g"

definition ag_cost :: "agg_group \<Rightarrow> nat" where
  "ag_cost g = AGG_MEM_PER_GROUP + length (ag_prefixes g) * AGG_MEM_PER_PREFIX"

definition ag_push :: "prefix \<Rightarrow> nat \<Rightarrow> agg_group \<Rightarrow> agg_group" where
  "ag_push p nlri_len g =
    g\<lparr>ag_prefixes := ag_prefixes g @ [p], ag_nlri_total := ag_nlri_total g + nlri_len\<rparr>"

definition ag_reset_prefixes :: "agg_group \<Rightarrow> agg_group" where
  "ag_reset_prefixes g = g\<lparr>ag_prefixes := [], ag_nlri_total := 0\<rparr>"

definition ag_message :: "(peer_type \<Rightarrow> u8) \<Rightarrow> timestamp \<Rightarrow> agg_group \<Rightarrow> peer_info \<Rightarrow> bytes" where
  "ag_message pt now g peer =
    (let (pa_bytes, next_hop) = filter_pa_from_raw (ag_raw g);
         nh = (if ag_is_v4 g then None
               else (case next_hop of Some h \<Rightarrow> Some h | None \<Rightarrow> Some (replicate 16 0)))
     in build_aggregated_route_monitoring pt now peer (ag_prefixes g) pa_bytes nh (ag_is_v4 g))"

definition ag_emit :: "'k env \<Rightarrow> agg_group \<Rightarrow> peer_info \<Rightarrow> 'k \<Rightarrow> bool \<times> 'k" where
  "ag_emit env g peer k =
    (if ag_prefixes g = [] then (True, k)
     else env_send env k (ag_message (env_pt env) (env_now env k) g peer) (length (ag_prefixes g)))"

definition aggregator_new :: "nat \<Rightarrow> (ingress_id, peer_info) hmap \<Rightarrow> route_aggregator" where
  "aggregator_new max_bytes peer_info =
    \<lparr>agg_groups = [], agg_peer_info = peer_info, agg_buffered_bytes = 0,
     agg_max_bytes = max_bytes, agg_groups_created = 0, agg_budget_evictions = 0\<rparr>"

definition agg_has_peer :: "route_aggregator \<Rightarrow> ingress_id \<Rightarrow> bool" where
  "agg_has_peer agg ident = (hm_get (agg_peer_info agg) ident \<noteq> None)"

definition agg_insert_peer :: "ingress_id \<Rightarrow> peer_info \<Rightarrow> route_aggregator \<Rightarrow> route_aggregator" where
  "agg_insert_peer ident info agg =
    agg\<lparr>agg_peer_info := hm_insert ident info (agg_peer_info agg)\<rparr>"

definition agg_stats :: "route_aggregator \<Rightarrow> nat \<times> nat" where
  "agg_stats agg = (agg_groups_created agg, agg_budget_evictions agg)"

type_synonym agg_order = "(agg_key \<times> agg_group) list \<Rightarrow> (agg_key \<times> agg_group) list"

fun evict_loop ::
  "'k env \<Rightarrow> nat \<Rightarrow> agg_key list \<Rightarrow> route_aggregator \<Rightarrow> 'k \<Rightarrow> bool \<times> route_aggregator \<times> 'k" where
  "evict_loop env target [] agg k = (True, agg, k)"
| "evict_loop env target (key # keys) agg k =
    (if agg_buffered_bytes agg \<le> target then (True, agg, k)
     else case hm_get (agg_groups agg) key of
       None \<Rightarrow> evict_loop env target keys agg k
     | Some grp \<Rightarrow>
         (let agg' = agg\<lparr>agg_groups := hm_remove key (agg_groups agg),
               agg_buffered_bytes := usize_sub (agg_buffered_bytes agg) (ag_cost grp),
               agg_budget_evictions := agg_budget_evictions agg + 1\<rparr>
          in case hm_get (agg_peer_info agg') (fst key) of
               None \<Rightarrow> evict_loop env target keys agg' k
             | Some peer \<Rightarrow>
                 (case ag_emit env grp peer k of
                   (False, k') \<Rightarrow> (False, agg', k')
                 | (True, k') \<Rightarrow> evict_loop env target keys agg' k')))"

definition evict_until_under_budget ::
  "agg_order \<Rightarrow> 'k env \<Rightarrow> route_aggregator \<Rightarrow> 'k \<Rightarrow> bool \<times> route_aggregator \<times> 'k" where
  "evict_until_under_budget it env agg k =
    (let keys = sort_key
           (\<lambda>key. - int (case hm_get (agg_groups agg) key of Some g \<Rightarrow> length (ag_prefixes g) | None \<Rightarrow> 0))
           (map fst (iterate it (agg_groups agg)));
         target = agg_max_bytes agg div 2
     in evict_loop env target keys agg k)"

text \<open>The lookup at the head of \<open>add\<close>: the group to extend, or why there is a new one.\<close>

definition agg_take_group ::
  "'k env \<Rightarrow> agg_key \<Rightarrow> bytes \<Rightarrow> rotonda_pa_map \<Rightarrow> peer_info \<Rightarrow> route_aggregator \<Rightarrow> 'k \<Rightarrow>
     agg_group option \<times> route_aggregator \<times> 'k" where
  "agg_take_group env key blob pamap peer agg k =
    (case hm_take key (agg_groups agg) of
      (Some g, groups) \<Rightarrow>
        (if ag_blob g = blob then
           (Some g, agg\<lparr>agg_groups := groups,
              agg_buffered_bytes := usize_sub (agg_buffered_bytes agg) (ag_cost g)\<rparr>, k)
         else
           (let agg' = agg\<lparr>agg_groups := groups,
                 agg_buffered_bytes := usize_sub (agg_buffered_bytes agg) (ag_cost g)\<rparr>
            in case ag_emit env g peer k of
                 (False, k') \<Rightarrow> (None, agg', k')
               | (True, k') \<Rightarrow>
                   (Some (agg_group_new pamap (fst (snd key))),
                    agg'\<lparr>agg_groups_created := agg_groups_created agg' + 1\<rparr>, k')))
    | (None, groups) \<Rightarrow>
        (Some (agg_group_new pamap (fst (snd key))),
         agg\<lparr>agg_groups := groups, agg_groups_created := agg_groups_created agg + 1\<rparr>, k))"

text \<open>The rest of \<open>add\<close>, once the group is in hand.\<close>

definition agg_add_to_group ::
  "agg_order \<Rightarrow> 'k env \<Rightarrow> agg_key \<Rightarrow> peer_info \<Rightarrow> prefix \<Rightarrow> rotonda_pa_map \<Rightarrow> agg_group \<Rightarrow>
     route_aggregator \<Rightarrow> 'k \<Rightarrow> bool \<times> route_aggregator \<times> 'k" where
  "agg_add_to_group it env key peer p pamap grp agg k =
    (let nlri_len = nlri_encoded_len p in
     case (if \<not> ag_is_empty grp \<and> ag_bgp_update_len grp + nlri_len > MAX_BGP_UPDATE_LEN
           then (case ag_emit env grp peer k of
                  (ok, k') \<Rightarrow> (ok, ag_reset_prefixes grp, k'))
           else (True, grp, k)) of
       (False, _, k') \<Rightarrow> (False, agg, k')
     | (True, grp', k') \<Rightarrow>
         (if ag_is_empty grp' \<and> ag_base_len grp' + nlri_len > MAX_BGP_UPDATE_LEN then
            (case build_route_monitoring (env_pt env) (env_now env k') peer p pamap False of
              Some msg \<Rightarrow>
                (case env_send env k' msg 1 of
                  (False, k'') \<Rightarrow> (False, agg, k'')
                | (True, k'') \<Rightarrow> (True, agg, k''))
            | None \<Rightarrow> (True, agg, k'))
          else
            (let grp'' = ag_push p nlri_len grp';
                 agg' = agg\<lparr>agg_buffered_bytes := agg_buffered_bytes agg + ag_cost grp'',
                   agg_groups := hm_insert key grp'' (agg_groups agg)\<rparr>
             in if agg_buffered_bytes agg' > agg_max_bytes agg'
                then evict_until_under_budget it env agg' k'
                else (True, agg', k'))))"

definition agg_add ::
  "agg_order \<Rightarrow> 'k env \<Rightarrow> ingress_id \<Rightarrow> prefix \<Rightarrow> rotonda_pa_map \<Rightarrow> route_aggregator \<Rightarrow> 'k \<Rightarrow>
     bool \<times> route_aggregator \<times> 'k" where
  "agg_add it env ident p pamap agg k =
    (case hm_get (agg_peer_info agg) ident of
      None \<Rightarrow> (True, agg, k)
    | Some peer \<Rightarrow>
        (let v4 = is_v4 p;
             blob = drop 2 (pm_raw pamap);
             key = (ident, v4, hash_pa_blob (env_hasher env) blob)
         in case agg_take_group env key blob pamap peer agg k of
              (None, agg', k') \<Rightarrow> (False, agg', k')
            | (Some grp, agg', k') \<Rightarrow> agg_add_to_group it env key peer p pamap grp agg' k'))"

fun flush_loop ::
  "'k env \<Rightarrow> (agg_key \<times> agg_group) list \<Rightarrow> route_aggregator \<Rightarrow> 'k \<Rightarrow> bool \<times> route_aggregator \<times> 'k" where
  "flush_loop env [] agg k = (True, agg\<lparr>agg_buffered_bytes := 0\<rparr>, k)"
| "flush_loop env ((key, grp) # gs) agg k =
    (case hm_get (agg_peer_info agg) (fst key) of
      None \<Rightarrow> flush_loop env gs agg k
    | Some peer \<Rightarrow>
        (case ag_emit env grp peer k of
          (False, k') \<Rightarrow> (False, agg\<lparr>agg_buffered_bytes := 0\<rparr>, k')
        | (True, k') \<Rightarrow> flush_loop env gs agg k'))"

definition flush_all :: "agg_order \<Rightarrow> 'k env \<Rightarrow> route_aggregator \<Rightarrow> 'k \<Rightarrow> bool \<times> route_aggregator \<times> 'k" where
  "flush_all it env agg k = flush_loop env (iterate it (agg_groups agg)) (agg\<lparr>agg_groups := []\<rparr>) k"

subsection \<open>What a message carries\<close>

text \<open>
  A route as a receiver sees it: the peer's header (without the time stamp), the path
  attributes, the next hop that came with MP_REACH_NLRI, the prefix.
\<close>

type_synonym route_view = "per_peer \<times> attr list \<times> bytes option \<times> prefix"

definition update_routes :: "bgp_update \<Rightarrow> (attr list \<times> bytes option \<times> prefix) list" where
  "update_routes u =
    (if bu_nlri u \<noteq> [] then map (\<lambda>p. (bu_attrs u, None, p)) (bu_nlri u)
     else if bu_attrs u = [] then []
     else (case last (bu_attrs u) of (_, t, v) \<Rightarrow>
       (if t = 14 then
          (case dec_mp_reach True v of
            Some (nh, ps) \<Rightarrow> map (\<lambda>p. (butlast (bu_attrs u), Some nh, p)) ps
          | None \<Rightarrow> [])
        else [])))"

definition msg_routes :: "bytes \<Rightarrow> route_view list" where
  "msg_routes m =
    (case dec_peer_msg m of
      Some (t, h, upd) \<Rightarrow>
        (case dec_bgp_update upd of
          Some u \<Rightarrow> map (\<lambda>r. (h\<lparr>pp_secs := 0, pp_usecs := 0\<rparr>, r)) (update_routes u)
        | None \<Rightarrow> [])
    | None \<Rightarrow> [])"

definition route_view :: "(peer_type \<Rightarrow> u8) \<Rightarrow> peer_info \<Rightarrow> bytes \<Rightarrow> prefix \<Rightarrow> route_view" where
  "route_view pt peer blob p =
    (peer_view pt (0, 0) peer, kept (blob_attrs blob),
     (if is_v4 p then None else Some (default_next_hop (next_hop_of (blob_attrs blob) None))), p)"

lemma peer_view_strip: "(peer_view pt now peer)\<lparr>pp_secs := 0, pp_usecs := 0\<rparr> = peer_view pt (0, 0) peer"
  by (simp add: peer_view_def)

lemma single_route_view:
  assumes "peer_info_wf peer" and "v_flag_ok peer" and "prefix_ok p"
    and "build_route_monitoring pt now peer p pm False = Some msg"
  shows "msg_routes msg = [route_view pt peer (drop 2 (pm_raw pm)) p]"
proof -
  obtain bs where bs: "build_bgp_update p pm False = Some bs"
    "dec_peer_msg msg = Some (0, peer_view pt now peer, bs)"
    using announces_message [OF assms] by blast
  have "announces pm p bs" using build_bgp_update_announces(1) [OF assms(3) bs(1)] .
  then show ?thesis
    using bs(2) unfolding announces_def
    by (auto simp: msg_routes_def update_routes_def route_view_def peer_view_strip route_attrs_def
        split: if_splits)
qed

subsection \<open>Groups\<close>

definition nlri_sum :: "prefix list \<Rightarrow> nat" where
  "nlri_sum ps = sum_list (map nlri_encoded_len ps)"

definition group_ok :: "agg_group \<Rightarrow> bool" where
  "group_ok g \<longleftrightarrow> list_all (family_ok (\<not> ag_is_v4 g)) (ag_prefixes g) \<and>
     ag_nlri_total g = nlri_sum (ag_prefixes g) \<and>
     ag_base_len g = ag_base_len (agg_group_new \<lparr>pm_raw = ag_raw g\<rparr> (ag_is_v4 g)) \<and>
     (ag_prefixes g \<noteq> [] \<longrightarrow> ag_bgp_update_len g \<le> MAX_BGP_UPDATE_LEN)"

definition group_routes :: "(peer_type \<Rightarrow> u8) \<Rightarrow> peer_info \<Rightarrow> agg_group \<Rightarrow> route_view list" where
  "group_routes pt peer g = map (route_view pt peer (ag_blob g)) (ag_prefixes g)"

lemma route_attrs_raw: "route_attrs \<lparr>pm_raw = raw\<rparr> = blob_attrs (drop 2 raw)"
  by (simp add: route_attrs_def)

lemma filter_pa_raw:
  "filter_pa_from_raw raw =
    (concat (map enc_attr (kept (blob_attrs (drop 2 raw)))), next_hop_of (blob_attrs (drop 2 raw)) None)"
  using filter_raw_attrs [of "\<lparr>pm_raw = raw\<rparr>"] by (simp add: filter_raw_path_attributes_def route_attrs_raw)

lemma base_len_eq:
  "ag_base_len (agg_group_new pm v4) =
    (let A = concat (map enc_attr (kept (route_attrs pm)))
     in if v4 then 23 + length A
        else 23 + length A + 4 + (5 + length (default_next_hop (next_hop_of (route_attrs pm) None))))"
  by (simp add: agg_group_new_def filter_raw_attrs Let_def default_next_hop_def split: option.split)

lemma length_nlri_sum:
  "list_all (family_ok v6) ps \<Longrightarrow> length (concat (map encode_prefix_nlri ps)) = nlri_sum ps"
  by (induction ps) (simp_all add: nlri_sum_def length_encode_prefix_nlri family_ok_def)

lemma group_new_ok: "group_ok (agg_group_new pm v4)"
  by (simp add: group_ok_def agg_group_new_def nlri_sum_def Let_def filter_raw_path_attributes_def
      split: prod.split)

lemma group_new_simps [simp]:
  "ag_raw (agg_group_new pm v4) = pm_raw pm" "ag_is_v4 (agg_group_new pm v4) = v4"
  "ag_prefixes (agg_group_new pm v4) = []" "ag_blob (agg_group_new pm v4) = drop 2 (pm_raw pm)"
  by (simp_all add: agg_group_new_def ag_blob_def Let_def split: prod.split)

text \<open>The message of a group has the length the group accounts for, and carries its routes.\<close>

lemma aggregated_v4:
  assumes "list_all attr_ok as" and "list_all (family_ok False) ps"
    and "23 + length (concat (map enc_attr as)) + nlri_sum ps \<le> 65535"
  shows "length (build_aggregated_update ps (concat (map enc_attr as)) nh True) =
      23 + length (concat (map enc_attr as)) + nlri_sum ps \<and>
    dec_bgp_update (build_aggregated_update ps (concat (map enc_attr as)) nh True) =
      Some \<lparr>bu_withdrawn = [], bu_attrs = as, bu_nlri = ps\<rparr>"
proof -
  let ?A = "concat (map enc_attr as)" and ?N = "concat (map encode_prefix_nlri ps)"
  let ?n = "19 + (2 + 2 + length ?A + length ?N)"
  have b: "build_aggregated_update ps ?A nh True =
      BGP_MARKER @ u16_be (of_nat ?n) @ [2] @ u16_be 0 @ u16_be (of_nat (length ?A)) @ ?A @ ?N"
    by (simp add: build_aggregated_update_def fold_append_nlri Let_def)
  show ?thesis
    unfolding b using dec_announcement [OF assms(1,2) refl refl, of ?n] length_nlri_sum [OF assms(2)] assms(3)
    by simp
qed

lemma aggregated_v6:
  assumes "list_all attr_ok as" and "list_all (family_ok True) ps" and "length h < 256"
    and "32 + length (concat (map enc_attr as)) + length h + nlri_sum ps \<le> 65535"
  shows "length (build_aggregated_update ps (concat (map enc_attr as)) (Some h) False) =
      32 + length (concat (map enc_attr as)) + length h + nlri_sum ps \<and>
    dec_bgp_update (build_aggregated_update ps (concat (map enc_attr as)) (Some h) False) =
      Some \<lparr>bu_withdrawn = [], bu_attrs = as @ [(0x90, 14, mp_reach_value True h ps)], bu_nlri = []\<rparr>"
proof -
  let ?v = "mp_reach_value True h ps"
  let ?as = "as @ [(0x90, 14, ?v)]"
  let ?A = "concat (map enc_attr ?as)"
  have v: "length ?v = 5 + length h + nlri_sum ps"
    using length_nlri_sum [OF assms(2)] by (simp add: mp_reach_value_def)
  have A: "length ?A = length (concat (map enc_attr as)) + (4 + length ?v)"
    by (simp add: length_enc_attr)
  let ?n = "19 + (2 + 2 + length ?A + length ([] :: bytes))"
  have b: "build_aggregated_update ps (concat (map enc_attr as)) (Some h) False =
      BGP_MARKER @ u16_be (of_nat ?n) @ [2] @ u16_be 0 @ u16_be (of_nat (length ?A)) @ ?A @ []"
    by (simp add: build_aggregated_update_def fold_append_nlri Let_def enc_attr_def mp_reach_value_def)
  have "list_all attr_ok ?as" using assms(1,4) v by (simp add: attr_ok_def)
  then show ?thesis
    unfolding b using dec_announcement [of ?as "[]" ?A "[]" ?n] assms(4) v A by simp
qed

lemma ag_message_eq:
  "ag_message pt now g peer =
    (let upd = build_aggregated_update (ag_prefixes g) (concat (map enc_attr (kept (blob_attrs (ag_blob g)))))
       (if ag_is_v4 g then None else Some (default_next_hop (next_hop_of (blob_attrs (ag_blob g)) None)))
       (ag_is_v4 g)
     in write_per_peer_header pt now (write_common_header [] 0 (of_nat (6 + 42 + length upd))) peer @ upd)"
  by (simp add: ag_message_def filter_pa_raw build_aggregated_route_monitoring_def Let_def ag_blob_def
      default_next_hop_def split: option.split)

lemma attrs_ok_blob: "list_all attr_ok (kept (blob_attrs blob))"
  using list_all_kept route_attrs_split [of "\<lparr>pm_raw = 0 # 0 # blob\<rparr>"]
  by (simp add: route_attrs_def)

lemma group_update:
  assumes "group_ok g" and "ag_prefixes g \<noteq> []"
    and "upd = build_aggregated_update (ag_prefixes g) (concat (map enc_attr (kept (blob_attrs (ag_blob g)))))
      (if ag_is_v4 g then None else Some (default_next_hop (next_hop_of (blob_attrs (ag_blob g)) None)))
      (ag_is_v4 g)"
  shows "length upd = ag_bgp_update_len g \<and> length upd \<le> 4096 \<and>
    (\<exists>u. dec_bgp_update upd = Some u \<and> update_routes u =
      map (\<lambda>p. (kept (blob_attrs (ag_blob g)),
        (if is_v4 p then None else Some (default_next_hop (next_hop_of (blob_attrs (ag_blob g)) None))), p))
        (ag_prefixes g))"
proof -
  let ?as = "kept (blob_attrs (ag_blob g))"
  let ?nh = "default_next_hop (next_hop_of (blob_attrs (ag_blob g)) None)"
  let ?ps = "ag_prefixes g"
  have le: "ag_bgp_update_len g \<le> 4096" and fam: "list_all (family_ok (\<not> ag_is_v4 g)) ?ps"
    and tot: "ag_nlri_total g = nlri_sum ?ps"
    and base: "ag_base_len g = ag_base_len (agg_group_new \<lparr>pm_raw = ag_raw g\<rparr> (ag_is_v4 g))"
    using assms(1,2) by (auto simp: group_ok_def)
  have h: "length ?nh < 256" by (rule default_next_hop_length)
  show ?thesis
  proof (cases "ag_is_v4 g")
    case True
    have l: "ag_bgp_update_len g = 23 + length (concat (map enc_attr ?as)) + nlri_sum ?ps"
      using True tot base by (simp add: ag_bgp_update_len_def base_len_eq route_attrs_raw ag_blob_def)
    have "\<forall>p \<in> set ?ps. is_v4 p"
      using fam True by (simp add: list_all_iff family_ok_def is_v4_def)
    then have "map (\<lambda>p. (?as, None, p)) ?ps = map (\<lambda>p. (?as, (if is_v4 p then None else Some ?nh), p)) ?ps"
      by simp
    with aggregated_v4 [OF attrs_ok_blob, of ?ps "ag_blob g" None] True fam l le assms(2,3) show ?thesis
      by (simp add: update_routes_def)
  next
    case False
    have l: "ag_bgp_update_len g = 32 + length (concat (map enc_attr ?as)) + length ?nh + nlri_sum ?ps"
      using False tot base by (simp add: ag_bgp_update_len_def base_len_eq route_attrs_raw ag_blob_def)
    have "\<forall>p \<in> set ?ps. \<not> is_v4 p"
      using fam False by (simp add: list_all_iff family_ok_def is_v4_def)
    then have "map (\<lambda>p. (?as, Some ?nh, p)) ?ps = map (\<lambda>p. (?as, (if is_v4 p then None else Some ?nh), p)) ?ps"
      by simp
    with aggregated_v6 [OF attrs_ok_blob _ h, of ?ps "ag_blob g"] dec_mp_reach_value [OF h, of True ?ps]
      False fam l le assms(3) show ?thesis
      by (simp add: update_routes_def)
  qed
qed

lemma group_message:
  assumes "group_ok g" and "ag_prefixes g \<noteq> []" and "peer_info_wf peer" and "v_flag_ok peer"
  shows "bmp_message (ag_message pt now g peer) \<and>
    (\<exists>upd. dec_peer_msg (ag_message pt now g peer) = Some (0, peer_view pt now peer, upd) \<and>
      length upd = ag_bgp_update_len g) \<and>
    msg_routes (ag_message pt now g peer) = group_routes pt peer g"
proof -
  define upd where "upd = build_aggregated_update (ag_prefixes g) (concat (map enc_attr (kept (blob_attrs (ag_blob g)))))
      (if ag_is_v4 g then None else Some (default_next_hop (next_hop_of (blob_attrs (ag_blob g)) None)))
      (ag_is_v4 g)"
  from group_update [OF assms(1,2) upd_def] obtain u where
    l: "length upd = ag_bgp_update_len g" "length upd \<le> 4096" and u: "dec_bgp_update upd = Some u"
    "update_routes u = map (\<lambda>p. (kept (blob_attrs (ag_blob g)),
        (if is_v4 p then None else Some (default_next_hop (next_hop_of (blob_attrs (ag_blob g)) None))), p))
        (ag_prefixes g)"
    by blast
  have d: "dec_peer_msg (ag_message pt now g peer) = Some (0, peer_view pt now peer, upd)"
    unfolding ag_message_eq Let_def upd_def [symmetric]
    by (rule dec_peer_message [OF assms(3,4)]) (use l in simp_all)
  moreover have "bmp_message (ag_message pt now g peer)"
    using bmp_message.aggregated [OF assms(3), of "ag_prefixes g"
        "concat (map enc_attr (kept (blob_attrs (ag_blob g))))"
        "if ag_is_v4 g then None else Some (default_next_hop (next_hop_of (blob_attrs (ag_blob g)) None))"
        "ag_is_v4 g" pt now] l
    by (simp add: ag_message_eq build_aggregated_route_monitoring_def upd_def Let_def)
  ultimately show ?thesis
    using l u by (simp add: msg_routes_def peer_view_strip group_routes_def route_view_def)
qed

subsection \<open>The aggregator's invariant\<close>

definition peers_ok :: "route_aggregator \<Rightarrow> bool" where
  "peers_ok agg \<longleftrightarrow> (\<forall>ident p. hm_get (agg_peer_info agg) ident = Some p \<longrightarrow> peer_info_wf p \<and> v_flag_ok p)"

definition group_at :: "hasher \<Rightarrow> route_aggregator \<Rightarrow> agg_key \<Rightarrow> agg_group \<Rightarrow> bool" where
  "group_at hasher agg key g \<longleftrightarrow> group_ok g \<and> ag_prefixes g \<noteq> [] \<and>
     key = (fst key, ag_is_v4 g, hash_pa_blob hasher (ag_blob g)) \<and>
     hm_get (agg_peer_info agg) (fst key) \<noteq> None"

definition agg_cost_sum :: "route_aggregator \<Rightarrow> nat" where
  "agg_cost_sum agg = sum_list (map (\<lambda>e. ag_cost (snd e)) (agg_groups agg))"

definition agg_wf :: "hasher \<Rightarrow> route_aggregator \<Rightarrow> bool" where
  "agg_wf hasher agg \<longleftrightarrow> hm_wf (agg_groups agg) \<and> peers_ok agg \<and>
     (\<forall>key g. hm_get (agg_groups agg) key = Some g \<longrightarrow> group_at hasher agg key g) \<and>
     agg_buffered_bytes agg = agg_cost_sum agg"

text \<open>The routes that wait in open groups, and those in a list of messages.\<close>

definition entry_routes :: "(peer_type \<Rightarrow> u8) \<Rightarrow> route_aggregator \<Rightarrow> agg_key \<times> agg_group \<Rightarrow> route_view multiset" where
  "entry_routes pt agg e = mset (group_routes pt (the (hm_get (agg_peer_info agg) (fst (fst e)))) (snd e))"

definition pending :: "(peer_type \<Rightarrow> u8) \<Rightarrow> route_aggregator \<Rightarrow> route_view multiset" where
  "pending pt agg = sum_list (map (entry_routes pt agg) (agg_groups agg))"

definition sent_routes :: "bytes list \<Rightarrow> route_view multiset" where
  "sent_routes ms = sum_list (map (\<lambda>m. mset (msg_routes m)) ms)"

text \<open>\<open>sent k\<close> are the messages a sink in state \<open>k\<close> has accepted.\<close>

definition recording :: "'k env \<Rightarrow> ('k \<Rightarrow> bytes list) \<Rightarrow> bool" where
  "recording env sent \<longleftrightarrow>
    (\<forall>k m n. fst (env_send env k m n) \<longrightarrow> sent (snd (env_send env k m n)) = sent k @ [m])"

text \<open>
  A message of the dump: one UPDATE of at most 4096 octets, or a route on its own whose
  attributes need more.
\<close>

definition dump_message :: "bytes \<Rightarrow> bool" where
  "dump_message m \<longleftrightarrow> bmp_message m \<and>
    (\<exists>h upd. dec_peer_msg m = Some (0, h, upd) \<and>
      (length upd \<le> MAX_BGP_UPDATE_LEN \<or> length upd \<le> 65535 \<and> length (msg_routes m) = 1))"

text \<open>
  What every operation of the aggregator does: it keeps the invariant, and unless the consumer
  is gone the routes in the new messages and in the groups are those that were in the groups
  and \<open>extra\<close>.
\<close>

definition conserves ::
  "'k env \<Rightarrow> ('k \<Rightarrow> bytes list) \<Rightarrow> route_aggregator \<Rightarrow> 'k \<Rightarrow> route_view multiset \<Rightarrow>
     bool \<times> route_aggregator \<times> 'k \<Rightarrow> bool" where
  "conserves env sent agg k extra res \<longleftrightarrow>
    (case res of (ok, agg', k') \<Rightarrow>
      agg_wf (env_hasher env) agg' \<and> agg_peer_info agg' = agg_peer_info agg \<and>
      agg_max_bytes agg' = agg_max_bytes agg \<and>
      (ok \<longrightarrow> (\<exists>new. sent k' = sent k @ new \<and> list_all dump_message new \<and>
        sent_routes new + pending (env_pt env) agg' = pending (env_pt env) agg + extra)))"

lemma sent_routes_append [simp]: "sent_routes (xs @ ys) = sent_routes xs + sent_routes ys"
  by (simp add: sent_routes_def)

lemma sent_routes_simps [simp]: "sent_routes [] = {#}" "sent_routes [m] = mset (msg_routes m)"
  by (simp_all add: sent_routes_def)

lemma conserves_refl: "agg_wf (env_hasher env) agg \<Longrightarrow> conserves env sent agg k {#} (b, agg, k)"
  by (simp add: conserves_def)

lemma conserves_trans:
  assumes "conserves env sent agg k e1 (True, agg1, k1)" and "conserves env sent agg1 k1 e2 res"
  shows "conserves env sent agg k (e1 + e2) res"
proof -
  obtain ok agg' k' where res: "res = (ok, agg', k')" using prod_cases3 by blast
  obtain new1 where n1: "sent k1 = sent k @ new1" "list_all dump_message new1"
    "sent_routes new1 + pending (env_pt env) agg1 = pending (env_pt env) agg + e1"
    using assms(1) by (auto simp: conserves_def)
  have "\<exists>new. sent k' = sent k @ new \<and> list_all dump_message new \<and>
      sent_routes new + pending (env_pt env) agg' = pending (env_pt env) agg + (e1 + e2)" if gone: ok
  proof -
    obtain new2 where n2: "sent k' = sent k1 @ new2" "list_all dump_message new2"
      "sent_routes new2 + pending (env_pt env) agg' = pending (env_pt env) agg1 + e2"
      using assms(2) res gone by (auto simp: conserves_def)
    have "sent_routes (new1 @ new2) + pending (env_pt env) agg' =
        sent_routes new1 + (sent_routes new2 + pending (env_pt env) agg')" by (simp add: ac_simps)
    also have "\<dots> = (sent_routes new1 + pending (env_pt env) agg1) + e2" using n2 by (simp add: ac_simps)
    also have "\<dots> = pending (env_pt env) agg + (e1 + e2)" using n1 by (simp add: ac_simps)
    finally show ?thesis using n1 n2 by (intro exI [of _ "new1 @ new2"]) simp
  qed
  then show ?thesis using assms res by (auto simp: conserves_def)
qed

lemma agg_take_out:
  assumes wf: "agg_wf hasher agg" and g: "hm_get (agg_groups agg) key = Some g"
    and agg': "agg' = agg\<lparr>agg_groups := hm_remove key (agg_groups agg),
      agg_buffered_bytes := usize_sub (agg_buffered_bytes agg) (ag_cost g), agg_budget_evictions := n\<rparr>"
  shows "agg_wf hasher agg'" and "pending pt agg = pending pt agg' + entry_routes pt agg (key, g)"
    and "agg_buffered_bytes agg' = agg_buffered_bytes agg - ag_cost g"
proof -
  have hw: "hm_wf (agg_groups agg)" using wf by (simp add: agg_wf_def)
  have "agg_cost_sum agg = ag_cost g + sum_list (map (\<lambda>e. ag_cost (snd e)) (hm_remove key (agg_groups agg)))"
    using sum_list_hm_remove [OF hw g, of "\<lambda>e. ag_cost (snd e)"] by (simp add: agg_cost_sum_def)
  moreover have "agg_buffered_bytes agg = agg_cost_sum agg" using wf by (simp add: agg_wf_def)
  ultimately have s: "agg_buffered_bytes agg = ag_cost g + agg_cost_sum agg'"
    using agg' by (simp add: agg_cost_sum_def)
  have "agg_buffered_bytes agg' = usize_sub (agg_buffered_bytes agg) (ag_cost g)" using agg' by simp
  with s have b: "agg_buffered_bytes agg' = agg_cost_sum agg'"
    and "agg_buffered_bytes agg' = agg_buffered_bytes agg - ag_cost g"
    by simp_all
  then show "agg_buffered_bytes agg' = agg_buffered_bytes agg - ag_cost g" by blast
  show "agg_wf hasher agg'"
    using wf agg' b by (auto simp: agg_wf_def peers_ok_def group_at_def)
  have "entry_routes pt agg' = entry_routes pt agg" using agg' by (simp add: entry_routes_def fun_eq_iff)
  then show "pending pt agg = pending pt agg' + entry_routes pt agg (key, g)"
    using sum_list_hm_remove [OF hw g, of "entry_routes pt agg"] agg' by (simp add: pending_def)
qed

lemma agg_put_in:
  assumes wf: "agg_wf hasher agg" and "hm_get (agg_groups agg) key = None"
    and "group_at hasher agg key g"
    and agg': "agg' = agg\<lparr>agg_buffered_bytes := agg_buffered_bytes agg + ag_cost g,
      agg_groups := hm_insert key g (agg_groups agg)\<rparr>"
  shows "agg_wf hasher agg'" and "pending pt agg' = pending pt agg + entry_routes pt agg (key, g)"
proof -
  have "agg_buffered_bytes agg' = agg_cost_sum agg'"
    using wf agg' sum_list_hm_insert_new [OF assms(2), of "\<lambda>e. ag_cost (snd e)"]
    by (simp add: agg_wf_def agg_cost_sum_def)
  then show "agg_wf hasher agg'"
    using wf agg' assms(3) by (auto simp: agg_wf_def peers_ok_def group_at_def split: if_splits)
  have "entry_routes pt agg' = entry_routes pt agg" using agg' by (simp add: entry_routes_def fun_eq_iff)
  then show "pending pt agg' = pending pt agg + entry_routes pt agg (key, g)"
    using sum_list_hm_insert_new [OF assms(2), of "entry_routes pt agg"] agg' by (simp add: pending_def)
qed

lemma emit_records:
  assumes "recording env sent" and "group_ok g" and "peer_info_wf peer" and "v_flag_ok peer"
    and "ag_emit env g peer k = (True, k')"
  shows "\<exists>new. sent k' = sent k @ new \<and> list_all dump_message new \<and>
    sent_routes new = mset (group_routes (env_pt env) peer g)"
proof (cases "ag_prefixes g = []")
  case True
  then show ?thesis using assms(5) by (intro exI [of _ "[]"]) (simp add: ag_emit_def group_routes_def)
next
  case False
  let ?m = "ag_message (env_pt env) (env_now env k) g peer"
  have "env_send env k ?m (length (ag_prefixes g)) = (True, k')"
    using assms(5) False by (simp add: ag_emit_def)
  then have "sent k' = sent k @ [?m]" using assms(1) unfolding recording_def by (metis fst_conv snd_conv)
  moreover have "dump_message ?m"
    using group_message [OF assms(2) False assms(3,4), of "env_pt env" "env_now env k"] assms(2) False
    by (auto simp: dump_message_def group_ok_def)
  ultimately show ?thesis using group_message [OF assms(2) False assms(3,4)] by auto
qed

lemma agg_wf_group:
  assumes "agg_wf hasher agg" and "hm_get (agg_groups agg) key = Some g"
  shows "\<exists>peer. hm_get (agg_peer_info agg) (fst key) = Some peer"
    and "group_ok g" and "ag_prefixes g \<noteq> []"
    and "key = (fst key, ag_is_v4 g, hash_pa_blob hasher (ag_blob g))"
proof -
  have "group_at hasher agg key g" using assms unfolding agg_wf_def by blast
  then show "\<exists>peer. hm_get (agg_peer_info agg) (fst key) = Some peer"
    and "group_ok g" and "ag_prefixes g \<noteq> []"
    and "key = (fst key, ag_is_v4 g, hash_pa_blob hasher (ag_blob g))"
    unfolding group_at_def by blast+
qed

lemma agg_wf_peer:
  "\<lbrakk>agg_wf hasher agg; hm_get (agg_peer_info agg) ident = Some peer\<rbrakk> \<Longrightarrow>
    peer_info_wf peer \<and> v_flag_ok peer"
  unfolding agg_wf_def peers_ok_def by blast

text \<open>A group that leaves the map and is emitted.\<close>

lemma conserves_emit:
  assumes rec: "recording env sent" and wf: "agg_wf (env_hasher env) agg"
    and g: "hm_get (agg_groups agg) key = Some g" and peer: "hm_get (agg_peer_info agg) (fst key) = Some peer"
    and agg': "agg' = agg\<lparr>agg_groups := hm_remove key (agg_groups agg),
      agg_buffered_bytes := usize_sub (agg_buffered_bytes agg) (ag_cost g), agg_budget_evictions := n\<rparr>"
    and e: "ag_emit env g peer k = (ok, k')"
  shows "conserves env sent agg k {#} (ok, agg', k')"
proof -
  note out = agg_take_out [OF wf g agg']
  have same: "agg_peer_info agg' = agg_peer_info agg \<and> agg_max_bytes agg' = agg_max_bytes agg"
    using agg' by simp
  have "\<exists>new. sent k' = sent k @ new \<and> list_all dump_message new \<and>
      sent_routes new + pending (env_pt env) agg' = pending (env_pt env) agg" if t: ok
  proof -
    obtain new where new: "sent k' = sent k @ new" "list_all dump_message new"
      "sent_routes new = mset (group_routes (env_pt env) peer g)"
      using emit_records [OF rec agg_wf_group(2) [OF wf g], of peer k k'] agg_wf_peer [OF wf peer] e t
      by auto
    moreover have "entry_routes (env_pt env) agg (key, g) = mset (group_routes (env_pt env) peer g)"
      using peer by (simp add: entry_routes_def)
    ultimately show ?thesis using out(2) [of "env_pt env"] by (metis add.commute)
  qed
  with out(1) same show ?thesis by (simp add: conserves_def)
qed

lemma evict_loop_conserves:
  assumes "recording env sent" and "agg_wf (env_hasher env) agg"
  shows "conserves env sent agg k {#} (evict_loop env target keys agg k)"
  using assms(2)
proof (induction keys arbitrary: agg k)
  case Nil
  then show ?case by (simp add: conserves_refl)
next
  case (Cons key keys)
  show ?case
  proof (cases "agg_buffered_bytes agg \<le> target")
    case True
    then show ?thesis using Cons.prems by (simp add: conserves_refl)
  next
    case big: False
    show ?thesis
    proof (cases "hm_get (agg_groups agg) key")
      case None
      then show ?thesis using big Cons by simp
    next
      case (Some g)
      obtain peer where peer: "hm_get (agg_peer_info agg) (fst key) = Some peer"
        using agg_wf_group(1) [OF Cons.prems Some] by blast
      let ?agg = "agg\<lparr>agg_groups := hm_remove key (agg_groups agg),
        agg_buffered_bytes := usize_sub (agg_buffered_bytes agg) (ag_cost g),
        agg_budget_evictions := agg_budget_evictions agg + 1\<rparr>"
      obtain ok k' where e: "ag_emit env g peer k = (ok, k')" by force
      have c: "conserves env sent agg k {#} (ok, ?agg, k')"
        by (rule conserves_emit [OF assms(1) Cons.prems Some peer refl e])
      then have "agg_wf (env_hasher env) ?agg" by (simp add: conserves_def)
      from conserves_trans [OF _ Cons.IH [OF this, of k'], of agg k "{#}"] c
      show ?thesis using big Some peer e by (cases ok) (simp_all add: Let_def)
    qed
  qed
qed

lemma hm_get_all_None:
  assumes "\<And>k. hm_get m k = None"
  shows "m = []"
proof (cases m)
  case (Cons e m')
  then have "hm_get m (fst e) = Some (snd e)" by (simp add: hm_get_def)
  then show ?thesis using assms by simp
qed

text \<open>Evicting every group of the map in turn brings the total under the target.\<close>

lemma evict_loop_budget:
  assumes "agg_wf (env_hasher env) agg" and "evict_loop env target keys agg k = (True, agg', k')"
    and "recording env sent"
    and "\<forall>key. hm_get (agg_groups agg) key \<noteq> None \<longrightarrow> key \<in> set keys"
  shows "agg_buffered_bytes agg' \<le> target"
  using assms
proof (induction keys arbitrary: agg k)
  case Nil
  then have "\<And>key. hm_get (agg_groups agg) key = None" by auto
  then have "agg_groups agg = []" by (rule hm_get_all_None)
  with Nil show ?case by (simp add: agg_wf_def agg_cost_sum_def)
next
  case (Cons key keys)
  show ?case
  proof (cases "agg_buffered_bytes agg \<le> target")
    case True
    then show ?thesis using Cons.prems(2) by simp
  next
    case big: False
    show ?thesis
    proof (cases "hm_get (agg_groups agg) key")
      case None
      then have r: "evict_loop env target keys agg k = (True, agg', k')"
        using Cons.prems(2) big by simp
      have "\<forall>key'. hm_get (agg_groups agg) key' \<noteq> None \<longrightarrow> key' \<in> set keys"
        using Cons.prems(4) None by (metis set_ConsD)
      from Cons.IH [OF Cons.prems(1) r Cons.prems(3) this] show ?thesis .
    next
      case (Some g)
      obtain peer where peer: "hm_get (agg_peer_info agg) (fst key) = Some peer"
        using agg_wf_group(1) [OF Cons.prems(1) Some] by blast
      let ?agg = "agg\<lparr>agg_groups := hm_remove key (agg_groups agg),
        agg_buffered_bytes := usize_sub (agg_buffered_bytes agg) (ag_cost g),
        agg_budget_evictions := agg_budget_evictions agg + 1\<rparr>"
      obtain ok k1 where e: "ag_emit env g peer k = (ok, k1)" by force
      have wf: "agg_wf (env_hasher env) ?agg" by (rule agg_take_out(1) [OF Cons.prems(1) Some refl])
      have ok: "ok" and r: "evict_loop env target keys ?agg k1 = (True, agg', k')"
        using Cons.prems(2) big Some peer e by (cases ok; simp add: Let_def)+
      have "\<forall>key'. hm_get (hm_remove key (agg_groups agg)) key' \<noteq> None \<longrightarrow> key' \<in> set keys"
        using Cons.prems(4) hm_get_remove by (metis set_ConsD)
      then have "\<forall>key'. hm_get (agg_groups ?agg) key' \<noteq> None \<longrightarrow> key' \<in> set keys" by simp
      from Cons.IH [OF wf r Cons.prems(3) this] show ?thesis .
    qed
  qed
qed

lemma evict_until_conserves:
  "\<lbrakk>recording env sent; agg_wf (env_hasher env) agg\<rbrakk> \<Longrightarrow>
    conserves env sent agg k {#} (evict_until_under_budget it env agg k)"
  unfolding evict_until_under_budget_def Let_def by (rule evict_loop_conserves)

lemma evict_until_budget:
  assumes "recording env sent" and "agg_wf (env_hasher env) agg"
    and "evict_until_under_budget it env agg k = (True, agg', k')"
  shows "agg_buffered_bytes agg' \<le> agg_max_bytes agg div 2"
proof (rule evict_loop_budget [OF assms(2) _ assms(1)])
  show "evict_loop env (agg_max_bytes agg div 2) (sort_key
      (\<lambda>key. - int (case hm_get (agg_groups agg) key of Some g \<Rightarrow> length (ag_prefixes g) | None \<Rightarrow> 0))
      (map fst (iterate it (agg_groups agg)))) agg k = (True, agg', k')"
    using assms(3) by (simp add: evict_until_under_budget_def Let_def)
  have "(key, g) \<in> set (agg_groups agg)" if "hm_get (agg_groups agg) key = Some g" for key g
    using that by (simp add: hm_get_def map_of_SomeD)
  then show "\<forall>key. hm_get (agg_groups agg) key \<noteq> None \<longrightarrow> key \<in> set (sort_key
      (\<lambda>key. - int (case hm_get (agg_groups agg) key of Some g \<Rightarrow> length (ag_prefixes g) | None \<Rightarrow> 0))
      (map fst (iterate it (agg_groups agg))))"
    by force
qed

subsection \<open>Adding a route\<close>

lemma agg_created_irrelevant [simp]:
  "agg_wf hasher (agg\<lparr>agg_groups_created := n\<rparr>) = agg_wf hasher agg"
  "pending pt (agg\<lparr>agg_groups_created := n\<rparr>) = pending pt agg"
proof -
  have "entry_routes pt (agg\<lparr>agg_groups_created := n\<rparr>) = entry_routes pt agg"
    by (simp add: entry_routes_def fun_eq_iff)
  then show "pending pt (agg\<lparr>agg_groups_created := n\<rparr>) = pending pt agg" by (simp add: pending_def)
qed (simp add: agg_wf_def peers_ok_def group_at_def agg_cost_sum_def)

lemma take_group_spec:
  assumes rec: "recording env sent" and wf: "agg_wf (env_hasher env) agg"
    and peer: "hm_get (agg_peer_info agg) (fst key) = Some peer"
    and blob: "blob = drop 2 (pm_raw pm)"
    and t: "agg_take_group env key blob pm peer agg k = (res, agg1, k1)"
  shows "agg_wf (env_hasher env) agg1 \<and> agg_peer_info agg1 = agg_peer_info agg \<and>
    agg_max_bytes agg1 = agg_max_bytes agg \<and> hm_get (agg_groups agg1) key = None \<and>
    agg_buffered_bytes agg1 \<le> agg_buffered_bytes agg \<and>
    (\<forall>g. res = Some g \<longrightarrow> group_ok g \<and> ag_blob g = blob \<and> ag_is_v4 g = fst (snd key) \<and>
      (\<exists>new. sent k1 = sent k @ new \<and> list_all dump_message new \<and>
        sent_routes new + pending (env_pt env) agg1 + mset (group_routes (env_pt env) peer g) =
        pending (env_pt env) agg))"
proof (cases "hm_get (agg_groups agg) key")
  case None
  then have t': "res = Some (agg_group_new pm (fst (snd key)))" "k1 = k"
    "agg1 = agg\<lparr>agg_groups_created := agg_groups_created agg + 1\<rparr>"
    using t by (simp_all add: agg_take_group_def hm_take_def hm_remove_absent)
  have "agg_wf (env_hasher env) agg1" and "pending (env_pt env) agg1 = pending (env_pt env) agg"
    using wf t'(3) by simp_all
  then show ?thesis
    using None t' blob group_new_ok by (auto simp: group_routes_def)
next
  case (Some g)
  define agg' where "agg' = agg\<lparr>agg_groups := hm_remove key (agg_groups agg),
    agg_buffered_bytes := usize_sub (agg_buffered_bytes agg) (ag_cost g),
    agg_budget_evictions := agg_budget_evictions agg\<rparr>"
  note out = agg_take_out [OF wf Some agg'_def]
  have alt: "agg\<lparr>agg_groups := hm_remove key (agg_groups agg),
      agg_buffered_bytes := usize_sub (agg_buffered_bytes agg) (ag_cost g)\<rparr> = agg'"
    by (cases agg) (simp add: agg'_def)
  have er: "entry_routes (env_pt env) agg (key, g) = mset (group_routes (env_pt env) peer g)"
    using peer by (simp add: entry_routes_def)
  show ?thesis
  proof (cases "ag_blob g = blob")
    case True
    then have t': "res = Some g" "agg1 = agg'" "k1 = k"
      using t Some by (simp_all add: agg_take_group_def hm_take_def alt)
    have "ag_is_v4 g = fst (snd key)" using agg_wf_group(4) [OF wf Some] by (metis fst_conv snd_conv)
    then show ?thesis
      using t' out True er agg_wf_group(2) [OF wf Some] by (simp add: agg'_def)
  next
    case False
    obtain ok k' where e: "ag_emit env g peer k = (ok, k')" by force
    note c = conserves_emit [OF rec wf Some peer agg'_def e]
    have a1: "agg1 = (if ok then agg'\<lparr>agg_groups_created := agg_groups_created agg' + 1\<rparr> else agg')"
      "k1 = k'" "res = (if ok then Some (agg_group_new pm (fst (snd key))) else None)"
      using t Some False e by (auto simp: agg_take_group_def hm_take_def alt Let_def split: if_splits bool.splits)
    have same: "agg_wf (env_hasher env) agg1 \<longleftrightarrow> agg_wf (env_hasher env) agg'"
      "pending (env_pt env) agg1 = pending (env_pt env) agg'" "agg_groups agg1 = agg_groups agg'"
      "agg_buffered_bytes agg1 = agg_buffered_bytes agg'" "agg_peer_info agg1 = agg_peer_info agg'"
      "agg_max_bytes agg1 = agg_max_bytes agg'"
      unfolding a1(1) by simp_all
    have "hm_get (agg_groups agg') key = None" by (simp add: agg'_def)
    with c out(1,3) same a1(2,3) blob group_new_ok show ?thesis
      by (auto simp: conserves_def group_routes_def)
  qed
qed

lemma announcement_len_le:
  "prefix_ok p \<Longrightarrow> announcement_len pm p \<le> ag_base_len (agg_group_new pm (is_v4 p)) + nlri_encoded_len p"
  by (simp add: announcement_len_def base_len_eq length_encode_prefix_nlri Let_def build_mp_reach_nlri_def
      default_next_hop_def split: option.split)

lemma base_len_blob: "group_ok g \<Longrightarrow> ag_blob g = drop 2 (pm_raw pm) \<Longrightarrow>
    ag_base_len g = ag_base_len (agg_group_new pm (ag_is_v4 g))"
  unfolding group_ok_def by (simp add: base_len_eq ag_blob_def route_attrs_def Let_def)

lemma group_push_ok:
  assumes "group_ok g" and "family_ok (\<not> ag_is_v4 g) p"
    and "ag_bgp_update_len g + nlri_encoded_len p \<le> 4096"
  shows "group_ok (ag_push p (nlri_encoded_len p) g)"
  using assms by (simp add: group_ok_def ag_push_def nlri_sum_def ag_bgp_update_len_def)

lemma group_reset_ok: "group_ok g \<Longrightarrow> group_ok (ag_reset_prefixes g)"
  by (simp add: group_ok_def ag_reset_prefixes_def nlri_sum_def)

lemma ag_simps [simp]:
  "ag_blob (ag_push p n g) = ag_blob g" "ag_is_v4 (ag_push p n g) = ag_is_v4 g"
  "ag_blob (ag_reset_prefixes g) = ag_blob g" "ag_is_v4 (ag_reset_prefixes g) = ag_is_v4 g"
  "ag_prefixes (ag_push p n g) = ag_prefixes g @ [p]" "ag_prefixes (ag_reset_prefixes g) = []"
  "ag_nlri_total (ag_reset_prefixes g) = 0" "ag_base_len (ag_reset_prefixes g) = ag_base_len g"
  "ag_is_empty (ag_reset_prefixes g)"
  by (simp_all add: ag_push_def ag_reset_prefixes_def ag_blob_def ag_is_empty_def)

definition fitting_route :: "(peer_type \<Rightarrow> u8) \<Rightarrow> peer_info \<Rightarrow> prefix \<Rightarrow> rotonda_pa_map \<Rightarrow> route_view multiset" where
  "fitting_route pt peer p pm =
    (if announcement_len pm p \<le> 65535 then {#route_view pt peer (drop 2 (pm_raw pm)) p#} else {#})"

text \<open>The route goes into the group, or out on its own when no group can hold it.\<close>

lemma place_in_group:
  assumes rec: "recording env sent" and wf: "agg_wf (env_hasher env) agg"
    and none: "hm_get (agg_groups agg) key = None"
    and peer: "hm_get (agg_peer_info agg) (fst key) = Some peer"
    and g: "group_ok g" "ag_blob g = drop 2 (pm_raw pm)" "ag_is_v4 g = is_v4 p"
    and key: "key = (fst key, is_v4 p, hash_pa_blob (env_hasher env) (drop 2 (pm_raw pm)))"
    and p: "prefix_ok p" and fits: "ag_bgp_update_len g + nlri_encoded_len p \<le> 4096"
    and agg': "agg' = agg\<lparr>agg_buffered_bytes := agg_buffered_bytes agg + ag_cost (ag_push p (nlri_encoded_len p) g),
      agg_groups := hm_insert key (ag_push p (nlri_encoded_len p) g) (agg_groups agg)\<rparr>"
  shows "conserves env sent agg k (mset (group_routes (env_pt env) peer g) + fitting_route (env_pt env) peer p pm)
    (True, agg', k)"
proof -
  let ?g = "ag_push p (nlri_encoded_len p) g"
  have "family_ok (\<not> ag_is_v4 g) p" using p g(3) by (simp add: family_ok_def is_v4_def)
  then have "group_ok ?g" by (rule group_push_ok [OF g(1) _ fits])
  then have "group_at (env_hasher env) agg key ?g"
    using peer key g by (simp add: group_at_def)
  note in' = agg_put_in(1) [OF wf none this agg'] agg_put_in(2) [OF wf none this agg', where pt = "env_pt env"]
  have "announcement_len pm p \<le> 4096"
    using announcement_len_le [OF p, of pm] base_len_blob [OF g(1,2)] g(3) fits
    by (simp add: ag_bgp_update_len_def)
  then have "entry_routes (env_pt env) agg (key, ?g) =
      mset (group_routes (env_pt env) peer g) + fitting_route (env_pt env) peer p pm"
    using peer g(2) by (simp add: entry_routes_def group_routes_def fitting_route_def)
  with in' agg' show ?thesis by (auto simp: conserves_def intro: exI [of _ "[]"])
qed

lemma send_single:
  assumes rec: "recording env sent" and wf: "agg_wf (env_hasher env) agg"
    and peer: "hm_get (agg_peer_info agg) ident = Some peer" and p: "prefix_ok p"
  shows "conserves env sent agg k (fitting_route (env_pt env) peer p pm)
    (case build_route_monitoring (env_pt env) (env_now env k) peer p pm False of
      Some msg \<Rightarrow> (case env_send env k msg 1 of (False, k') \<Rightarrow> (False, agg, k') | (True, k') \<Rightarrow> (True, agg, k'))
    | None \<Rightarrow> (True, agg, k))"
proof (cases "build_route_monitoring (env_pt env) (env_now env k) peer p pm False")
  case None
  then have "build_bgp_update p pm False = None"
    by (simp add: build_route_monitoring_def split: option.splits)
  then have "fitting_route (env_pt env) peer p pm = {#}"
    by (simp add: fitting_route_def build_bgp_update_None)
  with None wf show ?thesis by (simp add: conserves_refl)
next
  case (Some msg)
  have pw: "peer_info_wf peer" "v_flag_ok peer" using agg_wf_peer [OF wf peer] by blast+
  have m: "msg_routes msg = [route_view (env_pt env) peer (drop 2 (pm_raw pm)) p]"
    by (rule single_route_view [OF pw p Some])
  have "announcement_len pm p \<le> 65535"
    using Some build_bgp_update_None [of p pm]
    by (auto simp: build_route_monitoring_def split: option.splits)
  then have f: "fitting_route (env_pt env) peer p pm = mset (msg_routes msg)"
    using m by (simp add: fitting_route_def)
  obtain ok k' where s: "env_send env k msg 1 = (ok, k')" by force
  have "ok \<Longrightarrow> sent k' = sent k @ [msg]" using rec s unfolding recording_def by (metis fst_conv snd_conv)
  moreover have "dump_message msg"
    using announces_message [OF pw p Some] length_update_le bmp_message.route [OF pw(1) Some] m
    by (auto simp: dump_message_def)
  ultimately show ?thesis using Some s f wf by (cases ok) (auto simp: conserves_def)
qed

text \<open>The end of \<open>add\<close>: after the group may have been flushed.\<close>

definition agg_finish ::
  "agg_order \<Rightarrow> 'k env \<Rightarrow> agg_key \<Rightarrow> peer_info \<Rightarrow> prefix \<Rightarrow> rotonda_pa_map \<Rightarrow> agg_group \<Rightarrow>
     route_aggregator \<Rightarrow> 'k \<Rightarrow> bool \<times> route_aggregator \<times> 'k" where
  "agg_finish it env key peer p pm g agg k =
    (if ag_is_empty g \<and> ag_base_len g + nlri_encoded_len p > 4096 then
       (case build_route_monitoring (env_pt env) (env_now env k) peer p pm False of
         Some msg \<Rightarrow> (case env_send env k msg 1 of (False, k') \<Rightarrow> (False, agg, k') | (True, k') \<Rightarrow> (True, agg, k'))
       | None \<Rightarrow> (True, agg, k))
     else
       (let g' = ag_push p (nlri_encoded_len p) g;
            agg' = agg\<lparr>agg_buffered_bytes := agg_buffered_bytes agg + ag_cost g',
              agg_groups := hm_insert key g' (agg_groups agg)\<rparr>
        in if agg_buffered_bytes agg' > agg_max_bytes agg'
           then evict_until_under_budget it env agg' k else (True, agg', k)))"

lemma add_to_group_finish:
  "agg_add_to_group it env key peer p pm g agg k =
    (if \<not> ag_is_empty g \<and> ag_bgp_update_len g + nlri_encoded_len p > 4096 then
       (case ag_emit env g peer k of
         (False, k') \<Rightarrow> (False, agg, k')
       | (True, k') \<Rightarrow> agg_finish it env key peer p pm (ag_reset_prefixes g) agg k')
     else agg_finish it env key peer p pm g agg k)"
  by (simp add: agg_add_to_group_def agg_finish_def Let_def split: prod.split bool.split)

lemma finish_conserves:
  assumes rec: "recording env sent" and wf: "agg_wf (env_hasher env) agg"
    and none: "hm_get (agg_groups agg) key = None"
    and peer: "hm_get (agg_peer_info agg) (fst key) = Some peer"
    and g: "group_ok g" "ag_blob g = drop 2 (pm_raw pm)" "ag_is_v4 g = is_v4 p"
    and key: "key = (fst key, is_v4 p, hash_pa_blob (env_hasher env) (drop 2 (pm_raw pm)))"
    and p: "prefix_ok p"
    and room: "ag_prefixes g \<noteq> [] \<Longrightarrow> ag_bgp_update_len g + nlri_encoded_len p \<le> 4096"
  shows "conserves env sent agg k (mset (group_routes (env_pt env) peer g) + fitting_route (env_pt env) peer p pm)
    (agg_finish it env key peer p pm g agg k)"
proof (cases "ag_is_empty g \<and> ag_base_len g + nlri_encoded_len p > 4096")
  case True
  then have "group_routes (env_pt env) peer g = []" by (simp add: ag_is_empty_def group_routes_def)
  with send_single [OF rec wf peer p] True show ?thesis by (simp add: agg_finish_def)
next
  case False
  let ?g = "ag_push p (nlri_encoded_len p) g"
  let ?agg = "agg\<lparr>agg_buffered_bytes := agg_buffered_bytes agg + ag_cost ?g,
    agg_groups := hm_insert key ?g (agg_groups agg)\<rparr>"
  have "ag_prefixes g = [] \<Longrightarrow> ag_bgp_update_len g = ag_base_len g"
    using g(1) by (simp add: group_ok_def nlri_sum_def ag_bgp_update_len_def)
  then have "ag_bgp_update_len g + nlri_encoded_len p \<le> 4096"
    using False room by (cases "ag_prefixes g = []") (auto simp: ag_is_empty_def)
  note c = place_in_group [OF rec wf none peer g key p this refl, of k]
  then have "agg_wf (env_hasher env) ?agg" by (simp add: conserves_def)
  note e = conserves_trans [OF c evict_until_conserves [OF rec this, of k it]]
  have f: "agg_finish it env key peer p pm g agg k =
      (if agg_buffered_bytes ?agg > agg_max_bytes ?agg
       then evict_until_under_budget it env ?agg k else (True, ?agg, k))"
    using False unfolding agg_finish_def Let_def by (rule if_not_P)
  show ?thesis unfolding f using c e by simp
qed

lemma add_to_group_conserves:
  assumes rec: "recording env sent" and wf: "agg_wf (env_hasher env) agg"
    and none: "hm_get (agg_groups agg) key = None"
    and peer: "hm_get (agg_peer_info agg) (fst key) = Some peer"
    and g: "group_ok g" "ag_blob g = drop 2 (pm_raw pm)" "ag_is_v4 g = is_v4 p"
    and key: "key = (fst key, is_v4 p, hash_pa_blob (env_hasher env) (drop 2 (pm_raw pm)))"
    and p: "prefix_ok p"
  shows "conserves env sent agg k (mset (group_routes (env_pt env) peer g) + fitting_route (env_pt env) peer p pm)
    (agg_add_to_group it env key peer p pm g agg k)"
proof (cases "\<not> ag_is_empty g \<and> ag_bgp_update_len g + nlri_encoded_len p > 4096")
  case False
  have "ag_prefixes g \<noteq> [] \<Longrightarrow> ag_bgp_update_len g + nlri_encoded_len p \<le> 4096"
    using False by (auto simp: ag_is_empty_def)
  from finish_conserves [OF rec wf none peer g key p this] False show ?thesis
    by (subst add_to_group_finish) auto
next
  case True
  have pw: "peer_info_wf peer" "v_flag_ok peer" using agg_wf_peer [OF wf peer] by blast+
  obtain ok k' where e: "ag_emit env g peer k = (ok, k')" by force
  have r: "group_ok (ag_reset_prefixes g)" "ag_blob (ag_reset_prefixes g) = drop 2 (pm_raw pm)"
    "ag_is_v4 (ag_reset_prefixes g) = is_v4 p"
    using g group_reset_ok by simp_all
  have "conserves env sent agg k (mset (group_routes (env_pt env) peer g)) (True, agg, k')" if t: ok
    using emit_records [OF rec g(1) pw, of k k'] e t wf by (auto simp: conserves_def)
  from conserves_trans [OF this finish_conserves [OF rec wf none peer r key p, of k' it]]
  have "ok \<Longrightarrow> conserves env sent agg k
      (mset (group_routes (env_pt env) peer g) + fitting_route (env_pt env) peer p pm)
      (agg_finish it env key peer p pm (ag_reset_prefixes g) agg k')"
    by (simp add: group_routes_def)
  moreover have "conserves env sent agg k x (False, agg, k')" for x using wf by (simp add: conserves_def)
  ultimately show ?thesis using True e by (subst add_to_group_finish) (cases ok, simp_all)
qed

lemma conserves_after:
  assumes "sent k1 = sent k @ new1" and "list_all dump_message new1"
    and h: "sent_routes new1 + pending (env_pt env) agg1 + held = pending (env_pt env) agg"
    and "agg_peer_info agg1 = agg_peer_info agg" and "agg_max_bytes agg1 = agg_max_bytes agg"
    and c: "conserves env sent agg1 k1 (held + extra) res"
  shows "conserves env sent agg k extra res"
proof -
  obtain ok agg' k' where r: "res = (ok, agg', k')" using prod_cases3 by blast
  have "\<exists>new. sent k' = sent k @ new \<and> list_all dump_message new \<and>
      sent_routes new + pending (env_pt env) agg' = pending (env_pt env) agg + extra" if t: ok
  proof -
    obtain new2 where n2: "sent k' = sent k1 @ new2" "list_all dump_message new2"
      "sent_routes new2 + pending (env_pt env) agg' = pending (env_pt env) agg1 + (held + extra)"
      using c r t by (auto simp: conserves_def)
    have "sent_routes (new1 @ new2) + pending (env_pt env) agg' =
        sent_routes new1 + (pending (env_pt env) agg1 + (held + extra))"
      using n2(3) by (simp add: add.assoc)
    also have "\<dots> = pending (env_pt env) agg + extra" unfolding h [symmetric] by (simp add: ac_simps)
    finally show ?thesis using assms(1,2) n2(1,2) by (intro exI [of _ "new1 @ new2"]) simp
  qed
  then show ?thesis using assms(4,5) c r by (simp add: conserves_def)
qed

lemma add_conserves:
  assumes rec: "recording env sent" and wf: "agg_wf (env_hasher env) agg" and p: "prefix_ok p"
    and peer: "hm_get (agg_peer_info agg) ident = Some peer"
  shows "conserves env sent agg k (fitting_route (env_pt env) peer p pm) (agg_add it env ident p pm agg k)"
proof -
  let ?key = "(ident, is_v4 p, hash_pa_blob (env_hasher env) (drop 2 (pm_raw pm)))"
  obtain res agg1 k1 where t: "agg_take_group env ?key (drop 2 (pm_raw pm)) pm peer agg k = (res, agg1, k1)"
    using prod_cases3 by blast
  have peer': "hm_get (agg_peer_info agg) (fst ?key) = Some peer" using peer by simp
  note sp = take_group_spec [OF rec wf peer' refl t]
  show ?thesis
  proof (cases res)
    case None
    with t peer sp show ?thesis by (simp add: agg_add_def conserves_def)
  next
    case (Some g)
    then obtain new where g: "group_ok g" "ag_blob g = drop 2 (pm_raw pm)" "ag_is_v4 g = is_v4 p"
      and new: "sent k1 = sent k @ new" "list_all dump_message new"
      "sent_routes new + pending (env_pt env) agg1 + mset (group_routes (env_pt env) peer g) =
        pending (env_pt env) agg"
      using sp by auto
    have peer1: "hm_get (agg_peer_info agg1) (fst ?key) = Some peer" using sp peer by simp
    have "conserves env sent agg1 k1
        (mset (group_routes (env_pt env) peer g) + fitting_route (env_pt env) peer p pm)
        (agg_add_to_group it env ?key peer p pm g agg1 k1)"
      by (rule add_to_group_conserves [OF rec _ _ peer1 g _ p]) (use sp in simp_all)
    then have c: "conserves env sent agg1 k1
        (mset (group_routes (env_pt env) peer g) + fitting_route (env_pt env) peer p pm)
        (agg_add it env ident p pm agg k)"
      using t peer Some by (simp add: agg_add_def)
    show ?thesis by (rule conserves_after [OF new _ _ c]) (use sp in simp_all)
  qed
qed

subsection \<open>Budget, flush and whole dumps\<close>

lemma finish_budget:
  assumes "recording env sent" and "agg_wf (env_hasher env) agg" and "agg_buffered_bytes agg \<le> agg_max_bytes agg"
    and "hm_get (agg_groups agg) key = None" and "hm_get (agg_peer_info agg) (fst key) = Some peer"
    and g: "group_ok g" "ag_blob g = drop 2 (pm_raw pm)" "ag_is_v4 g = is_v4 p"
    and key: "key = (fst key, is_v4 p, hash_pa_blob (env_hasher env) (drop 2 (pm_raw pm)))"
    and p: "prefix_ok p"
    and room: "ag_prefixes g \<noteq> [] \<Longrightarrow> ag_bgp_update_len g + nlri_encoded_len p \<le> 4096"
    and r: "agg_finish it env key peer p pm g agg k = (True, agg', k')"
  shows "agg_buffered_bytes agg' \<le> agg_max_bytes agg"
proof (cases "ag_is_empty g \<and> ag_base_len g + nlri_encoded_len p > 4096")
  case True
  then have "agg' = agg"
    using r by (auto simp: agg_finish_def split: option.splits prod.splits bool.splits)
  then show ?thesis using assms(3) by simp
next
  case False
  let ?g = "ag_push p (nlri_encoded_len p) g"
  let ?agg = "agg\<lparr>agg_buffered_bytes := agg_buffered_bytes agg + ag_cost ?g,
    agg_groups := hm_insert key ?g (agg_groups agg)\<rparr>"
  have f: "agg_finish it env key peer p pm g agg k =
      (if agg_buffered_bytes ?agg > agg_max_bytes ?agg
       then evict_until_under_budget it env ?agg k else (True, ?agg, k))"
    using False unfolding agg_finish_def Let_def by (rule if_not_P)
  have "ag_prefixes g = [] \<Longrightarrow> ag_bgp_update_len g = ag_base_len g"
    using g(1) by (simp add: group_ok_def nlri_sum_def ag_bgp_update_len_def)
  then have "ag_bgp_update_len g + nlri_encoded_len p \<le> 4096"
    using False room by (cases "ag_prefixes g = []") (auto simp: ag_is_empty_def)
  then have wf: "agg_wf (env_hasher env) ?agg"
    using place_in_group [OF assms(1,2,4,5) g key p _ refl, of k] by (simp add: conserves_def)
  show ?thesis
  proof (cases "agg_buffered_bytes ?agg > agg_max_bytes ?agg")
    case True
    then have "evict_until_under_budget it env ?agg k = (True, agg', k')" using r f by simp
    from evict_until_budget [OF assms(1) wf this] show ?thesis by simp
  next
    case False
    then show ?thesis using r f by auto
  qed
qed

lemma add_budget:
  assumes rec: "recording env sent" and wf: "agg_wf (env_hasher env) agg" and p: "prefix_ok p"
    and b: "agg_buffered_bytes agg \<le> agg_max_bytes agg"
    and r: "agg_add it env ident p pm agg k = (True, agg', k')"
  shows "agg_buffered_bytes agg' \<le> agg_max_bytes agg"
proof (cases "hm_get (agg_peer_info agg) ident")
  case None
  then show ?thesis using r b by (auto simp: agg_add_def)
next
  case (Some peer)
  let ?key = "(ident, is_v4 p, hash_pa_blob (env_hasher env) (drop 2 (pm_raw pm)))"
  obtain res agg1 k1 where t: "agg_take_group env ?key (drop 2 (pm_raw pm)) pm peer agg k = (res, agg1, k1)"
    using prod_cases3 by blast
  have peer': "hm_get (agg_peer_info agg) (fst ?key) = Some peer" using Some by simp
  note sp = take_group_spec [OF rec wf peer' refl t]
  obtain g where g: "res = Some g" and a: "agg_add_to_group it env ?key peer p pm g agg1 k1 = (True, agg', k')"
    using r t Some by (cases res) (auto simp: agg_add_def)
  have wf1: "agg_wf (env_hasher env) agg1" and b1: "agg_buffered_bytes agg1 \<le> agg_max_bytes agg1"
    and n1: "hm_get (agg_groups agg1) ?key = None" and p1: "hm_get (agg_peer_info agg1) (fst ?key) = Some peer"
    and gk: "group_ok g" "ag_blob g = drop 2 (pm_raw pm)" "ag_is_v4 g = is_v4 p"
    using sp g b Some by auto
  have key: "?key = (fst ?key, is_v4 p, hash_pa_blob (env_hasher env) (drop 2 (pm_raw pm)))" by simp
  note fb = finish_budget [OF rec wf1 b1 n1 p1 _ _ _ key p]
  show ?thesis
  proof (cases "\<not> ag_is_empty g \<and> ag_bgp_update_len g + nlri_encoded_len p > 4096")
    case True
    then obtain k2 where "agg_finish it env ?key peer p pm (ag_reset_prefixes g) agg1 k2 = (True, agg', k')"
      using a by (auto simp: add_to_group_finish split: prod.splits bool.splits)
    from fb [OF group_reset_ok [OF gk(1)] _ _ _ this] gk sp show ?thesis by simp
  next
    case False
    then have "agg_finish it env ?key peer p pm g agg1 k1 = (True, agg', k')"
      using a by (subst (asm) add_to_group_finish) auto
    from fb [OF gk _ this] False sp show ?thesis by (auto simp: ag_is_empty_def)
  qed
qed

lemma flush_loop_records:
  assumes "recording env sent"
    and "\<forall>(key, g) \<in> set gs. group_ok g \<and> (\<exists>peer. hm_get (agg_peer_info agg) (fst key) = Some peer \<and>
      peer_info_wf peer \<and> v_flag_ok peer)"
    and "flush_loop env gs agg k = (True, agg', k')"
  shows "agg' = agg\<lparr>agg_buffered_bytes := 0\<rparr> \<and>
    (\<exists>new. sent k' = sent k @ new \<and> list_all dump_message new \<and>
      sent_routes new = sum_list (map (entry_routes (env_pt env) agg) gs))"
  using assms(2,3)
proof (induction gs arbitrary: k)
  case Nil
  then show ?case by (auto intro: exI [of _ "[]"])
next
  case (Cons e gs)
  obtain key g where e: "e = (key, g)" by (rule prod.exhaust)
  obtain peer where g: "group_ok g" and peer: "hm_get (agg_peer_info agg) (fst key) = Some peer"
    "peer_info_wf peer" "v_flag_ok peer" using Cons.prems(1) e by auto
  obtain k1 where k1: "ag_emit env g peer k = (True, k1)"
    and r: "flush_loop env gs agg k1 = (True, agg', k')"
    using Cons.prems(2) e peer(1) by (auto split: prod.splits bool.splits)
  obtain new1 where n1: "sent k1 = sent k @ new1" "list_all dump_message new1"
    "sent_routes new1 = mset (group_routes (env_pt env) peer g)"
    using emit_records [OF assms(1) g peer(2,3) k1] by blast
  obtain new2 where n2: "agg' = agg\<lparr>agg_buffered_bytes := 0\<rparr>" "sent k' = sent k1 @ new2"
    "list_all dump_message new2" "sent_routes new2 = sum_list (map (entry_routes (env_pt env) agg) gs)"
    using Cons.IH [OF _ r] Cons.prems(1) by auto
  have "entry_routes (env_pt env) agg (key, g) = mset (group_routes (env_pt env) peer g)"
    using peer(1) by (simp add: entry_routes_def)
  with n1 n2 e show ?case by (auto intro!: exI [of _ "new1 @ new2"])
qed

lemma flush_all_records:
  assumes rec: "recording env sent" and wf: "agg_wf (env_hasher env) agg"
    and f: "flush_all it env agg k = (True, agg', k')"
  shows "agg_groups agg' = [] \<and> agg_buffered_bytes agg' = 0 \<and>
    (\<exists>new. sent k' = sent k @ new \<and> list_all dump_message new \<and> sent_routes new = pending (env_pt env) agg)"
proof -
  let ?agg = "agg\<lparr>agg_groups := []\<rparr>"
  have hw: "hm_wf (agg_groups agg)" using wf by (simp add: agg_wf_def)
  have "group_ok g \<and> (\<exists>peer. hm_get (agg_peer_info ?agg) (fst key) = Some peer \<and>
      peer_info_wf peer \<and> v_flag_ok peer)" if "(key, g) \<in> set (iterate it (agg_groups agg))" for key g
  proof -
    have g: "hm_get (agg_groups agg) key = Some g" using that hm_entries_get [OF hw] by simp
    from agg_wf_group(1,2) [OF wf g] agg_wf_peer [OF wf] show ?thesis by auto
  qed
  then have "\<forall>(key, g) \<in> set (iterate it (agg_groups agg)). group_ok g \<and>
      (\<exists>peer. hm_get (agg_peer_info ?agg) (fst key) = Some peer \<and> peer_info_wf peer \<and> v_flag_ok peer)"
    by blast
  note fl = flush_loop_records [OF rec this f [unfolded flush_all_def]]
  have "entry_routes (env_pt env) ?agg = entry_routes (env_pt env) agg"
    by (simp add: entry_routes_def fun_eq_iff)
  then show ?thesis using fl by (auto simp: pending_def)
qed

text \<open>The dump walk: routes in the order the store yields them, each with an order of the map.\<close>

fun agg_walk ::
  "'k env \<Rightarrow> (agg_order \<times> ingress_id \<times> prefix \<times> rotonda_pa_map) list \<Rightarrow> route_aggregator \<Rightarrow> 'k \<Rightarrow>
     bool \<times> route_aggregator \<times> 'k" where
  "agg_walk env [] agg k = (True, agg, k)"
| "agg_walk env ((it, ident, p, pm) # rs) agg k =
    (case agg_add it env ident p pm agg k of
      (False, agg', k') \<Rightarrow> (False, agg', k')
    | (True, agg', k') \<Rightarrow> agg_walk env rs agg' k')"

definition walk_ok ::
  "(ingress_id, peer_info) hmap \<Rightarrow> (agg_order \<times> ingress_id \<times> prefix \<times> rotonda_pa_map) list \<Rightarrow> bool" where
  "walk_ok peers rs = list_all (\<lambda>(_, ident, p, _). prefix_ok p \<and> hm_get peers ident \<noteq> None) rs"

definition walk_routes ::
  "(peer_type \<Rightarrow> u8) \<Rightarrow> (ingress_id, peer_info) hmap \<Rightarrow> (agg_order \<times> ingress_id \<times> prefix \<times> rotonda_pa_map) list \<Rightarrow>
     route_view multiset" where
  "walk_routes pt peers rs =
    sum_list (map (\<lambda>(_, ident, p, pm). fitting_route pt (the (hm_get peers ident)) p pm) rs)"

lemma walk_conserves:
  assumes "recording env sent" and "agg_wf (env_hasher env) agg" and "walk_ok (agg_peer_info agg) rs"
    and "agg_buffered_bytes agg \<le> agg_max_bytes agg" and "agg_walk env rs agg k = (True, agg', k')"
  shows "conserves env sent agg k (walk_routes (env_pt env) (agg_peer_info agg) rs) (True, agg', k') \<and>
    agg_buffered_bytes agg' \<le> agg_max_bytes agg'"
  using assms(2-5)
proof (induction rs arbitrary: agg k)
  case Nil
  then show ?case by (simp add: conserves_refl walk_routes_def)
next
  case (Cons r rs)
  obtain it ident p pm where r: "r = (it, ident, p, pm)" by (metis prod_cases4)
  obtain peer where p: "prefix_ok p" and peer: "hm_get (agg_peer_info agg) ident = Some peer"
    using Cons.prems(2) r by (auto simp: walk_ok_def)
  obtain agg1 k1 where a: "agg_add it env ident p pm agg k = (True, agg1, k1)"
    and w: "agg_walk env rs agg1 k1 = (True, agg', k')"
    using Cons.prems(4) r by (auto split: prod.splits bool.splits)
  have c: "conserves env sent agg k (fitting_route (env_pt env) peer p pm) (True, agg1, k1)"
    using add_conserves [OF assms(1) Cons.prems(1) p peer, of k pm it] a by simp
  then have s: "agg_wf (env_hasher env) agg1" "agg_peer_info agg1 = agg_peer_info agg"
    "agg_max_bytes agg1 = agg_max_bytes agg" by (simp_all add: conserves_def)
  have "agg_buffered_bytes agg1 \<le> agg_max_bytes agg1"
    using add_budget [OF assms(1) Cons.prems(1) p Cons.prems(3) a] s(3) by simp
  moreover have "walk_ok (agg_peer_info agg1) rs" using Cons.prems(2) s(2) by (simp add: walk_ok_def)
  ultimately have i: "conserves env sent agg1 k1 (walk_routes (env_pt env) (agg_peer_info agg1) rs) (True, agg', k') \<and>
      agg_buffered_bytes agg' \<le> agg_max_bytes agg'"
    using Cons.IH [OF s(1) _ _ w] by blast
  have "walk_routes (env_pt env) (agg_peer_info agg) (r # rs) =
      fitting_route (env_pt env) peer p pm + walk_routes (env_pt env) (agg_peer_info agg1) rs"
    using r peer s(2) by (simp add: walk_routes_def)
  with conserves_trans [OF c conjunct1 [OF i]] i show ?case by simp
qed

text \<open>A consumer that is never gone.\<close>

definition accepting :: "'k env \<Rightarrow> bool" where
  "accepting env \<longleftrightarrow> (\<forall>k m n. fst (env_send env k m n))"

lemma emit_accepting: "accepting env \<Longrightarrow> ag_emit env g peer k \<noteq> (False, k')"
  by (auto simp: ag_emit_def accepting_def dest: arg_cong [where f = fst])

lemma evict_accepting: "accepting env \<Longrightarrow> fst (evict_loop env target keys agg k)"
proof (induction keys arbitrary: agg k)
  case (Cons key keys)
  then show ?case
    by (simp add: emit_accepting Let_def split: option.split prod.split bool.split)
qed simp

lemma finish_accepting: "accepting env \<Longrightarrow> fst (agg_finish it env key peer p pm g agg k)"
  using evict_accepting [of env]
  by (auto simp: agg_finish_def evict_until_under_budget_def accepting_def Let_def
      split: option.split prod.split bool.split dest: arg_cong [where f = fst])

lemma add_accepting: "accepting env \<Longrightarrow> fst (agg_add it env ident p pm agg k)"
  by (auto simp: agg_add_def agg_take_group_def add_to_group_finish finish_accepting emit_accepting Let_def
      split: option.splits prod.splits bool.splits if_splits)

lemma walk_accepting: "accepting env \<Longrightarrow> fst (agg_walk env rs agg k)"
proof (induction rs arbitrary: agg k)
  case (Cons r rs)
  obtain it ident p pm where r: "r = (it, ident, p, pm)" by (metis prod_cases4)
  obtain ok agg1 k1 where a: "agg_add it env ident p pm agg k = (ok, agg1, k1)" using prod_cases3 by blast
  then have ok using add_accepting [OF Cons.prems, of it ident p pm agg k] by simp
  with Cons a r show ?case by simp
qed simp

lemma flush_accepting: "accepting env \<Longrightarrow> fst (flush_all it env agg k)"
proof -
  assume a: "accepting env"
  have "fst (flush_loop env gs agg' k')" for gs agg' k'
    by (induction gs arbitrary: k')
      (auto simp: emit_accepting [OF a] split: option.split prod.split bool.split)
  then show ?thesis by (simp add: flush_all_def)
qed

lemma aggregator_new_wf:
  "(\<And>ident p. hm_get peers ident = Some p \<Longrightarrow> peer_info_wf p \<and> v_flag_ok p) \<Longrightarrow>
    agg_wf hasher (aggregator_new max_bytes peers)"
  by (simp add: agg_wf_def aggregator_new_def peers_ok_def agg_cost_sum_def)

lemma pending_new [simp]: "pending pt (aggregator_new max_bytes peers) = {#}"
  by (simp add: pending_def aggregator_new_def)

subsection \<open>Properties\<close>

text \<open>
  C8: Aggregation neither loses nor duplicates a route. For a consumer that takes every message,
  any sequence of routes of known peers and any order in which the hash map iterates, adding
  the routes and flushing completes; the messages sent decode to exactly the routes added, each
  as often as it was added and each with its own peer, path attributes and next hop, save those
  whose attributes do not fit a BGP message at all. Hash collisions between attribute sets and
  evictions make no difference. Every message is one UPDATE of at most 4096 octets, or a single
  route that needs more.
\<close>

theorem aggregation_conserves_routes:
  assumes "recording env sent" and "accepting env"
    and "\<forall>ident p. hm_get peers ident = Some p \<longrightarrow> peer_info_wf p \<and> v_flag_ok p"
    and "walk_ok peers rs"
  shows "\<exists>agg1 k1 agg2 k2 new. agg_walk env rs (aggregator_new max_bytes peers) k = (True, agg1, k1) \<and>
    flush_all it env agg1 k1 = (True, agg2, k2) \<and> agg_groups agg2 = [] \<and>
    sent k2 = sent k @ new \<and> list_all dump_message new \<and>
    sent_routes new = walk_routes (env_pt env) peers rs"
proof -
  let ?agg = "aggregator_new max_bytes peers"
  have pi: "agg_peer_info ?agg = peers" and bb: "agg_buffered_bytes ?agg \<le> agg_max_bytes ?agg"
    by (simp_all add: aggregator_new_def)
  have wf: "agg_wf (env_hasher env) ?agg" using assms(3) by (intro aggregator_new_wf) blast
  obtain agg1 k1 where w: "agg_walk env rs ?agg k = (True, agg1, k1)"
    using walk_accepting [OF assms(2), of rs ?agg k] by (metis prod.collapse)
  have c: "conserves env sent ?agg k (walk_routes (env_pt env) peers rs) (True, agg1, k1)"
    using walk_conserves [OF assms(1) wf _ bb w] assms(4) pi by simp
  then obtain new1 where n1: "agg_wf (env_hasher env) agg1" "sent k1 = sent k @ new1" "list_all dump_message new1"
    "sent_routes new1 + pending (env_pt env) agg1 = walk_routes (env_pt env) peers rs"
    by (auto simp: conserves_def)
  obtain agg2 k2 where f: "flush_all it env agg1 k1 = (True, agg2, k2)"
    using flush_accepting [OF assms(2), of it agg1 k1] by (metis prod.collapse)
  from flush_all_records [OF assms(1) n1(1) f] obtain new2 where n2: "agg_groups agg2 = []"
    "sent k2 = sent k1 @ new2" "list_all dump_message new2" "sent_routes new2 = pending (env_pt env) agg1"
    by blast
  from w f n1 n2 show ?thesis by (intro exI [of _ agg1] exI [of _ k1] exI [of _ agg2] exI [of _ k2]
      exI [of _ "new1 @ new2"]) simp
qed

definition sample_env :: "bytes list env" where
  "sample_env = \<lparr>env_pt = (\<lambda>_. 0), env_hasher = (\<lambda>_. 7), env_now = (\<lambda>_. (1, 2)),
     env_send = (\<lambda>k m n. (True, k @ [m]))\<rparr>"

definition sample_peers :: "(ingress_id, peer_info) hmap" where
  "sample_peers = [(4, sample_peer_info)]"

definition sample_walk :: "(agg_order \<times> ingress_id \<times> prefix \<times> rotonda_pa_map) list" where
  "sample_walk =
    [(\<lambda>xs. xs, 4, \<lparr>pfx_addr = V4 0x0A000000, pfx_len = 8\<rparr>, pa_map_from_vec [0x40, 1, 1, 0]),
     (\<lambda>xs. xs, 4, sample_v6, pa_map_from_vec []),
     (rev, 4, \<lparr>pfx_addr = V4 0, pfx_len = 0\<rparr>, pa_map_from_vec [0x40, 1, 1, 0])]"

lemma sample_env_ok: "recording sample_env (\<lambda>k. k)" "accepting sample_env"
  by (simp_all add: recording_def accepting_def sample_env_def)

lemma sample_walk_ok: "walk_ok sample_peers sample_walk"
  using sample_v6_ok
  by (simp add: walk_ok_def sample_walk_def sample_peers_def hm_get_def prefix_ok_def addr_bits_def)

lemma sample_peers_ok: "\<forall>ident p. hm_get sample_peers ident = Some p \<longrightarrow> peer_info_wf p \<and> v_flag_ok p"
  using sample_peer_info_ok by (simp add: sample_peers_def hm_get_def)

theorem aggregation_conserves_routes_witness:
  "\<exists>agg1 k1 agg2 k2. agg_walk sample_env sample_walk (aggregator_new 200 sample_peers) [] = (True, agg1, k1) \<and>
    flush_all rev sample_env agg1 k1 = (True, agg2, k2) \<and>
    sent_routes k2 = walk_routes (\<lambda>_. 0) sample_peers sample_walk"
  using aggregation_conserves_routes [OF sample_env_ok sample_peers_ok sample_walk_ok, of 200 "[]" rev]
  by (auto simp: sample_env_def)

text \<open>
  C26: The memory of the aggregator is bounded and accounted for exactly: after any number of added
  routes \<open>buffered_bytes\<close> is the sum over the open groups of 128 octets and 32 per prefix, it is
  at most \<open>max_bytes\<close>, and every open group would encode to an UPDATE of at most 4096 octets. No
  subtraction from the counter wraps around.
\<close>

theorem aggregator_memory_bound:
  assumes "recording env sent"
    and "\<forall>ident p. hm_get peers ident = Some p \<longrightarrow> peer_info_wf p \<and> v_flag_ok p"
    and "walk_ok peers rs" and "agg_walk env rs (aggregator_new max_bytes peers) k = (True, agg, k')"
  shows "agg_buffered_bytes agg = sum_list (map (\<lambda>(_, g). 128 + 32 * length (ag_prefixes g)) (agg_groups agg)) \<and>
    agg_buffered_bytes agg \<le> max_bytes \<and>
    (\<forall>(key, g) \<in> set (agg_groups agg). ag_bgp_update_len g \<le> 4096)"
proof -
  let ?agg = "aggregator_new max_bytes peers"
  have pi: "agg_peer_info ?agg = peers" "agg_max_bytes ?agg = max_bytes"
    and bb: "agg_buffered_bytes ?agg \<le> agg_max_bytes ?agg"
    by (simp_all add: aggregator_new_def)
  have wf: "agg_wf (env_hasher env) ?agg" using assms(2) by (intro aggregator_new_wf) blast
  note w = walk_conserves [OF assms(1) wf _ bb assms(4)]
  have wf': "agg_wf (env_hasher env) agg" and b: "agg_buffered_bytes agg \<le> max_bytes"
    using w assms(3) pi by (auto simp: conserves_def)
  have "agg_buffered_bytes agg = sum_list (map (\<lambda>(_, g). 128 + 32 * length (ag_prefixes g)) (agg_groups agg))"
    using wf' by (simp add: agg_wf_def agg_cost_sum_def ag_cost_def case_prod_unfold mult.commute)
  moreover have "ag_bgp_update_len g \<le> 4096" if "(key, g) \<in> set (agg_groups agg)" for key g
  proof -
    have "hm_wf (agg_groups agg)" using wf' by (simp add: agg_wf_def)
    then have "hm_get (agg_groups agg) key = Some g"
      by (rule hm_entries_get [THEN iffD1]) (rule that)
    from agg_wf_group(2,3) [OF wf' this] show ?thesis by (simp add: group_ok_def)
  qed
  ultimately show ?thesis using b by blast
qed

theorem aggregator_memory_bound_witness:
  "\<exists>agg k. agg_walk sample_env sample_walk (aggregator_new 200 sample_peers) [] = (True, agg, k) \<and>
    agg_buffered_bytes agg \<le> 200"
proof -
  obtain agg k where w: "agg_walk sample_env sample_walk (aggregator_new 200 sample_peers) [] = (True, agg, k)"
    using walk_accepting [OF sample_env_ok(2)] by (metis prod.collapse)
  from aggregator_memory_bound [OF sample_env_ok(1) sample_peers_ok sample_walk_ok w] w show ?thesis by blast
qed

end
