(* ===== verification/Bmp_Client.thy ===== *)
theory Bmp_Client
  imports Route_Aggregator
begin

text \<open>
  A consumer of the BMP output unit: its state (src/units/bmp_tcp_out/client_state.rs) and the
  handlers that turn updates into messages for it (src/units/bmp_tcp_out/client_handler.rs).

  \<^item> The bounded channel to the writer task is the environment's: \<open>ce_tx\<close> says in which state
    the \<open>n\<close>-th send finds it. The channel is first in first out, so \<open>cs_sent\<close>, the messages it
    has accepted, oldest first, is what the writer puts on the wire. \<open>cs_attempts\<close> counts the
    sends; the clock that the per-peer headers read is a function of it.
  \<^item> The counters of src/mem_stats.rs are the record \<open>mem_stats\<close>, passed through the operations
    that change them.
  \<^item> The register is an argument of every handler, so that it may differ from call to call.
  \<^item> \<open>dump_table\<close> is \<open>perform_initial_dump\<close> up to the drain of the buffer; the drain runs
    concurrently with \<open>direct_update\<close> and is the step relation of the theory \<open>Bmp_Session\<close>. The
    channel between the blocking walk and the forwarding loop is a pipe: every message of the
    walk is forwarded in order or the walk is told that its consumer is gone. The counters that
    only feed log lines are left out.
\<close>

subsection \<open>State\<close>

datatype client_phase = Dumping | Live

datatype buffer_update_result = Buffered | NotDumping | Overflow

datatype fan_in_peer_distinguisher = IngressHash | Off

datatype tx_state = TxReady | TxFull | TxClosed

record client_env =
  ce_pt :: "peer_type \<Rightarrow> u8"
  ce_af :: "afisafi \<Rightarrow> u16 \<times> u8"
  ce_hasher :: hasher
  ce_prefix_new :: "ip_addr \<Rightarrow> u8 \<Rightarrow> prefix option"
  ce_sizes :: type_sizes
  ce_now :: "nat \<Rightarrow> timestamp"
  ce_tx :: "nat \<Rightarrow> tx_state"
  ce_flagged :: "nat \<Rightarrow> bool"
  ce_order :: "route_aggregator \<Rightarrow> agg_order"
  ce_forward_router_info :: bool
  ce_fan_in :: fan_in_peer_distinguisher

record ('osm, 'rtr) client_state =
  cs_phase :: client_phase
  cs_dump_buffer :: "('osm, 'rtr) update list"
  cs_known_peers :: "ingress_id set"
  cs_peer_info_cache :: "(ingress_id, peer_info) hmap"
  cs_messages_sent :: nat
  cs_bytes_sent :: nat
  cs_max_buffer_entries :: nat
  cs_max_buffer_bytes :: nat
  cs_buffered_bytes :: nat
  cs_disconnect_pending :: bool
  cs_disconnect_notify :: nat
  cs_attempts :: nat
  cs_sent :: "bytes list"

record mem_stats =
  BMP_OUT_BUFFERED_BYTES :: nat
  BMP_OUT_BUFFERED_ENTRIES :: nat
  BMP_OUT_CLIENTS :: nat

definition saturating_add :: "nat \<Rightarrow> nat \<Rightarrow> nat" where
  "saturating_add a b = min (a + b) (2 ^ 64 - 1)"

definition client_new :: "nat \<Rightarrow> nat \<Rightarrow> mem_stats \<Rightarrow> ('osm, 'rtr) client_state \<times> mem_stats" where
  "client_new max_entries max_bytes ms =
    (\<lparr>cs_phase = Dumping, cs_dump_buffer = [], cs_known_peers = {}, cs_peer_info_cache = [],
      cs_messages_sent = 0, cs_bytes_sent = 0, cs_max_buffer_entries = max_entries,
      cs_max_buffer_bytes = max_bytes, cs_buffered_bytes = 0, cs_disconnect_pending = False,
      cs_disconnect_notify = 0, cs_attempts = 0, cs_sent = []\<rparr>,
     ms\<lparr>BMP_OUT_CLIENTS := BMP_OUT_CLIENTS ms + 1\<rparr>)"

definition buffer_update_if_dumping ::
  "type_sizes \<Rightarrow> ('osm, 'rtr) update \<Rightarrow> ('osm, 'rtr) client_state \<Rightarrow> mem_stats \<Rightarrow>
     buffer_update_result \<times> ('osm, 'rtr) client_state \<times> mem_stats" where
  "buffer_update_if_dumping sz upd c ms =
    (if cs_phase c \<noteq> Dumping then (NotDumping, c, ms)
     else
       (let upd_bytes = shallow_bytes sz upd
        in if length (cs_dump_buffer c) \<ge> cs_max_buffer_entries c then (Overflow, c, ms)
           else if saturating_add (cs_buffered_bytes c) upd_bytes > cs_max_buffer_bytes c
           then (Overflow, c, ms)
           else (Buffered,
             c\<lparr>cs_dump_buffer := cs_dump_buffer c @ [upd],
               cs_buffered_bytes := cs_buffered_bytes c + upd_bytes\<rparr>,
             ms\<lparr>BMP_OUT_BUFFERED_BYTES := BMP_OUT_BUFFERED_BYTES ms + upd_bytes,
                BMP_OUT_BUFFERED_ENTRIES := BMP_OUT_BUFFERED_ENTRIES ms + 1\<rparr>)))"

definition take_buffered_updates ::
  "('osm, 'rtr) client_state \<Rightarrow> mem_stats \<Rightarrow>
     ('osm, 'rtr) update list \<times> ('osm, 'rtr) client_state \<times> mem_stats" where
  "take_buffered_updates c ms =
    (cs_dump_buffer c,
     c\<lparr>cs_dump_buffer := [], cs_buffered_bytes := 0\<rparr>,
     ms\<lparr>BMP_OUT_BUFFERED_BYTES := usize_sub (BMP_OUT_BUFFERED_BYTES ms) (cs_buffered_bytes c),
        BMP_OUT_BUFFERED_ENTRIES :=
          usize_sub (BMP_OUT_BUFFERED_ENTRIES ms) (length (cs_dump_buffer c))\<rparr>)"

definition discard_dump_buffer ::
  "('osm, 'rtr) client_state \<Rightarrow> mem_stats \<Rightarrow> ('osm, 'rtr) client_state \<times> mem_stats" where
  "discard_dump_buffer c ms =
    (c\<lparr>cs_dump_buffer := [], cs_buffered_bytes := 0\<rparr>,
     ms\<lparr>BMP_OUT_BUFFERED_BYTES := usize_sub (BMP_OUT_BUFFERED_BYTES ms) (cs_buffered_bytes c),
        BMP_OUT_BUFFERED_ENTRIES :=
          usize_sub (BMP_OUT_BUFFERED_ENTRIES ms) (length (cs_dump_buffer c))\<rparr>)"

definition client_drop :: "('osm, 'rtr) client_state \<Rightarrow> mem_stats \<Rightarrow> mem_stats" where
  "client_drop c ms =
    (let ms = (if cs_buffered_bytes c \<noteq> 0
           then ms\<lparr>BMP_OUT_BUFFERED_BYTES :=
                  usize_sub (BMP_OUT_BUFFERED_BYTES ms) (cs_buffered_bytes c)\<rparr> else ms);
         ms = (if length (cs_dump_buffer c) \<noteq> 0
           then ms\<lparr>BMP_OUT_BUFFERED_ENTRIES :=
                  usize_sub (BMP_OUT_BUFFERED_ENTRIES ms) (length (cs_dump_buffer c))\<rparr> else ms)
     in ms\<lparr>BMP_OUT_CLIENTS := usize_sub (BMP_OUT_CLIENTS ms) 1\<rparr>)"

definition request_disconnect ::
  "('osm, 'rtr) client_state \<Rightarrow> bool \<times> ('osm, 'rtr) client_state" where
  "request_disconnect c =
    (let won = \<not> cs_disconnect_pending c;
         c = c\<lparr>cs_disconnect_pending := True\<rparr>
     in (won, if won then c\<lparr>cs_disconnect_notify := cs_disconnect_notify c + 1\<rparr> else c))"

definition send_message_mode ::
  "client_env \<Rightarrow> bytes \<Rightarrow> bool \<Rightarrow> ('osm, 'rtr) client_state \<Rightarrow>
     bool \<times> ('osm, 'rtr) client_state" where
  "send_message_mode env msg blocking c =
    (let tx = ce_tx env (cs_attempts c);
         c = c\<lparr>cs_attempts := cs_attempts c + 1\<rparr>;
         (sent, c) =
           (if blocking then (tx \<noteq> TxClosed, c)
            else case tx of
              TxReady \<Rightarrow> (True, c)
            | TxFull \<Rightarrow> (False, snd (request_disconnect c))
            | TxClosed \<Rightarrow> (False, c))
     in if sent
        then (True, c\<lparr>cs_messages_sent := cs_messages_sent c + 1,
               cs_bytes_sent := cs_bytes_sent c + length msg, cs_sent := cs_sent c @ [msg]\<rparr>)
        else (False, c))"

definition send_message ::
  "client_env \<Rightarrow> bytes \<Rightarrow> ('osm, 'rtr) client_state \<Rightarrow> bool \<times> ('osm, 'rtr) client_state" where
  "send_message env msg c = send_message_mode env msg True c"

definition add_known_peer ::
  "ingress_id \<Rightarrow> ('osm, 'rtr) client_state \<Rightarrow> ('osm, 'rtr) client_state" where
  "add_known_peer ident c = c\<lparr>cs_known_peers := insert ident (cs_known_peers c)\<rparr>"

definition register_known_peer_if_absent ::
  "ingress_id \<Rightarrow> ('osm, 'rtr) client_state \<Rightarrow> bool \<times> ('osm, 'rtr) client_state" where
  "register_known_peer_if_absent ident c =
    (ident \<notin> cs_known_peers c, c\<lparr>cs_known_peers := insert ident (cs_known_peers c)\<rparr>)"

definition remove_known_peer ::
  "ingress_id \<Rightarrow> ('osm, 'rtr) client_state \<Rightarrow> bool \<times> ('osm, 'rtr) client_state" where
  "remove_known_peer ident c =
    (ident \<in> cs_known_peers c,
     c\<lparr>cs_peer_info_cache := hm_remove ident (cs_peer_info_cache c),
       cs_known_peers := cs_known_peers c - {ident}\<rparr>)"

definition has_known_peer :: "ingress_id \<Rightarrow> ('osm, 'rtr) client_state \<Rightarrow> bool" where
  "has_known_peer ident c = (ident \<in> cs_known_peers c)"

definition cached_peer_info ::
  "ingress_id \<Rightarrow> ('osm, 'rtr) client_state \<Rightarrow> peer_info option" where
  "cached_peer_info ident c = hm_get (cs_peer_info_cache c) ident"

definition cache_peer_info ::
  "ingress_id \<Rightarrow> peer_info \<Rightarrow> ('osm, 'rtr) client_state \<Rightarrow> ('osm, 'rtr) client_state" where
  "cache_peer_info ident pi c = c\<lparr>cs_peer_info_cache := hm_insert ident pi (cs_peer_info_cache c)\<rparr>"

subsection \<open>Headers for re-streamed peers\<close>

fun is_enabled :: "fan_in_peer_distinguisher \<Rightarrow> bool" where
  "is_enabled IngressHash = True"
| "is_enabled Off = False"

definition resolve_admin_label :: "ingress_info \<Rightarrow> register \<Rightarrow> bool \<Rightarrow> ustr option" where
  "resolve_admin_label info reg forward_router_info =
    (if \<not> forward_router_info then None
     else case ii_parent_ingress info of
       None \<Rightarrow> None
     | Some parent_id \<Rightarrow>
         (case reg_get reg parent_id of
           None \<Rightarrow> None
         | Some parent \<Rightarrow> build_admin_label_json (ii_name parent) (ii_desc parent)))"

definition build_peer_info_for_emit :: "client_env \<Rightarrow> ingress_info \<Rightarrow> register \<Rightarrow> peer_info" where
  "build_peer_info_for_emit env info reg =
    (let pi = (from_ingress_info info)
           \<lparr>pi_admin_label := resolve_admin_label info reg (ce_forward_router_info env)\<rparr>
     in if is_enabled (ce_fan_in env)
        then (case ii_parent_ingress info of
               Some parent_id \<Rightarrow>
                 apply_fan_in_distinguisher (fan_in_distinguisher_tag (ce_hasher env) parent_id) pi
             | None \<Rightarrow> pi)
        else pi)"

text \<open>The clock as the next message built for the client reads it.\<close>

definition client_now :: "client_env \<Rightarrow> ('osm, 'rtr) client_state \<Rightarrow> timestamp" where
  "client_now env c = ce_now env (cs_attempts c)"

subsection \<open>Live updates\<close>

text \<open>
  The block the handlers share: register the peer as known and, when it was not, send its Peer
  Up; a Peer Up that cannot be sent is rolled back. False is the early return.
\<close>

definition ensure_peer_up ::
  "client_env \<Rightarrow> register \<Rightarrow> bool \<Rightarrow> ingress_id \<Rightarrow> ('osm, 'rtr) client_state \<Rightarrow>
     bool \<times> ('osm, 'rtr) client_state" where
  "ensure_peer_up env reg blocking ident c =
    (case register_known_peer_if_absent ident c of
      (False, c) \<Rightarrow> (True, c)
    | (True, c) \<Rightarrow>
        (case reg_get reg ident of
          None \<Rightarrow> (True, c)
        | Some info \<Rightarrow>
            (let pi = build_peer_info_for_emit env info reg;
                 peer_up = build_peer_up (ce_pt env) (client_now env c) pi False
             in case send_message_mode env peer_up blocking c of
                  (False, c) \<Rightarrow> (False, snd (remove_known_peer ident c))
                | (True, c) \<Rightarrow> (True, c))))"

definition send_peer_stats ::
  "client_env \<Rightarrow> register \<Rightarrow> bool \<Rightarrow> ingress_id \<Rightarrow> bytes \<Rightarrow> ('osm, 'rtr) client_state \<Rightarrow>
     bool \<times> ('osm, 'rtr) client_state" where
  "send_peer_stats env reg blocking ident body c =
    (case ensure_peer_up env reg blocking ident c of
      (False, c) \<Rightarrow> (False, c)
    | (True, c) \<Rightarrow>
        (case reg_get reg ident of
          None \<Rightarrow> (True, c)
        | Some info \<Rightarrow>
            send_message_mode env
              (build_statistics_report (ce_pt env) (client_now env c)
                (build_peer_info_for_emit env info reg) body) blocking c))"

text \<open>A Route Monitoring message for a payload under a given header; a route that has none is skipped.\<close>

definition send_route ::
  "client_env \<Rightarrow> bool \<Rightarrow> peer_info \<Rightarrow> payload \<Rightarrow> ('osm, 'rtr) client_state \<Rightarrow>
     bool \<times> ('osm, 'rtr) client_state" where
  "send_route env blocking pi pl c =
    (case build_route_monitoring_from_route (ce_prefix_new env) (ce_pt env) (client_now env c) pi
        (pl_rx_value pl) (pl_route_status pl = Withdrawn) of
      Some msg \<Rightarrow> send_message_mode env msg blocking c
    | None \<Rightarrow> (True, c))"

definition send_payload_to_client ::
  "client_env \<Rightarrow> register \<Rightarrow> bool \<Rightarrow> payload \<Rightarrow> ('osm, 'rtr) client_state \<Rightarrow>
     bool \<times> ('osm, 'rtr) client_state" where
  "send_payload_to_client env reg blocking pl c =
    (let ident = pl_ingress_id pl in
     case cached_peer_info ident c of
       Some pi \<Rightarrow> send_route env blocking pi pl c
     | None \<Rightarrow>
         (case ensure_peer_up env reg blocking ident c of
           (False, c) \<Rightarrow> (False, c)
         | (True, c) \<Rightarrow>
             (let pi = build_peer_info_for_emit env
                    (case reg_get reg ident of Some info \<Rightarrow> info | None \<Rightarrow> ingress_info_new) reg;
                  c = (if reg_get reg ident \<noteq> None then cache_peer_info ident pi c else c)
              in send_route env blocking pi pl c)))"

definition send_peer_down ::
  "client_env \<Rightarrow> register \<Rightarrow> bool \<Rightarrow> ingress_id \<Rightarrow> ingress_info option \<Rightarrow>
     ('osm, 'rtr) client_state \<Rightarrow> bool \<times> ('osm, 'rtr) client_state" where
  "send_peer_down env reg blocking ident snapshot_info c =
    (if \<not> has_known_peer ident c then (True, c)
     else
       (let fetched = (if snapshot_info = None then reg_get reg ident else None);
            pi = (case (snapshot_info, fetched) of
                (Some info, _) \<Rightarrow> build_peer_info_for_emit env info reg
              | (None, Some info) \<Rightarrow> build_peer_info_for_emit env info reg
              | (None, None) \<Rightarrow> build_peer_info_for_emit env ingress_info_new reg);
            (sent, c) = send_message_mode env
              (build_peer_down (ce_pt env) (client_now env c) pi) blocking c
        in (sent, snd (remove_known_peer ident c))))"

definition send_peer_reappeared ::
  "client_env \<Rightarrow> register \<Rightarrow> bool \<Rightarrow> ingress_id \<Rightarrow> ('osm, 'rtr) client_state \<Rightarrow>
     bool \<times> ('osm, 'rtr) client_state" where
  "send_peer_reappeared env reg blocking ident c =
    (case reg_get reg ident of
      None \<Rightarrow> (True, c)
    | Some info \<Rightarrow>
        (case ensure_peer_up env reg blocking ident c of
          (False, c) \<Rightarrow> (False, c)
        | (True, c) \<Rightarrow> (True, c)))"

text \<open>The loops over the entries of a bulk update stop at the first failure.\<close>

fun send_each ::
  "('a \<Rightarrow> ('osm, 'rtr) client_state \<Rightarrow> bool \<times> ('osm, 'rtr) client_state) \<Rightarrow> 'a list \<Rightarrow>
     ('osm, 'rtr) client_state \<Rightarrow> bool \<times> ('osm, 'rtr) client_state" where
  "send_each f [] c = (True, c)"
| "send_each f (x # xs) c =
    (case f x c of (False, c) \<Rightarrow> (False, c) | (True, c) \<Rightarrow> send_each f xs c)"

fun send_update_to_client ::
  "client_env \<Rightarrow> register \<Rightarrow> bool \<Rightarrow> ('osm, 'rtr) update \<Rightarrow> ('osm, 'rtr) client_state \<Rightarrow>
     bool \<times> ('osm, 'rtr) client_state" where
  "send_update_to_client env reg blocking (Single pl) c = send_payload_to_client env reg blocking pl c"
| "send_update_to_client env reg blocking (Bulk pls) c =
    send_each (send_payload_to_client env reg blocking) pls c"
| "send_update_to_client env reg blocking (Withdraw ident afisafi) c =
    send_peer_down env reg blocking ident None c"
| "send_update_to_client env reg blocking (WithdrawBulk entries) c =
    send_each (\<lambda>(ident, info). send_peer_down env reg blocking ident info) entries c"
| "send_update_to_client env reg blocking (IngressReappeared ident) c =
    send_peer_reappeared env reg blocking ident c"
| "send_update_to_client env reg blocking (PeerStats ident body) c =
    send_peer_stats env reg blocking ident body c"
| "send_update_to_client env reg blocking _ c = (True, c)"

text \<open>What \<open>direct_update\<close> does for one client (src/units/bmp_tcp_out/unit.rs).\<close>

definition direct_update ::
  "client_env \<Rightarrow> register \<Rightarrow> ('osm, 'rtr) update \<Rightarrow> ('osm, 'rtr) client_state \<Rightarrow> mem_stats \<Rightarrow>
     ('osm, 'rtr) client_state \<times> mem_stats" where
  "direct_update env reg upd c ms =
    (if cs_disconnect_pending c then (c, ms)
     else case buffer_update_if_dumping (ce_sizes env) upd c ms of
       (Buffered, c, ms) \<Rightarrow> (c, ms)
     | (Overflow, c, ms) \<Rightarrow> (snd (request_disconnect c), ms)
     | (NotDumping, c, ms) \<Rightarrow> (snd (send_update_to_client env reg False upd c), ms))"

subsection \<open>The initial dump\<close>

definition dump_peers :: "reg_order \<Rightarrow> register \<Rightarrow> (ingress_id \<times> ingress_info) list" where
  "dump_peers it reg =
    concat (map (\<lambda>t. search it reg (query_filter_default
        \<lparr>qf_ingress_type := Some t,
         qf_ingress_state := (case t of IT_Mrt \<Rightarrow> None | _ \<Rightarrow> Some Connected)\<rparr>))
      [IT_BgpViaBmp, IT_Bgp, IT_Mrt])"

text \<open>Peer Up for every enumerated peer; None is the early return.\<close>

fun send_peer_ups ::
  "client_env \<Rightarrow> register \<Rightarrow> (ingress_id \<times> ingress_info) list \<Rightarrow> (ingress_id, peer_info) hmap \<Rightarrow>
     ('osm, 'rtr) client_state \<Rightarrow> (ingress_id, peer_info) hmap option \<times> ('osm, 'rtr) client_state" where
  "send_peer_ups env reg [] m c = (Some m, c)"
| "send_peer_ups env reg ((ident, info) # ps) m c =
    (let pi = build_peer_info_for_emit env info reg
     in case send_message env (build_peer_up (ce_pt env) (client_now env c) pi True) c of
          (False, c) \<Rightarrow> (None, c)
        | (True, c) \<Rightarrow>
            send_peer_ups env reg ps (hm_insert ident pi m) (add_known_peer ident c))"

text \<open>
  The walk and the loop that forwards its messages. \<open>wc_gone\<close> is the loop's
  \<open>client_disconnected\<close>: a send failed, or the flag that \<open>direct_update\<close> raises concurrently
  (\<open>ce_flagged\<close>) was seen at the check after every 1024 messages. The walk learns of it from its
  own next send.
\<close>

abbreviation (input) DUMP_AGGREGATOR_MAX_BYTES :: nat where
  "DUMP_AGGREGATOR_MAX_BYTES \<equiv> 256 * 1024 * 1024"

abbreviation (input) YIELD_EVERY :: nat where "YIELD_EVERY \<equiv> 1024"

record ('osm, 'rtr) walk_client =
  wc_client :: "('osm, 'rtr) client_state"
  wc_since_yield :: nat
  wc_gone :: bool

definition forward ::
  "client_env \<Rightarrow> bytes \<Rightarrow> ('osm, 'rtr) walk_client \<Rightarrow> bool \<times> ('osm, 'rtr) walk_client" where
  "forward env msg w =
    (if wc_gone w then (False, w)
     else case send_message env msg (wc_client w) of
       (False, c) \<Rightarrow> (False, w\<lparr>wc_client := c, wc_gone := True\<rparr>)
     | (True, c) \<Rightarrow>
         (let since_yield = wc_since_yield w + 1
          in if since_yield \<ge> YIELD_EVERY
             then (True, w\<lparr>wc_client := c, wc_since_yield := 0,
                     wc_gone := (cs_disconnect_pending c \<or> ce_flagged env (cs_attempts c))\<rparr>)
             else (True, w\<lparr>wc_client := c, wc_since_yield := since_yield\<rparr>)))"

definition walk_env :: "client_env \<Rightarrow> ('osm, 'rtr) walk_client env" where
  "walk_env env =
    \<lparr>env_pt = ce_pt env, env_hasher = ce_hasher env,
     env_now = (\<lambda>w. client_now env (wc_client w)), env_send = (\<lambda>w msg n. forward env msg w)\<rparr>"

text \<open>
  The peer of a stored route. \<open>Some True\<close>: the aggregator has it, possibly just now from the
  register, its Peer Up sent; \<open>Some False\<close>: no peer, the route is skipped; \<open>None\<close>: the consumer
  is gone.
\<close>

definition walk_peer ::
  "client_env \<Rightarrow> register \<Rightarrow> ingress_id \<Rightarrow> route_aggregator \<Rightarrow> (ingress_id \<times> peer_info) list \<Rightarrow>
     ('osm, 'rtr) walk_client \<Rightarrow>
     bool option \<times> route_aggregator \<times> (ingress_id \<times> peer_info) list \<times> ('osm, 'rtr) walk_client" where
  "walk_peer env reg ident agg discovered w =
    (if agg_has_peer agg ident then (Some True, agg, discovered, w)
     else case reg_get reg ident of
       None \<Rightarrow> (Some False, agg, discovered, w)
     | Some info \<Rightarrow>
         (if ii_ingress_type info \<in> {Some IT_BgpViaBmp, Some IT_Bgp, Some IT_Mrt} then
            (let pi = build_peer_info_for_emit env info reg
             in case forward env (build_peer_up (ce_pt env) (client_now env (wc_client w)) pi False) w of
                  (False, w) \<Rightarrow> (None, agg, discovered, w)
                | (True, w) \<Rightarrow>
                    (Some True, agg_insert_peer ident pi agg, discovered @ [(ident, pi)], w))
          else (Some False, agg, discovered, w)))"

fun walk_records ::
  "client_env \<Rightarrow> register \<Rightarrow> (prefix \<times> ingress_id \<times> rotonda_pa_map) list \<Rightarrow> route_aggregator \<Rightarrow>
     (ingress_id \<times> peer_info) list \<Rightarrow> ('osm, 'rtr) walk_client \<Rightarrow>
     bool \<times> route_aggregator \<times> (ingress_id \<times> peer_info) list \<times> ('osm, 'rtr) walk_client" where
  "walk_records env reg [] agg discovered w = (True, agg, discovered, w)"
| "walk_records env reg ((p, ident, pamap) # rs) agg discovered w =
    (case walk_peer env reg ident agg discovered w of
      (None, agg, discovered, w) \<Rightarrow> (False, agg, discovered, w)
    | (Some False, agg, discovered, w) \<Rightarrow> walk_records env reg rs agg discovered w
    | (Some True, agg, discovered, w) \<Rightarrow>
        (case agg_add (ce_order env agg) (walk_env env) ident p pamap agg w of
          (False, agg, w) \<Rightarrow> (False, agg, discovered, w)
        | (True, agg, w) \<Rightarrow> walk_records env reg rs agg discovered w))"

definition dump_walk ::
  "client_env \<Rightarrow> register \<Rightarrow> (prefix \<times> (ingress_id \<times> rotonda_pa_map) list) list \<Rightarrow>
     (ingress_id, peer_info) hmap \<Rightarrow> ('osm, 'rtr) client_state \<Rightarrow>
     (ingress_id \<times> peer_info) list \<times> ('osm, 'rtr) walk_client" where
  "dump_walk env reg rib peer_info_map c =
    (let records = concat (map (\<lambda>(p, meta). map (\<lambda>(ident, pamap). (p, ident, pamap)) meta) rib);
         w = \<lparr>wc_client = c, wc_since_yield = 0, wc_gone = False\<rparr>
     in case walk_records env reg records
               (aggregator_new DUMP_AGGREGATOR_MAX_BYTES peer_info_map) [] w of
          (False, agg, discovered, w) \<Rightarrow> (discovered, w)
        | (True, agg, discovered, w) \<Rightarrow>
            (discovered, snd (snd (flush_all (ce_order env agg) (walk_env env) agg w))))"

fun send_eors ::
  "client_env \<Rightarrow> peer_info \<Rightarrow> afisafi list \<Rightarrow> ('osm, 'rtr) client_state \<Rightarrow>
     bool \<times> ('osm, 'rtr) client_state" where
  "send_eors env pi [] c = (True, c)"
| "send_eors env pi (fam # fams) c =
    (case build_end_of_rib_marker (ce_af env) (ce_pt env) (client_now env c) pi fam of
      None \<Rightarrow> send_eors env pi fams c
    | Some msg \<Rightarrow>
        (case send_message env msg c of
          (False, c) \<Rightarrow> (False, c)
        | (True, c) \<Rightarrow> send_eors env pi fams c))"

definition dump_table ::
  "client_env \<Rightarrow> reg_order \<Rightarrow> register \<Rightarrow> register \<Rightarrow> ustr \<Rightarrow> ustr \<Rightarrow>
     (prefix \<times> (ingress_id \<times> rotonda_pa_map) list) list \<Rightarrow> ('osm, 'rtr) client_state \<Rightarrow> mem_stats \<Rightarrow>
     bool \<times> ('osm, 'rtr) client_state \<times> mem_stats" where
  "dump_table env it reg walk_reg sys_name sys_descr rib c ms =
    (case send_message env (build_initiation_message sys_name sys_descr) c of
      (False, c) \<Rightarrow> (False, c, ms)
    | (True, c) \<Rightarrow>
        (let peers = dump_peers it reg
         in case send_peer_ups env reg peers [] c of
              (None, c) \<Rightarrow> (False, c, ms)
            | (Some peer_info_map, c) \<Rightarrow>
                (case dump_walk env walk_reg rib peer_info_map c of (discovered, w) \<Rightarrow>
                  if wc_gone w then
                    (case discard_dump_buffer (snd (request_disconnect (wc_client w))) ms of
                      (c, ms) \<Rightarrow> (False, c, ms))
                  else
                    (case send_each (\<lambda>(ident, _) c.
                         case hm_get peer_info_map ident of
                           None \<Rightarrow> (True, c)
                         | Some pi \<Rightarrow> send_eors env pi [Ipv4Unicast, Ipv6Unicast] c)
                       peers (wc_client w) of
                      (False, c) \<Rightarrow> (False, c, ms)
                    | (True, c) \<Rightarrow>
                        (case send_each (\<lambda>(ident, pi) c.
                             send_eors env pi [Ipv4Unicast, Ipv6Unicast] (add_known_peer ident c))
                           discovered c of
                          (ok, c) \<Rightarrow> (ok, c, ms))))))"

end
