(* ===== verification/Bmp_Session.thy ===== *)
theory Bmp_Session
  imports Bmp_Client
begin

text \<open>
  A client's session: the dump task of \<open>handle_new_client\<close> (src/units/bmp_tcp_out/unit.rs) and
  the drain loop at the end of \<open>perform_initial_dump\<close>, interleaved with the calls of
  \<open>direct_update\<close> that the pipeline makes at any time.

  A step of the session is one critical section of the code: a call of \<open>direct_update\<close>, the
  table dump, taking a batch under the phase lock, replaying one update of the batch, going live.
  During the table dump \<open>direct_update\<close> only touches the buffer, its counters and the disconnect
  flag, which the dump does not read (save for the flag, \<open>ce_flagged\<close>); so the table dump is one
  step. \<open>se_arrived\<close> and \<open>se_handled\<close> are ghost state: the updates the pipeline delivered, and
  those that reached \<open>send_update_to_client\<close>, in order.

  The lemmas show what the consumer sees. \<open>receive\<close> is a BMP receiver that rejects a message of
  a peer that is not up; the invariant relates its state to the peers the client knows.
\<close>

subsection \<open>Steps\<close>

datatype ('osm, 'rtr) dump_task = Starting | Draining "('osm, 'rtr) update list" | Finished bool

record ('osm, 'rtr) session =
  se_client :: "('osm, 'rtr) client_state"
  se_mem :: mem_stats
  se_task :: "('osm, 'rtr) dump_task"
  se_arrived :: "('osm, 'rtr) update list"
  se_handled :: "('osm, 'rtr) update list"

definition session_new :: "nat \<Rightarrow> nat \<Rightarrow> mem_stats \<Rightarrow> ('osm, 'rtr) session" where
  "session_new max_entries max_bytes ms =
    (case client_new max_entries max_bytes ms of (c, ms) \<Rightarrow>
      \<lparr>se_client = c, se_mem = ms, se_task = Starting, se_arrived = [], se_handled = []\<rparr>)"

text \<open>The dump task when there is no RIB yet: the phase lock is held from the take to the end.\<close>

definition dump_without_rib ::
  "client_env \<Rightarrow> register \<Rightarrow> ustr \<Rightarrow> ustr \<Rightarrow> ('osm, 'rtr) client_state \<Rightarrow> mem_stats \<Rightarrow>
     ('osm, 'rtr) client_state \<times> mem_stats" where
  "dump_without_rib env reg sys_name sys_descr c ms =
    (let c = snd (send_message env (build_initiation_message sys_name sys_descr) c);
         (buffered, c, ms) = take_buffered_updates c ms;
         c = snd (send_each (send_update_to_client env reg True) buffered c)
     in (c\<lparr>cs_phase := Live\<rparr>, ms))"

datatype ('osm, 'rtr) session_label =
    Arrive register "('osm, 'rtr) update"
  | Table reg_order register register ustr ustr "(prefix \<times> (ingress_id \<times> rotonda_pa_map) list) list"
  | NoRib register ustr ustr
  | TakeBatch
  | Replay register "('osm, 'rtr) update"
  | GoLive

inductive session_step ::
  "client_env \<Rightarrow> ('osm, 'rtr) session \<Rightarrow> ('osm, 'rtr) session_label \<Rightarrow> ('osm, 'rtr) session \<Rightarrow> bool"
  for env where
  arrive:
    "direct_update env reg upd (se_client s) (se_mem s) = (c, ms) \<Longrightarrow>
     session_step env s (Arrive reg upd)
       (s\<lparr>se_client := c, se_mem := ms, se_arrived := se_arrived s @ [upd],
          se_handled := se_handled s @
            (if \<not> cs_disconnect_pending (se_client s) \<and> cs_phase (se_client s) = Live
             then [upd] else [])\<rparr>)"
| table_done:
    "\<lbrakk>se_task s = Starting;
      dump_table env it reg walk_reg n d rib (se_client s) (se_mem s) = (True, c, ms)\<rbrakk> \<Longrightarrow>
     session_step env s (Table it reg walk_reg n d rib)
       (s\<lparr>se_client := c, se_mem := ms, se_task := Draining []\<rparr>)"
| table_failed:
    "\<lbrakk>se_task s = Starting;
      dump_table env it reg walk_reg n d rib (se_client s) (se_mem s) = (False, c, ms)\<rbrakk> \<Longrightarrow>
     session_step env s (Table it reg walk_reg n d rib)
       (s\<lparr>se_client := snd (request_disconnect c), se_mem := ms, se_task := Finished False\<rparr>)"
| no_rib:
    "\<lbrakk>se_task s = Starting;
      dump_without_rib env reg n d (se_client s) (se_mem s) = (c, ms)\<rbrakk> \<Longrightarrow>
     session_step env s (NoRib reg n d)
       (s\<lparr>se_client := c, se_mem := ms, se_task := Finished True,
          se_handled := se_handled s @ cs_dump_buffer (se_client s)\<rparr>)"
| take_batch:
    "\<lbrakk>se_task s = Draining []; take_buffered_updates (se_client s) (se_mem s) = (batch, c, ms);
      batch \<noteq> []\<rbrakk> \<Longrightarrow>
     session_step env s TakeBatch (s\<lparr>se_client := c, se_mem := ms, se_task := Draining batch\<rparr>)"
| go_live:
    "\<lbrakk>se_task s = Draining []; take_buffered_updates (se_client s) (se_mem s) = ([], c, ms)\<rbrakk> \<Longrightarrow>
     session_step env s GoLive
       (s\<lparr>se_client := c\<lparr>cs_phase := Live\<rparr>, se_mem := ms, se_task := Finished True\<rparr>)"
| replay:
    "\<lbrakk>se_task s = Draining (upd # batch);
      send_update_to_client env reg True upd (se_client s) = (True, c)\<rbrakk> \<Longrightarrow>
     session_step env s (Replay reg upd)
       (s\<lparr>se_client := c, se_task := Draining batch, se_handled := se_handled s @ [upd]\<rparr>)"
| replay_failed:
    "\<lbrakk>se_task s = Draining (upd # batch);
      send_update_to_client env reg True upd (se_client s) = (False, c)\<rbrakk> \<Longrightarrow>
     session_step env s (Replay reg upd)
       (s\<lparr>se_client := snd (request_disconnect c), se_task := Finished False,
          se_handled := se_handled s @ [upd]\<rparr>)"

text \<open>The states a session can reach by steps that satisfy \<open>ok\<close>.\<close>

inductive session_reach ::
  "client_env \<Rightarrow> (('osm, 'rtr) session \<Rightarrow> ('osm, 'rtr) session_label \<Rightarrow> bool) \<Rightarrow> ('osm, 'rtr) session \<Rightarrow> bool"
  for env ok where
  reach_new: "session_reach env ok (session_new max_entries max_bytes ms)"
| reach_step: "\<lbrakk>session_reach env ok s; session_step env s l t; ok s l\<rbrakk> \<Longrightarrow> session_reach env ok t"

subsection \<open>The receiver\<close>

text \<open>
  The receiver reads the message type and the part of the per-peer header that identifies the
  peer, that is all but the time stamp.
\<close>

datatype receiver = AwaitInit | Up "bytes multiset" | Ended | ProtocolError

fun receive :: "receiver \<Rightarrow> bytes \<Rightarrow> receiver" where
  "receive AwaitInit m = (if take 1 (drop 5 m) = [BMP_MSG_INITIATION] then Up {#} else ProtocolError)"
| "receive (Up peers) m =
    (case drop 5 m of
      [] \<Rightarrow> ProtocolError
    | t # rest \<Rightarrow>
        (let key = take 34 rest in
         if t = BMP_MSG_PEER_UP then Up (add_mset key peers)
         else if t = BMP_MSG_PEER_DOWN then
           (if key \<in># peers then Up (peers - {#key#}) else ProtocolError)
         else if t = BMP_MSG_ROUTE_MONITORING \<or> t = BMP_MSG_STATISTICS_REPORT then
           (if key \<in># peers then Up peers else ProtocolError)
         else if t = BMP_MSG_TERMINATION then Ended
         else ProtocolError))"
| "receive Ended m = ProtocolError"
| "receive ProtocolError m = ProtocolError"

definition received :: "('osm, 'rtr) client_state \<Rightarrow> receiver" where
  "received c = foldl receive AwaitInit (cs_sent c)"

definition peer_key :: "(peer_type \<Rightarrow> u8) \<Rightarrow> peer_info \<Rightarrow> bytes" where
  "peer_key pt p = take 34 (write_per_peer_header pt (0, 0) [] p)"

definition peer_message :: "(peer_type \<Rightarrow> u8) \<Rightarrow> u8 \<Rightarrow> peer_info \<Rightarrow> bytes \<Rightarrow> bool" where
  "peer_message pt t p m \<longleftrightarrow>
    (\<exists>now len body. m = write_per_peer_header pt now (write_common_header [] t len) p @ body)"

lemma peer_messageI:
  "peer_message pt t p (write_per_peer_header pt now (write_common_header [] t len) p @ body)"
  unfolding peer_message_def by blast

lemma drop_peer_message:
  assumes "peer_message pt t p m" and "peer_info_wf p"
  shows "\<exists>rest. drop 5 m = t # rest \<and> take 34 rest = peer_key pt p"
proof -
  obtain now len body where m: "m = write_per_peer_header pt now (write_common_header [] t len) p @ body"
    using assms(1) by (auto simp: peer_message_def)
  let ?k = "write_per_peer_header pt now [] p"
  have "drop 5 m = t # ?k @ body"
    unfolding m by (subst write_per_peer_header_buf) (simp add: write_common_header_def)
  moreover have "take 34 (?k @ body) = peer_key pt p"
    using assms(2) by (simp add: peer_key_def peer_info_wf_def write_per_peer_header_def split: ip_addr.split)
  ultimately show ?thesis by blast
qed

lemma receive_peer_message:
  assumes "peer_message pt t p m" and "peer_info_wf p"
  shows "receive (Up peers) m =
    (let key = peer_key pt p in
     if t = BMP_MSG_PEER_UP then Up (add_mset key peers)
     else if t = BMP_MSG_PEER_DOWN then
       (if key \<in># peers then Up (peers - {#key#}) else ProtocolError)
     else if t = BMP_MSG_ROUTE_MONITORING \<or> t = BMP_MSG_STATISTICS_REPORT then
       (if key \<in># peers then Up peers else ProtocolError)
     else if t = BMP_MSG_TERMINATION then Ended
     else ProtocolError)"
  using drop_peer_message [OF assms] by (auto simp: Let_def)

lemma receive_initiation: "receive AwaitInit (build_initiation_message n d) = Up {#}"
  by (simp add: build_initiation_message_def write_common_header_def Let_def)

lemma peer_message_builders [intro]:
  "peer_message pt BMP_MSG_PEER_UP p (build_peer_up pt now p gr)"
  "peer_message pt BMP_MSG_PEER_DOWN p (build_peer_down pt now p)"
  "peer_message pt BMP_MSG_STATISTICS_REPORT p (build_statistics_report pt now p body)"
  "build_route_monitoring pt now p pfx pm w = Some m \<Longrightarrow> peer_message pt BMP_MSG_ROUTE_MONITORING p m"
  "build_route_monitoring_from_route pn pt now p r w = Some m \<Longrightarrow> peer_message pt BMP_MSG_ROUTE_MONITORING p m"
  "build_end_of_rib_marker af pt now p fam = Some m \<Longrightarrow> peer_message pt BMP_MSG_ROUTE_MONITORING p m"
  "peer_message pt BMP_MSG_ROUTE_MONITORING p (ag_message pt now g p)"
  by (auto intro!: peer_messageI simp: build_peer_up_def build_peer_down_def build_statistics_report_def Let_def
      build_route_monitoring_def build_route_monitoring_from_route_def build_end_of_rib_marker_def
      build_eor_ipv4_def build_eor_mp_unreach_def ag_message_def build_aggregated_route_monitoring_def
      split: option.splits afisafi.splits rotonda_route.splits prod.splits)

subsection \<open>What every handler keeps\<close>

text \<open>A channel that was closed stays closed: tokio's channels have no reopening.\<close>

definition closed_from :: "client_env \<Rightarrow> nat \<Rightarrow> bool" where
  "closed_from env n \<longleftrightarrow> (\<forall>m\<ge>n. ce_tx env m = TxClosed)"

definition tx_law :: "client_env \<Rightarrow> bool" where
  "tx_law env \<longleftrightarrow> (\<forall>n. ce_tx env n = TxClosed \<longrightarrow> closed_from env n)"

definition buf_view ::
  "('osm, 'rtr) client_state \<Rightarrow> client_phase \<times> ('osm, 'rtr) update list \<times> nat \<times> nat \<times> nat" where
  "buf_view c = (cs_phase c, cs_dump_buffer c, cs_buffered_bytes c, cs_max_buffer_entries c,
     cs_max_buffer_bytes c)"

definition counters_ok :: "('osm, 'rtr) client_state \<Rightarrow> bool" where
  "counters_ok c \<longleftrightarrow> cs_disconnect_notify c = (if cs_disconnect_pending c then 1 else 0) \<and>
     cs_messages_sent c = length (cs_sent c) \<and> cs_bytes_sent c = sum_list (map length (cs_sent c))"

text \<open>The frame of the handlers: they leave the buffer alone and only ever append messages.\<close>

definition evolves :: "client_env \<Rightarrow> ('osm, 'rtr) client_state \<Rightarrow> ('osm, 'rtr) client_state \<Rightarrow> bool" where
  "evolves env c c' \<longleftrightarrow> buf_view c' = buf_view c \<and> cs_attempts c \<le> cs_attempts c' \<and>
     (cs_disconnect_pending c \<longrightarrow> cs_disconnect_pending c') \<and> (counters_ok c \<longrightarrow> counters_ok c') \<and>
     (closed_from env (cs_attempts c) \<longrightarrow> cs_sent c' = cs_sent c)"

lemma closed_from_mono: "closed_from env n \<Longrightarrow> n \<le> m \<Longrightarrow> closed_from env m"
  by (simp add: closed_from_def)

lemma evolves_refl [simp, intro]: "evolves env c c"
  by (simp add: evolves_def)

lemma evolves_trans: "evolves env c c1 \<Longrightarrow> evolves env c1 c2 \<Longrightarrow> evolves env c c2"
  by (auto simp: evolves_def dest: closed_from_mono)

lemma evolves_peers [simp]:
  "evolves env c (c\<lparr>cs_known_peers := k\<rparr>)" "evolves env c (c\<lparr>cs_peer_info_cache := m\<rparr>)"
  "evolves env c (snd (register_known_peer_if_absent ident c))"
  "evolves env c (snd (remove_known_peer ident c))" "evolves env c (add_known_peer ident c)"
  "evolves env c (cache_peer_info ident pi c)" "evolves env c (snd (request_disconnect c))"
  by (simp_all add: evolves_def buf_view_def counters_ok_def register_known_peer_if_absent_def
      remove_known_peer_def add_known_peer_def cache_peer_info_def request_disconnect_def Let_def)

lemma send_evolves [simp]: "evolves env c (snd (send_message_mode env m b c))"
  by (auto simp: evolves_def buf_view_def counters_ok_def send_message_mode_def request_disconnect_def
      closed_from_def Let_def split: tx_state.splits)

lemma evolves_send_each:
  assumes "\<And>x c. x \<in> set xs \<Longrightarrow> evolves env c (snd (f x c))"
  shows "evolves env c (snd (send_each f xs c))"
  using assms
proof (induction xs arbitrary: c)
  case (Cons x xs)
  obtain ok c1 where f: "f x c = (ok, c1)" by (cases "f x c") blast
  have "evolves env c c1" using Cons.prems [of x c] f by simp
  moreover have "evolves env c1 (snd (send_each f xs c1))" using Cons by simp
  ultimately show ?case using f by (cases ok) (auto intro: evolves_trans)
qed simp

lemma ensure_peer_up_evolves [simp]: "evolves env c (snd (ensure_peer_up env reg b ident c))"
proof -
  obtain new c1 where r: "register_known_peer_if_absent ident c = (new, c1)"
    by (cases "register_known_peer_if_absent ident c") blast
  have e1: "evolves env c c1" using evolves_peers(3) [of env c ident] r by simp
  have e2: "evolves env c1 c2 \<Longrightarrow> evolves env c (snd (remove_known_peer ident c2))"
    and e3: "evolves env c1 c2 \<Longrightarrow> evolves env c c2" for c2
    using e1 by (blast intro: evolves_trans evolves_peers(4))+
  have e4: "send_message_mode env m b c1 = (ok, c2) \<Longrightarrow> evolves env c1 c2" for m ok c2
    using send_evolves [of env c1 m b] by simp
  show ?thesis unfolding ensure_peer_up_def r
    by (auto simp: Let_def e1 split: bool.split option.split prod.split intro: e2 e3 dest: e4)
qed

lemma send_route_evolves [simp]: "evolves env c (snd (send_route env b pi pl c))"
  by (simp add: send_route_def split: option.split)

lemma send_payload_evolves [simp]: "evolves env c (snd (send_payload_to_client env reg b pl c))"
proof -
  let ?i = "pl_ingress_id pl"
  obtain ok c1 where e: "ensure_peer_up env reg b ?i c = (ok, c1)"
    by (cases "ensure_peer_up env reg b ?i c") blast
  have e1: "evolves env c c1" using ensure_peer_up_evolves [of env c reg b ?i] e by simp
  have "evolves env c (snd (send_route env b pi pl (cache_peer_info ?i pi' c1)))"
 for pi pi'
    by (rule evolves_trans [OF e1], rule evolves_trans [OF evolves_peers(6)], rule send_route_evolves)
  moreover have "evolves env c (snd (send_route env b pi pl c1))" for pi
    by (rule evolves_trans [OF e1], simp)
  ultimately show ?thesis unfolding send_payload_to_client_def Let_def e
    by (simp add: e1 split: option.split bool.split)
qed

lemma send_peer_down_evolves [simp]: "evolves env c (snd (send_peer_down env reg b ident snap c))"
  by (auto simp: send_peer_down_def case_prod_unfold Let_def
      intro: evolves_trans [OF send_evolves evolves_peers(4)])

lemma send_peer_stats_evolves [simp]: "evolves env c (snd (send_peer_stats env reg b ident body c))"
proof -
  obtain ok c1 where e: "ensure_peer_up env reg b ident c = (ok, c1)"
    by (cases "ensure_peer_up env reg b ident c") blast
  have e1: "evolves env c c1" using ensure_peer_up_evolves [of env c reg b ident] e by simp
  then show ?thesis unfolding send_peer_stats_def e
    by (simp split: option.split bool.split) (blast intro: evolves_trans send_evolves)
qed

lemma send_peer_reappeared_eq:
  "send_peer_reappeared env reg b ident c =
    (case reg_get reg ident of None \<Rightarrow> (True, c) | Some _ \<Rightarrow> ensure_peer_up env reg b ident c)"
  by (auto simp: send_peer_reappeared_def split: option.split prod.split bool.split)

lemma send_peer_reappeared_evolves [simp]: "evolves env c (snd (send_peer_reappeared env reg b ident c))"
  by (simp add: send_peer_reappeared_eq split: option.split)

lemma send_update_evolves [simp]: "evolves env c (snd (send_update_to_client env reg b upd c))"
  by (cases upd) (simp_all add: evolves_send_each case_prod_unfold)

subsection \<open>The receiver follows the client\<close>

text \<open>
  \<open>H\<close> gives the header of each peer, as long as the session lasts: \<open>reg_ok\<close> says that the
  register agrees with it. \<open>in_step\<close>: the peers that are up for the receiver are those the client
  knows, and every cached header is the one its peer came up with.
\<close>

definition info_ok :: "client_env \<Rightarrow> (ingress_id \<Rightarrow> bytes) \<Rightarrow> register \<Rightarrow> ingress_id \<Rightarrow> ingress_info \<Rightarrow> bool" where
  "info_ok env H reg ident info \<longleftrightarrow> peer_info_wf (build_peer_info_for_emit env info reg) \<and>
     peer_key (ce_pt env) (build_peer_info_for_emit env info reg) = H ident"

definition reg_ok :: "client_env \<Rightarrow> (ingress_id \<Rightarrow> bytes) \<Rightarrow> register \<Rightarrow> bool" where
  "reg_ok env H reg \<longleftrightarrow> (\<forall>ident info. reg_get reg ident = Some info \<longrightarrow> info_ok env H reg ident info)"

definition up_peers :: "(ingress_id \<Rightarrow> bytes) \<Rightarrow> ingress_id set \<Rightarrow> receiver" where
  "up_peers H known = Up (image_mset H (mset_set known))"

definition cache_ok :: "client_env \<Rightarrow> (ingress_id \<Rightarrow> bytes) \<Rightarrow> ('osm, 'rtr) client_state \<Rightarrow> bool" where
  "cache_ok env H c \<longleftrightarrow> (\<forall>ident pi. hm_get (cs_peer_info_cache c) ident = Some pi \<longrightarrow>
     ident \<in> cs_known_peers c \<and> peer_info_wf pi \<and> peer_key (ce_pt env) pi = H ident)"

definition in_step :: "client_env \<Rightarrow> (ingress_id \<Rightarrow> bytes) \<Rightarrow> ('osm, 'rtr) client_state \<Rightarrow> bool" where
  "in_step env H c \<longleftrightarrow> cache_ok env H c \<and> finite (cs_known_peers c) \<and>
     received c = up_peers H (cs_known_peers c)"

definition failed :: "client_env \<Rightarrow> bool \<Rightarrow> ('osm, 'rtr) client_state \<Rightarrow> bool" where
  "failed env blocking c \<longleftrightarrow> closed_from env (cs_attempts c) \<or> \<not> blocking \<and> cs_disconnect_pending c"

definition keeps_step ::
  "client_env \<Rightarrow> (ingress_id \<Rightarrow> bytes) \<Rightarrow> bool \<Rightarrow> bool \<times> ('osm, 'rtr) client_state \<Rightarrow> bool" where
  "keeps_step env H blocking res \<longleftrightarrow>
    (if fst res then in_step env H (snd res)
     else received (snd res) \<noteq> ProtocolError \<and> failed env blocking (snd res))"

lemma send_cases:
  assumes "tx_law env" and "send_message_mode env m b c = (ok, c')"
  obtains (sent) "ok" "cs_sent c' = cs_sent c @ [m]" "cs_known_peers c' = cs_known_peers c"
      "cs_peer_info_cache c' = cs_peer_info_cache c" "received c' = receive (received c) m"
    | (lost) "\<not> ok" "cs_known_peers c' = cs_known_peers c" "cs_peer_info_cache c' = cs_peer_info_cache c"
      "received c' = received c" "failed env b c'"
  using assms
  by (auto simp: send_message_mode_def request_disconnect_def received_def failed_def tx_law_def Let_def
      closed_from_def split: if_splits tx_state.splits)

lemma received_peers [simp]:
  "received (c\<lparr>cs_known_peers := k\<rparr>) = received c" "received (c\<lparr>cs_peer_info_cache := m\<rparr>) = received c"
  "received (snd (remove_known_peer i c)) = received c" "received (cache_peer_info i pi c) = received c"
  "received (add_known_peer i c) = received c"
  by (simp_all add: received_def remove_known_peer_def cache_peer_info_def add_known_peer_def)

lemma failed_peers [simp]:
  "failed env b (c\<lparr>cs_known_peers := k\<rparr>) = failed env b c"
  "failed env b (snd (remove_known_peer i c)) = failed env b c"
  by (simp_all add: failed_def remove_known_peer_def)

lemma up_peers_simps:
  assumes "finite known"
  shows "ident \<in> known \<Longrightarrow> t \<in> {BMP_MSG_ROUTE_MONITORING, BMP_MSG_STATISTICS_REPORT} \<Longrightarrow>
      peer_message pt t p m \<Longrightarrow> peer_info_wf p \<Longrightarrow> peer_key pt p = H ident \<Longrightarrow>
      receive (up_peers H known) m = up_peers H known"
    and "ident \<notin> known \<Longrightarrow> peer_message pt BMP_MSG_PEER_UP p m \<Longrightarrow> peer_info_wf p \<Longrightarrow>
      peer_key pt p = H ident \<Longrightarrow> receive (up_peers H known) m = up_peers H (insert ident known)"
    and "ident \<in> known \<Longrightarrow> peer_message pt BMP_MSG_PEER_DOWN p m \<Longrightarrow> peer_info_wf p \<Longrightarrow>
      peer_key pt p = H ident \<Longrightarrow> receive (up_peers H known) m = up_peers H (known - {ident})"
  using assms
  by (auto simp: up_peers_def receive_peer_message Let_def image_mset_Diff mset_set_Diff
      simp del: receive.simps)

lemma up_peers_no_error [simp]: "up_peers H known \<noteq> ProtocolError"
  by (simp add: up_peers_def)

lemma send_for_known:
  assumes "tx_law env" and "in_step env H c" and "ident \<in> cs_known_peers c"
    and "t \<in> {BMP_MSG_ROUTE_MONITORING, BMP_MSG_STATISTICS_REPORT}"
    and "peer_message (ce_pt env) t p m" and "peer_info_wf p" and "peer_key (ce_pt env) p = H ident"
  shows "keeps_step env H b (send_message_mode env m b c)"
proof -
  obtain ok c' where s: "send_message_mode env m b c = (ok, c')" by (cases "send_message_mode env m b c") blast
  from assms(1) s show ?thesis
  proof (cases rule: send_cases)
    case sent
    have "received c' = up_peers H (cs_known_peers c)"
      using sent(5) assms(2) up_peers_simps(1) [where H = H, OF _ assms(3-7)] by (auto simp: in_step_def)
    then show ?thesis
      using sent assms(2) s by (simp add: keeps_step_def in_step_def cache_ok_def)
  next
    case lost
    then show ?thesis using assms(2) s by (simp add: keeps_step_def in_step_def)
  qed
qed

lemma ensure_peer_up_keeps:
  assumes "tx_law env" and "in_step env H c" and "reg_ok env H reg" and "reg_get reg ident = Some info"
  shows "keeps_step env H b (ensure_peer_up env reg b ident c)"
    and "fst (ensure_peer_up env reg b ident c) \<Longrightarrow>
      ident \<in> cs_known_peers (snd (ensure_peer_up env reg b ident c))"
proof -
  let ?pi = "build_peer_info_for_emit env info reg"
  let ?c1 = "c\<lparr>cs_known_peers := insert ident (cs_known_peers c)\<rparr>"
  let ?m = "build_peer_up (ce_pt env) (client_now env ?c1) ?pi False"
  have pi: "peer_info_wf ?pi" "peer_key (ce_pt env) ?pi = H ident"
    using assms(3,4) by (auto simp: reg_ok_def info_ok_def)
  have "keeps_step env H b (ensure_peer_up env reg b ident c) \<and> (fst (ensure_peer_up env reg b ident c) \<longrightarrow>
      ident \<in> cs_known_peers (snd (ensure_peer_up env reg b ident c)))"
  proof (cases "ident \<in> cs_known_peers c")
    case True
    then have "?c1 = c" by (simp add: insert_absorb)
    with True show ?thesis
      using assms(2) by (simp add: ensure_peer_up_def register_known_peer_if_absent_def keeps_step_def)
  next
    case False
    obtain ok c2 where s: "send_message_mode env ?m b ?c1 = (ok, c2)"
      by (cases "send_message_mode env ?m b ?c1") blast
    have e: "ensure_peer_up env reg b ident c = (if ok then (True, c2) else (False, snd (remove_known_peer ident c2)))"
      using False assms(4) s
      by (simp add: ensure_peer_up_def register_known_peer_if_absent_def Let_def split: bool.split)
    have fin: "finite (cs_known_peers c)" and up: "received c = up_peers H (cs_known_peers c)"
      and co: "cache_ok env H c" using assms(2) by (simp_all add: in_step_def)
    from assms(1) s show ?thesis
    proof (cases rule: send_cases)
      case sent
      have "received c2 = up_peers H (insert ident (cs_known_peers c))"
        using sent(5) up up_peers_simps(2) [where H = H, OF fin False _ pi] by auto
      then show ?thesis
        using sent e fin co by (auto simp: keeps_step_def in_step_def cache_ok_def)
    next
      case lost
      then show ?thesis using e up by (simp add: keeps_step_def)
    qed
  qed
  then show "keeps_step env H b (ensure_peer_up env reg b ident c)"
    and "fst (ensure_peer_up env reg b ident c) \<Longrightarrow>
      ident \<in> cs_known_peers (snd (ensure_peer_up env reg b ident c))" by blast+
qed

lemma send_route_keeps:
  assumes "tx_law env" and "in_step env H c" and "ident \<in> cs_known_peers c"
    and "peer_info_wf p" and "peer_key (ce_pt env) p = H ident"
  shows "keeps_step env H b (send_route env b p pl c)"
  using send_for_known [OF assms(1-3), of BMP_MSG_ROUTE_MONITORING] assms(2,4,5)
  by (auto simp: send_route_def keeps_step_def [of env H b "(True, c)"] split: option.split)

lemma send_payload_keeps:
  assumes "tx_law env" and "in_step env H c" and "reg_ok env H reg"
    and "reg_get reg (pl_ingress_id pl) \<noteq> None"
  shows "keeps_step env H b (send_payload_to_client env reg b pl c)"
proof (cases "cached_peer_info (pl_ingress_id pl) c")
  case (Some pi)
  then have "pl_ingress_id pl \<in> cs_known_peers c" "peer_info_wf pi" "peer_key (ce_pt env) pi = H (pl_ingress_id pl)"
    using assms(2) by (auto simp: in_step_def cache_ok_def cached_peer_info_def)
  from send_route_keeps [OF assms(1,2) this] Some show ?thesis by (simp add: send_payload_to_client_def)
next
  case None
  let ?i = "pl_ingress_id pl"
  obtain info where info: "reg_get reg ?i = Some info" using assms(4) by auto
  let ?pi = "build_peer_info_for_emit env info reg"
  have pi: "peer_info_wf ?pi" "peer_key (ce_pt env) ?pi = H ?i"
    using assms(3) info by (auto simp: reg_ok_def info_ok_def)
  obtain ok c1 where e: "ensure_peer_up env reg b ?i c = (ok, c1)" by (cases "ensure_peer_up env reg b ?i c") blast
  note k = ensure_peer_up_keeps [OF assms(1-3) info, of b, unfolded e, simplified]
  show ?thesis
  proof (cases ok)
    case True
    have "in_step env H (cache_peer_info ?i ?pi c1)"
      using k True pi by (auto simp: keeps_step_def in_step_def cache_ok_def cache_peer_info_def received_def)
    moreover have "?i \<in> cs_known_peers (cache_peer_info ?i ?pi c1)"
      using k(2) [OF True] by (simp add: cache_peer_info_def)
    ultimately have "keeps_step env H b (send_route env b ?pi pl (cache_peer_info ?i ?pi c1))"
      by (rule send_route_keeps [where H = H, OF assms(1) _ _ pi])
    then show ?thesis using None e info True by (simp add: send_payload_to_client_def Let_def)
  next
    case False
    then show ?thesis using None e k(1) by (simp add: send_payload_to_client_def)
  qed
qed

lemma send_peer_stats_keeps:
  assumes "tx_law env" and "in_step env H c" and "reg_ok env H reg" and "reg_get reg ident \<noteq> None"
  shows "keeps_step env H b (send_peer_stats env reg b ident body c)"
proof -
  obtain info where info: "reg_get reg ident = Some info" using assms(4) by auto
  obtain ok c1 where e: "ensure_peer_up env reg b ident c = (ok, c1)"
    by (cases "ensure_peer_up env reg b ident c") blast
  note k = ensure_peer_up_keeps [OF assms(1-3) info, of b, unfolded e, simplified]
  have pi: "info_ok env H reg ident info" using assms(3) info by (simp add: reg_ok_def)
  show ?thesis
  proof (cases ok)
    case True
    then have "in_step env H c1" using k(1) by (simp add: keeps_step_def)
    from send_for_known [OF assms(1) this k(2) [OF True], of BMP_MSG_STATISTICS_REPORT] pi
    show ?thesis using e info True by (auto simp: send_peer_stats_def info_ok_def)
  next
    case False
    then show ?thesis using e k(1) by (simp add: send_peer_stats_def)
  qed
qed

text \<open>
  \<open>update_ok\<close>: the update speaks of registered peers; a snapshot that comes with a withdrawal is
  of the peer it names.
\<close>

definition withdraw_ok ::
  "client_env \<Rightarrow> (ingress_id \<Rightarrow> bytes) \<Rightarrow> register \<Rightarrow> ingress_id \<times> ingress_info option \<Rightarrow> bool" where
  "withdraw_ok env H reg e \<longleftrightarrow>
    (case snd e of None \<Rightarrow> reg_get reg (fst e) \<noteq> None | Some info \<Rightarrow> info_ok env H reg (fst e) info)"

fun update_ok :: "client_env \<Rightarrow> (ingress_id \<Rightarrow> bytes) \<Rightarrow> register \<Rightarrow> ('osm, 'rtr) update \<Rightarrow> bool" where
  "update_ok env H reg (Single pl) \<longleftrightarrow> reg_get reg (pl_ingress_id pl) \<noteq> None"
| "update_ok env H reg (Bulk pls) \<longleftrightarrow> list_all (\<lambda>pl. reg_get reg (pl_ingress_id pl) \<noteq> None) pls"
| "update_ok env H reg (Withdraw ident _) \<longleftrightarrow> withdraw_ok env H reg (ident, None)"
| "update_ok env H reg (WithdrawBulk es) \<longleftrightarrow> list_all (withdraw_ok env H reg) es"
| "update_ok env H reg (PeerStats ident _) \<longleftrightarrow> reg_get reg ident \<noteq> None"
| "update_ok env H reg _ \<longleftrightarrow> True"

lemma send_peer_down_keeps:
  assumes "tx_law env" and "in_step env H c" and "reg_ok env H reg" and "withdraw_ok env H reg (ident, snap)"
  shows "keeps_step env H b (send_peer_down env reg b ident snap c)"
proof (cases "ident \<in> cs_known_peers c")
  case False
  then show ?thesis using assms(2) by (simp add: send_peer_down_def has_known_peer_def keeps_step_def)
next
  case True
  obtain info where info: "info_ok env H reg ident info"
    and pi: "(case (snap, if snap = None then reg_get reg ident else None) of
        (Some info, _) \<Rightarrow> build_peer_info_for_emit env info reg
      | (None, Some info) \<Rightarrow> build_peer_info_for_emit env info reg
      | (None, None) \<Rightarrow> build_peer_info_for_emit env ingress_info_new reg) =
      build_peer_info_for_emit env info reg"
    using assms(3,4) that [of "the snap"] that [of "the (reg_get reg ident)"]
    by (cases snap) (auto simp: withdraw_ok_def reg_ok_def)
  let ?pi = "build_peer_info_for_emit env info reg"
  let ?m = "build_peer_down (ce_pt env) (client_now env c) ?pi"
  obtain ok c1 where s: "send_message_mode env ?m b c = (ok, c1)" by (cases "send_message_mode env ?m b c") blast
  have e: "send_peer_down env reg b ident snap c = (ok, snd (remove_known_peer ident c1))"
    using True s pi by (simp add: send_peer_down_def has_known_peer_def Let_def)
  have i: "finite (cs_known_peers c)" "received c = up_peers H (cs_known_peers c)" "cache_ok env H c"
    using assms(2) by (simp_all add: in_step_def)
  have wf: "peer_info_wf ?pi" "peer_key (ce_pt env) ?pi = H ident" using info by (simp_all add: info_ok_def)
  from assms(1) s show ?thesis
  proof (cases rule: send_cases)
    case sent
    have "received c1 = up_peers H (cs_known_peers c - {ident})"
      using sent(5) i(2) up_peers_simps(3) [where H = H, OF i(1) True _ wf] by auto
    then show ?thesis
      using sent e i by (simp add: keeps_step_def in_step_def cache_ok_def) (simp add: remove_known_peer_def)
  next
    case lost
    then show ?thesis using e i by (simp add: keeps_step_def)
  qed
qed

lemma send_each_keeps:
  assumes "\<And>x c. x \<in> set xs \<Longrightarrow> in_step env H c \<Longrightarrow> keeps_step env H b (f x c)" and "in_step env H c"
  shows "keeps_step env H b (send_each f xs c)"
  using assms
proof (induction xs arbitrary: c)
  case (Cons x xs)
  obtain ok c1 where f: "f x c = (ok, c1)" by (cases "f x c") blast
  have k: "keeps_step env H b (ok, c1)" using Cons.prems f by (metis list.set_intros(1))
  then show ?case using Cons f by (cases ok) (auto simp: keeps_step_def [of _ _ _ "(_, c1)"])
qed (simp add: keeps_step_def)

lemma send_update_keeps:
  assumes "tx_law env" and "in_step env H c" and "reg_ok env H reg" and "update_ok env H reg upd"
  shows "keeps_step env H b (send_update_to_client env reg b upd c)"
proof (cases upd)
  case (Bulk pls)
  have "keeps_step env H b (send_each (send_payload_to_client env reg b) pls c)"
    by (rule send_each_keeps [OF _ assms(2)])
      (use assms(4) Bulk in \<open>auto simp: list_all_iff intro: send_payload_keeps [OF assms(1) _ assms(3)]\<close>)
  then show ?thesis using Bulk by simp
next
  case (WithdrawBulk es)
  have "keeps_step env H b (send_each (\<lambda>(ident, info). send_peer_down env reg b ident info) es c)"
    by (rule send_each_keeps [OF _ assms(2)])
      (use assms(4) WithdrawBulk in \<open>auto simp: list_all_iff intro: send_peer_down_keeps [OF assms(1) _ assms(3)]\<close>)
  then show ?thesis using WithdrawBulk by simp
next
  case (IngressReappeared ident)
  then show ?thesis
    using assms(2) ensure_peer_up_keeps(1) [OF assms(1-3)]
    by (auto simp: send_peer_reappeared_eq keeps_step_def [of _ _ _ "(True, c)"] split: option.split)
qed (use assms in \<open>simp_all add: send_payload_keeps send_peer_down_keeps send_peer_stats_keeps
    keeps_step_def [of _ _ _ "(True, c)"]\<close>)

end
