(* ===== verification/Bmp_Dump.thy ===== *)
theory Bmp_Dump
  imports Bmp_Session
begin

text \<open>
  The initial dump as the receiver sees it, and the properties of whole sessions.

  The aggregator is used through one fact: whatever a sink keeps when it is sent Route Monitoring
  messages of the aggregator's peers, every operation of the aggregator keeps (\<open>route_sink\<close>).
\<close>

subsection \<open>The aggregator as a client of its sink\<close>

definition route_sink :: "'k env \<Rightarrow> (ingress_id, peer_info) hmap \<Rightarrow> ('k \<Rightarrow> bool) \<Rightarrow> bool" where
  "route_sink env peers P \<longleftrightarrow> (\<forall>k m n ident pi. P k \<longrightarrow> hm_get peers ident = Some pi \<longrightarrow>
     peer_message (env_pt env) BMP_MSG_ROUTE_MONITORING pi m \<longrightarrow> P (snd (env_send env k m n)))"

definition sink_kept ::
  "route_aggregator \<Rightarrow> ('k \<Rightarrow> bool) \<Rightarrow> bool \<times> route_aggregator \<times> 'k \<Rightarrow> bool" where
  "sink_kept agg P res \<longleftrightarrow> agg_peer_info (fst (snd res)) = agg_peer_info agg \<and> P (snd (snd res))"

lemma route_sinkD:
  "\<lbrakk>route_sink env peers P; P k; hm_get peers ident = Some pi;
    peer_message (env_pt env) BMP_MSG_ROUTE_MONITORING pi m\<rbrakk> \<Longrightarrow> P (snd (env_send env k m n))"
  unfolding route_sink_def by blast

lemma emit_keeps:
  assumes "route_sink env peers P" and "P k" and "hm_get peers ident = Some pi"
  shows "P (snd (ag_emit env g pi k))"
  using assms(2) route_sinkD [OF assms] peer_message_builders(7) by (simp add: ag_emit_def)

lemma evict_loop_keeps:
  assumes "route_sink env (agg_peer_info agg) P" and "P k"
  shows "sink_kept agg P (evict_loop env target keys agg k)"
  using assms
proof (induction keys arbitrary: agg k)
  case (Cons key keys)
  show ?case
  proof (cases "hm_get (agg_groups agg) key")
    case (Some grp)
    let ?agg = "agg\<lparr>agg_groups := hm_remove key (agg_groups agg),
        agg_buffered_bytes := usize_sub (agg_buffered_bytes agg) (ag_cost grp),
        agg_budget_evictions := agg_budget_evictions agg + 1\<rparr>"
    have ih: "sink_kept agg P (evict_loop env target keys ?agg k')" if "P k'" for k'
      using Cons.IH [of ?agg k'] Cons.prems that by (simp add: sink_kept_def)
    show ?thesis
    proof (cases "hm_get (agg_peer_info agg) (fst key)")
      case None
      then show ?thesis using Some ih Cons.prems by (simp add: sink_kept_def Let_def)
    next
      case (Some pi)
      obtain ok k' where e: "ag_emit env grp pi k = (ok, k')" by (cases "ag_emit env grp pi k") blast
      have "P k'" using emit_keeps [OF Cons.prems Some, of grp] e by simp
      with Some \<open>hm_get (agg_groups agg) key = Some grp\<close> e ih [of k'] Cons.prems show ?thesis
        by (simp add: sink_kept_def Let_def split: bool.split)
    qed
  qed (use Cons in \<open>simp add: sink_kept_def\<close>)
qed (simp add: sink_kept_def)

lemma add_keeps:
  assumes "route_sink env (agg_peer_info agg) P" and "P k"
  shows "sink_kept agg P (agg_add it env ident p pm agg k)"
proof (cases "hm_get (agg_peer_info agg) ident")
  case None
  then show ?thesis using assms by (simp add: agg_add_def sink_kept_def)
next
  case (Some pi)
  have emit: "P k' \<Longrightarrow> ag_emit env g pi k' = (ok, k'') \<Longrightarrow> P k''" for g k' ok k''
    using emit_keeps [OF assms(1) _ Some, of k' g] by simp
  have single: "P k' \<Longrightarrow> build_route_monitoring (env_pt env) now pi p pm False = Some m \<Longrightarrow>
      env_send env k' m n = (ok, k'') \<Longrightarrow> P k''" for k' now m n ok k''
    using route_sinkD [OF assms(1) _ Some, of k' m n] peer_message_builders(4) by fastforce
  let ?key = "(ident, is_v4 p, hash_pa_blob (env_hasher env) (drop 2 (pm_raw pm)))"
  obtain grp agg1 k1 where t: "agg_take_group env ?key (drop 2 (pm_raw pm)) pm pi agg k = (grp, agg1, k1)"
    using prod_cases3 by blast
  have "agg_peer_info agg1 = agg_peer_info agg \<and> P k1"
    using t assms(2) emit [of k]
    by (auto simp: agg_take_group_def Let_def split: prod.splits option.splits if_splits bool.splits)
  then have p1: "agg_peer_info agg1 = agg_peer_info agg" "P k1" by blast+
  have evict: "sink_kept agg P (evict_until_under_budget it env agg2 k2)"
    if "agg_peer_info agg2 = agg_peer_info agg" and "P k2" for agg2 k2
    using evict_loop_keeps [of env agg2 P k2] assms(1) that
    by (simp add: evict_until_under_budget_def sink_kept_def Let_def)
  have finish: "sink_kept agg P (agg_finish it env ?key pi p pm g agg1 k2)" if "P k2" for g k2
  proof (cases "ag_is_empty g \<and> ag_base_len g + nlri_encoded_len p > 4096")
    case True
    then show ?thesis using p1(1) that single [OF that]
      by (auto simp: agg_finish_def sink_kept_def split: option.split prod.split bool.split)
  next
    case False
    then show ?thesis using p1(1) that
      by (auto simp: agg_finish_def Let_def sink_kept_def [of _ _ "(_, _, _)"] intro!: evict)
  qed
  have "sink_kept agg P (agg_add_to_group it env ?key pi p pm g agg1 k1)" for g
  proof -
    obtain ok k2 where e: "ag_emit env g pi k1 = (ok, k2)" by (cases "ag_emit env g pi k1") blast
    have "P k2" by (rule emit [OF p1(2) e])
    with e p1 finish show ?thesis
      by (simp add: add_to_group_finish sink_kept_def [of _ _ "(_, _, _)"] split: bool.split)
  qed
  then show ?thesis using Some t p1
    by (auto simp: agg_add_def Let_def sink_kept_def [of _ _ "(_, _, _)"] split: option.split)
qed

lemma flush_keeps:
  assumes "route_sink env (agg_peer_info agg) P" and "P k"
  shows "P (snd (snd (flush_all it env agg k)))"
proof -
  have "P (snd (snd (flush_loop env gs agg' k')))" if "agg_peer_info agg' = agg_peer_info agg" "P k'" for gs agg' k'
    using that
  proof (induction gs arbitrary: k')
    case (Cons e gs)
    obtain key grp where e: "e = (key, grp)" by (cases e)
    show ?case
    proof (cases "hm_get (agg_peer_info agg) (fst key)")
      case (Some pi)
      obtain ok k'' where em: "ag_emit env grp pi k' = (ok, k'')" by (cases "ag_emit env grp pi k'") blast
      have "P k''" using emit_keeps [OF assms(1) Cons.prems(2) Some, of grp] em by simp
      then show ?thesis using Some em e Cons by (simp split: bool.split)
    qed (use Cons e in simp)
  qed simp
  then show ?thesis using assms(2) by (simp add: flush_all_def)
qed

subsection \<open>The dump\<close>

text \<open>
  During the dump the peers \<open>S\<close> are up for the receiver, while the client knows only \<open>K\<close>: the
  peers that the walk discovers become known after it.
\<close>

definition dumping ::
  "client_env \<Rightarrow> (ingress_id \<Rightarrow> bytes) \<Rightarrow> ingress_id set \<Rightarrow> ingress_id set \<Rightarrow>
     ('osm, 'rtr) client_state \<Rightarrow> bool" where
  "dumping env H S K c \<longleftrightarrow> finite S \<and> received c = up_peers H S \<and> cs_known_peers c = K \<and>
     cs_peer_info_cache c = []"

definition peers_known ::
  "client_env \<Rightarrow> (ingress_id \<Rightarrow> bytes) \<Rightarrow> (ingress_id, peer_info) hmap \<Rightarrow> ingress_id set \<Rightarrow> bool" where
  "peers_known env H peers S \<longleftrightarrow> dom (hm_get peers) = S \<and>
     (\<forall>ident pi. hm_get peers ident = Some pi \<longrightarrow> peer_info_wf pi \<and> peer_key (ce_pt env) pi = H ident)"

lemma dumping_no_error: "dumping env H S K c \<Longrightarrow> received c \<noteq> ProtocolError"
  by (simp add: dumping_def)

lemma send_dumping:
  assumes "tx_law env" and "dumping env H S K c" and "ident \<in> S"
    and "peer_message (ce_pt env) BMP_MSG_ROUTE_MONITORING p m" and "peer_info_wf p"
    and "peer_key (ce_pt env) p = H ident"
  shows "dumping env H S K (snd (send_message env m c))"
proof -
  obtain ok c' where s: "send_message_mode env m True c = (ok, c')" by (cases "send_message_mode env m True c") blast
  from assms(1) s show ?thesis
  proof (cases rule: send_cases)
    case sent
    have "received c' = up_peers H S"
      using sent(5) assms(2) up_peers_simps(1) [where H = H, OF _ assms(3) _ assms(4-6)]
      by (auto simp: dumping_def)
    then show ?thesis using sent s assms(2) by (simp add: send_message_def dumping_def)
  next
    case lost
    then show ?thesis using s assms(2) by (simp add: send_message_def dumping_def)
  qed
qed

lemma send_up_dumping:
  assumes "tx_law env" and "dumping env H S K c" and "ident \<notin> S"
    and "peer_message (ce_pt env) BMP_MSG_PEER_UP p m" and "peer_info_wf p"
    and "peer_key (ce_pt env) p = H ident" and "send_message env m c = (ok, c')"
  shows "dumping env H (if ok then insert ident S else S) K c'"
proof -
  have s: "send_message_mode env m True c = (ok, c')" using assms(7) by (simp add: send_message_def)
  from assms(1) s show ?thesis
  proof (cases rule: send_cases)
    case sent
    have "received c' = up_peers H (insert ident S)"
      using sent(5) assms(2) up_peers_simps(2) [where H = H, OF _ assms(3-6)] by (auto simp: dumping_def)
    then show ?thesis using sent assms(2) by (simp add: dumping_def)
  next
    case lost
    then show ?thesis using assms(2) by (simp add: dumping_def)
  qed
qed

lemma forward_cases:
  assumes "forward env m w = (ok, w')"
  obtains (gone) "\<not> ok" "w' = w"
    | (lost) c where "\<not> ok" "send_message env m (wc_client w) = (False, c)" "wc_client w' = c"
    | (sent) c where "ok" "send_message env m (wc_client w) = (True, c)" "wc_client w' = c"
  using assms by (auto simp: forward_def Let_def split: if_splits prod.splits bool.splits)

lemma walk_route_sink:
  assumes "tx_law env" and "peers_known env H peers S"
  shows "route_sink (walk_env env) peers (\<lambda>w :: ('osm, 'rtr) walk_client. dumping env H S K (wc_client w))"
  unfolding route_sink_def
proof (intro allI impI)
  fix w :: "('osm, 'rtr) walk_client" and m n ident pi
  assume d: "dumping env H S K (wc_client w)" and h: "hm_get peers ident = Some pi"
    and m: "peer_message (env_pt (walk_env env)) BMP_MSG_ROUTE_MONITORING pi m"
  obtain ok w' where f: "forward env m w = (ok, w')" by (cases "forward env m w") blast
  have k: "ident \<in> S" "peer_info_wf pi" "peer_key (ce_pt env) pi = H ident"
    using assms(2) h by (auto simp: peers_known_def)
  have sd: "dumping env H S K (snd (send_message env m (wc_client w)))"
    using send_dumping [OF assms(1) d k(1) _ k(2,3)] m by (simp add: walk_env_def)
  from f have "dumping env H S K (wc_client w')"
    by (cases rule: forward_cases) (use sd d in simp_all)
  then show "dumping env H S K (wc_client (snd (env_send (walk_env env) w m n)))"
    using f by (simp add: walk_env_def)
qed

definition walk_inv ::
  "client_env \<Rightarrow> (ingress_id \<Rightarrow> bytes) \<Rightarrow> ingress_id set \<Rightarrow> route_aggregator \<Rightarrow>
     (ingress_id \<times> peer_info) list \<Rightarrow> ('osm, 'rtr) walk_client \<Rightarrow> bool" where
  "walk_inv env H K agg discovered w \<longleftrightarrow>
    peers_known env H (agg_peer_info agg) (K \<union> fst ` set discovered) \<and>
    (\<forall>(ident, pi) \<in> set discovered. peer_info_wf pi \<and> peer_key (ce_pt env) pi = H ident) \<and>
    dumping env H (K \<union> fst ` set discovered) K (wc_client w)"

lemma walk_peer_inv:
  assumes "tx_law env" and "reg_ok env H reg" and "walk_inv env H K agg discovered w"
    and "walk_peer env reg ident agg discovered w = (verdict, agg', discovered', w')"
  shows "walk_inv env H K agg' discovered' w'"
proof (cases "agg' = agg \<and> discovered' = discovered \<and> w' = w")
  case True
  then show ?thesis using assms(3) by simp
next
  case False
  let ?S = "K \<union> fst ` set discovered"
  obtain info ok where no: "hm_get (agg_peer_info agg) ident = None" and info: "reg_get reg ident = Some info"
    and f: "forward env (build_peer_up (ce_pt env) (client_now env (wc_client w))
        (build_peer_info_for_emit env info reg) False) w = (ok, w')"
    and r: "agg' = (if ok then agg_insert_peer ident (build_peer_info_for_emit env info reg) agg else agg)"
      "discovered' = (if ok then discovered @ [(ident, build_peer_info_for_emit env info reg)] else discovered)"
    using assms(4) False
    by (auto simp: walk_peer_def agg_has_peer_def Let_def split: if_splits option.splits prod.splits bool.splits)
  let ?pi = "build_peer_info_for_emit env info reg"
  have pi: "peer_info_wf ?pi" "peer_key (ce_pt env) ?pi = H ident"
    using assms(2) info by (auto simp: reg_ok_def info_ok_def)
  have w: "peers_known env H (agg_peer_info agg) ?S" "dumping env H ?S K (wc_client w)"
    using assms(3) by (simp_all add: walk_inv_def)
  have new: "ident \<notin> ?S" using no w(1) by (auto simp: peers_known_def)
  note up = send_up_dumping [where H = H, OF assms(1) w(2) new _ pi]
  from f have "dumping env H (if ok then insert ident ?S else ?S) K (wc_client w')"
    by (cases rule: forward_cases) (use w(2) in \<open>auto dest: up [OF peer_message_builders(1)]\<close>)
  then show ?thesis
    using assms(3) r w(1) pi by (auto simp: walk_inv_def peers_known_def agg_insert_peer_def dom_def)
qed

lemma walk_records_inv:
  assumes "tx_law env" and "reg_ok env H reg" and "walk_inv env H K agg discovered w"
    and "walk_records env reg rs agg discovered w = (ok, agg', discovered', w')"
  shows "walk_inv env H K agg' discovered' w'"
  using assms(3,4)
proof (induction rs arbitrary: agg discovered w)
  case (Cons r rs)
  obtain p ident pm where r: "r = (p, ident, pm)" using prod_cases3 by blast
  obtain verdict agg1 discovered1 w1 where
    p: "walk_peer env reg ident agg discovered w = (verdict, agg1, discovered1, w1)" using prod_cases4 by blast
  note i1 = walk_peer_inv [OF assms(1,2) Cons.prems(1) p]
  obtain ok2 agg2 w2 where
    a: "agg_add (ce_order env agg1) (walk_env env) ident p pm agg1 w1 = (ok2, agg2, w2)"
    using prod_cases3 by blast
  let ?S = "K \<union> fst ` set discovered1"
  have k: "peers_known env H (agg_peer_info agg1) ?S" and d: "dumping env H ?S K (wc_client w1)"
    using i1 by (simp_all add: walk_inv_def)
  have "sink_kept agg1 (\<lambda>w. dumping env H ?S K (wc_client w))
      (agg_add (ce_order env agg1) (walk_env env) ident p pm agg1 w1)"
    by (rule add_keeps [OF walk_route_sink [OF assms(1) k]]) (rule d)
  then have i2: "walk_inv env H K agg2 discovered1 w2"
    using i1 a by (simp add: sink_kept_def walk_inv_def)
  show ?case
  proof (cases "verdict = Some True \<and> ok2")
    case True
    then show ?thesis using Cons.IH [OF i2] Cons.prems(2) p a r by simp
  next
    case False
    then show ?thesis using Cons.IH [OF i1] Cons.prems(2) p a r i1 i2
      by (auto split: option.splits bool.splits)
  qed
qed simp

lemma dump_walk_dumping:
  assumes "tx_law env" and "reg_ok env H reg" and "peers_known env H peers K"
    and "dumping env H K K c" and "dump_walk env reg rib peers c = (discovered, w)"
  shows "(\<forall>(ident, pi) \<in> set discovered. peer_info_wf pi \<and> peer_key (ce_pt env) pi = H ident) \<and>
    dumping env H (K \<union> fst ` set discovered) K (wc_client w)"
proof -
  let ?rs = "concat (map (\<lambda>(p, meta). map (\<lambda>(ident, pamap). (p, ident, pamap)) meta) rib)"
  let ?agg = "aggregator_new DUMP_AGGREGATOR_MAX_BYTES peers"
  let ?w = "\<lparr>wc_client = c, wc_since_yield = 0, wc_gone = False\<rparr>"
  obtain ok agg1 discovered1 w1 where
    r: "walk_records env reg ?rs ?agg [] ?w = (ok, agg1, discovered1, w1)" using prod_cases4 by blast
  have "walk_inv env H K ?agg [] ?w"
    using assms(3,4) by (simp add: walk_inv_def aggregator_new_def)
  note i = walk_records_inv [OF assms(1,2) this r]
  let ?S = "K \<union> fst ` set discovered1"
  have k: "peers_known env H (agg_peer_info agg1) ?S" and d: "dumping env H ?S K (wc_client w1)"
    using i by (simp_all add: walk_inv_def)
  have "dumping env H ?S K (wc_client (snd (snd (flush_all (ce_order env agg1) (walk_env env) agg1 w1))))"
    by (rule flush_keeps [OF walk_route_sink [OF assms(1) k]]) (rule d)
  then show ?thesis using assms(5) r i
    by (auto simp: dump_walk_def walk_inv_def Let_def split: bool.splits)
qed

lemma send_peer_ups_dumping:
  assumes "tx_law env" and "distinct (map fst ps)" and "fst ` set ps \<inter> S = {}"
    and "\<forall>(ident, info) \<in> set ps. info_ok env H reg ident info"
    and "peers_known env H m S" and "dumping env H S S c" and "send_peer_ups env reg ps m c = (res, c')"
  shows "case res of
      None \<Rightarrow> \<exists>S' K'. dumping env H S' K' c'
    | Some m' \<Rightarrow> peers_known env H m' (S \<union> fst ` set ps) \<and>
        dumping env H (S \<union> fst ` set ps) (S \<union> fst ` set ps) c'"
  using assms(2-7)
proof (induction ps arbitrary: S m c)
  case (Cons e ps)
  obtain ident info where e: "e = (ident, info)" by (cases e)
  let ?pi = "build_peer_info_for_emit env info reg"
  have pi: "peer_info_wf ?pi" "peer_key (ce_pt env) ?pi = H ident" and new: "ident \<notin> S"
    using Cons.prems(2,3) e by (auto simp: info_ok_def)
  let ?m = "build_peer_up (ce_pt env) (client_now env c) ?pi True"
  obtain ok c1 where s: "send_message env ?m c = (ok, c1)" by (cases "send_message env ?m c") blast
  have d: "dumping env H (if ok then insert ident S else S) S c1"
    by (rule send_up_dumping [where H = H, OF assms(1) Cons.prems(5) new _ pi s]) blast
  show ?case
  proof (cases ok)
    case True
    have k: "peers_known env H (hm_insert ident ?pi m) (insert ident S)"
      using Cons.prems(4) pi by (auto simp: peers_known_def dom_def)
    have d': "dumping env H (insert ident S) (insert ident S) (add_known_peer ident c1)"
      using d True by (auto simp: dumping_def add_known_peer_def received_def)
    have rest: "send_peer_ups env reg ps (hm_insert ident ?pi m) (add_known_peer ident c1) = (res, c')"
      using Cons.prems(6) e s True by simp
    have "fst ` set ps \<inter> insert ident S = {}" using Cons.prems(1,2) e by auto
    from Cons.IH [OF _ this _ k d' rest] Cons.prems(1,3) e show ?thesis by (simp split: option.splits)
  next
    case False
    then show ?thesis using d Cons.prems(6) e s by auto
  qed
qed auto

lemma send_eors_dumping:
  assumes "tx_law env" and "dumping env H S K c" and "ident \<in> S" and "peer_info_wf pi"
    and "peer_key (ce_pt env) pi = H ident"
  shows "dumping env H S K (snd (send_eors env pi fams c))"
  using assms(2)
proof (induction fams arbitrary: c)
  case (Cons fam fams)
  show ?case
  proof (cases "build_end_of_rib_marker (ce_af env) (ce_pt env) (client_now env c) pi fam")
    case (Some m)
    obtain ok c1 where s: "send_message env m c = (ok, c1)" by (cases "send_message env m c") blast
    have "dumping env H S K c1"
      using send_dumping [where H = H, OF assms(1) Cons.prems assms(3) _ assms(4,5)] peer_message_builders(6) [OF Some] s
      by force
    then show ?thesis using Some s Cons.IH by (simp split: bool.split)
  qed (use Cons in simp)
qed simp

lemma send_each_inv:
  assumes "\<And>x c. x \<in> set xs \<Longrightarrow> P c \<Longrightarrow> P (snd (f x c))" and "P c"
  shows "P (snd (send_each f xs c))"
  using assms
proof (induction xs arbitrary: c)
  case (Cons x xs)
  obtain ok c1 where f: "f x c = (ok, c1)" by (cases "f x c") blast
  have "P c1" using Cons.prems f by (metis list.set_intros(1) snd_conv)
  then show ?case using Cons f by (simp split: bool.split)
qed simp

lemma announce_discovered:
  assumes "tx_law env" and "\<forall>(ident, pi) \<in> set discovered. peer_info_wf pi \<and> peer_key (ce_pt env) pi = H ident"
    and "fst ` set discovered \<subseteq> S" and "dumping env H S K c"
    and "send_each (\<lambda>(ident, pi) c. send_eors env pi fams (add_known_peer ident c)) discovered c = (ok, c')"
  shows "\<exists>K'. dumping env H S K' c' \<and> (ok \<longrightarrow> K' = K \<union> fst ` set discovered)"
  using assms(2-5)
proof (induction discovered arbitrary: K c)
  case (Cons e es)
  obtain ident pi where e: "e = (ident, pi)" by (cases e)
  have d: "dumping env H S (insert ident K) (add_known_peer ident c)"
    using Cons.prems(3) by (auto simp: dumping_def add_known_peer_def received_def)
  obtain ok1 c1 where s: "send_eors env pi fams (add_known_peer ident c) = (ok1, c1)"
    by (cases "send_eors env pi fams (add_known_peer ident c)") blast
  have d1: "dumping env H S (insert ident K) c1"
    using send_eors_dumping [where H = H, OF assms(1) d, of ident pi fams] Cons.prems(1,2) e s by simp
  show ?case
  proof (cases ok1)
    case True
    then have "\<exists>K'. dumping env H S K' c' \<and> (ok \<longrightarrow> K' = insert ident K \<union> fst ` set es)"
      using Cons.IH [OF _ _ d1] Cons.prems e s by simp
    then show ?thesis using e by auto
  next
    case False
    then show ?thesis using d1 Cons.prems(4) e s by auto
  qed
qed auto

lemma dump_peers_facts:
  assumes "reg_wf reg"
  shows "distinct (map fst (dump_peers it reg))"
    and "(ident, info) \<in> set (dump_peers it reg) \<Longrightarrow> reg_get reg ident = Some info"
proof -
  show "(ident, info) \<in> set (dump_peers it reg) \<Longrightarrow> reg_get reg ident = Some info"
    using search_entries [OF assms] by (auto simp: dump_peers_def)
  let ?search = "\<lambda>t st. search it reg (query_filter_default\<lparr>qf_ingress_type := Some t, qf_ingress_state := st\<rparr>)"
  have disj: "fst ` set (?search t st) \<inter> fst ` set (?search t' st') = {}" if "t \<noteq> t'" for t t' st st'
  proof -
    have f: "reg_get reg ident = Some info \<and> ii_ingress_type info = Some t"
      if "(ident, info) \<in> set (?search t st)" for ident info t st
      using that search_entries [OF assms] by (auto simp: qf_filter_def query_filter_default_def split: if_splits)
    from f [where t = t and st = st] f [where t = t' and st = st'] that show ?thesis by fastforce
  qed
  have "distinct (map fst (?search IT_BgpViaBmp (Some Connected) @ ?search IT_Bgp (Some Connected) @
      ?search IT_Mrt None))"
    using search_distinct [OF assms] disj [of IT_BgpViaBmp IT_Bgp] disj [of IT_BgpViaBmp IT_Mrt]
      disj [of IT_Bgp IT_Mrt] by (simp add: Int_Un_distrib)
  then show "distinct (map fst (dump_peers it reg))" by (simp add: dump_peers_def)
qed

subsection \<open>The frame of the dump\<close>

lemma send_message_evolves [simp]: "evolves env c (snd (send_message env m c))"
  by (simp add: send_message_def)

lemma send_peer_ups_evolves: "evolves env c (snd (send_peer_ups env reg ps m c))"
proof (induction ps arbitrary: m c)
  case (Cons e ps)
  obtain ident info where e: "e = (ident, info)" by (cases e)
  let ?m = "build_peer_up (ce_pt env) (client_now env c) (build_peer_info_for_emit env info reg) True"
  obtain ok c1 where s: "send_message env ?m c = (ok, c1)" by (cases "send_message env ?m c") blast
  have "evolves env c c1" using send_message_evolves [of env c ?m] s by simp
  then show ?case using e s Cons.IH by (auto split: bool.split intro: evolves_trans [OF _ evolves_trans [OF evolves_peers(5)]])
qed simp

lemma forward_evolves: "evolves env (wc_client w) (wc_client (snd (forward env m w)))"
proof -
  obtain ok w' where f: "forward env m w = (ok, w')" by (cases "forward env m w") blast
  then show ?thesis
    by (cases rule: forward_cases) (use f send_message_evolves [of env "wc_client w" m] in auto)
qed

lemma evolves_route_sink: "route_sink (walk_env env) peers (\<lambda>w. evolves env c0 (wc_client w))"
  unfolding route_sink_def by (auto simp: walk_env_def intro: evolves_trans forward_evolves)

lemma walk_peer_evolves:
  assumes "walk_peer env reg ident agg discovered w = (verdict, agg', discovered', w')"
  shows "evolves env (wc_client w) (wc_client w')"
proof -
  have f: "evolves env (wc_client w) (wc_client w1)" if "forward env m w = (ok, w1)" for m ok w1
    using forward_evolves [of env w m] that by simp
  show ?thesis using assms
    by (auto simp: walk_peer_def Let_def split: if_splits option.splits prod.splits bool.splits dest: f)
qed

lemma walk_records_evolves:
  "walk_records env reg rs agg discovered w = (ok, agg', discovered', w') \<Longrightarrow>
    evolves env (wc_client w) (wc_client w')"
proof (induction rs arbitrary: agg discovered w)
  case (Cons r rs)
  obtain p ident pm where r: "r = (p, ident, pm)" using prod_cases3 by blast
  obtain verdict agg1 discovered1 w1 where
    p: "walk_peer env reg ident agg discovered w = (verdict, agg1, discovered1, w1)" using prod_cases4 by blast
  obtain ok2 agg2 w2 where
    a: "agg_add (ce_order env agg1) (walk_env env) ident p pm agg1 w1 = (ok2, agg2, w2)" using prod_cases3 by blast
  have e1: "evolves env (wc_client w) (wc_client w1)" by (rule walk_peer_evolves [OF p])
  have "sink_kept agg1 (\<lambda>w'. evolves env (wc_client w) (wc_client w'))
      (agg_add (ce_order env agg1) (walk_env env) ident p pm agg1 w1)"
    by (rule add_keeps [OF evolves_route_sink e1])
  then have e2: "evolves env (wc_client w) (wc_client w2)" using a by (simp add: sink_kept_def)
  show ?case using Cons.IH Cons.prems p a r e1 e2
    by (auto split: option.splits bool.splits intro: evolves_trans)
qed simp

lemma dump_walk_evolves: "evolves env c (wc_client (snd (dump_walk env reg rib peers c)))"
proof -
  let ?rs = "concat (map (\<lambda>(p, meta). map (\<lambda>(ident, pamap). (p, ident, pamap)) meta) rib)"
  let ?agg = "aggregator_new DUMP_AGGREGATOR_MAX_BYTES peers"
  let ?w = "\<lparr>wc_client = c, wc_since_yield = 0, wc_gone = False\<rparr>"
  obtain ok agg1 discovered1 w1 where
    r: "walk_records env reg ?rs ?agg [] ?w = (ok, agg1, discovered1, w1)" using prod_cases4 by blast
  have e: "evolves env c (wc_client w1)" using walk_records_evolves [OF r] by simp
  have "evolves env c (wc_client (snd (snd (flush_all (ce_order env agg1) (walk_env env) agg1 w1))))"
    by (rule flush_keeps [where P = "\<lambda>w. evolves env c (wc_client w)", OF evolves_route_sink e])
  then show ?thesis using r e by (simp add: dump_walk_def Let_def split: bool.split)
qed

lemma send_eors_evolves: "evolves env c (snd (send_eors env pi fams c))"
proof (induction fams arbitrary: c)
  case (Cons fam fams)
  show ?case
  proof (cases "build_end_of_rib_marker (ce_af env) (ce_pt env) (client_now env c) pi fam")
    case (Some m)
    obtain ok c1 where s: "send_message env m c = (ok, c1)" by (cases "send_message env m c") blast
    have "evolves env c c1" using send_message_evolves [of env c m] s by simp
    then show ?thesis using Some s Cons.IH [of c1] by (auto split: bool.split intro: evolves_trans)
  qed (use Cons in simp)
qed simp

subsection \<open>Accounting\<close>

text \<open>
  \<open>buffer_ok\<close>: the counter of a client is the sum of the sizes of its buffered updates, and both
  caps are kept. \<open>accounted\<close>: an operation changes the process-wide counters by exactly what it
  changes in the client's buffer.
\<close>

definition buffer_ok :: "type_sizes \<Rightarrow> ('osm, 'rtr) client_state \<Rightarrow> bool" where
  "buffer_ok sz c \<longleftrightarrow> cs_buffered_bytes c = sum_list (map (shallow_bytes sz) (cs_dump_buffer c)) \<and>
     length (cs_dump_buffer c) \<le> cs_max_buffer_entries c \<and>
     (cs_max_buffer_bytes c < 2 ^ 64 - 1 \<longrightarrow> cs_buffered_bytes c \<le> cs_max_buffer_bytes c)"

definition accounted ::
  "type_sizes \<Rightarrow> ('osm, 'rtr) client_state \<Rightarrow> mem_stats \<Rightarrow> ('osm, 'rtr) client_state \<Rightarrow> mem_stats \<Rightarrow> bool" where
  "accounted sz c ms c' ms' \<longleftrightarrow> (buffer_ok sz c \<longrightarrow> buffer_ok sz c') \<and> (counters_ok c \<longrightarrow> counters_ok c') \<and>
     (cs_disconnect_pending c \<longrightarrow> cs_disconnect_pending c') \<and>
     BMP_OUT_CLIENTS ms' = BMP_OUT_CLIENTS ms \<and>
     (cs_buffered_bytes c \<le> BMP_OUT_BUFFERED_BYTES ms \<and>
        length (cs_dump_buffer c) \<le> BMP_OUT_BUFFERED_ENTRIES ms \<longrightarrow>
      BMP_OUT_BUFFERED_BYTES ms' + cs_buffered_bytes c = BMP_OUT_BUFFERED_BYTES ms + cs_buffered_bytes c' \<and>
      BMP_OUT_BUFFERED_ENTRIES ms' + length (cs_dump_buffer c) =
        BMP_OUT_BUFFERED_ENTRIES ms + length (cs_dump_buffer c'))"

lemma accounted_trans:
  "accounted sz c ms c1 ms1 \<Longrightarrow> accounted sz c1 ms1 c2 ms2 \<Longrightarrow> accounted sz c ms c2 ms2"
  unfolding accounted_def by linarith

lemma evolves_accounted: "evolves env c c' \<Longrightarrow> accounted sz c ms c' ms"
  by (auto simp: accounted_def evolves_def buf_view_def buffer_ok_def)

lemma accounted_take: "take_buffered_updates c ms = (batch, c', ms') \<Longrightarrow> accounted sz c ms c' ms'"
  by (auto simp: take_buffered_updates_def accounted_def buffer_ok_def counters_ok_def)

lemma accounted_discard: "discard_dump_buffer c ms = (c', ms') \<Longrightarrow> accounted sz c ms c' ms'"
  by (auto simp: discard_dump_buffer_def accounted_def buffer_ok_def counters_ok_def)

lemma accounted_phase: "accounted sz c ms (c\<lparr>cs_phase := ph\<rparr>) ms"
  by (auto simp: accounted_def buffer_ok_def counters_ok_def)

lemma accounted_buffer:
  "buffer_update_if_dumping sz upd c ms = (res, c', ms') \<Longrightarrow> accounted sz c ms c' ms'"
  by (auto simp: buffer_update_if_dumping_def accounted_def buffer_ok_def counters_ok_def saturating_add_def Let_def
      split: if_splits)

lemma accounted_direct_update:
  assumes "direct_update env reg upd c ms = (c', ms')"
  shows "accounted (ce_sizes env) c ms c' ms'"
proof (cases "cs_disconnect_pending c")
  case True
  then show ?thesis using assms evolves_accounted [OF evolves_refl] by (simp add: direct_update_def)
next
  case False
  obtain res c1 ms1 where b: "buffer_update_if_dumping (ce_sizes env) upd c ms = (res, c1, ms1)"
    using prod_cases3 by blast
  have "accounted (ce_sizes env) c1 ms1 c' ms'"
    using assms False b
    by (cases res) (auto simp: direct_update_def intro: evolves_accounted [of env])
  with accounted_buffer [OF b] show ?thesis by (rule accounted_trans)
qed

subsection \<open>The table dump\<close>

definition dump_keeps ::
  "client_env \<Rightarrow> (ingress_id \<Rightarrow> bytes) \<Rightarrow> bool \<times> ('osm, 'rtr) client_state \<times> mem_stats \<Rightarrow> bool" where
  "dump_keeps env H res \<longleftrightarrow>
    (case res of (ok, c, _) \<Rightarrow> received c \<noteq> ProtocolError \<and> (ok \<longrightarrow> in_step env H c))"

lemma dumping_keeps:
  "dumping env H S K c \<Longrightarrow> (ok \<Longrightarrow> K = S) \<Longrightarrow> dump_keeps env H (ok, c, ms)"
  by (auto simp: dump_keeps_def dumping_def in_step_def cache_ok_def)

lemma init_dumping:
  assumes "tx_law env" and "received c = AwaitInit" and "cs_known_peers c = {}" and "cs_peer_info_cache c = []"
    and "send_message env (build_initiation_message n d) c = (ok, c1)"
  shows "(ok \<longrightarrow> dumping env H {} {} c1) \<and> (\<not> ok \<longrightarrow> received c1 = AwaitInit \<and> closed_from env (cs_attempts c1))"
proof -
  have s: "send_message_mode env (build_initiation_message n d) True c = (ok, c1)"
    using assms(5) by (simp add: send_message_def)
  from assms(1) s show ?thesis
  proof (cases rule: send_cases)
    case sent
    then show ?thesis using assms(2-4) receive_initiation [of n d]
      by (simp add: dumping_def up_peers_def del: receive.simps)
  next
    case lost
    then show ?thesis using assms(2) by (simp add: failed_def)
  qed
qed

lemma dump_rest_keeps:
  assumes "tx_law env" and "reg_ok env H walk_reg" and "peers_known env H m (fst ` set peers)"
    and "dumping env H (fst ` set peers) (fst ` set peers) c"
    and "dump_walk env walk_reg rib m c = (discovered, w)" and "\<not> wc_gone w"
    and "send_each (\<lambda>(ident, _) c. case hm_get m ident of None \<Rightarrow> (True, c)
        | Some pi \<Rightarrow> send_eors env pi fams c) peers (wc_client w) = (ok1, c1)"
    and "ok1 \<Longrightarrow> send_each (\<lambda>(ident, pi) c. send_eors env pi fams (add_known_peer ident c)) discovered c1 = (ok2, c2)"
  shows "dump_keeps env H (if ok1 then (ok2, c2, ms) else (False, c1, ms))"
proof -
  let ?K = "fst ` set peers"
  let ?S = "?K \<union> fst ` set discovered"
  have disc: "\<forall>(ident, pi) \<in> set discovered. peer_info_wf pi \<and> peer_key (ce_pt env) pi = H ident"
    and dw: "dumping env H ?S ?K (wc_client w)"
    using dump_walk_dumping [OF assms(1-5)] by blast+
  have "dumping env H ?S ?K (snd (case hm_get m (fst e) of None \<Rightarrow> (True, c')
      | Some pi \<Rightarrow> send_eors env pi fams c'))"
    if "dumping env H ?S ?K c'" for e c'
  proof (cases "hm_get m (fst e)")
    case (Some pi)
    have "fst e \<in> ?S" "peer_info_wf pi" "peer_key (ce_pt env) pi = H (fst e)"
      using assms(3) Some by (auto simp: peers_known_def)
    from send_eors_dumping [where H = H, OF assms(1) that this] Some show ?thesis by simp
  qed (use that in simp)
  then have "dumping env H ?S ?K (snd (send_each (\<lambda>(ident, _) c. case hm_get m ident of None \<Rightarrow> (True, c)
      | Some pi \<Rightarrow> send_eors env pi fams c) peers (wc_client w)))"
    by (intro send_each_inv [where P = "dumping env H ?S ?K", OF _ dw]) (simp add: case_prod_unfold)
  then have d1: "dumping env H ?S ?K c1" using assms(7) by simp
  show ?thesis
  proof (cases ok1)
    case True
    from announce_discovered [OF assms(1) disc _ d1 assms(8) [OF True]]
    obtain K' where "dumping env H ?S K' c2" "ok2 \<longrightarrow> K' = ?S" by auto
    then show ?thesis using True by (simp add: dumping_keeps)
  next
    case False
    then show ?thesis using dumping_keeps [OF d1, of False] by simp
  qed
qed

lemma dump_table_keeps:
  assumes "tx_law env" and "reg_ok env H reg" and "reg_ok env H walk_reg" and "reg_wf reg"
    and "received c = AwaitInit" and "cs_known_peers c = {}" and "cs_peer_info_cache c = []"
  shows "dump_keeps env H (dump_table env it reg walk_reg n d rib c ms)"
proof -
  let ?peers = "dump_peers it reg"
  obtain ok1 c1 where s: "send_message env (build_initiation_message n d) c = (ok1, c1)"
    by (cases "send_message env (build_initiation_message n d) c") blast
  note i = init_dumping [OF assms(1,5-7) s]
  show ?thesis
  proof (cases ok1)
    case False
    then show ?thesis using s i evolves_accounted [of env c c1]
      by (simp add: dump_table_def dump_keeps_def evolves_def buf_view_def)
  next
    case True
    obtain res c2 where u: "send_peer_ups env reg ?peers [] c1 = (res, c2)"
      by (cases "send_peer_ups env reg ?peers [] c1") blast
    have infos: "\<forall>(ident, info) \<in> set ?peers. info_ok env H reg ident info"
      using dump_peers_facts(2) [OF assms(4)] assms(2) by (auto simp: reg_ok_def)
    have none: "peers_known env H [] {}" by (auto simp: peers_known_def)
    have d1: "dumping env H {} {} c1" using i True by simp
    have ups: "case res of None \<Rightarrow> \<exists>S' K'. dumping env H S' K' c2
      | Some m \<Rightarrow> peers_known env H m (fst ` set ?peers) \<and> dumping env H (fst ` set ?peers) (fst ` set ?peers) c2"
      using send_peer_ups_dumping [OF assms(1) dump_peers_facts(1) [OF assms(4)] _ infos none d1 u]
      by (simp split: option.splits)
    show ?thesis
    proof (cases res)
      case None
      then obtain S K where "dumping env H S K c2" using ups by auto
      from dumping_keeps [OF this, of False] show ?thesis using s u True None by (simp add: dump_table_def)
    next
      case (Some m)
      then have k: "peers_known env H m (fst ` set ?peers)" and d2: "dumping env H (fst ` set ?peers) (fst ` set ?peers) c2"
        using ups by simp_all
      obtain discovered w where w: "dump_walk env walk_reg rib m c2 = (discovered, w)"
        by (cases "dump_walk env walk_reg rib m c2") blast
      have dw: "dumping env H (fst ` set ?peers \<union> fst ` set discovered) (fst ` set ?peers) (wc_client w)"
        using dump_walk_dumping [OF assms(1,3) k d2 w] by blast
      show ?thesis
      proof (cases "wc_gone w")
        case True
        then show ?thesis using s u w Some \<open>ok1\<close> dw
          by (simp add: dump_table_def dump_keeps_def dumping_def discard_dump_buffer_def request_disconnect_def
              received_def Let_def)
      next
        case False
        let ?fams = "[Ipv4Unicast, Ipv6Unicast]"
        obtain ok3 c3 where e1: "send_each (\<lambda>(ident, _) c. case hm_get m ident of None \<Rightarrow> (True, c)
            | Some pi \<Rightarrow> send_eors env pi ?fams c) ?peers (wc_client w) = (ok3, c3)" using prod.exhaust by blast
        obtain ok4 c4 where e2: "send_each (\<lambda>(ident, pi) c. send_eors env pi ?fams (add_known_peer ident c))
            discovered c3 = (ok4, c4)" using prod.exhaust by blast
        have "dump_table env it reg walk_reg n d rib c ms = (if ok3 then (ok4, c4, ms) else (False, c3, ms))"
          using s u w Some \<open>ok1\<close> False e1 e2
          by (simp add: dump_table_def del: send_eors.simps split: bool.split)
        then show ?thesis using dump_rest_keeps [OF assms(1,3) k d2 w False e1 e2, of ms] by simp
      qed
    qed
  qed
qed

end
