(* ===== verification/Bmp_Live.thy ===== *)
theory Bmp_Live
  imports Bmp_Dump
begin

text \<open>
  Properties of whole sessions of the BMP output unit: what the receiver sees, the order of
  updates across the end of the dump, progress of the drain, the bounds of the buffer and the
  exactness of the process-wide counters.
\<close>

subsection \<open>The frame of a step\<close>

lemma dump_table_frame:
  assumes "dump_table env it reg walk_reg n d rib c ms = (ok, c', ms')"
  shows "accounted (ce_sizes env) c ms c' ms' \<and> cs_phase c' = cs_phase c \<and> (ok \<longrightarrow> buf_view c' = buf_view c)"
proof -
  let ?peers = "dump_peers it reg" and ?fams = "[Ipv4Unicast, Ipv6Unicast]"
  have same: "accounted (ce_sizes env) c ms c2 ms \<and> cs_phase c2 = cs_phase c \<and> buf_view c2 = buf_view c"
    if "evolves env c c2" for c2
    using that evolves_accounted [OF that] by (auto simp: evolves_def buf_view_def)
  obtain ok1 c1 where s: "send_message env (build_initiation_message n d) c = (ok1, c1)"
    using prod.exhaust by blast
  obtain res c2 where u: "send_peer_ups env reg ?peers [] c1 = (res, c2)" using prod.exhaust by blast
  have e1: "evolves env c c1" using send_message_evolves [of env c] s by (metis snd_conv)
  have e2: "evolves env c c2"
    using evolves_trans [OF e1 send_peer_ups_evolves [of env c1 reg ?peers "[]"]] u by simp
  show ?thesis
  proof (cases "ok1 \<and> res \<noteq> None")
    case False
    then show ?thesis using assms s u same [OF e1] same [OF e2] by (auto simp: dump_table_def split: bool.splits)
  next
    case True
    then obtain m where m: "res = Some m" by auto
    obtain discovered w where w: "dump_walk env walk_reg rib m c2 = (discovered, w)" using prod.exhaust by blast
    have e3: "evolves env c (wc_client w)"
      using evolves_trans [OF e2 dump_walk_evolves [of env c2 walk_reg rib m]] w by simp
    have e3': "evolves env c (snd (request_disconnect (wc_client w)))"
      by (rule evolves_trans [OF e3 evolves_peers(7)])
    obtain c6 ms6 where dd: "discard_dump_buffer (snd (request_disconnect (wc_client w))) ms = (c6, ms6)"
      using prod.exhaust by blast
    have gone: "accounted (ce_sizes env) c ms c6 ms6 \<and> cs_phase c6 = cs_phase c"
      using accounted_trans [OF _ accounted_discard [OF dd]] same [OF e3'] dd
      by (auto simp: discard_dump_buffer_def)
    obtain ok3 c3 where x1: "send_each (\<lambda>(ident, _) c. case hm_get m ident of None \<Rightarrow> (True, c)
        | Some pi \<Rightarrow> send_eors env pi ?fams c) ?peers (wc_client w) = (ok3, c3)" using prod.exhaust by blast
    obtain ok4 c4 where x2: "send_each (\<lambda>(ident, pi) c. send_eors env pi ?fams (add_known_peer ident c))
        discovered c3 = (ok4, c4)" using prod.exhaust by blast
    have "evolves env (wc_client w) (snd (send_each (\<lambda>(ident, _) c. case hm_get m ident of None \<Rightarrow> (True, c)
        | Some pi \<Rightarrow> send_eors env pi ?fams c) ?peers (wc_client w)))"
      by (rule evolves_send_each)
        (auto simp: case_prod_unfold simp del: send_eors.simps split: option.split intro: send_eors_evolves)
    then have e4: "evolves env c c3" using x1 e3 by (auto intro: evolves_trans)
    have "evolves env c3 (snd (send_each (\<lambda>(ident, pi) c. send_eors env pi ?fams (add_known_peer ident c)) discovered c3))"
      by (rule evolves_send_each)
        (auto simp: case_prod_unfold simp del: send_eors.simps
          intro: evolves_trans [OF evolves_peers(5) send_eors_evolves])
    then have e5: "evolves env c c4" using x2 e4 by (auto intro: evolves_trans)
    show ?thesis using assms s u m w True x1 x2 dd gone same [OF e4] same [OF e5]
      by (auto simp: dump_table_def simp del: send_eors.simps split: if_splits bool.splits)
  qed
qed

lemma dump_without_rib_frame:
  assumes "dump_without_rib env reg n d c ms = (c', ms')"
  shows "accounted (ce_sizes env) c ms c' ms' \<and> cs_phase c' = Live \<and> cs_dump_buffer c' = []"
proof -
  let ?c1 = "snd (send_message env (build_initiation_message n d) c)"
  obtain batch c2 ms2 where t: "take_buffered_updates ?c1 ms = (batch, c2, ms2)" using prod_cases3 by blast
  let ?c3 = "snd (send_each (send_update_to_client env reg True) batch c2)"
  have e: "evolves env c2 ?c3" by (rule evolves_send_each) simp
  have c': "c' = ?c3\<lparr>cs_phase := Live\<rparr>" "ms' = ms2"
    using assms t by (auto simp: dump_without_rib_def Let_def)
  have "accounted (ce_sizes env) c ms c2 ms2"
    by (rule accounted_trans [OF evolves_accounted [OF send_message_evolves] accounted_take [OF t]])
  then have "accounted (ce_sizes env) c ms ?c3 ms2"
    by (rule accounted_trans) (rule evolves_accounted [OF e])
  then have "accounted (ce_sizes env) c ms c' ms'"
    unfolding c' by (rule accounted_trans) (rule accounted_phase)
  moreover have "cs_dump_buffer ?c3 = []"
    using e t by (auto simp: evolves_def buf_view_def take_buffered_updates_def)
  ultimately show ?thesis by (simp add: c')
qed

lemma send_update_frame:
  assumes "send_update_to_client env reg b upd c = (ok, c')"
  shows "evolves env c c'"
  using send_update_evolves [of env c reg b upd] assms by simp

lemma step_accounted:
  assumes "session_step env s l t"
  shows "accounted (ce_sizes env) (se_client s) (se_mem s) (se_client t) (se_mem t)"
  using assms
proof cases
  case (table_failed it reg walk_reg n d rib c ms)
  with dump_table_frame [OF table_failed(4)] show ?thesis
    by (auto intro: accounted_trans evolves_accounted [OF evolves_peers(7)])
next
  case (replay_failed upd batch reg c)
  with send_update_frame [OF replay_failed(4)] show ?thesis
    by (auto intro: accounted_trans [OF evolves_accounted evolves_accounted [OF evolves_peers(7)]])
next
  case (go_live c ms)
  then show ?thesis by (auto intro: accounted_trans [OF accounted_take accounted_phase])
qed (auto dest: dump_table_frame dump_without_rib_frame send_update_frame
    intro: accounted_direct_update accounted_take evolves_accounted)

subsection \<open>Order\<close>

fun batch_of :: "('osm, 'rtr) dump_task \<Rightarrow> ('osm, 'rtr) update list" where
  "batch_of (Draining batch) = batch"
| "batch_of _ = []"

definition order_inv :: "('osm, 'rtr) session \<Rightarrow> bool" where
  "order_inv s \<longleftrightarrow>
    (cs_phase (se_client s) = Live \<longleftrightarrow> se_task s = Finished True) \<and>
    (cs_phase (se_client s) = Live \<longrightarrow> cs_dump_buffer (se_client s) = []) \<and>
    (se_task s = Finished False \<longrightarrow> cs_disconnect_pending (se_client s)) \<and>
    (\<not> cs_disconnect_pending (se_client s) \<longrightarrow>
      se_arrived s = se_handled s @ batch_of (se_task s) @ cs_dump_buffer (se_client s))"

lemma direct_update_cases:
  assumes "direct_update env reg upd c ms = (c', ms')"
  obtains (skipped) "cs_disconnect_pending c" "c' = c" "ms' = ms"
    | (buffered) "\<not> cs_disconnect_pending c" "cs_phase c = Dumping" "cs_phase c' = Dumping"
      "cs_dump_buffer c' = cs_dump_buffer c @ [upd]" "cs_sent c' = cs_sent c" "cs_known_peers c' = cs_known_peers c"
      "cs_peer_info_cache c' = cs_peer_info_cache c" "\<not> cs_disconnect_pending c'"
    | (overflow) "\<not> cs_disconnect_pending c" "cs_phase c = Dumping" "c' = snd (request_disconnect c)" "ms' = ms"
    | (live) "\<not> cs_disconnect_pending c" "cs_phase c = Live" "c' = snd (send_update_to_client env reg False upd c)"
  using assms
  by (cases "cs_phase c")
    (auto simp: direct_update_def buffer_update_if_dumping_def Let_def split: if_splits)

lemma request_disconnect_simps [simp]:
  "cs_disconnect_pending (snd (request_disconnect c))" "cs_phase (snd (request_disconnect c)) = cs_phase c"
  "cs_dump_buffer (snd (request_disconnect c)) = cs_dump_buffer c" "cs_sent (snd (request_disconnect c)) = cs_sent c"
  by (simp_all add: request_disconnect_def Let_def)

lemma order_inv_arrive:
  assumes "order_inv s" and "direct_update env reg upd (se_client s) (se_mem s) = (c, ms)"
  shows "order_inv (s\<lparr>se_client := c, se_mem := ms, se_arrived := se_arrived s @ [upd],
    se_handled := se_handled s @
      (if \<not> cs_disconnect_pending (se_client s) \<and> cs_phase (se_client s) = Live then [upd] else [])\<rparr>)"
  using assms(2)
proof (cases rule: direct_update_cases)
  case live
  have "evolves env (se_client s) c" unfolding live(3) by simp
  with live assms(1) show ?thesis by (auto simp: order_inv_def evolves_def buf_view_def)
qed (use assms(1) in \<open>auto simp: order_inv_def\<close>)

lemma order_inv_step:
  assumes "order_inv s" and "session_step env s l t"
  shows "order_inv t"
  using assms(2)
proof cases
  case (arrive reg upd c ms)
  then show ?thesis using order_inv_arrive [OF assms(1)] by simp
next
  case (table_done it reg walk_reg n d rib c ms)
  then show ?thesis
    using dump_table_frame [OF table_done(4)] assms(1) by (auto simp: order_inv_def buf_view_def accounted_def)
next
  case (table_failed it reg walk_reg n d rib c ms)
  then show ?thesis using dump_table_frame [OF table_failed(4)] assms(1) by (auto simp: order_inv_def)
next
  case (no_rib reg n d c ms)
  then show ?thesis
    using dump_without_rib_frame [OF no_rib(4)] assms(1) by (auto simp: order_inv_def accounted_def)
next
  case (replay upd batch reg c)
  then show ?thesis
    using send_update_frame [OF replay(4)] assms(1) by (auto simp: order_inv_def evolves_def buf_view_def)
next
  case (replay_failed upd batch reg c)
  then show ?thesis
    using send_update_frame [OF replay_failed(4)] assms(1) by (auto simp: order_inv_def evolves_def buf_view_def)
qed (use assms(1) in \<open>auto simp: order_inv_def take_buffered_updates_def\<close>)

lemma order_inv_new: "order_inv (session_new max_entries max_bytes ms)"
  by (simp add: order_inv_def session_new_def client_new_def)

lemma order_inv_reach: "session_reach env ok s \<Longrightarrow> order_inv s"
  by (induction rule: session_reach.induct) (simp_all add: order_inv_new order_inv_step)

subsection \<open>Protocol\<close>

text \<open>The side conditions of a step: the register agrees with the headers, updates speak of registered peers.\<close>

fun label_ok ::
  "client_env \<Rightarrow> (ingress_id \<Rightarrow> bytes) \<Rightarrow> ('osm, 'rtr) session \<Rightarrow> ('osm, 'rtr) session_label \<Rightarrow> bool" where
  "label_ok env H s (Arrive reg upd) \<longleftrightarrow> reg_ok env H reg \<and> update_ok env H reg upd"
| "label_ok env H s (Table it reg walk_reg n d rib) \<longleftrightarrow> reg_ok env H reg \<and> reg_wf reg \<and> reg_ok env H walk_reg"
| "label_ok env H s (NoRib reg n d) \<longleftrightarrow>
    reg_ok env H reg \<and> list_all (update_ok env H reg) (cs_dump_buffer (se_client s))"
| "label_ok env H s (Replay reg upd) \<longleftrightarrow> reg_ok env H reg \<and> update_ok env H reg upd"
| "label_ok env H s _ \<longleftrightarrow> True"

definition protocol_inv :: "client_env \<Rightarrow> (ingress_id \<Rightarrow> bytes) \<Rightarrow> ('osm, 'rtr) session \<Rightarrow> bool" where
  "protocol_inv env H s \<longleftrightarrow> received (se_client s) \<noteq> ProtocolError \<and>
    (case se_task s of
      Starting \<Rightarrow> received (se_client s) = AwaitInit \<and> cs_known_peers (se_client s) = {} \<and>
        cs_peer_info_cache (se_client s) = []
    | Draining _ \<Rightarrow> in_step env H (se_client s)
    | Finished ok \<Rightarrow> ok \<longrightarrow> in_step env H (se_client s) \<or> failed env False (se_client s))"

lemma in_step_no_error: "in_step env H c \<Longrightarrow> received c \<noteq> ProtocolError"
  by (simp add: in_step_def)

lemma in_step_frame:
  "in_step env H c \<Longrightarrow> cs_sent c' = cs_sent c \<Longrightarrow> cs_known_peers c' = cs_known_peers c \<Longrightarrow>
    cs_peer_info_cache c' = cs_peer_info_cache c \<Longrightarrow> in_step env H c'"
  by (simp add: in_step_def cache_ok_def received_def)

lemma protocol_inv_arrive:
  assumes "tx_law env" and "order_inv s" and "protocol_inv env H s" and "reg_ok env H reg"
    and "update_ok env H reg upd" and "direct_update env reg upd (se_client s) (se_mem s) = (c, ms)"
    and "se_client t = c" and "se_task t = se_task s"
  shows "protocol_inv env H t"
  using assms(6)
proof (cases rule: direct_update_cases)
  case skipped
  then show ?thesis using assms(3,7,8) by (auto simp: protocol_inv_def split: dump_task.split)
next
  case buffered
  then show ?thesis using assms(2,3,7,8) in_step_frame [of env H "se_client s" c]
    by (auto simp: protocol_inv_def order_inv_def received_def split: dump_task.split)
next
  case overflow
  then show ?thesis using assms(2,3,7,8) in_step_frame [of env H "se_client s" c]
    by (auto simp: protocol_inv_def order_inv_def received_def request_disconnect_def Let_def split: dump_task.split)
next
  case live
  let ?c = "se_client s"
  obtain ok c' where u: "send_update_to_client env reg False upd ?c = (ok, c')" using prod.exhaust by blast
  have task: "se_task s = Finished True" using assms(2) live(2) by (simp add: order_inv_def)
  have ev: "evolves env ?c c'" by (rule send_update_frame [OF u])
  consider "in_step env H ?c" | "closed_from env (cs_attempts ?c)"
    using assms(3) task live(1) by (auto simp: protocol_inv_def failed_def)
  then show ?thesis
  proof cases
    case 1
    from send_update_keeps [OF assms(1) 1 assms(4,5), of False]
    show ?thesis using u live(3) task assms(7,8)
      by (cases ok) (auto simp: keeps_step_def protocol_inv_def in_step_no_error)
  next
    case 2
    then have "cs_sent c' = cs_sent ?c" "closed_from env (cs_attempts c')"
      using ev by (auto simp: evolves_def intro: closed_from_mono)
    then show ?thesis using u live(3) task assms(3,7,8) by (simp add: protocol_inv_def received_def failed_def)
  qed
qed

lemma dump_without_rib_protocol:
  assumes "tx_law env" and "received c = AwaitInit" and "cs_known_peers c = {}" and "cs_peer_info_cache c = []"
    and "reg_ok env H reg" and "list_all (update_ok env H reg) (cs_dump_buffer c)"
    and "dump_without_rib env reg n d c ms = (c', ms')"
  shows "received c' \<noteq> ProtocolError \<and> (in_step env H c' \<or> failed env False c')"
proof -
  obtain ok1 c1 where s: "send_message env (build_initiation_message n d) c = (ok1, c1)" using prod.exhaust by blast
  obtain batch c2 ms2 where t: "take_buffered_updates c1 ms = (batch, c2, ms2)" using prod_cases3 by blast
  obtain ok3 c3 where e: "send_each (send_update_to_client env reg True) batch c2 = (ok3, c3)" using prod.exhaust by blast
  have c': "c' = c3\<lparr>cs_phase := Live\<rparr>" using assms(7) s t e by (auto simp: dump_without_rib_def Let_def)
  have ev: "evolves env c2 c3"
    using evolves_send_each [of batch env "send_update_to_client env reg True" c2] e by simp
  have c2: "cs_sent c2 = cs_sent c1" "cs_attempts c2 = cs_attempts c1" "cs_known_peers c2 = cs_known_peers c1"
      "cs_peer_info_cache c2 = cs_peer_info_cache c1" "batch = cs_dump_buffer c1"
    using t by (auto simp: take_buffered_updates_def)
  have b: "batch = cs_dump_buffer c"
    using c2(5) send_message_evolves [of env c "build_initiation_message n d"] s
    by (auto simp: evolves_def buf_view_def)
  have "received c3 \<noteq> ProtocolError \<and> (in_step env H c3 \<or> failed env False c3)"
  proof (cases ok1)
    case True
    have "dumping env H {} {} c1" using init_dumping [OF assms(1-4) s] True by simp
    then have i: "in_step env H c2" using c2 by (simp add: dumping_def in_step_def cache_ok_def received_def)
    have "keeps_step env H True (ok3, c3)"
      using send_each_keeps [of batch env H True "send_update_to_client env reg True" c2]
        send_update_keeps [OF assms(1) _ assms(5)] assms(6) i e b by (auto simp: list_all_iff)
    then show ?thesis by (cases ok3) (auto simp: keeps_step_def failed_def in_step_no_error)
  next
    case False
    then have "received c1 = AwaitInit" "closed_from env (cs_attempts c1)" using init_dumping [OF assms(1-4) s] by simp_all
    moreover from this ev c2 have "cs_sent c3 = cs_sent c1" "closed_from env (cs_attempts c3)"
      by (auto simp: evolves_def intro: closed_from_mono)
    ultimately show ?thesis by (simp add: received_def failed_def)
  qed
  then show ?thesis using in_step_frame [of env H c3 c'] by (auto simp: c' received_def failed_def)
qed

lemma protocol_inv_step:
  assumes "tx_law env" and "order_inv s" and "protocol_inv env H s" and "label_ok env H s l"
    and "session_step env s l t"
  shows "protocol_inv env H t"
  using assms(5)
proof cases
  case (arrive reg upd c ms)
  show ?thesis
    by (rule protocol_inv_arrive [OF assms(1-3) _ _ arrive(3)]) (use assms(4) arrive(1,2) in simp_all)
next
  case (table_done it reg walk_reg n d rib c ms)
  then have "dump_keeps env H (True, c, ms)"
    using dump_table_keeps [OF assms(1), where c = "se_client s" and ms = "se_mem s" and H = H and reg = reg and
        walk_reg = walk_reg and it = it and n = n and d = d and rib = rib] assms(3,4)
    by (simp add: protocol_inv_def)
  then show ?thesis using table_done by (simp add: dump_keeps_def protocol_inv_def)
next
  case (table_failed it reg walk_reg n d rib c ms)
  then have "dump_keeps env H (False, c, ms)"
    using dump_table_keeps [OF assms(1), where c = "se_client s" and ms = "se_mem s" and H = H and reg = reg and
        walk_reg = walk_reg and it = it and n = n and d = d and rib = rib] assms(3,4)
    by (simp add: protocol_inv_def)
  then show ?thesis using table_failed by (simp add: dump_keeps_def protocol_inv_def received_def)
next
  case (no_rib reg n d c ms)
  then show ?thesis
    using dump_without_rib_protocol [where H = H, OF assms(1) _ _ _ _ _ no_rib(4)] assms(3,4) by (simp add: protocol_inv_def)
next
  case (take_batch batch c ms)
  then show ?thesis using assms(3) in_step_frame [of env H "se_client s" c]
    by (auto simp: protocol_inv_def take_buffered_updates_def received_def)
next
  case (go_live c ms)
  then show ?thesis using assms(3) in_step_frame [of env H "se_client s" "c\<lparr>cs_phase := Live\<rparr>"]
    by (auto simp: protocol_inv_def take_buffered_updates_def received_def)
next
  case (replay upd batch reg c)
  then show ?thesis
    using send_update_keeps [OF assms(1), of H "se_client s" reg upd True] assms(3,4)
    by (simp add: protocol_inv_def keeps_step_def in_step_no_error)
next
  case (replay_failed upd batch reg c)
  then show ?thesis
    using send_update_keeps [OF assms(1), of H "se_client s" reg upd True] assms(3,4)
    by (simp add: protocol_inv_def keeps_step_def received_def)
qed

lemma protocol_inv_reach:
  assumes "tx_law env" and "session_reach env (label_ok env H) s"
  shows "protocol_inv env H s"
  using assms(2)
proof (induction rule: session_reach.induct)
  case (reach_new max_entries max_bytes ms)
  then show ?case by (simp add: protocol_inv_def session_new_def client_new_def received_def)
next
  case (reach_step s l t)
  then show ?case using protocol_inv_step [OF assms(1) order_inv_reach] by blast
qed

subsection \<open>Progress\<close>

definition tx_open :: "client_env \<Rightarrow> bool" where
  "tx_open env \<longleftrightarrow> (\<forall>n. ce_tx env n \<noteq> TxClosed)"

lemma blocking_send: "tx_open env \<Longrightarrow> fst (send_message_mode env m True c)"
  by (simp add: tx_open_def send_message_mode_def Let_def)

lemma blocking_not_False: "tx_open env \<Longrightarrow> send_message_mode env m True c \<noteq> (False, c')"
  using blocking_send [of env m c] by auto

lemma blocking_ensure: "tx_open env \<Longrightarrow> fst (ensure_peer_up env reg True ident c)"
  by (auto simp: ensure_peer_up_def blocking_not_False Let_def split: bool.split prod.split option.split)

lemma blocking_send_each: "(\<And>x c. fst (f x c)) \<Longrightarrow> fst (send_each f xs c)"
proof (induction xs arbitrary: c)
  case (Cons x xs)
  then obtain c1 where "f x c = (True, c1)" by (metis prod.collapse)
  with Cons show ?case by simp
qed simp

lemma blocking_route: "tx_open env \<Longrightarrow> fst (send_route env True pi pl c)"
  by (simp add: send_route_def blocking_send split: option.split)

lemma blocking_payload: "tx_open env \<Longrightarrow> fst (send_payload_to_client env reg True pl c)"
  using blocking_ensure [of env reg "pl_ingress_id pl" c]
  by (auto simp: send_payload_to_client_def blocking_route Let_def split: option.split prod.split bool.split)

lemma blocking_down: "tx_open env \<Longrightarrow> fst (send_peer_down env reg True ident snap c)"
  by (simp add: send_peer_down_def blocking_send case_prod_unfold Let_def)

lemma blocking_stats: "tx_open env \<Longrightarrow> fst (send_peer_stats env reg True ident body c)"
  using blocking_ensure [of env reg ident c]
  by (auto simp: send_peer_stats_def blocking_send split: option.split prod.split bool.split)

lemma blocking_update: "tx_open env \<Longrightarrow> fst (send_update_to_client env reg True upd c)"
  by (cases upd)
    (simp_all add: blocking_down blocking_stats blocking_payload blocking_ensure blocking_send_each
      send_peer_reappeared_eq case_prod_unfold split: option.split)

text \<open>The steps of the drain loop, replaying with a given register.\<close>

inductive drain_step :: "client_env \<Rightarrow> register \<Rightarrow> ('osm, 'rtr) session \<Rightarrow> ('osm, 'rtr) session \<Rightarrow> bool"
  for env reg where
  "session_step env s TakeBatch t \<Longrightarrow> drain_step env reg s t"
| "session_step env s GoLive t \<Longrightarrow> drain_step env reg s t"
| "session_step env s (Replay reg upd) t \<Longrightarrow> drain_step env reg s t"

lemma drain_batch:
  assumes "tx_open env" and "se_task s = Draining batch"
  shows "\<exists>t. (drain_step env reg)\<^sup>*\<^sup>* s t \<and> se_task t = Draining [] \<and> se_arrived t = se_arrived s \<and>
    se_handled t = se_handled s @ batch \<and> cs_dump_buffer (se_client t) = cs_dump_buffer (se_client s)"
  using assms(2)
proof (induction batch arbitrary: s)
  case (Cons upd batch)
  obtain c where u: "send_update_to_client env reg True upd (se_client s) = (True, c)"
    using blocking_update [OF assms(1)] by (metis prod.collapse)
  let ?s = "s\<lparr>se_client := c, se_task := Draining batch, se_handled := se_handled s @ [upd]\<rparr>"
  have "drain_step env reg s ?s"
    by (rule drain_step.intros(3), rule session_step.replay [OF Cons.prems u])
  moreover have "cs_dump_buffer c = cs_dump_buffer (se_client s)"
    using send_update_frame [OF u] by (simp add: evolves_def buf_view_def)
  ultimately show ?case using Cons.IH [of ?s] by (auto intro: converse_rtranclp_into_rtranclp)
qed auto

lemma drain_live:
  assumes "se_task s = Draining []" and "cs_dump_buffer (se_client s) = []"
  shows "\<exists>t. (drain_step env reg)\<^sup>*\<^sup>* s t \<and> se_task t = Finished True \<and> cs_phase (se_client t) = Live \<and>
    se_arrived t = se_arrived s \<and> se_handled t = se_handled s"
proof -
  obtain c ms where t: "take_buffered_updates (se_client s) (se_mem s) = ([], c, ms)"
    using assms(2) by (simp add: take_buffered_updates_def)
  let ?t = "s\<lparr>se_client := c\<lparr>cs_phase := Live\<rparr>, se_mem := ms, se_task := Finished True\<rparr>"
  have "drain_step env reg s ?t"
    by (rule drain_step.intros(2), rule session_step.go_live [OF assms(1) t])
  then have "(drain_step env reg)\<^sup>*\<^sup>* s ?t" by (rule r_into_rtranclp)
  then show ?thesis by (intro exI [of _ ?t]) simp
qed

lemma drain_to_live:
  assumes "tx_open env" and "se_task s = Draining batch"
  shows "\<exists>t. (drain_step env reg)\<^sup>*\<^sup>* s t \<and> se_task t = Finished True \<and> cs_phase (se_client t) = Live \<and>
    se_arrived t = se_arrived s \<and> se_handled t = se_handled s @ batch @ cs_dump_buffer (se_client s)"
proof -
  obtain s1 where s1: "(drain_step env reg)\<^sup>*\<^sup>* s s1" "se_task s1 = Draining []" "se_arrived s1 = se_arrived s"
    "se_handled s1 = se_handled s @ batch" "cs_dump_buffer (se_client s1) = cs_dump_buffer (se_client s)"
    using drain_batch [OF assms] by blast
  show ?thesis
  proof (cases "cs_dump_buffer (se_client s) = []")
    case True
    then show ?thesis using drain_live [of s1 env reg] s1 by (auto intro: rtranclp_trans)
  next
    case False
    obtain c ms where t: "take_buffered_updates (se_client s1) (se_mem s1) = (cs_dump_buffer (se_client s), c, ms)"
      and e: "cs_dump_buffer c = []" using s1(5) by (simp add: take_buffered_updates_def)
    let ?s2 = "s1\<lparr>se_client := c, se_mem := ms, se_task := Draining (cs_dump_buffer (se_client s))\<rparr>"
    have "drain_step env reg s1 ?s2"
      by (rule drain_step.intros(1), rule session_step.take_batch [OF s1(2) t False])
    with s1(1) have r2: "(drain_step env reg)\<^sup>*\<^sup>* s ?s2" by (rule rtranclp.rtrancl_into_rtrancl)
    obtain s3 where s3: "(drain_step env reg)\<^sup>*\<^sup>* ?s2 s3" "se_task s3 = Draining []" "se_arrived s3 = se_arrived ?s2"
      "se_handled s3 = se_handled ?s2 @ cs_dump_buffer (se_client s)"
      "cs_dump_buffer (se_client s3) = cs_dump_buffer (se_client ?s2)"
      using drain_batch [OF assms(1), of ?s2] by fastforce
    obtain t where t: "(drain_step env reg)\<^sup>*\<^sup>* s3 t" "se_task t = Finished True" "cs_phase (se_client t) = Live"
      "se_arrived t = se_arrived s3" "se_handled t = se_handled s3" using drain_live [OF s3(2), of env reg] s3(5) e by auto
    have "(drain_step env reg)\<^sup>*\<^sup>* s t" using r2 s3(1) t(1) by (meson rtranclp_trans)
    then show ?thesis using t s3 s1 by auto
  qed
qed

subsection \<open>All clients\<close>

text \<open>Sessions that share the process-wide counters: they come, make steps, and are dropped.\<close>

inductive bmp_out_reach :: "client_env \<Rightarrow> ('osm, 'rtr) session list \<Rightarrow> mem_stats \<Rightarrow> bool" for env where
  out_start: "bmp_out_reach env [] \<lparr>BMP_OUT_BUFFERED_BYTES = 0, BMP_OUT_BUFFERED_ENTRIES = 0, BMP_OUT_CLIENTS = 0\<rparr>"
| out_connect: "\<lbrakk>bmp_out_reach env ss ms; s = session_new max_entries max_bytes ms\<rbrakk> \<Longrightarrow>
    bmp_out_reach env (s # ss) (se_mem s)"
| out_step: "\<lbrakk>bmp_out_reach env (ss @ s # ts) ms; session_step env (s\<lparr>se_mem := ms\<rparr>) l s'\<rbrakk> \<Longrightarrow>
    bmp_out_reach env (ss @ s' # ts) (se_mem s')"
| out_drop: "bmp_out_reach env (ss @ s # ts) ms \<Longrightarrow> bmp_out_reach env (ss @ ts) (client_drop (se_client s) ms)"

definition exact_counters :: "type_sizes \<Rightarrow> ('osm, 'rtr) session list \<Rightarrow> mem_stats \<Rightarrow> bool" where
  "exact_counters sz ss ms \<longleftrightarrow> BMP_OUT_CLIENTS ms = length ss \<and>
    BMP_OUT_BUFFERED_BYTES ms = sum_list (map (\<lambda>s. cs_buffered_bytes (se_client s)) ss) \<and>
    BMP_OUT_BUFFERED_ENTRIES ms = sum_list (map (\<lambda>s. length (cs_dump_buffer (se_client s))) ss) \<and>
    list_all (\<lambda>s. buffer_ok sz (se_client s)) ss"

lemma bmp_out_exact: "bmp_out_reach env ss ms \<Longrightarrow> exact_counters (ce_sizes env) ss ms"
proof (induction rule: bmp_out_reach.induct)
  case (out_connect ss ms s max_entries max_bytes)
  then show ?case
    by (simp add: exact_counters_def session_new_def client_new_def buffer_ok_def)
next
  case (out_step ss s ts ms l s')
  from step_accounted [OF out_step(2)] out_step(3) show ?case
    by (simp add: exact_counters_def accounted_def)
next
  case (out_drop ss s ts ms)
  then show ?case by (simp add: exact_counters_def client_drop_def Let_def)
qed (simp add: exact_counters_def)

lemma reach_accounted: "session_reach env ok s \<Longrightarrow> buffer_ok (ce_sizes env) (se_client s) \<and> counters_ok (se_client s)"
proof (induction rule: session_reach.induct)
  case (reach_new max_entries max_bytes ms)
  then show ?case by (simp add: session_new_def client_new_def buffer_ok_def counters_ok_def)
next
  case (reach_step s l t)
  then show ?case using step_accounted [of env s l t] by (simp add: accounted_def)
qed

subsection \<open>Properties\<close>


definition live_env :: client_env where
  "live_env = \<lparr>ce_pt = (\<lambda>_. 0), ce_af = (\<lambda>_. (2, 1)), ce_hasher = (\<lambda>_. 1),
     ce_prefix_new = (\<lambda>a l. Some \<lparr>pfx_addr = a, pfx_len = l\<rparr>),
     ce_sizes = \<lparr>sz_update = 8, sz_payload = 8, sz_withdraw_entry = 8, sz_output_stream_message = 8\<rparr>,
     ce_now = (\<lambda>_. (0, 0)), ce_tx = (\<lambda>_. TxReady), ce_flagged = (\<lambda>_. False), ce_order = (\<lambda>_ xs. xs),
     ce_forward_router_info = True, ce_fan_in = Off\<rparr>"

definition live_header :: "ingress_id \<Rightarrow> bytes" where
  "live_header ident = peer_key (\<lambda>_. 0) (build_peer_info_for_emit live_env sample_peer sample_register)"

definition no_clients :: mem_stats where
  "no_clients = \<lparr>BMP_OUT_BUFFERED_BYTES = 0, BMP_OUT_BUFFERED_ENTRIES = 0, BMP_OUT_CLIENTS = 0\<rparr>"

lemma live_env_laws: "tx_law live_env" "tx_open live_env"
  by (simp_all add: tx_law_def tx_open_def live_env_def)

lemma live_send:
  "send_message_mode live_env m b c = (True, c\<lparr>cs_attempts := cs_attempts c + 1,
    cs_messages_sent := cs_messages_sent c + 1, cs_bytes_sent := cs_bytes_sent c + length m,
    cs_sent := cs_sent c @ [m]\<rparr>)"
  by (simp add: send_message_mode_def live_env_def Let_def)

lemma live_stats:
  "cs_disconnect_pending (snd (send_peer_stats live_env reg b ident body c)) = cs_disconnect_pending c"
  by (simp add: send_peer_stats_def ensure_peer_up_def live_send register_known_peer_if_absent_def Let_def
      split: bool.split option.split)

lemma live_reg_ok: "reg_ok live_env live_header sample_register"
proof -
  have "ident = 2 \<and> info = sample_peer" if "reg_get sample_register ident = Some info" for ident info
    using that by (simp add: sample_register_def reg_get_def hm_get_def split: if_splits)
  moreover have "peer_info_wf (from_ingress_info sample_peer)"
    by (rule from_ingress_info_ok) (simp add: sample_peer_def ingress_info_new_def)
  ultimately show ?thesis
    by (auto simp: reg_ok_def info_ok_def live_header_def build_peer_info_for_emit_def live_env_def peer_info_wf_def)
qed

lemma live_session:
  "\<exists>s :: (unit, unit) session. session_reach live_env (label_ok live_env live_header) s \<and> se_task s = Finished True \<and>
    se_arrived s = [PeerStats 2 [0, 0, 0, 0]] \<and> \<not> cs_disconnect_pending (se_client s)"
proof -
  let ?s0 = "session_new 10 1000 no_clients :: (unit, unit) session"
  obtain c ms where d: "dump_without_rib live_env sample_register [] [] (se_client ?s0) (se_mem ?s0) = (c, ms)"
    using prod.exhaust by blast
  let ?s1 = "?s0\<lparr>se_client := c, se_mem := ms, se_task := Finished True,
      se_handled := se_handled ?s0 @ cs_dump_buffer (se_client ?s0)\<rparr>"
  have st: "se_task ?s0 = Starting" by (simp add: session_new_def client_new_def)
  have r1: "session_reach live_env (label_ok live_env live_header) ?s1"
    by (rule session_reach.reach_step [OF session_reach.reach_new session_step.no_rib [OF st d]])
      (simp add: live_reg_ok session_new_def client_new_def)
  obtain c2 ms2 where u: "direct_update live_env sample_register (PeerStats 2 [0, 0, 0, 0]) (se_client ?s1) (se_mem ?s1) = (c2, ms2)"
    using prod.exhaust by blast
  let ?s2 = "?s1\<lparr>se_client := c2, se_mem := ms2,
      se_arrived := se_arrived ?s1 @ [PeerStats 2 [0, 0, 0, 0]], se_handled := se_handled ?s1 @
        (if \<not> cs_disconnect_pending (se_client ?s1) \<and> cs_phase (se_client ?s1) = Live then [PeerStats 2 [0, 0, 0, 0]] else [])\<rparr>"
  have r: "session_reach live_env (label_ok live_env live_header) ?s2"
    by (rule session_reach.reach_step [OF r1 session_step.arrive [OF u]])
      (simp add: live_reg_ok, simp add: sample_register_def reg_get_def hm_get_def)
  have "cs_phase c = Live" "\<not> cs_disconnect_pending c" using d
    by (auto simp: dump_without_rib_def session_new_def client_new_def send_message_def live_send
        take_buffered_updates_def Let_def)
  then have "\<not> cs_disconnect_pending c2" using u
    by (auto simp: direct_update_def buffer_update_if_dumping_def live_stats)
  then show ?thesis using r by (intro exI [of _ ?s2]) (simp add: session_new_def client_new_def)
qed




text \<open>
  C21: The drain ends. From any point of the drain, as long as the writer does not go away, the
  dump task reaches the live phase by its own steps once no more updates arrive, and by then
  every update that arrived has been handed to the client.
\<close>

theorem drain_reaches_live:
  assumes "tx_open env" and "session_reach env ok s" and "se_task s = Draining batch"
    and "\<not> cs_disconnect_pending (se_client s)"
  shows "\<exists>t. (drain_step env reg)\<^sup>*\<^sup>* s t \<and> cs_phase (se_client t) = Live \<and> se_task t = Finished True \<and>
    se_arrived t = se_arrived s \<and> se_handled t = se_arrived s"
  using drain_to_live [OF assms(1,3), of reg] order_inv_reach [OF assms(2)] assms(3,4)
  by (auto simp: order_inv_def)

theorem drain_reaches_live_witness:
  "\<exists>s t :: (unit, unit) session. session_reach live_env (\<lambda>_ _. True) s \<and> se_task s = Draining [] \<and>
    se_arrived s = [PeerStats 2 []] \<and>
    (drain_step live_env sample_register)\<^sup>*\<^sup>* s t \<and> cs_phase (se_client t) = Live \<and> se_handled t = [PeerStats 2 []]"
proof -
  let ?s0 = "session_new 10 1000 no_clients :: (unit, unit) session"
  obtain c ms where d: "dump_table live_env (\<lambda>xs. xs) register_new register_new [] [] [] (se_client ?s0) (se_mem ?s0) =
      (True, c, ms)" and c: "\<not> cs_disconnect_pending c" "cs_phase c = Dumping" "cs_dump_buffer c = []"
      "cs_buffered_bytes c = 0" "cs_max_buffer_entries c = 10" "cs_max_buffer_bytes c = 1000"
    by (simp add: dump_table_def send_message_def live_send session_new_def client_new_def dump_peers_def search_def
        register_new_def dump_walk_def flush_all_def aggregator_new_def iterate_def Let_def)
  have st: "se_task ?s0 = Starting" by (simp add: session_new_def client_new_def)
  let ?s1 = "?s0\<lparr>se_client := c, se_mem := ms, se_task := Draining []\<rparr>"
  have r1: "session_reach live_env (\<lambda>_ _. True) ?s1"
    by (rule session_reach.reach_step [OF session_reach.reach_new session_step.table_done [OF st d]]) simp
  obtain c2 ms2 where u: "direct_update live_env sample_register (PeerStats 2 []) (se_client ?s1) (se_mem ?s1) = (c2, ms2)"
    using prod.exhaust by blast
  have c2: "\<not> cs_disconnect_pending c2" using u c
    by (auto simp: direct_update_def buffer_update_if_dumping_def saturating_add_def live_env_def)
  let ?s2 = "?s1\<lparr>se_client := c2, se_mem := ms2, se_arrived := se_arrived ?s1 @ [PeerStats 2 []],
      se_handled := se_handled ?s1 @
        (if \<not> cs_disconnect_pending (se_client ?s1) \<and> cs_phase (se_client ?s1) = Live then [PeerStats 2 []] else [])\<rparr>"
  have r2: "session_reach live_env (\<lambda>_ _. True) ?s2"
    by (rule session_reach.reach_step [OF r1 session_step.arrive [OF u]]) simp
  have t2: "se_task ?s2 = Draining []" and p2: "\<not> cs_disconnect_pending (se_client ?s2)"
    and a2: "se_arrived ?s2 = [PeerStats 2 []]" using c2 by (simp_all add: session_new_def client_new_def)
  from drain_reaches_live [OF live_env_laws(2) r2 t2 p2, of sample_register] r2 t2 a2 show ?thesis by metis
qed



text \<open>
  C34: The process-wide counters of src/mem\_stats.rs are exact at every moment: the number of
  clients, the number of buffered updates and the sum of their sizes over all clients, whatever
  the clients do and in whatever state they are dropped. In particular no subtraction from them
  wraps around.
\<close>

theorem mem_stats_exact:
  assumes "bmp_out_reach env ss ms"
  shows "BMP_OUT_CLIENTS ms = length ss \<and>
    BMP_OUT_BUFFERED_ENTRIES ms = length (concat (map (\<lambda>s. cs_dump_buffer (se_client s)) ss)) \<and>
    BMP_OUT_BUFFERED_BYTES ms =
      sum_list (map (shallow_bytes (ce_sizes env)) (concat (map (\<lambda>s. cs_dump_buffer (se_client s)) ss)))"
proof -
  have e: "exact_counters (ce_sizes env) ss ms" by (rule bmp_out_exact [OF assms])
  then have b: "list_all (\<lambda>s. buffer_ok (ce_sizes env) (se_client s)) ss" by (simp add: exact_counters_def)
  have "sum_list (map (\<lambda>s. cs_buffered_bytes (se_client s)) ss) =
      sum_list (map (shallow_bytes (ce_sizes env)) (concat (map (\<lambda>s. cs_dump_buffer (se_client s)) ss)))"
    using b by (induction ss) (auto simp: buffer_ok_def)
  then show ?thesis using e by (simp add: exact_counters_def length_concat comp_def)
qed

theorem mem_stats_exact_witness:
  "\<exists>ms. bmp_out_reach live_env [session_new 5 100 no_clients :: (unit, unit) session] ms \<and> BMP_OUT_CLIENTS ms = 1"
proof -
  have r: "bmp_out_reach live_env [session_new 5 100 no_clients :: (unit, unit) session]
      (se_mem (session_new 5 100 no_clients :: (unit, unit) session))"
    by (rule bmp_out_reach.out_connect [OF bmp_out_reach.out_start [folded no_clients_def]]) simp
  have "BMP_OUT_CLIENTS (se_mem (session_new 5 100 no_clients :: (unit, unit) session)) = 1"
    using mem_stats_exact [OF r] by simp
  with r show ?thesis by blast
qed



end
