(* ===== verification/Bmp_Io.thy ===== *)
theory Bmp_Io
  imports Bmp_Decode
begin

text \<open>
  The socket reader of the BMP input unit (src/units/bmp_tcp_in/io.rs) and the read loop of the
  connection handler (router_handler.rs).

  \<open>read_exact\<close> is the method of the asynchronous reader, \<open>accepts\<close> whether routecore parses the
  octets of a message; both are parameters. \<open>read_exact rx n\<close> gives \<open>n\<close> octets or an error, and
  the reader afterwards. A slice out of bounds is a panic, \<open>None\<close>. The signals of the gate that
  arrive while a message is read are a list per call, so all races between the two are covered.
\<close>

subsection \<open>Errors\<close>

datatype io_kind =
    TimedOut | Interrupted | NotFound | PermissionDenied | ConnectionRefused | ConnectionReset
  | ConnectionAborted | NotConnected | AddrInUse | AddrNotAvailable | BrokenPipe | AlreadyExists
  | WouldBlock | InvalidInput | InvalidData | WriteZero | Unsupported | UnexpectedEof
  | OutOfMemory | OtherKind | UnlistedKind

fun is_fatal :: "io_kind \<Rightarrow> bool" where
  "is_fatal TimedOut = False"
| "is_fatal Interrupted = False"
| "is_fatal OtherKind = False"
| "is_fatal _ = True"

datatype tracing_mode = TM_Off | TM_IfRequested | TM_On

subsection \<open>One message\<close>

type_synonym 'rx reader = "'rx \<Rightarrow> nat \<Rightarrow> (io_kind + bytes) \<times> 'rx"

definition MIN_BMP_MSG_LEN :: nat where
  "MIN_BMP_MSG_LEN = 6"

definition MAX_BMP_MSG_LEN :: nat where
  "MAX_BMP_MSG_LEN = 2 * 1024 * 1024"

definition take_trace_id :: "tracing_mode \<Rightarrow> bytes \<Rightarrow> u8 \<times> bytes" where
  "take_trace_id mode buf =
    (if mode \<noteq> TM_Off then (drop_bit 4 (buf ! 0), buf[0 := buf ! 0 AND 15]) else (0, buf))"

text \<open>The first five octets with the room for the rest, and the rest read into \<open>[5..]\<close>.\<close>

definition read_body :: "'rx reader \<Rightarrow> nat \<Rightarrow> bytes \<Rightarrow> 'rx \<Rightarrow> ((io_kind + bytes) \<times> 'rx) option" where
  "read_body read_exact len buf rx =
    (let buf = take len buf @ replicate (len - length buf) 0
     in if length buf < 5 then None
        else (case read_exact rx (length buf - 5) of
          (Inl err, rx) \<Rightarrow> Some (Inl err, rx)
        | (Inr body, rx) \<Rightarrow> Some (Inr (take 5 buf @ body), rx)))"

definition bmp_read ::
  "'rx reader \<Rightarrow> (bytes \<Rightarrow> bool) \<Rightarrow> tracing_mode \<Rightarrow> 'rx \<Rightarrow> ((io_kind + bytes \<times> u8) \<times> 'rx) option" where
  "bmp_read read_exact accepts mode rx =
    (case read_exact rx 5 of
      (Inl err, rx) \<Rightarrow> Some (Inl err, rx)
    | (Inr buf, rx) \<Rightarrow>
        (let (trace_id, buf) = take_trace_id mode buf;
             len = be_val (take 4 (drop 1 buf))
         in if \<not> (MIN_BMP_MSG_LEN \<le> len \<and> len \<le> MAX_BMP_MSG_LEN) then Some (Inl InvalidData, rx)
            else (case read_body read_exact len buf rx of
              None \<Rightarrow> None
            | Some (Inl err, rx) \<Rightarrow> Some (Inl err, rx)
            | Some (Inr msg, rx) \<Rightarrow>
                if accepts msg then Some (Inr (msg, trace_id), rx) else Some (Inl OtherKind, rx))))"

subsection \<open>The stream and the read loop\<close>

datatype 'g gate_event = GE_Terminated | GE_Status 'g

fun next_loop ::
  "'g gate_event list \<Rightarrow> 'g option \<Rightarrow> (io_kind + bytes \<times> u8) \<times> 'rx \<Rightarrow>
   (io_kind + bytes option \<times> 'g option \<times> u8) \<times> 'rx option" where
  "next_loop (GE_Terminated # evs) saved res = (Inr (None, None, 0), None)"
| "next_loop (GE_Status status # evs) saved res = next_loop evs (Some status) res"
| "next_loop [] saved (Inl err, rx) = (Inl err, if is_fatal err then None else Some rx)"
| "next_loop [] saved (Inr (msg, trace_id), rx) = (Inr (Some msg, saved, trace_id), Some rx)"

definition stream_next ::
  "'rx reader \<Rightarrow> (bytes \<Rightarrow> bool) \<Rightarrow> tracing_mode \<Rightarrow> 'g gate_event list \<Rightarrow> 'rx option \<Rightarrow>
   ((io_kind + bytes option \<times> 'g option \<times> u8) \<times> 'rx option) option" where
  "stream_next read_exact accepts mode evs stream =
    (case stream of
      None \<Rightarrow> Some (Inl OtherKind, None)
    | Some rx \<Rightarrow>
        (case bmp_read read_exact accepts mode rx of
          None \<Rightarrow> None
        | Some res \<Rightarrow> Some (next_loop evs None res)))"

datatype read_event = RE_Message bytes u8 | RE_Error io_kind | RE_Stopped

text \<open>
  The loop of \<open>read_from_router\<close>: what it hands to the message handler and to the status
  reporter. \<open>sched k\<close> are the signals of the gate during the \<open>k\<close>-th call of \<open>next\<close>. \<open>None\<close> is a
  panic or a loop that does not end.
\<close>

partial_function (option) read_from_router ::
  "'rx reader \<Rightarrow> (bytes \<Rightarrow> bool) \<Rightarrow> tracing_mode \<Rightarrow> (nat \<Rightarrow> 'g gate_event list) \<Rightarrow> nat \<Rightarrow> 'rx option \<Rightarrow>
   read_event list option" where
  "read_from_router read_exact accepts mode sched k stream =
    Option.bind (stream_next read_exact accepts mode (sched k) stream) (\<lambda>(res, stream).
      case res of
        Inl err \<Rightarrow>
          (if is_fatal err then Some [RE_Error err]
           else Option.bind (read_from_router read_exact accepts mode sched (Suc k) stream)
             (\<lambda>es. Some (RE_Error err # es)))
      | Inr (None, _, _) \<Rightarrow> Some [RE_Stopped]
      | Inr (Some msg, _, trace_id) \<Rightarrow>
          Option.bind (read_from_router read_exact accepts mode sched (Suc k) stream)
            (\<lambda>es. Some (RE_Message msg trace_id # es)))"

subsection \<open>What the reader relies on\<close>

text \<open>
  \<open>fills\<close>: a read that succeeds fills the buffer. \<open>exact_reader\<close>: the octets \<open>buf rx\<close> come in
  order and then the end of the stream.
\<close>

definition fills :: "'rx reader \<Rightarrow> bool" where
  "fills read_exact = (\<forall>rx n bs rx'. read_exact rx n = (Inr bs, rx') \<longrightarrow> length bs = n)"

definition exact_reader :: "('rx \<Rightarrow> bytes) \<Rightarrow> 'rx reader \<Rightarrow> bool" where
  "exact_reader buf read_exact =
    (\<forall>rx n. if n \<le> length (buf rx)
       then fst (read_exact rx n) = Inr (take n (buf rx)) \<and> buf (snd (read_exact rx n)) = drop n (buf rx)
       else fst (read_exact rx n) = Inl UnexpectedEof)"

lemma exact_reader_fills: "exact_reader buf read_exact \<Longrightarrow> fills read_exact"
  unfolding exact_reader_def fills_def by (metis fst_conv length_take min.absorb2 sum.distinct(1) sum.inject(2))

lemma exact_reader_ok:
  assumes "exact_reader buf read_exact" and "n \<le> length (buf rx)"
  obtains rx' where "read_exact rx n = (Inr (take n (buf rx)), rx')" and "buf rx' = drop n (buf rx)"
  using assms unfolding exact_reader_def by (metis prod.collapse)

lemma exact_reader_eof:
  assumes "exact_reader buf read_exact" and "length (buf rx) < n"
  obtains rx' where "read_exact rx n = (Inl UnexpectedEof, rx')"
  using assms unfolding exact_reader_def by (metis linorder_not_le prod.collapse)

subsection \<open>Reading one message\<close>

lemma length_take_trace_id [simp]: "length (snd (take_trace_id mode buf)) = length buf"
  by (simp add: take_trace_id_def)

lemma tl_take_trace_id [simp]: "drop (Suc 0) (snd (take_trace_id mode buf)) = drop (Suc 0) buf"
  by (cases buf) (simp_all add: take_trace_id_def)

lemma take_trace_id_small: "unat (fst (take_trace_id mode buf)) < 16"
proof -
  have "unat (drop_bit 4 b) < 16" for b :: u8
  proof -
    have "unat b < 16 * 16" by (rule less_le_trans [OF unsigned_less]) simp
    then have "unat b div 16 < 16" by (rule less_mult_imp_div_less)
    then show ?thesis by (simp add: drop_bit_eq_div unat_div_distrib)
  qed
  then show ?thesis by (simp add: take_trace_id_def)
qed

lemma read_body_eq:
  assumes "length buf = 5" and "5 \<le> len"
  shows "read_body read_exact len buf rx =
    (case read_exact rx (len - 5) of
      (Inl err, rx) \<Rightarrow> Some (Inl err, rx)
    | (Inr body, rx) \<Rightarrow> Some (Inr (buf @ body), rx))"
  using assms by (simp add: read_body_def Let_def split: prod.splits sum.splits)

text \<open>What a read of one message can give; \<open>take_trace_id\<close> leaves the length field alone.\<close>

lemma bmp_read_eq:
  assumes "read_exact rx 5 = (Inr buf, rx1)" and "length buf = 5"
  shows "bmp_read read_exact accepts mode rx =
    (let len = be_val (drop 1 buf)
     in if len < 6 \<or> 2097152 < len then Some (Inl InvalidData, rx1)
        else (case read_exact rx1 (len - 5) of
          (Inl err, rx2) \<Rightarrow> Some (Inl err, rx2)
        | (Inr body, rx2) \<Rightarrow>
            (let msg = snd (take_trace_id mode buf) @ body
             in Some (if accepts msg then Inr (msg, fst (take_trace_id mode buf)) else Inl OtherKind, rx2))))"
  using assms
  by (auto simp: bmp_read_def Let_def split_beta read_body_eq MIN_BMP_MSG_LEN_def MAX_BMP_MSG_LEN_def
      split: sum.splits)

lemma bmp_read_fails: "read_exact rx 5 = (Inl err, rx1) \<Longrightarrow> bmp_read read_exact accepts mode rx = Some (Inl err, rx1)"
  by (simp add: bmp_read_def)

lemma message_of_header:
  assumes "length buf = 5" and "length body = len - 5" and "6 \<le> len" and "be_val (drop 1 buf) = len"
  shows "length (snd (take_trace_id mode buf) @ body) = len"
    and "be_val (take 4 (drop 1 (snd (take_trace_id mode buf) @ body))) = len"
  using assms by simp_all

lemma take_trace_id_version:
  assumes "hd buf = BMP_VERSION" and "buf \<noteq> []"
  shows "take_trace_id mode buf = (0, buf)"
  using assms by (cases buf) (simp_all add: take_trace_id_def)

lemma bmp_read_frame:
  assumes r: "exact_reader buf read_exact" and m: "framed m" "length m \<le> 2097152" and rx: "buf rx = m @ rest"
  shows "\<exists>rx'. bmp_read read_exact accepts mode rx =
      Some (if accepts m then Inr (m, 0) else Inl OtherKind, rx') \<and> buf rx' = rest"
proof -
  have len: "6 \<le> length m" "hd m = BMP_VERSION" "be_val (take 4 (tl m)) = length m"
    using m(1) by (auto simp: framed_def)
  obtain rx1 where r1: "read_exact rx 5 = (Inr (take 5 m), rx1)" "buf rx1 = drop 5 m @ rest"
    using exact_reader_ok [OF r, of 5 rx] rx len(1) by auto
  have rest: "length m - 5 \<le> length (buf rx1)" using r1(2) by simp
  obtain rx2 where r2: "read_exact rx1 (length m - 5) = (Inr (drop 5 m), rx2)" "buf rx2 = rest"
    using exact_reader_ok [OF r rest] r1(2) by auto
  have t: "take_trace_id mode (take 5 m) = (0, take 5 m)"
    using len by (intro take_trace_id_version) (auto simp: hd_take)
  have l: "be_val (drop 1 (take 5 m)) = length m" using len(3) by (simp add: drop_take drop_Suc)
  show ?thesis
    using bmp_read_eq [of read_exact, OF r1(1), of accepts mode] len(1) m(2) l r2 t by (simp add: Let_def)
qed

lemma bmp_read_progress:
  assumes r: "exact_reader buf read_exact"
  obtains (fatal) err rx' where "bmp_read read_exact accepts mode rx = Some (Inl err, rx')" "is_fatal err"
    | (more) res rx' where "bmp_read read_exact accepts mode rx = Some (res, rx')"
        "length (buf rx') + 6 \<le> length (buf rx)"
proof (cases "5 \<le> length (buf rx)")
  case False
  then obtain rx1 where "read_exact rx 5 = (Inl UnexpectedEof, rx1)"
    using exact_reader_eof [OF r, of rx 5] by auto
  then show thesis using fatal bmp_read_fails by fastforce
next
  case True
  then obtain rx1 where r1: "read_exact rx 5 = (Inr (take 5 (buf rx)), rx1)" "buf rx1 = drop 5 (buf rx)"
    using exact_reader_ok [OF r] by blast
  let ?len = "be_val (drop 1 (take 5 (buf rx)))"
  have l: "length (take 5 (buf rx)) = 5" using True by simp
  note e = bmp_read_eq [of read_exact, OF r1(1) l, of accepts mode, unfolded Let_def]
  show thesis
  proof (cases "?len < 6 \<or> 2097152 < ?len")
    case True
    then show thesis using e fatal [of InvalidData rx1] by simp
  next
    case inr: False
    show thesis
    proof (cases "?len - 5 \<le> length (buf rx1)")
      case True
      then obtain rx2 where "read_exact rx1 (?len - 5) = (Inr (take (?len - 5) (buf rx1)), rx2)"
        and "buf rx2 = drop (?len - 5) (buf rx1)" using exact_reader_ok [OF r] by blast
      then show thesis using e inr more r1(2) True \<open>5 \<le> length (buf rx)\<close> by (auto simp del: One_nat_def)
    next
      case False
      then obtain rx2 where "read_exact rx1 (?len - 5) = (Inl UnexpectedEof, rx2)"
        using exact_reader_eof [OF r, of rx1 "?len - 5"] by auto
      then show thesis using e inr fatal [of UnexpectedEof rx2] by simp
    qed
  qed
qed

subsection \<open>The loop\<close>

lemma next_loop_saved: "\<exists>g. next_loop evs saved res =
    (if GE_Terminated \<in> set evs then (Inr (None, None, 0), None)
     else (case res of
       (Inl err, rx) \<Rightarrow> (Inl err, if is_fatal err then None else Some rx)
     | (Inr (msg, trace_id), rx) \<Rightarrow> (Inr (Some msg, g, trace_id), Some rx)))"
  by (induction evs saved res rule: next_loop.induct) auto

lemma loop_stopped:
  assumes "GE_Terminated \<in> set (sched k)" and "bmp_read read_exact accepts mode rx \<noteq> None"
  shows "read_from_router read_exact accepts mode sched k (Some rx) = Some [RE_Stopped]"
proof -
  obtain res rx' where "bmp_read read_exact accepts mode rx = Some (res, rx')" using assms(2) by auto
  then show ?thesis
    using assms(1) next_loop_saved [of "sched k" None "(res, rx')"]
    by (subst read_from_router.simps) (auto simp: stream_next_def)
qed

lemma loop_fatal:
  assumes "GE_Terminated \<notin> set (sched k)" and "bmp_read read_exact accepts mode rx = Some (Inl err, rx')"
    and "is_fatal err"
  shows "read_from_router read_exact accepts mode sched k (Some rx) = Some [RE_Error err]"
  using assms next_loop_saved [of "sched k" None "(Inl err, rx')"]
  by (subst read_from_router.simps) (auto simp: stream_next_def)

lemma loop_more:
  assumes "GE_Terminated \<notin> set (sched k)" and "bmp_read read_exact accepts mode rx = Some (res, rx')"
    and "\<forall>err. res = Inl err \<longrightarrow> \<not> is_fatal err"
  shows "read_from_router read_exact accepts mode sched k (Some rx) =
    map_option (Cons (case res of Inl err \<Rightarrow> RE_Error err | Inr (msg, trace_id) \<Rightarrow> RE_Message msg trace_id))
      (read_from_router read_exact accepts mode sched (Suc k) (Some rx'))"
proof -
  obtain g where "next_loop (sched k) None (res, rx') =
      (case res of Inl err \<Rightarrow> (Inl err, Some rx') | Inr (msg, trace_id) \<Rightarrow> (Inr (Some msg, g, trace_id), Some rx'))"
    using next_loop_saved [of "sched k" None "(res, rx')"] assms(1,3) by (cases res) auto
  then show ?thesis
    using assms(2,3)
    by (subst read_from_router.simps)
      (auto simp: stream_next_def map_option_case Option.bind_def split: sum.splits option.splits)
qed

subsection \<open>Properties\<close>

text \<open>
  C24: The reader survives any input. Whatever octets arrive, reading a message does not panic. A
  message it returns has between 6 octets and 2 MiB, as many as its length field says, and was
  accepted by the parser; a trace id comes from the upper half of the version octet and only
  with tracing on. A length outside the range ends the read at once, before anything is
  allocated or read for the body, with an error that closes the connection.
\<close>

theorem bmp_read_in_bounds:
  assumes "fills read_exact"
  shows "\<exists>res rx'. bmp_read read_exact accepts mode rx = Some (res, rx') \<and>
    (\<forall>msg trace_id. res = Inr (msg, trace_id) \<longrightarrow>
      accepts msg \<and> 6 \<le> length msg \<and> length msg \<le> 2 * 1024 * 1024 \<and>
      be_val (take 4 (drop 1 msg)) = length msg \<and> unat trace_id < 16 \<and> (mode = TM_Off \<longrightarrow> trace_id = 0)) \<and>
    (\<forall>buf rx1. read_exact rx 5 = (Inr buf, rx1) \<longrightarrow>
      be_val (drop 1 buf) < 6 \<or> 2 * 1024 * 1024 < be_val (drop 1 buf) \<longrightarrow>
      res = Inl InvalidData \<and> rx' = rx1) \<and> is_fatal InvalidData"
proof (cases "read_exact rx 5")
  case (Pair res rx1)
  show ?thesis
  proof (cases res)
    case (Inl err)
    then show ?thesis using Pair bmp_read_fails [of read_exact rx err rx1] by auto
  next
    case (Inr buf)
    have l: "length buf = 5" using assms Pair Inr unfolding fills_def by blast
    note e = bmp_read_eq [of read_exact, OF Pair [unfolded Inr] l, of accepts mode, unfolded Let_def]
    obtain res2 rx2 where r2: "read_exact rx1 (be_val (drop 1 buf) - 5) = (res2, rx2)" by force
    have body: "length body = be_val (drop 1 buf) - 5" if "res2 = Inr body" for body
      using assms r2 that unfolding fills_def by blast
    have "mode = TM_Off \<Longrightarrow> fst (take_trace_id mode buf) = 0" by (simp add: take_trace_id_def)
    then show ?thesis
      using e r2 Pair Inr body l take_trace_id_small [of mode buf] message_of_header [OF l]
      by (cases res2) auto
  qed
qed

text \<open>A reader over a buffer in memory, to evaluate.\<close>

definition slice_read :: "bytes reader" where
  "slice_read rx n = (if n \<le> length rx then (Inr (take n rx), drop n rx) else (Inl UnexpectedEof, []))"

lemma slice_read_exact: "exact_reader (\<lambda>rx. rx) slice_read"
  by (simp add: exact_reader_def slice_read_def)

theorem bmp_read_in_bounds_witness:
  "fills slice_read \<and>
    bmp_read slice_read (\<lambda>_. True) TM_On [0x53, 0, 0, 0, 6, 4, 9] = Some (Inr ([3, 0, 0, 0, 6, 4], 5), [9]) \<and>
    bmp_read slice_read (\<lambda>_. True) TM_Off [3, 0, 0, 0, 4, 0, 0] = Some (Inl InvalidData, [0, 0])"
proof -
  have f: "fills slice_read" by (rule exact_reader_fills [OF slice_read_exact])
  have h: "slice_read [3, 0, 0, 0, 4, 0, 0] 5 = (Inr [3, 0, 0, 0, 4], [0, 0])" by (simp add: slice_read_def)
  have "bmp_read slice_read (\<lambda>_. True) TM_Off [3, 0, 0, 0, 4, 0, 0] = Some (Inl InvalidData, [0, 0])"
    using bmp_read_in_bounds [OF f, of "\<lambda>_. True" TM_Off "[3, 0, 0, 0, 4, 0, 0]"] h by (auto simp: be_val_def)
  moreover have "bmp_read slice_read (\<lambda>_. True) TM_On [0x53, 0, 0, 0, 6, 4, 9] =
      Some (Inr ([3, 0, 0, 0, 6, 4], 5), [9])"
    by (simp add: bmp_read_def slice_read_def take_trace_id_def read_body_def MIN_BMP_MSG_LEN_def
        MAX_BMP_MSG_LEN_def be_val_def)
  ultimately show ?thesis using f by blast
qed

text \<open>
  C13: What one side sends the other reads: for any sequence of messages of the BMP builder, none
  above 2 MiB, the read loop of the input unit hands over exactly those messages, in order, and
  then the end of the stream, whatever the tracing mode and whatever status signals of the gate
  arrive in between. A message the parser rejects is reported and skipped and does not cost the
  messages after it.
\<close>

theorem reader_recovers_messages:
  assumes "exact_reader buf read_exact" and "list_all bmp_message ms" and "\<forall>m \<in> set ms. length m \<le> 2 * 1024 * 1024"
    and "buf rx = concat ms" and "\<forall>k. GE_Terminated \<notin> set (sched k)"
  shows "read_from_router read_exact accepts mode sched k (Some rx) =
    Some (map (\<lambda>m. if accepts m then RE_Message m 0 else RE_Error OtherKind) ms @ [RE_Error UnexpectedEof])"
  using assms(2-4)
proof (induction ms arbitrary: k rx)
  case Nil
  then obtain rx' where "read_exact rx 5 = (Inl UnexpectedEof, rx')"
    using exact_reader_eof [OF assms(1), of rx 5] by auto
  then show ?case using assms(5) loop_fatal bmp_read_fails by fastforce
next
  case (Cons m ms)
  have m: "framed m" "length m \<le> 2097152" using Cons.prems bmp_message_framed by auto
  obtain rx' where r: "bmp_read read_exact accepts mode rx = Some (if accepts m then Inr (m, 0) else Inl OtherKind, rx')"
    and "buf rx' = concat ms"
    using bmp_read_frame [OF assms(1) m, of rx "concat ms"] Cons.prems(3) by auto
  then have "read_from_router read_exact accepts mode sched (Suc k) (Some rx') =
      Some (map (\<lambda>m. if accepts m then RE_Message m 0 else RE_Error OtherKind) ms @ [RE_Error UnexpectedEof])"
    using Cons by simp
  then show ?case using loop_more [OF _ r, of sched k] assms(5) by (simp split: if_splits)
qed

theorem reader_recovers_messages_witness:
  "read_from_router slice_read (\<lambda>_. True) TM_IfRequested (\<lambda>_. [GE_Status ()]) 0
      (Some (concat [build_peer_down (\<lambda>_. 0) (1, 2) sample_peer_info, build_termination_message])) =
    Some [RE_Message (build_peer_down (\<lambda>_. 0) (1, 2) sample_peer_info) 0,
      RE_Message build_termination_message 0, RE_Error UnexpectedEof]"
proof -
  let ?ms = "[build_peer_down (\<lambda>_. 0) (1, 2) sample_peer_info, build_termination_message]"
  have "list_all bmp_message ?ms" by (simp add: bmp_message.peer_down bmp_message.termination_msg sample_peer_info_ok)
  moreover have "\<forall>m \<in> set ?ms. length m \<le> 500"
    using sample_peer_info_ok(1)
    by (simp add: build_peer_down_def build_termination_message_def Let_def write_common_header_def
        write_per_peer_header_def peer_info_wf_def split: ip_addr.splits)
  then have "\<forall>m \<in> set ?ms. length m \<le> 2 * 1024 * 1024" by (auto intro: order_trans)
  ultimately show ?thesis
    using reader_recovers_messages [OF slice_read_exact, of ?ms "concat ?ms" "\<lambda>_. [GE_Status ()]" "\<lambda>_. True" TM_IfRequested 0]
    by simp
qed

text \<open>
  C36: The read loop ends: on every finite stream of octets, whatever they are, and for every
  timing of the gate's signals, the loop of the connection handler stops without a panic, after
  at most one message or error per six octets and one more.
\<close>

theorem read_loop_terminates:
  assumes "exact_reader buf read_exact"
  shows "\<exists>es. read_from_router read_exact accepts mode sched k (Some rx) = Some es \<and>
    6 * length es \<le> length (buf rx) + 6"
proof (induction "length (buf rx)" arbitrary: k rx rule: less_induct)
  case less
  consider (stop) "GE_Terminated \<in> set (sched k)" | (go) "GE_Terminated \<notin> set (sched k)" by blast
  then show ?case
  proof cases
    case stop
    have "bmp_read read_exact accepts mode rx \<noteq> None"
      by (rule bmp_read_progress [OF assms, of accepts mode rx]) simp_all
    then show ?thesis using loop_stopped [of sched k read_exact accepts mode rx] stop by simp
  next
    case go
    show ?thesis
    proof (rule bmp_read_progress [OF assms, of accepts mode rx])
      fix err rx' assume "bmp_read read_exact accepts mode rx = Some (Inl err, rx')" and "is_fatal err"
      then show ?thesis using loop_fatal [of sched, OF go] by fastforce
    next
      fix res rx' assume r: "bmp_read read_exact accepts mode rx = Some (res, rx')"
        and len: "length (buf rx') + 6 \<le> length (buf rx)"
      obtain es where es: "read_from_router read_exact accepts mode sched (Suc k) (Some rx') = Some es"
        "6 * length es \<le> length (buf rx') + 6" using less [of rx' "Suc k"] len by auto
      show ?thesis
      proof (cases "\<forall>err. res = Inl err \<longrightarrow> \<not> is_fatal err")
        case True
        then show ?thesis using loop_more [of sched, OF go r] es len by auto
      next
        case False
        then obtain err where "res = Inl err" "is_fatal err" by blast
        then show ?thesis using loop_fatal [of sched, OF go] r by fastforce
      qed
    qed
  qed
qed

theorem read_loop_terminates_witness:
  "\<exists>es. read_from_router slice_read (\<lambda>_. True) TM_Off (\<lambda>k. if k = 3 then [GE_Terminated] else [GE_Status ()]) 0
      (Some (replicate 100 6)) = Some es \<and> 6 * length es \<le> 106"
  using read_loop_terminates [OF slice_read_exact, of "\<lambda>_. True" TM_Off
      "\<lambda>k. if k = 3 then [GE_Terminated] else [GE_Status ()]" 0 "replicate 100 6"] by simp

end
