(* ===== verification/Rib_Store.thy ===== *)
theory Rib_Store
  imports Payload
begin

text \<open>
  The prefix store of the RIB. The store is rotonda-store's \<open>StarCastRib\<close>, which the sources only
  call: \<open>store_ops\<close> holds the methods that src/units/rib_unit/rib.rs uses, and every operation of
  the RIB takes it as an argument.

  \<open>store_laws\<close> is what the RIB relies on, as the comments of rib.rs describe it. A store holds at
  most one record per prefix and ingress id (\<open>sv_rec\<close>) and, per address family, the set of ingress
  ids that are withdrawn as a whole (\<open>sv_wd\<close>). That flag overrides the status of a record
  (\<open>eff_rec\<close>); an insert does not clear it; removing an ingress id clears it. The store is used
  in its memory-only configuration, in which the writing operations succeed.

  \<open>list_store\<close> is a store over association lists that satisfies the laws.
\<close>

subsection \<open>Records and methods\<close>

record rib_record =
  rec_mui :: ingress_id
  rec_ltime :: u64
  rec_status :: route_status
  rec_meta :: rotonda_pa_map

record prefix_record =
  pr_prefix :: prefix
  pr_meta :: "rib_record list"

record upsert_report =
  ur_cas_count :: nat
  ur_prefix_new :: bool
  ur_mui_new :: bool
  ur_mui_count :: nat

datatype store_error = StoreNotReady | StoreError nat

datatype match_type = ExactMatch | LongestMatch | EmptyMatch

record match_options =
  mo_match_type :: match_type
  mo_include_withdrawn :: bool
  mo_include_less_specifics :: bool
  mo_include_more_specifics :: bool
  mo_mui :: "ingress_id option"

record record_set =
  rs_v4 :: "prefix_record list"
  rs_v6 :: "prefix_record list"

record query_result =
  qr_prefix :: "prefix option"
  qr_records :: "rib_record list"
  qr_less_specifics :: "record_set option"
  qr_more_specifics :: "record_set option"

record 's store_ops =
  st_insert :: "'s \<Rightarrow> prefix \<Rightarrow> rib_record \<Rightarrow> (store_error + upsert_report) \<times> 's"
  st_contains :: "'s \<Rightarrow> prefix \<Rightarrow> ingress_id \<Rightarrow> bool"
  st_mark_withdrawn_for_prefix :: "'s \<Rightarrow> prefix \<Rightarrow> ingress_id \<Rightarrow> u64 \<Rightarrow> (store_error + unit) \<times> 's"
  st_mark_withdrawn :: "'s \<Rightarrow> ingress_id \<Rightarrow> (store_error + unit) \<times> 's"
  st_mark_withdrawn_v4 :: "'s \<Rightarrow> ingress_id \<Rightarrow> (store_error + unit) \<times> 's"
  st_mark_withdrawn_v6 :: "'s \<Rightarrow> ingress_id \<Rightarrow> (store_error + unit) \<times> 's"
  st_mark_active_v4 :: "'s \<Rightarrow> ingress_id \<Rightarrow> (store_error + unit) \<times> 's"
  st_mark_active_v6 :: "'s \<Rightarrow> ingress_id \<Rightarrow> (store_error + unit) \<times> 's"
  st_is_withdrawn_v4 :: "'s \<Rightarrow> ingress_id \<Rightarrow> bool"
  st_is_withdrawn_v6 :: "'s \<Rightarrow> ingress_id \<Rightarrow> bool"
  st_remove_mui :: "'s \<Rightarrow> ingress_id \<Rightarrow> (store_error + nat \<times> nat) \<times> 's"
  st_prefixes_iter :: "'s \<Rightarrow> (store_error + prefix_record) list"
  st_prefixes_iter_v4 :: "'s \<Rightarrow> (store_error + prefix_record) list"
  st_prefixes_iter_v6 :: "'s \<Rightarrow> (store_error + prefix_record) list"
  st_prefixes_keys :: "'s \<Rightarrow> prefix list"
  st_prefixes_keys_v4 :: "'s \<Rightarrow> prefix list"
  st_prefixes_keys_v6 :: "'s \<Rightarrow> prefix list"
  st_get_records :: "'s \<Rightarrow> prefix \<Rightarrow> ingress_id option \<Rightarrow> bool \<Rightarrow> store_error + rib_record list option"
  st_match_prefix :: "'s \<Rightarrow> prefix \<Rightarrow> match_options \<Rightarrow> store_error + query_result"
  st_mui_records_v4 :: "'s \<Rightarrow> ingress_id \<Rightarrow> bool \<Rightarrow> (store_error + prefix_record) list"
  st_mui_records_v6 :: "'s \<Rightarrow> ingress_id \<Rightarrow> bool \<Rightarrow> (store_error + prefix_record) list"

text \<open>\<open>Iterator::flatten\<close> on an iterator of results.\<close>

definition flatten_ok :: "('e + 'a) list \<Rightarrow> 'a list" where
  "flatten_ok rs = concat (map (\<lambda>r. case r of Inl _ \<Rightarrow> [] | Inr x \<Rightarrow> [x]) rs)"

lemma flatten_ok_simps [simp]:
  "flatten_ok [] = []" "flatten_ok (Inl e # rs) = flatten_ok rs" "flatten_ok (Inr x # rs) = x # flatten_ok rs"
  "flatten_ok (map Inr xs) = xs"
  by (simp_all add: flatten_ok_def) (induction xs; simp)

subsection \<open>What the RIB relies on\<close>

record 's store_view =
  sv_rec :: "'s \<Rightarrow> prefix \<Rightarrow> ingress_id \<Rightarrow> rib_record option"
  sv_wd :: "'s \<Rightarrow> bool \<Rightarrow> ingress_id \<Rightarrow> bool"

definition eff_rec :: "'s store_view \<Rightarrow> 's \<Rightarrow> prefix \<Rightarrow> ingress_id \<Rightarrow> rib_record option" where
  "eff_rec v s p i =
    (case sv_rec v s p i of
      None \<Rightarrow> None
    | Some r \<Rightarrow> Some (if sv_wd v s (is_v4 p) i then r\<lparr>rec_status := Withdrawn\<rparr> else r))"

text \<open>\<open>writes v s' recs wd\<close>: the store after a write, by its records and flags.\<close>

definition writes ::
  "'s store_view \<Rightarrow> 's \<Rightarrow> (prefix \<Rightarrow> ingress_id \<Rightarrow> rib_record option) \<Rightarrow> (bool \<Rightarrow> ingress_id \<Rightarrow> bool) \<Rightarrow> bool" where
  "writes v s' recs wd = (sv_rec v s' = recs \<and> sv_wd v s' = wd)"

definition upd_rec ::
  "prefix \<Rightarrow> ingress_id \<Rightarrow> rib_record option \<Rightarrow> (prefix \<Rightarrow> ingress_id \<Rightarrow> rib_record option) \<Rightarrow>
   prefix \<Rightarrow> ingress_id \<Rightarrow> rib_record option" where
  "upd_rec p i r f = (\<lambda>q j. if q = p \<and> j = i then r else f q j)"

definition upd_wd ::
  "(bool \<Rightarrow> bool) \<Rightarrow> ingress_id \<Rightarrow> bool \<Rightarrow> (bool \<Rightarrow> ingress_id \<Rightarrow> bool) \<Rightarrow> bool \<Rightarrow> ingress_id \<Rightarrow> bool" where
  "upd_wd fam i b f = (\<lambda>v4 j. if fam v4 \<and> j = i then b else f v4 j)"

text \<open>
  The records of an iterator over prefixes: those of the family, each with its prefix once, its
  status the effective one.
\<close>

definition iterates ::
  "'s store_view \<Rightarrow> 's \<Rightarrow> (bool \<Rightarrow> bool) \<Rightarrow> prefix_record list \<Rightarrow> bool" where
  "iterates v s fam prs =
    (distinct (map pr_prefix prs) \<and>
     (\<forall>pr \<in> set prs. fam (is_v4 (pr_prefix pr)) \<and>
        set (pr_meta pr) = {r. eff_rec v s (pr_prefix pr) (rec_mui r) = Some r}) \<and>
     (\<forall>p i. fam (is_v4 p) \<longrightarrow> sv_rec v s p i \<noteq> None \<longrightarrow> (\<exists>pr \<in> set prs. pr_prefix pr = p)))"

definition write_laws :: "'s store_ops \<Rightarrow> 's store_view \<Rightarrow> bool" where
  "write_laws ops v =
    (\<forall>s p i r t.
      (\<exists>rep. fst (st_insert ops s p r) = Inr rep) \<and>
      writes v (snd (st_insert ops s p r)) (upd_rec p (rec_mui r) (Some r) (sv_rec v s)) (sv_wd v s) \<and>
      writes v (snd (st_mark_withdrawn_for_prefix ops s p i t))
        (upd_rec p i (map_option (\<lambda>r. r\<lparr>rec_status := Withdrawn, rec_ltime := t\<rparr>) (sv_rec v s p i)) (sv_rec v s))
        (sv_wd v s) \<and>
      writes v (snd (st_mark_withdrawn ops s i)) (sv_rec v s) (upd_wd (\<lambda>_. True) i True (sv_wd v s)) \<and>
      writes v (snd (st_mark_withdrawn_v4 ops s i)) (sv_rec v s) (upd_wd (\<lambda>b. b) i True (sv_wd v s)) \<and>
      writes v (snd (st_mark_withdrawn_v6 ops s i)) (sv_rec v s) (upd_wd Not i True (sv_wd v s)) \<and>
      writes v (snd (st_mark_active_v4 ops s i)) (sv_rec v s) (upd_wd (\<lambda>b. b) i False (sv_wd v s)) \<and>
      writes v (snd (st_mark_active_v6 ops s i)) (sv_rec v s) (upd_wd Not i False (sv_wd v s)) \<and>
      writes v (snd (st_remove_mui ops s i)) (\<lambda>q j. if j = i then None else sv_rec v s q j)
        (upd_wd (\<lambda>_. True) i False (sv_wd v s)))"

definition gets :: "'s store_view \<Rightarrow> 's \<Rightarrow> prefix \<Rightarrow> store_error + rib_record list option \<Rightarrow> bool" where
  "gets v s p res =
    (if \<exists>i. sv_rec v s p i \<noteq> None
     then (\<exists>rs. res = Inr (Some rs) \<and> set rs = {r. eff_rec v s p (rec_mui r) = Some r} \<and> distinct (map rec_mui rs))
     else res = Inr None)"

text \<open>
  The answer to an exact match: the records of the prefix that the options select and, when asked
  for, those of the prefixes below and above it, each prefix once.
\<close>

definition visible :: "'s store_view \<Rightarrow> 's \<Rightarrow> match_options \<Rightarrow> prefix \<Rightarrow> rib_record set" where
  "visible v s opts p =
    {r. eff_rec v s p (rec_mui r) = Some r \<and> (mo_include_withdrawn opts \<or> rec_status r \<noteq> Withdrawn) \<and>
      (mo_mui opts = None \<or> mo_mui opts = Some (rec_mui r))}"

definition below :: "prefix \<Rightarrow> prefix \<Rightarrow> bool" where
  "below p q = (covers p q \<and> q \<noteq> p)"

definition answers_set ::
  "'s store_view \<Rightarrow> 's \<Rightarrow> match_options \<Rightarrow> (prefix \<Rightarrow> bool) \<Rightarrow> record_set option \<Rightarrow> bool" where
  "answers_set v s opts rel rs =
    (let prs = (case rs of None \<Rightarrow> [] | Some rs \<Rightarrow> rs_v4 rs @ rs_v6 rs)
     in distinct (map pr_prefix prs) \<and>
        (\<forall>pr \<in> set prs. rel (pr_prefix pr) \<and> distinct (map rec_mui (pr_meta pr)) \<and>
          set (pr_meta pr) = visible v s opts (pr_prefix pr)) \<and>
        (\<forall>q. rel q \<longrightarrow> visible v s opts q \<noteq> {} \<longrightarrow> q \<in> pr_prefix ` set prs))"

definition answers :: "'s store_view \<Rightarrow> 's \<Rightarrow> match_options \<Rightarrow> prefix \<Rightarrow> store_error + query_result \<Rightarrow> bool" where
  "answers v s opts p res =
    (case res of
      Inl _ \<Rightarrow> False
    | Inr qr \<Rightarrow>
        set (qr_records qr) = visible v s opts p \<and> distinct (map rec_mui (qr_records qr)) \<and>
        (qr_records qr \<noteq> [] \<longrightarrow> qr_prefix qr = Some p) \<and>
        answers_set v s opts (\<lambda>q. mo_include_more_specifics opts \<and> below p q) (qr_more_specifics qr) \<and>
        answers_set v s opts (\<lambda>q. mo_include_less_specifics opts \<and> below q p) (qr_less_specifics qr))"

definition read_laws :: "'s store_ops \<Rightarrow> 's store_view \<Rightarrow> bool" where
  "read_laws ops v =
    (\<forall>s p i r opts.
      (sv_rec v s p i = Some r \<longrightarrow> rec_mui r = i) \<and>
      st_contains ops s p i = (sv_rec v s p i \<noteq> None) \<and>
      st_is_withdrawn_v4 ops s i = sv_wd v s True i \<and>
      st_is_withdrawn_v6 ops s i = sv_wd v s False i \<and>
      iterates v s (\<lambda>_. True) (flatten_ok (st_prefixes_iter ops s)) \<and>
      iterates v s (\<lambda>b. b) (flatten_ok (st_prefixes_iter_v4 ops s)) \<and>
      iterates v s Not (flatten_ok (st_prefixes_iter_v6 ops s)) \<and>
      set (st_prefixes_keys ops s) = {p. \<exists>i. sv_rec v s p i \<noteq> None} \<and>
      distinct (st_prefixes_keys ops s) \<and>
      st_prefixes_keys_v4 ops s = filter is_v4 (st_prefixes_keys ops s) \<and>
      st_prefixes_keys_v6 ops s = filter (\<lambda>p. \<not> is_v4 p) (st_prefixes_keys ops s) \<and>
      gets v s p (st_get_records ops s p None True) \<and>
      (mo_match_type opts = ExactMatch \<longrightarrow> answers v s opts p (st_match_prefix ops s p opts)))"

definition store_laws :: "'s store_ops \<Rightarrow> 's store_view \<Rightarrow> bool" where
  "store_laws ops v = (write_laws ops v \<and> read_laws ops v)"

text \<open>The laws one by one.\<close>

lemma store_lawsD:
  assumes "store_laws ops v"
  shows "sv_rec v s p i = Some r \<Longrightarrow> rec_mui r = i"
    and "\<exists>rep. fst (st_insert ops s p r) = Inr rep"
    and "sv_rec v (snd (st_insert ops s p r)) = upd_rec p (rec_mui r) (Some r) (sv_rec v s)"
    and "sv_wd v (snd (st_insert ops s p r)) = sv_wd v s"
    and "st_contains ops s p i = (sv_rec v s p i \<noteq> None)"
    and "sv_rec v (snd (st_mark_withdrawn_for_prefix ops s p i t)) =
      upd_rec p i (map_option (\<lambda>r. r\<lparr>rec_status := Withdrawn, rec_ltime := t\<rparr>) (sv_rec v s p i)) (sv_rec v s)"
    and "sv_wd v (snd (st_mark_withdrawn_for_prefix ops s p i t)) = sv_wd v s"
    and "sv_rec v (snd (st_mark_withdrawn ops s i)) = sv_rec v s"
    and "sv_wd v (snd (st_mark_withdrawn ops s i)) = upd_wd (\<lambda>_. True) i True (sv_wd v s)"
    and "sv_rec v (snd (st_mark_withdrawn_v4 ops s i)) = sv_rec v s"
    and "sv_wd v (snd (st_mark_withdrawn_v4 ops s i)) = upd_wd (\<lambda>b. b) i True (sv_wd v s)"
    and "sv_rec v (snd (st_mark_withdrawn_v6 ops s i)) = sv_rec v s"
    and "sv_wd v (snd (st_mark_withdrawn_v6 ops s i)) = upd_wd Not i True (sv_wd v s)"
    and "sv_rec v (snd (st_mark_active_v4 ops s i)) = sv_rec v s"
    and "sv_wd v (snd (st_mark_active_v4 ops s i)) = upd_wd (\<lambda>b. b) i False (sv_wd v s)"
    and "sv_rec v (snd (st_mark_active_v6 ops s i)) = sv_rec v s"
    and "sv_wd v (snd (st_mark_active_v6 ops s i)) = upd_wd Not i False (sv_wd v s)"
    and "st_is_withdrawn_v4 ops s i = sv_wd v s True i"
    and "st_is_withdrawn_v6 ops s i = sv_wd v s False i"
    and "sv_rec v (snd (st_remove_mui ops s i)) = (\<lambda>q j. if j = i then None else sv_rec v s q j)"
    and "sv_wd v (snd (st_remove_mui ops s i)) = upd_wd (\<lambda>_. True) i False (sv_wd v s)"
  using assms by (simp_all add: store_laws_def write_laws_def read_laws_def writes_def)

lemma store_laws_iter:
  assumes "store_laws ops v"
  shows "iterates v s (\<lambda>_. True) (flatten_ok (st_prefixes_iter ops s))"
    and "iterates v s (\<lambda>b. b) (flatten_ok (st_prefixes_iter_v4 ops s))"
    and "iterates v s Not (flatten_ok (st_prefixes_iter_v6 ops s))"
    and "set (st_prefixes_keys ops s) = {p. \<exists>i. sv_rec v s p i \<noteq> None}"
    and "distinct (st_prefixes_keys ops s)"
    and "st_prefixes_keys_v4 ops s = filter is_v4 (st_prefixes_keys ops s)"
    and "st_prefixes_keys_v6 ops s = filter (\<lambda>p. \<not> is_v4 p) (st_prefixes_keys ops s)"
    and "gets v s p (st_get_records ops s p None True)"
    and "mo_match_type opts = ExactMatch \<Longrightarrow> answers v s opts p (st_match_prefix ops s p opts)"
  using assms by (simp_all add: store_laws_def read_laws_def)

lemma iterates_mui:
  assumes "iterates v s fam prs" and "\<And>p i r. sv_rec v s p i = Some r \<Longrightarrow> rec_mui r = i" and "fam (is_v4 p)"
  shows "(\<exists>pr \<in> set prs. pr_prefix pr = p \<and> i \<in> rec_mui ` set (pr_meta pr)) \<longleftrightarrow> sv_rec v s p i \<noteq> None"
proof
  assume "\<exists>pr \<in> set prs. pr_prefix pr = p \<and> i \<in> rec_mui ` set (pr_meta pr)"
  then show "sv_rec v s p i \<noteq> None"
    using assms(1) by (auto simp: iterates_def eff_rec_def split: option.splits)
next
  assume some: "sv_rec v s p i \<noteq> None"
  then obtain pr where pr: "pr \<in> set prs" "pr_prefix pr = p" using assms(1,3) by (auto simp: iterates_def)
  obtain r where r: "sv_rec v s p i = Some r" using some by blast
  define e where "e = (if sv_wd v s (is_v4 p) i then r\<lparr>rec_status := Withdrawn\<rparr> else r)"
  have "rec_mui e = i" "eff_rec v s p i = Some e" using assms(2) r by (auto simp: e_def eff_rec_def)
  then have "e \<in> set (pr_meta pr)" using assms(1) pr by (auto simp: iterates_def)
  then show "\<exists>pr \<in> set prs. pr_prefix pr = p \<and> i \<in> rec_mui ` set (pr_meta pr)"
    using pr \<open>rec_mui e = i\<close> by auto
qed

subsection \<open>A store over lists\<close>

record list_store =
  ls_recs :: "(prefix \<times> ingress_id, rib_record) hmap"
  ls_wd4 :: "ingress_id list"
  ls_wd6 :: "ingress_id list"

definition ls_get :: "list_store \<Rightarrow> prefix \<Rightarrow> ingress_id \<Rightarrow> rib_record option" where
  "ls_get s p i = map_option (\<lambda>r. r\<lparr>rec_mui := i\<rparr>) (hm_get (ls_recs s) (p, i))"

definition ls_flag :: "list_store \<Rightarrow> bool \<Rightarrow> ingress_id \<Rightarrow> bool" where
  "ls_flag s v4 i = (i \<in> set (if v4 then ls_wd4 s else ls_wd6 s))"

definition list_view :: "list_store store_view" where
  "list_view = \<lparr>sv_rec = ls_get, sv_wd = ls_flag\<rparr>"

definition ls_keys :: "list_store \<Rightarrow> prefix list" where
  "ls_keys s = remdups (map (fst \<circ> fst) (ls_recs s))"

definition ls_records :: "list_store \<Rightarrow> prefix \<Rightarrow> rib_record list" where
  "ls_records s p =
    concat (map (\<lambda>i. case eff_rec list_view s p i of None \<Rightarrow> [] | Some r \<Rightarrow> [r])
      (remdups (map (snd \<circ> fst) (ls_recs s))))"

definition ls_iter :: "(bool \<Rightarrow> bool) \<Rightarrow> list_store \<Rightarrow> (store_error + prefix_record) list" where
  "ls_iter fam s =
    map (\<lambda>p. Inr \<lparr>pr_prefix = p, pr_meta = ls_records s p\<rparr>) (filter (\<lambda>p. fam (is_v4 p)) (ls_keys s))"

definition ls_select :: "match_options \<Rightarrow> rib_record \<Rightarrow> bool" where
  "ls_select opts r =
    ((mo_include_withdrawn opts \<or> rec_status r \<noteq> Withdrawn) \<and> (mo_mui opts = None \<or> mo_mui opts = Some (rec_mui r)))"

definition ls_prefixes :: "list_store \<Rightarrow> match_options \<Rightarrow> (prefix \<Rightarrow> bool) \<Rightarrow> record_set option" where
  "ls_prefixes s opts rel =
    (let pick = (\<lambda>fam. map (\<lambda>q. \<lparr>pr_prefix = q, pr_meta = filter (ls_select opts) (ls_records s q)\<rparr>)
           (filter (\<lambda>q. fam (is_v4 q) \<and> rel q) (ls_keys s)))
     in Some \<lparr>rs_v4 = pick (\<lambda>b. b), rs_v6 = pick Not\<rparr>)"

definition ls_match :: "list_store \<Rightarrow> prefix \<Rightarrow> match_options \<Rightarrow> query_result" where
  "ls_match s p opts =
    \<lparr>qr_prefix = (if p \<in> set (ls_keys s) then Some p else None),
     qr_records = filter (ls_select opts) (ls_records s p),
     qr_less_specifics = (if mo_include_less_specifics opts then ls_prefixes s opts (\<lambda>q. below q p) else None),
     qr_more_specifics = (if mo_include_more_specifics opts then ls_prefixes s opts (below p) else None)\<rparr>"

definition ls_mui :: "(bool \<Rightarrow> bool) \<Rightarrow> list_store \<Rightarrow> ingress_id \<Rightarrow> bool \<Rightarrow> (store_error + prefix_record) list" where
  "ls_mui fam s i incl =
    map (\<lambda>p. Inr \<lparr>pr_prefix = p, pr_meta = filter (\<lambda>r. rec_mui r = i \<and> (incl \<or> rec_status r \<noteq> Withdrawn)) (ls_records s p)\<rparr>)
      (filter (\<lambda>p. fam (is_v4 p)) (ls_keys s))"

definition ls_put :: "list_store \<Rightarrow> prefix \<Rightarrow> rib_record \<Rightarrow> list_store" where
  "ls_put s p r = s\<lparr>ls_recs := hm_insert (p, rec_mui r) r (ls_recs s)\<rparr>"

definition list_ops :: "list_store store_ops" where
  "list_ops =
    \<lparr>st_insert = (\<lambda>s p r. (Inr \<lparr>ur_cas_count = 0, ur_prefix_new = (p \<notin> set (ls_keys s)),
        ur_mui_new = (hm_get (ls_recs s) (p, rec_mui r) = None), ur_mui_count = length (ls_records s p)\<rparr>, ls_put s p r)),
     st_contains = (\<lambda>s p i. hm_get (ls_recs s) (p, i) \<noteq> None),
     st_mark_withdrawn_for_prefix = (\<lambda>s p i t.
       (Inr (), case ls_get s p i of None \<Rightarrow> s | Some r \<Rightarrow> ls_put s p (r\<lparr>rec_status := Withdrawn, rec_ltime := t\<rparr>))),
     st_mark_withdrawn = (\<lambda>s i. (Inr (), s\<lparr>ls_wd4 := List.insert i (ls_wd4 s), ls_wd6 := List.insert i (ls_wd6 s)\<rparr>)),
     st_mark_withdrawn_v4 = (\<lambda>s i. (Inr (), s\<lparr>ls_wd4 := List.insert i (ls_wd4 s)\<rparr>)),
     st_mark_withdrawn_v6 = (\<lambda>s i. (Inr (), s\<lparr>ls_wd6 := List.insert i (ls_wd6 s)\<rparr>)),
     st_mark_active_v4 = (\<lambda>s i. (Inr (), s\<lparr>ls_wd4 := removeAll i (ls_wd4 s)\<rparr>)),
     st_mark_active_v6 = (\<lambda>s i. (Inr (), s\<lparr>ls_wd6 := removeAll i (ls_wd6 s)\<rparr>)),
     st_is_withdrawn_v4 = (\<lambda>s i. i \<in> set (ls_wd4 s)),
     st_is_withdrawn_v6 = (\<lambda>s i. i \<in> set (ls_wd6 s)),
     st_remove_mui = (\<lambda>s i. (Inr (0, 0), s\<lparr>ls_recs := filter (\<lambda>(k, _). snd k \<noteq> i) (ls_recs s),
       ls_wd4 := removeAll i (ls_wd4 s), ls_wd6 := removeAll i (ls_wd6 s)\<rparr>)),
     st_prefixes_iter = ls_iter (\<lambda>_. True),
     st_prefixes_iter_v4 = ls_iter (\<lambda>b. b),
     st_prefixes_iter_v6 = ls_iter Not,
     st_prefixes_keys = ls_keys,
     st_prefixes_keys_v4 = (\<lambda>s. filter is_v4 (ls_keys s)),
     st_prefixes_keys_v6 = (\<lambda>s. filter (\<lambda>p. \<not> is_v4 p) (ls_keys s)),
     st_get_records = (\<lambda>s p mui _. Inr (if p \<in> set (ls_keys s) then Some (ls_records s p) else None)),
     st_match_prefix = (\<lambda>s p opts. Inr (ls_match s p opts)),
     st_mui_records_v4 = ls_mui (\<lambda>b. b),
     st_mui_records_v6 = ls_mui Not\<rparr>"

lemma ls_keys_mem: "p \<in> set (ls_keys s) \<longleftrightarrow> (\<exists>i. ls_get s p i \<noteq> None)"
proof -
  have "p \<in> set (ls_keys s) \<longleftrightarrow> (\<exists>i. (p, i) \<in> fst ` set (ls_recs s))" by (force simp: ls_keys_def image_iff)
  then show ?thesis by (simp add: ls_get_def hm_get_def map_of_eq_None_iff)
qed

lemma ls_get_put [simp]: "ls_get (ls_put s p r) = upd_rec p (rec_mui r) (Some r) (ls_get s)"
  by (auto simp: ls_get_def ls_put_def upd_rec_def fun_eq_iff)

lemma ls_flag_put [simp]: "ls_flag (ls_put s p r) = ls_flag s"
  by (simp add: ls_flag_def ls_put_def fun_eq_iff)

lemma ls_records_set: "set (ls_records s p) = {r. eff_rec list_view s p (rec_mui r) = Some r}"
proof -
  have mui: "rec_mui r = i" if "eff_rec list_view s p i = Some r" for r i
    using that by (auto simp: eff_rec_def list_view_def ls_get_def split: option.splits if_splits)
  have ids: "i \<in> set (map (snd \<circ> fst) (ls_recs s))" if "eff_rec list_view s p i = Some r" for r i
  proof -
    have "hm_get (ls_recs s) (p, i) \<noteq> None"
      using that by (auto simp: eff_rec_def list_view_def ls_get_def split: option.splits)
    then have "(p, i) \<in> fst ` set (ls_recs s)" by (simp add: hm_get_def map_of_eq_None_iff)
    then show ?thesis by force
  qed
  show ?thesis using mui ids by (auto simp: ls_records_def split: option.splits) force
qed

lemma ls_records_distinct: "distinct (map rec_mui (ls_records s p))"
proof -
  have "rec_mui r = i" if "eff_rec list_view s p i = Some r" for r i
    using that by (auto simp: eff_rec_def list_view_def ls_get_def split: option.splits if_splits)
  then have "distinct (map rec_mui (concat (map (\<lambda>i. case eff_rec list_view s p i of None \<Rightarrow> [] | Some r \<Rightarrow> [r]) is)))
      \<and> set (map rec_mui (concat (map (\<lambda>i. case eff_rec list_view s p i of None \<Rightarrow> [] | Some r \<Rightarrow> [r]) is))) \<subseteq> set is"
    if "distinct is" for "is"
    using that by (induction "is") (auto split: option.splits)
  then show ?thesis by (simp add: ls_records_def)
qed

lemma ls_iter_iterates: "iterates list_view s fam (flatten_ok (ls_iter fam s))"
proof -
  have e: "flatten_ok (ls_iter fam s) =
      map (\<lambda>p. \<lparr>pr_prefix = p, pr_meta = ls_records s p\<rparr>) (filter (\<lambda>p. fam (is_v4 p)) (ls_keys s))"
    unfolding ls_iter_def by (induction "ls_keys s" rule: list.induct) (simp_all add: flatten_ok_def comp_def)
  have "distinct (ls_keys s)" by (simp add: ls_keys_def)
  then show ?thesis
    using ls_keys_mem by (auto simp: e iterates_def ls_records_set comp_def image_iff) (auto simp: list_view_def)
qed

lemma ls_selected: "set (filter (ls_select opts) (ls_records s p)) = visible list_view s opts p"
  by (auto simp: ls_records_set ls_select_def visible_def)

lemma ls_prefixes_answers: "answers_set list_view s opts rel (ls_prefixes s opts rel)"
proof -
  have mem: "q \<in> set (ls_keys s)" if vis: "visible list_view s opts q \<noteq> {}" for q
  proof -
    obtain r where "eff_rec list_view s q (rec_mui r) = Some r" using vis by (auto simp: visible_def)
    then have "ls_get s q (rec_mui r) \<noteq> None" by (auto simp: eff_rec_def list_view_def split: option.splits)
    then show ?thesis by (auto simp: ls_keys_mem)
  qed
  have dist: "distinct (map rec_mui (filter P (ls_records s q)))" for P q
    using ls_records_distinct distinct_map_filter by blast
  have keys: "distinct (ls_keys s)" by (simp add: ls_keys_def)
  then have "distinct (filter (\<lambda>q. is_v4 q \<and> rel q) (ls_keys s) @ filter (\<lambda>q. \<not> is_v4 q \<and> rel q) (ls_keys s))" by auto
  moreover have "q \<in> pr_prefix ` (\<lambda>q. \<lparr>pr_prefix = q, pr_meta = f q\<rparr>) ` A \<longleftrightarrow> q \<in> A" for q f A by force
  ultimately show ?thesis
    using mem ls_selected [of opts s] dist keys
    by (auto simp: answers_set_def ls_prefixes_def Let_def comp_def image_Un)
qed

lemma ls_match_answers: "answers list_view s opts p (Inr (ls_match s p opts))"
proof -
  have none: "answers_set list_view s opts (\<lambda>_. False) None" by (simp add: answers_set_def)
  have "distinct (map rec_mui (filter (ls_select opts) (ls_records s p)))"
    using ls_records_distinct distinct_map_filter by blast
  moreover have "p \<in> set (ls_keys s)" if "filter (ls_select opts) (ls_records s p) \<noteq> []"
  proof -
    have "ls_records s p \<noteq> []" using that by auto
    then obtain r where "r \<in> set (ls_records s p)" using list.set_sel(1) by blast
    then show ?thesis by (auto simp: ls_records_set ls_keys_mem eff_rec_def list_view_def split: option.splits)
  qed
  ultimately show ?thesis
    using ls_selected [of opts s p] ls_prefixes_answers none by (simp add: answers_def ls_match_def)
qed

lemma hm_get_drop_mui:
  "hm_get (filter (\<lambda>(k, _). snd k \<noteq> i) xs) (q, j) = (if j = i then None else hm_get xs (q, j))"
  by (induction xs) (auto simp: hm_get_def)

lemma list_write_laws: "write_laws list_ops list_view"
  by (auto simp: write_laws_def list_ops_def list_view_def writes_def upd_rec_def upd_wd_def fun_eq_iff
      ls_get_def ls_flag_def ls_put_def hm_get_drop_mui split: option.splits)

lemma list_read_laws: "read_laws list_ops list_view"
proof -
  have "gets list_view s p (Inr (if p \<in> set (ls_keys s) then Some (ls_records s p) else None))" for s p
    using ls_keys_mem [of p s] by (simp add: gets_def ls_records_set ls_records_distinct) (simp add: list_view_def)
  moreover have "sv_rec list_view s p i = Some r \<Longrightarrow> rec_mui r = i"
    "hm_get (ls_recs s) (p, i) \<noteq> None \<longleftrightarrow> sv_rec list_view s p i \<noteq> None"
    "set (ls_keys s) = {p. \<exists>i. sv_rec list_view s p i \<noteq> None}"
    "i \<in> set (ls_wd4 s) \<longleftrightarrow> sv_wd list_view s True i" "i \<in> set (ls_wd6 s) \<longleftrightarrow> sv_wd list_view s False i" for s p i r
    using ls_keys_mem [of _ s] by (auto simp: list_view_def ls_get_def ls_flag_def)
  moreover have "distinct (ls_keys s)" for s by (simp add: ls_keys_def)
  ultimately show ?thesis by (simp add: read_laws_def list_ops_def ls_iter_iterates ls_match_answers)
qed

lemma list_store_laws: "store_laws list_ops list_view"
  by (simp add: store_laws_def list_write_laws list_read_laws)

end
