(* ===== verification/Rib.thy ===== *)
theory Rib
  imports Rib_Store
begin

text \<open>
  The writing half of the RIB (src/units/rib_unit/rib.rs): insertion of routes, withdrawal and
  removal of ingresses, compaction of withdrawn routes, reactivation, and the garbage collection
  sweep.

  A \<open>rib\<close> has a store for unicast and one for multicast, shares the ingress register, and owns the
  attribute interner. Errors of the store that the code logs are dropped. A panic of an operation
  that runs on the blocking pool is caught there and leaves what was done so far: such an
  operation returns the RIB and whether it panicked. The order in which a hash map is drained is
  the parameter \<open>it\<close>. The lock that serialises the writers of the withdrawn flags is why each
  operation is one step.
\<close>

subsection \<open>State\<close>

record 's rib =
  rb_unicast :: "'s option"
  rb_multicast :: "'s option"
  rb_register :: register
  rb_interner :: interner
  rb_heap :: arc_heap

record 's rib_env =
  re_ops :: "'s store_ops"
  re_hash_bytes :: "bytes \<Rightarrow> u64"
  re_pending_it :: "(ingress_id \<times> prefix list) list \<Rightarrow> (ingress_id \<times> prefix list) list"
  re_ids_it :: "ingress_id list \<Rightarrow> ingress_id list"

definition rib_new :: "(store_error + 's) \<Rightarrow> (store_error + 's) \<Rightarrow> register \<Rightarrow> arc_heap \<Rightarrow> store_error + 's rib" where
  "rib_new unicast multicast r h =
    (case unicast of
      Inl e \<Rightarrow> Inl e
    | Inr u \<Rightarrow>
        (case multicast of
          Inl e \<Rightarrow> Inl e
        | Inr m \<Rightarrow>
            Inr \<lparr>rb_unicast = Some u, rb_multicast = Some m, rb_register = r,
              rb_interner = interner_default, rb_heap = h\<rparr>))"

definition rib_store :: "bool \<Rightarrow> 's rib \<Rightarrow> 's option" where
  "rib_store multicast rib = (if multicast then rb_multicast rib else rb_unicast rib)"

definition set_store :: "bool \<Rightarrow> 's \<Rightarrow> 's rib \<Rightarrow> 's rib" where
  "set_store multicast s rib =
    (if multicast then rib\<lparr>rb_multicast := Some s\<rparr> else rib\<lparr>rb_unicast := Some s\<rparr>)"

subsection \<open>Reactivation and insertion\<close>

definition mark_active_in :: "'s store_ops \<Rightarrow> ingress_id \<Rightarrow> 's \<Rightarrow> 's" where
  "mark_active_in ops i s = snd (st_mark_active_v6 ops (snd (st_mark_active_v4 ops s i)) i)"

definition mark_ingress_active :: "'s rib_env \<Rightarrow> ingress_id \<Rightarrow> 's rib \<Rightarrow> 's rib \<times> bool" where
  "mark_ingress_active env i rib =
    (case rb_unicast rib of
      None \<Rightarrow> (rib, True)
    | Some u \<Rightarrow>
        (let rib = rib\<lparr>rb_unicast := Some (mark_active_in (re_ops env) i u)\<rparr>
         in case rb_multicast rib of
              None \<Rightarrow> (rib, True)
            | Some m \<Rightarrow> (rib\<lparr>rb_multicast := Some (mark_active_in (re_ops env) i m)\<rparr>, False)))"

definition no_report :: upsert_report where
  "no_report = \<lparr>ur_cas_count = 0, ur_prefix_new = False, ur_mui_new = False, ur_mui_count = 0\<rparr>"

definition withdrawn_record :: "ingress_id \<Rightarrow> u64 \<Rightarrow> rib_record" where
  "withdrawn_record i ltime =
    \<lparr>rec_mui = i, rec_ltime = ltime, rec_status = Withdrawn, rec_meta = empty_path_attributes\<rparr>"

definition stored_attributes :: "'s rib_env \<Rightarrow> bool \<Rightarrow> rotonda_pa_map \<Rightarrow> 's rib \<Rightarrow> rotonda_pa_map \<times> 's rib" where
  "stored_attributes env dedup pm rib =
    (if dedup
     then (case dedup_with (re_hash_bytes env) pm (rb_interner rib) (rb_heap rib) of
       (pm, _, shards, h) \<Rightarrow> (pm, rib\<lparr>rb_interner := shards, rb_heap := h\<rparr>))
     else (pm, rib))"

text \<open>The reactivation of an ingress that is marked withdrawn, on its first active route.\<close>

definition reactivate :: "'s rib_env \<Rightarrow> ingress_id \<Rightarrow> 's rib \<Rightarrow> 's rib \<times> bool" where
  "reactivate env i rib =
    (case mark_ingress_active env i rib of
      (rib, panicked) \<Rightarrow>
        if panicked then (rib, True)
        else (rib\<lparr>rb_register := snd (update_info (rb_register rib) i (with_state Connected ingress_info_new))\<rparr>, False))"

definition insert_prefix ::
  "'s rib_env \<Rightarrow> prefix \<Rightarrow> bool \<Rightarrow> rotonda_route \<Rightarrow> route_status \<Rightarrow> u64 \<Rightarrow> ingress_id \<Rightarrow> bool \<Rightarrow> bool \<Rightarrow>
   's rib \<Rightarrow> (store_error + upsert_report) option \<times> 's rib" where
  "insert_prefix env p multicast val status ltime i retain dedup rib =
    (case rib_store multicast rib of
      None \<Rightarrow> (Some (Inl StoreNotReady), rib)
    | Some store \<Rightarrow>
        if status = Withdrawn then
          (if \<not> retain then
             (if \<not> st_contains (re_ops env) store p i then (Some (Inr no_report), rib)
              else (case st_insert (re_ops env) store p (withdrawn_record i ltime) of
                (res, store) \<Rightarrow> (Some res, set_store multicast store rib)))
           else (case st_mark_withdrawn_for_prefix (re_ops env) store p i 0 of
             (Inl e, store) \<Rightarrow> (Some (Inl e), set_store multicast store rib)
           | (Inr _, store) \<Rightarrow> (Some (Inr no_report), set_store multicast store rib)))
        else
          (case (if status = Active \<and> (st_is_withdrawn_v4 (re_ops env) store i \<or> st_is_withdrawn_v6 (re_ops env) store i)
                 then reactivate env i rib else (rib, False)) of
            (rib, panicked) \<Rightarrow>
              if panicked then (None, rib)
              else (case rib_store multicast rib of
                None \<Rightarrow> (Some (Inl StoreNotReady), rib)
              | Some store \<Rightarrow>
                  (case stored_attributes env dedup (rotonda_pamap val) rib of
                    (pm, rib) \<Rightarrow>
                      (case st_insert (re_ops env) store p
                          \<lparr>rec_mui = i, rec_ltime = ltime, rec_status = status, rec_meta = pm\<rparr> of
                        (res, store) \<Rightarrow> (Some res, set_store multicast store rib))))))"

fun route_prefix :: "rotonda_route \<Rightarrow> prefix" where
  "route_prefix (RR_Ipv4Unicast n _) = n"
| "route_prefix (RR_Ipv6Unicast n _) = n"
| "route_prefix (RR_Ipv4Multicast n _) = n"
| "route_prefix (RR_Ipv6Multicast n _) = n"

fun is_multicast :: "rotonda_route \<Rightarrow> bool" where
  "is_multicast (RR_Ipv4Unicast _ _) = False"
| "is_multicast (RR_Ipv6Unicast _ _) = False"
| "is_multicast (RR_Ipv4Multicast _ _) = True"
| "is_multicast (RR_Ipv6Multicast _ _) = True"

definition rib_insert ::
  "'s rib_env \<Rightarrow> rotonda_route \<Rightarrow> route_status \<Rightarrow> u64 \<Rightarrow> ingress_id \<Rightarrow> bool \<Rightarrow> bool \<Rightarrow>
   's rib \<Rightarrow> (store_error + upsert_report) option \<times> 's rib" where
  "rib_insert env val status ltime i retain dedup rib =
    insert_prefix env (route_prefix val) (is_multicast val) val status ltime i retain dedup rib"

subsection \<open>Compaction\<close>

fun group_records ::
  "ingress_id list \<Rightarrow> prefix \<Rightarrow> rib_record list \<Rightarrow> ingress_id list \<Rightarrow> (ingress_id, prefix list) hmap \<Rightarrow> nat \<Rightarrow>
   (ingress_id, prefix list) hmap \<times> nat" where
  "group_records ids p [] matched out added = (out, added)"
| "group_records ids p (r # rs) matched out added =
    (if rec_mui r \<notin> set ids \<or> rec_mui r \<in> set matched then group_records ids p rs matched out added
     else group_records ids p rs
       (if length matched < 8 then matched @ [rec_mui r] else matched)
       (hm_insert (rec_mui r) ((case hm_get out (rec_mui r) of None \<Rightarrow> [] | Some ps \<Rightarrow> ps) @ [p]) out)
       (added + 1))"

definition group_prefix_by_ingress ::
  "ingress_id list \<Rightarrow> prefix_record \<Rightarrow> (ingress_id, prefix list) hmap \<Rightarrow> (ingress_id, prefix list) hmap \<times> nat" where
  "group_prefix_by_ingress ids pr out = group_records ids (pr_prefix pr) (pr_meta pr) [] out 0"

definition compact_one :: "'s store_ops \<Rightarrow> ingress_id \<Rightarrow> prefix \<Rightarrow> 's \<Rightarrow> 's" where
  "compact_one ops i p store = snd (st_insert ops store p (withdrawn_record i 0))"

definition flush_compaction :: "'s rib_env \<Rightarrow> (ingress_id, prefix list) hmap \<Rightarrow> 's \<Rightarrow> 's" where
  "flush_compaction env pending store =
    fold (\<lambda>(i, ps) store. fold (compact_one (re_ops env) i) ps store) (iterate (re_pending_it env) pending) store"

definition FLUSH_AT :: nat where
  "FLUSH_AT = 64 * 1024"

fun drain_compaction ::
  "'s rib_env \<Rightarrow> nat \<Rightarrow> ingress_id list \<Rightarrow> prefix_record list \<Rightarrow> (ingress_id, prefix list) hmap \<Rightarrow> nat \<Rightarrow> 's \<Rightarrow> 's" where
  "drain_compaction env flush_at ids [] pending n store = flush_compaction env pending store"
| "drain_compaction env flush_at ids (pr # prs) pending n store =
    (case group_prefix_by_ingress ids pr pending of
      (pending, added) \<Rightarrow>
        if flush_at \<le> n + added
        then drain_compaction env flush_at ids prs [] 0 (flush_compaction env pending store)
        else drain_compaction env flush_at ids prs pending (n + added) store)"

definition compact_in_store :: "'s rib_env \<Rightarrow> ingress_id list \<Rightarrow> afisafi option \<Rightarrow> 's option \<Rightarrow> 's option" where
  "compact_in_store env ids specific store =
    (case store of
      None \<Rightarrow> None
    | Some s \<Rightarrow>
        if ids = [] then Some s
        else Some (drain_compaction env FLUSH_AT ids
          (flatten_ok (case specific of
             Some Ipv4Unicast \<Rightarrow> st_prefixes_iter_v4 (re_ops env) s
           | Some Ipv4Multicast \<Rightarrow> st_prefixes_iter_v4 (re_ops env) s
           | Some Ipv6Unicast \<Rightarrow> st_prefixes_iter_v6 (re_ops env) s
           | Some Ipv6Multicast \<Rightarrow> st_prefixes_iter_v6 (re_ops env) s
           | _ \<Rightarrow> st_prefixes_iter (re_ops env) s)) [] 0 s))"

text \<open>The five buckets by address family are the ids whose family is the given one.\<close>

definition bucket :: "afisafi option \<Rightarrow> (ingress_id \<times> afisafi option) list \<Rightarrow> ingress_id list" where
  "bucket specific ids = remdups (map fst (filter (\<lambda>(_, a). a = specific) ids))"

definition compact_unicast :: "'s rib_env \<Rightarrow> ingress_id list \<Rightarrow> afisafi option \<Rightarrow> 's rib \<Rightarrow> 's rib" where
  "compact_unicast env ids specific rib = rib\<lparr>rb_unicast := compact_in_store env ids specific (rb_unicast rib)\<rparr>"

definition compact_multicast :: "'s rib_env \<Rightarrow> ingress_id list \<Rightarrow> afisafi option \<Rightarrow> 's rib \<Rightarrow> 's rib" where
  "compact_multicast env ids specific rib = rib\<lparr>rb_multicast := compact_in_store env ids specific (rb_multicast rib)\<rparr>"

definition compact_withdrawn_attributes_for_ingresses ::
  "'s rib_env \<Rightarrow> (ingress_id \<times> afisafi option) list \<Rightarrow> 's rib \<Rightarrow> 's rib" where
  "compact_withdrawn_attributes_for_ingresses env ids rib =
    (let rib = (if bucket None ids \<noteq> []
           then compact_multicast env (bucket None ids) None (compact_unicast env (bucket None ids) None rib) else rib);
         rib = (if bucket (Some Ipv4Unicast) ids \<noteq> []
           then compact_unicast env (bucket (Some Ipv4Unicast) ids) (Some Ipv4Unicast) rib else rib);
         rib = (if bucket (Some Ipv6Unicast) ids \<noteq> []
           then compact_unicast env (bucket (Some Ipv6Unicast) ids) (Some Ipv6Unicast) rib else rib);
         rib = (if bucket (Some Ipv4Multicast) ids \<noteq> []
           then compact_multicast env (bucket (Some Ipv4Multicast) ids) (Some Ipv4Multicast) rib else rib)
     in (if bucket (Some Ipv6Multicast) ids \<noteq> []
           then compact_multicast env (bucket (Some Ipv6Multicast) ids) (Some Ipv6Multicast) rib else rib))"

subsection \<open>Withdrawal and removal\<close>

definition on_unicast :: "('s \<Rightarrow> 's) \<Rightarrow> 's rib \<Rightarrow> 's rib \<times> bool" where
  "on_unicast f rib =
    (case rb_unicast rib of None \<Rightarrow> (rib, True) | Some s \<Rightarrow> (rib\<lparr>rb_unicast := Some (f s)\<rparr>, False))"

definition on_multicast :: "('s \<Rightarrow> 's) \<Rightarrow> 's rib \<Rightarrow> 's rib \<times> bool" where
  "on_multicast f rib =
    (case rb_multicast rib of None \<Rightarrow> (rib, True) | Some s \<Rightarrow> (rib\<lparr>rb_multicast := Some (f s)\<rparr>, False))"

definition mark_one :: "'s rib_env \<Rightarrow> ingress_id \<Rightarrow> afisafi option \<Rightarrow> 's rib \<Rightarrow> 's rib \<times> bool" where
  "mark_one env i specific rib =
    (case specific of
      None \<Rightarrow>
        (case on_unicast (\<lambda>s. snd (st_mark_withdrawn (re_ops env) s i)) rib of
          (rib, True) \<Rightarrow> (rib, True)
        | (rib, False) \<Rightarrow> on_multicast (\<lambda>s. snd (st_mark_withdrawn (re_ops env) s i)) rib)
    | Some Ipv4Unicast \<Rightarrow> on_unicast (\<lambda>s. snd (st_mark_withdrawn_v4 (re_ops env) s i)) rib
    | Some Ipv6Unicast \<Rightarrow> on_unicast (\<lambda>s. snd (st_mark_withdrawn_v6 (re_ops env) s i)) rib
    | Some Ipv4Multicast \<Rightarrow> on_multicast (\<lambda>s. snd (st_mark_withdrawn_v4 (re_ops env) s i)) rib
    | Some Ipv6Multicast \<Rightarrow> on_multicast (\<lambda>s. snd (st_mark_withdrawn_v6 (re_ops env) s i)) rib
    | Some (OtherAfiSafi _ _) \<Rightarrow> (rib, True))"

fun mark_all :: "'s rib_env \<Rightarrow> (ingress_id \<times> afisafi option) list \<Rightarrow> 's rib \<Rightarrow> 's rib \<times> bool" where
  "mark_all env [] rib = (rib, False)"
| "mark_all env ((i, specific) # ids) rib =
    (case mark_one env i specific rib of
      (rib, True) \<Rightarrow> (rib, True)
    | (rib, False) \<Rightarrow> mark_all env ids rib)"

definition withdraw_for_ingresses ::
  "'s rib_env \<Rightarrow> (ingress_id \<times> afisafi option) list \<Rightarrow> bool \<Rightarrow> 's rib \<Rightarrow> 's rib \<times> bool" where
  "withdraw_for_ingresses env ids retain rib =
    (if ids = [] then (rib, False)
     else mark_all env ids
       (if \<not> retain then compact_withdrawn_attributes_for_ingresses env ids rib else rib))"

definition remove_mui_from :: "'s rib_env \<Rightarrow> ingress_id \<Rightarrow> 's option \<Rightarrow> 's option" where
  "remove_mui_from env i = map_option (\<lambda>s. snd (st_remove_mui (re_ops env) s i))"

definition remove_for_ingresses :: "'s rib_env \<Rightarrow> ingress_id list \<Rightarrow> 's rib \<Rightarrow> 's rib" where
  "remove_for_ingresses env ids rib =
    fold (\<lambda>i rib. rib\<lparr>rb_unicast := remove_mui_from env i (rb_unicast rib),
      rb_multicast := remove_mui_from env i (rb_multicast rib)\<rparr>) ids rib"

subsection \<open>Garbage collection\<close>

text \<open>
  A sweep reads a copy of the register, \<open>info\<close>, and reclaims later: the register may change in
  between. \<open>prev\<close> are the ids found disconnected by the sweep before.
\<close>

definition gc_disconnected :: "(ingress_id, ingress_info) hmap \<Rightarrow> ingress_id list" where
  "gc_disconnected info =
    map fst (filter (\<lambda>(_, i). ii_state i = Some Disconnected \<and>
      (ii_ingress_type i = Some IT_BgpViaBmp \<or> ii_ingress_type i = Some IT_Bmp)) info)"

definition gc_peers :: "(ingress_id, ingress_info) hmap \<Rightarrow> ingress_id list" where
  "gc_peers info =
    map fst (filter (\<lambda>(_, i). ii_state i = Some Disconnected \<and> ii_ingress_type i = Some IT_BgpViaBmp) info)"

definition gc_childless_routers :: "(ingress_id, ingress_info) hmap \<Rightarrow> ingress_id list" where
  "gc_childless_routers info =
    map fst (filter (\<lambda>(k, i). ii_state i = Some Disconnected \<and> ii_ingress_type i = Some IT_Bmp \<and>
      Some k \<notin> set (map (ii_parent_ingress \<circ> snd) info)) info)"

fun remove_disconnected :: "ingress_id list \<Rightarrow> register \<Rightarrow> ingress_id list \<times> register" where
  "remove_disconnected [] r = ([], r)"
| "remove_disconnected (i # ids) r =
    (case remove_if_disconnected r i of
      (removed, r) \<Rightarrow>
        (case remove_disconnected ids r of (gone, r) \<Rightarrow> (if removed \<noteq> None then i # gone else gone, r)))"

definition gc_reclaim ::
  "'s rib_env \<Rightarrow> (ingress_id, ingress_info) hmap \<Rightarrow> ingress_id list \<Rightarrow> 's rib \<Rightarrow> ingress_id list \<times> 's rib" where
  "gc_reclaim env info prev rib =
    (case remove_disconnected (iterate (re_ids_it env) (filter (\<lambda>i. i \<in> set prev) (gc_peers info))) (rb_register rib) of
      (reclaimed, r) \<Rightarrow>
        (let rib = remove_for_ingresses env reclaimed (rib\<lparr>rb_register := r\<rparr>)
         in case remove_disconnected
             (iterate (re_ids_it env) (filter (\<lambda>i. i \<in> set prev) (gc_childless_routers info))) (rb_register rib) of
              (_, r) \<Rightarrow> (gc_disconnected info, rib\<lparr>rb_register := r\<rparr>)))"

definition gc_disconnected_bmp_peers :: "'s rib_env \<Rightarrow> ingress_id list \<Rightarrow> 's rib \<Rightarrow> ingress_id list \<times> 's rib" where
  "gc_disconnected_bmp_peers env prev rib = gc_reclaim env (reg_info (rb_register rib)) prev rib"

end
