(* ===== verification/Rib_Table.thy ===== *)
theory Rib_Table
  imports Rib
begin

text \<open>
  What the RIB promises, as a table of active routes. \<open>rib_active\<close> is the table a RIB stands for:
  the routes whose record is active and whose ingress is not withdrawn as a whole. Insertion,
  withdrawal, reactivation, removal and the garbage collection sweep implement the obvious
  updates of that table (\<open>tab_insert\<close>, \<open>tab_withdraw\<close>, \<open>tab_remove\<close>), under the
  invariant \<open>tidy\<close>, which every operation keeps when withdrawn attributes are not retained:
  an ingress that is withdrawn as a whole has no active record underneath.

  The compaction of withdrawn routes is where the code is optimised: one walk for all ingresses,
  a bounded buffer, a fixed array against duplicates. \<open>compaction_pointwise\<close> is its reference.
\<close>

subsection \<open>The table of a RIB\<close>

type_synonym route_table = "bool \<Rightarrow> prefix \<Rightarrow> ingress_id \<Rightarrow> rotonda_pa_map option"

definition ready :: "'s rib \<Rightarrow> bool" where
  "ready rib = (rb_unicast rib \<noteq> None \<and> rb_multicast rib \<noteq> None)"

definition rib_rec :: "'s store_view \<Rightarrow> 's rib \<Rightarrow> bool \<Rightarrow> prefix \<Rightarrow> ingress_id \<Rightarrow> rib_record option" where
  "rib_rec v rib mc p i = (case rib_store mc rib of None \<Rightarrow> None | Some s \<Rightarrow> sv_rec v s p i)"

definition rib_wd :: "'s store_view \<Rightarrow> 's rib \<Rightarrow> bool \<Rightarrow> bool \<Rightarrow> ingress_id \<Rightarrow> bool" where
  "rib_wd v rib mc v4 i = (case rib_store mc rib of None \<Rightarrow> False | Some s \<Rightarrow> sv_wd v s v4 i)"

definition rib_active :: "'s store_view \<Rightarrow> 's rib \<Rightarrow> route_table" where
  "rib_active v rib mc p i =
    (case rib_store mc rib of
      None \<Rightarrow> None
    | Some s \<Rightarrow> (case eff_rec v s p i of
        Some r \<Rightarrow> if rec_status r = Active then Some (rec_meta r) else None
      | None \<Rightarrow> None))"

definition tidy :: "'s store_view \<Rightarrow> 's rib \<Rightarrow> bool" where
  "tidy v rib = (\<forall>mc p i r. rib_wd v rib mc (is_v4 p) i \<longrightarrow> rib_rec v rib mc p i = Some r \<longrightarrow> rec_status r \<noteq> Active)"

text \<open>A record whose attributes can be read without a panic.\<close>

definition readable :: "rib_record \<Rightarrow> bool" where
  "readable r = (path_attributes (rec_meta r) \<noteq> None)"

lemma rib_active_alt:
  "rib_active v rib mc p i =
    (case rib_rec v rib mc p i of
      None \<Rightarrow> None
    | Some r \<Rightarrow> if rec_status r = Active \<and> \<not> rib_wd v rib mc (is_v4 p) i then Some (rec_meta r) else None)"
  by (auto simp: rib_active_def rib_rec_def rib_wd_def eff_rec_def split: option.splits)

lemma rib_active_tidy:
  assumes "tidy v rib"
  shows "rib_active v rib mc p i =
    (case rib_rec v rib mc p i of None \<Rightarrow> None | Some r \<Rightarrow> if rec_status r = Active then Some (rec_meta r) else None)"
  using assms unfolding rib_active_alt tidy_def by (auto split: option.splits)

lemma readyE:
  assumes "ready rib"
  obtains u m where "rb_unicast rib = Some u" "rb_multicast rib = Some m"
  using assms by (auto simp: ready_def)

lemma ready_store: "ready rib \<Longrightarrow> \<exists>s. rib_store mc rib = Some s"
  by (auto simp: ready_def rib_store_def)

lemma rib_store_set [simp]: "rib_store mc (set_store mc' s rib) = (if mc = mc' then Some s else rib_store mc rib)"
  by (simp add: rib_store_def set_store_def)

lemma rib_store_register [simp]:
  "rib_store mc (rib\<lparr>rb_register := r\<rparr>) = rib_store mc rib"
  "rib_store mc (rib\<lparr>rb_interner := x, rb_heap := h\<rparr>) = rib_store mc rib"
  "ready (rib\<lparr>rb_register := r\<rparr>) = ready rib" "ready (rib\<lparr>rb_interner := x, rb_heap := h\<rparr>) = ready rib"
  by (simp_all add: rib_store_def ready_def)

lemma ready_set_store [simp]: "ready rib \<Longrightarrow> ready (set_store mc s rib)"
  by (simp add: ready_def set_store_def)

lemma rb_register_set_store [simp]: "rb_register (set_store mc s rib) = rb_register rib"
  by (simp add: set_store_def)

lemma view_register [simp]:
  "rib_rec v (rib\<lparr>rb_register := r\<rparr>) = rib_rec v rib" "rib_wd v (rib\<lparr>rb_register := r\<rparr>) = rib_wd v rib"
  "rib_active v (rib\<lparr>rb_register := r\<rparr>) = rib_active v rib"
  "tidy v (rib\<lparr>rb_register := r\<rparr>) = tidy v rib"
  by (simp_all add: rib_rec_def rib_wd_def rib_active_def tidy_def fun_eq_iff)

lemma rib_rec_set:
  "rib_rec v (set_store mc' s rib) mc = (if mc = mc' then sv_rec v s else rib_rec v rib mc)"
  "rib_wd v (set_store mc' s rib) mc = (if mc = mc' then sv_wd v s else rib_wd v rib mc)"
  by (simp_all add: rib_rec_def rib_wd_def fun_eq_iff)

lemma rib_rec_store:
  "rib_store mc rib = Some s \<Longrightarrow> rib_rec v rib mc = sv_rec v s"
  "rib_store mc rib = Some s \<Longrightarrow> rib_wd v rib mc = sv_wd v s"
  by (simp_all add: rib_rec_def rib_wd_def fun_eq_iff)

lemma set_unicast: "rib\<lparr>rb_unicast := Some s\<rparr> = set_store False s rib"
  and set_multicast: "rib\<lparr>rb_multicast := Some s\<rparr> = set_store True s rib"
  by (simp_all add: set_store_def)

subsection \<open>Updates of the table\<close>

fun afi_covers :: "afisafi option \<Rightarrow> bool \<Rightarrow> bool \<Rightarrow> bool" where
  "afi_covers None mc v4 = True"
| "afi_covers (Some Ipv4Unicast) mc v4 = (\<not> mc \<and> v4)"
| "afi_covers (Some Ipv6Unicast) mc v4 = (\<not> mc \<and> \<not> v4)"
| "afi_covers (Some Ipv4Multicast) mc v4 = (mc \<and> v4)"
| "afi_covers (Some Ipv6Multicast) mc v4 = (mc \<and> \<not> v4)"
| "afi_covers (Some (OtherAfiSafi _ _)) mc v4 = False"

definition ids_cover :: "(ingress_id \<times> afisafi option) list \<Rightarrow> bool \<Rightarrow> bool \<Rightarrow> ingress_id \<Rightarrow> bool" where
  "ids_cover ids mc v4 i = (\<exists>a. (i, a) \<in> set ids \<and> afi_covers a mc v4)"

lemma ids_cover_code [code]: "ids_cover ids mc v4 i = list_ex (\<lambda>(j, a). j = i \<and> afi_covers a mc v4) ids"
  by (auto simp: ids_cover_def list_ex_iff)

definition tab_insert :: "rotonda_route \<Rightarrow> route_status \<Rightarrow> ingress_id \<Rightarrow> route_table \<Rightarrow> route_table" where
  "tab_insert val st i t = (\<lambda>mc p j.
    if mc = is_multicast val \<and> p = route_prefix val \<and> j = i
    then (if st = Active then Some (rotonda_pamap val) else None) else t mc p j)"

definition tab_withdraw :: "(ingress_id \<times> afisafi option) list \<Rightarrow> route_table \<Rightarrow> route_table" where
  "tab_withdraw ids t = (\<lambda>mc p i. if ids_cover ids mc (is_v4 p) i then None else t mc p i)"

definition tab_remove :: "ingress_id list \<Rightarrow> route_table \<Rightarrow> route_table" where
  "tab_remove ids t = (\<lambda>mc p i. if i \<in> set ids then None else t mc p i)"

subsection \<open>Reactivation\<close>

lemma mark_active_in_view:
  assumes "store_laws ops v"
  shows "sv_rec v (mark_active_in ops i s) = sv_rec v s"
    and "sv_wd v (mark_active_in ops i s) = upd_wd (\<lambda>_. True) i False (sv_wd v s)"
  by (auto simp: mark_active_in_def store_lawsD [OF assms] upd_wd_def fun_eq_iff)

lemma mark_ingress_active_view:
  assumes "store_laws (re_ops env) v" and "ready rib"
  obtains rib' where "mark_ingress_active env i rib = (rib', False)" "ready rib'"
    "rib_rec v rib' = rib_rec v rib" "\<And>mc. rib_wd v rib' mc = upd_wd (\<lambda>_. True) i False (rib_wd v rib mc)"
    "rb_register rib' = rb_register rib" "rb_interner rib' = rb_interner rib" "rb_heap rib' = rb_heap rib"
proof -
  obtain u m where um: "rb_unicast rib = Some u" "rb_multicast rib = Some m" using assms(2) by (rule readyE)
  define rib' where "rib' = rib\<lparr>rb_unicast := Some (mark_active_in (re_ops env) i u),
    rb_multicast := Some (mark_active_in (re_ops env) i m)\<rparr>"
  show thesis
  proof
    show "mark_ingress_active env i rib = (rib', False)" using um by (simp add: mark_ingress_active_def rib'_def)
    show "rib_rec v rib' = rib_rec v rib"
      using um by (simp add: rib'_def rib_rec_def rib_store_def fun_eq_iff mark_active_in_view [OF assms(1)])
    show "rib_wd v rib' mc = upd_wd (\<lambda>_. True) i False (rib_wd v rib mc)" for mc
      using um by (simp add: rib'_def rib_wd_def rib_store_def fun_eq_iff upd_wd_def mark_active_in_view [OF assms(1)])
  qed (simp_all add: rib'_def ready_def)
qed

lemma unflag_tidy:
  assumes "rib_rec v rib' = rib_rec v rib" and "\<And>mc. rib_wd v rib' mc = upd_wd (\<lambda>_. True) i False (rib_wd v rib mc)"
    and "tidy v rib"
  shows "tidy v rib'" and "rib_active v rib' = rib_active v rib"
proof -
  show t: "tidy v rib'" using assms(3) unfolding tidy_def assms(1,2) by (auto simp: upd_wd_def split: if_splits)
  show "rib_active v rib' = rib_active v rib"
    by (simp add: fun_eq_iff rib_active_tidy [OF t] rib_active_tidy [OF assms(3)] assms(1))
qed

subsection \<open>Insertion\<close>

lemma intern_content: "intern hb raw shards h = (a, shards', h') \<Longrightarrow> ah_blob h' a = raw"
proof -
  assume i: "intern hb raw shards h = (a, shards', h')"
  define es where "es = (case hm_get (shards ! (unat (hb raw) mod length shards)) (hb raw) of Some es \<Rightarrow> es | None \<Rightarrow> [])"
  obtain r es' where sc: "intern_scan h raw es 0 = (r, es')" by force
  note sp = intern_scan_spec [OF sc, simplified]
  show ?thesis
    using i sc sp by (cases r) (auto simp: intern_def Let_def es_def [symmetric] arc_clone_def arc_from_def)
qed

lemma dedup_with_content: "fst (dedup_with hb pm shards h) = pm"
  using intern_content [of hb "pm_raw pm" shards h]
  by (auto simp: dedup_with_def split: prod.splits)

lemma stored_attributes_view:
  obtains rib' where "stored_attributes env dedup pm rib = (pm, rib')" "\<And>mc. rib_store mc rib' = rib_store mc rib"
    "rb_register rib' = rb_register rib"
proof (cases dedup)
  case True
  obtain pm' a shards h where d: "dedup_with (re_hash_bytes env) pm (rb_interner rib) (rb_heap rib) = (pm', a, shards, h)"
    by (metis prod_cases4)
  then have "pm' = pm" using dedup_with_content [of "re_hash_bytes env" pm "rb_interner rib" "rb_heap rib"] by simp
  with d True show thesis by (intro that [of "rib\<lparr>rb_interner := shards, rb_heap := h\<rparr>"]) (simp_all add: stored_attributes_def)
next
  case False
  then show thesis by (intro that [of rib]) (simp_all add: stored_attributes_def)
qed

lemma reactivate_view:
  assumes "store_laws (re_ops env) v" and "ready rib"
  obtains rib' where "reactivate env i rib = (rib', False)" "ready rib'"
    "rib_rec v rib' = rib_rec v rib" "\<And>mc. rib_wd v rib' mc = upd_wd (\<lambda>_. True) i False (rib_wd v rib mc)"
    "rb_register rib' = snd (update_info (rb_register rib) i (with_state Connected ingress_info_new))"
proof -
  obtain rib1 where r: "mark_ingress_active env i rib = (rib1, False)" "ready rib1" "rib_rec v rib1 = rib_rec v rib"
    "\<And>mc. rib_wd v rib1 mc = upd_wd (\<lambda>_. True) i False (rib_wd v rib mc)" "rb_register rib1 = rb_register rib"
    using assms by (rule mark_ingress_active_view) blast
  show thesis
    by (rule that [of "rib1\<lparr>rb_register := snd (update_info (rb_register rib) i (with_state Connected ingress_info_new))\<rparr>"])
      (use r in \<open>simp_all add: reactivate_def\<close>)
qed

text \<open>The first half of an insertion that is not a withdrawal.\<close>

definition unmasked :: "'s rib_env \<Rightarrow> ingress_id \<Rightarrow> route_status \<Rightarrow> 's \<Rightarrow> 's rib \<Rightarrow> 's rib \<times> bool" where
  "unmasked env i status store rib =
    (if status = Active \<and> (st_is_withdrawn_v4 (re_ops env) store i \<or> st_is_withdrawn_v6 (re_ops env) store i)
     then reactivate env i rib else (rib, False))"

lemma unmasked_view:
  assumes "store_laws (re_ops env) v" and "ready rib" and "tidy v rib" and "rib_store mc rib = Some store"
  obtains rib' where "unmasked env i status store rib = (rib', False)" "ready rib'" "tidy v rib'"
    "rib_active v rib' = rib_active v rib" "rib_rec v rib' = rib_rec v rib"
    "status = Active \<Longrightarrow> \<not> rib_wd v rib' mc v4 i"
proof (cases "status = Active \<and> (sv_wd v store True i \<or> sv_wd v store False i)")
  case True
  obtain rib1 where r: "reactivate env i rib = (rib1, False)" "ready rib1" "rib_rec v rib1 = rib_rec v rib"
    and wd: "\<And>mc. rib_wd v rib1 mc = upd_wd (\<lambda>_. True) i False (rib_wd v rib mc)"
    using assms(1,2) by (rule reactivate_view) blast
  show thesis
    by (rule that [of rib1]) (use True r wd unflag_tidy [OF r(3) wd assms(3)] in
        \<open>auto simp: unmasked_def store_lawsD [OF assms(1)] upd_wd_def\<close>)
next
  case False
  then have "status = Active \<Longrightarrow> \<not> sv_wd v store v4 i" by (cases v4) auto
  then show thesis
    by (intro that [of rib]) (use False assms in \<open>auto simp: unmasked_def store_lawsD [OF assms(1)] rib_rec_store\<close>)
qed

lemma put_record:
  assumes laws: "store_laws (re_ops env) v" and "rib_store mc rib = Some store" and "tidy v rib"
    and r: "rec_mui r = i" and open_flag: "rec_status r = Active \<Longrightarrow> \<not> rib_wd v rib mc (is_v4 p) i"
  defines "rib' \<equiv> set_store mc (snd (st_insert (re_ops env) store p r)) rib"
  shows "tidy v rib'"
    and "rib_active v rib' = (\<lambda>mc' q j. if mc' = mc \<and> q = p \<and> j = i
      then (if rec_status r = Active then Some (rec_meta r) else None) else rib_active v rib mc' q j)"
proof -
  have rec: "rib_rec v rib' mc' q j = (if mc' = mc \<and> q = p \<and> j = i then Some r else rib_rec v rib mc' q j)" for mc' q j
    using assms(2) r by (simp add: rib'_def rib_rec_set store_lawsD [OF laws] upd_rec_def rib_rec_store)
  have wd: "rib_wd v rib' = rib_wd v rib"
    using assms(2) by (auto simp: rib'_def rib_rec_set store_lawsD [OF laws] rib_rec_store fun_eq_iff)
  show t: "tidy v rib'" using assms(3) open_flag unfolding tidy_def rec wd by auto
  show "rib_active v rib' = (\<lambda>mc' q j. if mc' = mc \<and> q = p \<and> j = i
      then (if rec_status r = Active then Some (rec_meta r) else None) else rib_active v rib mc' q j)"
    by (simp add: fun_eq_iff rib_active_tidy [OF t] rib_active_tidy [OF assms(3)] rec)
qed

lemma mark_prefix_withdrawn:
  fixes p :: prefix and i :: ingress_id and t :: u64
  assumes laws: "store_laws (re_ops env) v" and "rib_store mc rib = Some store" and "tidy v rib"
  defines "rib' \<equiv> set_store mc (snd (st_mark_withdrawn_for_prefix (re_ops env) store p i t)) rib"
  shows "tidy v rib'"
    and "rib_active v rib' = (\<lambda>mc' q j. if mc' = mc \<and> q = p \<and> j = i then None else rib_active v rib mc' q j)"
proof -
  have rec: "rib_rec v rib' mc' q j = (if mc' = mc \<and> q = p \<and> j = i
      then map_option (\<lambda>r. r\<lparr>rec_status := Withdrawn, rec_ltime := t\<rparr>) (rib_rec v rib mc' q j)
      else rib_rec v rib mc' q j)" for mc' q j
    using assms(2) by (simp add: rib'_def rib_rec_set store_lawsD [OF laws] upd_rec_def rib_rec_store)
  have wd: "rib_wd v rib' = rib_wd v rib"
    using assms(2) by (auto simp: rib'_def rib_rec_set store_lawsD [OF laws] rib_rec_store fun_eq_iff)
  show t: "tidy v rib'" using assms(3) unfolding tidy_def rec wd by auto
  show "rib_active v rib' = (\<lambda>mc' q j. if mc' = mc \<and> q = p \<and> j = i then None else rib_active v rib mc' q j)"
    by (auto simp: fun_eq_iff rib_active_tidy [OF t] rib_active_tidy [OF assms(3)] rec split: option.splits)
qed

lemma insert_withdrawn_table:
  assumes laws: "store_laws (re_ops env) v" and "ready rib" and tidy: "tidy v rib"
  obtains res rib' where "insert_prefix env p mc val Withdrawn ltime i retain dedup rib = (Some res, rib')"
    "ready rib'" "tidy v rib'"
    "rib_active v rib' = (\<lambda>mc' q j. if mc' = mc \<and> q = p \<and> j = i then None else rib_active v rib mc' q j)"
    "rb_register rib' = rb_register rib"
proof -
  obtain store where st: "rib_store mc rib = Some store" using ready_store [OF assms(2)] by blast
  show thesis
  proof (cases "retain")
    case True
    obtain res store' where m: "st_mark_withdrawn_for_prefix (re_ops env) store p i 0 = (res, store')" by force
    obtain res' where "insert_prefix env p mc val Withdrawn ltime i retain dedup rib = (Some res', set_store mc store' rib)"
      using True st m by (cases res) (auto simp: insert_prefix_def)
    then show thesis
      by (rule that) (use assms(2) m mark_prefix_withdrawn [OF laws st tidy, of p i 0] in simp_all)
  next
    case kept: False
    show thesis
    proof (cases "sv_rec v store p i")
      case None
      then have "insert_prefix env p mc val Withdrawn ltime i retain dedup rib = (Some (Inr no_report), rib)"
        using kept st by (simp add: insert_prefix_def store_lawsD [OF laws])
      then show thesis
        by (rule that) (use assms(2,3) None st in \<open>auto simp: fun_eq_iff rib_active_alt rib_rec_store\<close>)
    next
      case (Some r)
      obtain res store' where m: "st_insert (re_ops env) store p (withdrawn_record i ltime) = (res, store')" by force
      have "insert_prefix env p mc val Withdrawn ltime i retain dedup rib = (Some res, set_store mc store' rib)"
        using kept Some st m by (simp add: insert_prefix_def store_lawsD [OF laws])
      then show thesis
        by (rule that) (use assms(2) m put_record [OF laws st tidy, of "withdrawn_record i ltime" i p] in
            \<open>simp_all add: withdrawn_record_def\<close>)
    qed
  qed
qed

lemma insert_announced_table:
  assumes laws: "store_laws (re_ops env) v" and "ready rib" and "tidy v rib" and ann: "status \<noteq> Withdrawn"
  obtains res rib' where "insert_prefix env p mc val status ltime i retain dedup rib = (Some (Inr res), rib')"
    "ready rib'" "tidy v rib'"
    "rib_active v rib' = (\<lambda>mc' q j. if mc' = mc \<and> q = p \<and> j = i
      then (if status = Active then Some (rotonda_pamap val) else None) else rib_active v rib mc' q j)"
proof -
  obtain store where st: "rib_store mc rib = Some store" using ready_store [OF assms(2)] by blast
  obtain rib1 where r1: "unmasked env i status store rib = (rib1, False)" "ready rib1" and tidy1: "tidy v rib1"
    and act1: "rib_active v rib1 = rib_active v rib" and open1: "status = Active \<Longrightarrow> \<not> rib_wd v rib1 mc (is_v4 p) i"
    using unmasked_view [OF laws assms(2,3) st] by metis
  obtain store1 where st1: "rib_store mc rib1 = Some store1" using ready_store [OF r1(2)] by blast
  obtain rib2 where r2: "stored_attributes env dedup (rotonda_pamap val) rib1 = (rotonda_pamap val, rib2)"
    "\<And>mc. rib_store mc rib2 = rib_store mc rib1" using stored_attributes_view by blast
  define r where "r = \<lparr>rec_mui = i, rec_ltime = ltime, rec_status = status, rec_meta = rotonda_pamap val\<rparr>"
  obtain rep store' where ins: "st_insert (re_ops env) store1 p r = (Inr rep, store')"
    using store_lawsD(2) [OF laws] by (metis prod.collapse)
  have eq: "insert_prefix env p mc val status ltime i retain dedup rib = (Some (Inr rep), set_store mc store' rib2)"
    using ann st r1(1) st1 r2(1) ins unfolding insert_prefix_def unmasked_def r_def by simp
  have same: "rib_rec v rib2 = rib_rec v rib1" "rib_wd v rib2 = rib_wd v rib1" "rib_active v rib2 = rib_active v rib1"
    using r2(2) by (simp_all add: rib_rec_def rib_wd_def rib_active_def fun_eq_iff)
  have tidy2: "tidy v rib2" using tidy1 by (simp add: tidy_def same)
  have ready2: "ready rib2" using r1(2) r2(2) [of True] r2(2) [of False] by (simp add: ready_def rib_store_def)
  have open2: "rec_status r = Active \<Longrightarrow> \<not> rib_wd v rib2 mc (is_v4 p) i" using open1 by (simp add: r_def same)
  have "rec_mui r = i" by (simp add: r_def)
  note put = put_record [OF laws _ tidy2 this open2, of store1, unfolded r2(2), OF st1]
  show thesis
  proof (rule that [OF eq])
    show "ready (set_store mc store' rib2)" "tidy v (set_store mc store' rib2)" using put(1) ready2 ins by simp_all
    have eqs: "rec_status r = status" "rec_meta r = rotonda_pamap val" "rib_active v rib2 = rib_active v rib"
      "snd (st_insert (re_ops env) store1 p r) = store'"
      using ins by (simp_all add: r_def same act1)
    show "rib_active v (set_store mc store' rib2) = (\<lambda>mc' q j. if mc' = mc \<and> q = p \<and> j = i
        then (if status = Active then Some (rotonda_pamap val) else None) else rib_active v rib mc' q j)"
      using put(2) unfolding eqs .
  qed
qed

lemma rib_insert_table:
  assumes "store_laws (re_ops env) v" and "ready rib" and "tidy v rib"
  obtains res rib' where "rib_insert env val status ltime i retain dedup rib = (Some res, rib')"
    "ready rib'" "tidy v rib'" "rib_active v rib' = tab_insert val status i (rib_active v rib)"
proof (cases "status = Withdrawn")
  case True
  show thesis
    by (rule insert_withdrawn_table [OF assms, of "route_prefix val" "is_multicast val" val ltime i retain dedup])
      (rule that, use True in \<open>auto simp: rib_insert_def tab_insert_def fun_eq_iff\<close>)
next
  case False
  show thesis
    by (rule insert_announced_table [OF assms False, of "route_prefix val" "is_multicast val" val ltime i retain dedup])
      (rule that, auto simp: rib_insert_def tab_insert_def fun_eq_iff)
qed

subsection \<open>Compaction\<close>

definition pairs :: "(ingress_id, prefix list) hmap \<Rightarrow> (ingress_id \<times> prefix) set" where
  "pairs out = {(i, p). \<exists>ps. hm_get out i = Some ps \<and> p \<in> set ps}"

lemma pairs_Nil [simp]: "pairs [] = {}"
  by (simp add: pairs_def)

lemma pairs_push:
  "pairs (hm_insert i ((case hm_get out i of None \<Rightarrow> [] | Some ps \<Rightarrow> ps) @ [p]) out) = insert (i, p) (pairs out)"
  by (auto simp: pairs_def split: if_splits option.splits)

lemma group_records_pairs:
  assumes "hm_wf out" and "\<forall>i \<in> set matched. (i, p) \<in> pairs out"
  shows "hm_wf (fst (group_records ids p rs matched out n)) \<and>
    pairs (fst (group_records ids p rs matched out n)) = pairs out \<union> (\<lambda>r. (rec_mui r, p)) ` {r \<in> set rs. rec_mui r \<in> set ids}"
  using assms by (induction ids p rs matched out n rule: group_records.induct) (auto simp: pairs_push)

lemma group_prefix_pairs:
  assumes "hm_wf out"
  shows "hm_wf (fst (group_prefix_by_ingress ids pr out))"
    and "pairs (fst (group_prefix_by_ingress ids pr out)) =
      pairs out \<union> {(i, p). p = pr_prefix pr \<and> i \<in> set ids \<and> i \<in> rec_mui ` set (pr_meta pr)}"
  using group_records_pairs [OF assms, of "[]"] by (auto simp: group_prefix_by_ingress_def)

definition compacted ::
  "(ingress_id \<times> prefix) set \<Rightarrow> (prefix \<Rightarrow> ingress_id \<Rightarrow> rib_record option) \<Rightarrow> prefix \<Rightarrow> ingress_id \<Rightarrow> rib_record option" where
  "compacted A f = (\<lambda>p i. if (i, p) \<in> A then Some (withdrawn_record i 0) else f p i)"

lemma compacted_Un: "compacted A (compacted B f) = compacted (A \<union> B) f"
  by (auto simp: compacted_def fun_eq_iff)

lemma compact_prefixes_view:
  assumes "store_laws ops v"
  shows "sv_wd v (fold (compact_one ops i) ps s) = sv_wd v s"
    and "sv_rec v (fold (compact_one ops i) ps s) = compacted ((\<lambda>p. (i, p)) ` set ps) (sv_rec v s)"
  by (induction ps arbitrary: s)
    (auto simp: compact_one_def store_lawsD [OF assms] compacted_def upd_rec_def withdrawn_record_def fun_eq_iff)

lemma flush_entries_view:
  assumes "store_laws ops v"
  shows "sv_wd v (fold (\<lambda>(i, ps) s. fold (compact_one ops i) ps s) es s) = sv_wd v s"
    and "sv_rec v (fold (\<lambda>(i, ps) s. fold (compact_one ops i) ps s) es s) =
      compacted {(i, p). \<exists>ps. (i, ps) \<in> set es \<and> p \<in> set ps} (sv_rec v s)"
  by (induction es arbitrary: s)
    (auto simp: compact_prefixes_view [OF assms] compacted_def fun_eq_iff)

lemma flush_compaction_view:
  assumes "store_laws (re_ops env) v" and "hm_wf pending"
  shows "sv_wd v (flush_compaction env pending s) = sv_wd v s"
    and "sv_rec v (flush_compaction env pending s) = compacted (pairs pending) (sv_rec v s)"
  by (simp_all add: flush_compaction_def flush_entries_view [OF assms(1)] pairs_def hm_entries_get [OF assms(2)])

definition walked :: "ingress_id list \<Rightarrow> prefix_record list \<Rightarrow> (ingress_id \<times> prefix) set" where
  "walked ids prs = {(i, p). i \<in> set ids \<and> (\<exists>pr \<in> set prs. pr_prefix pr = p \<and> i \<in> rec_mui ` set (pr_meta pr))}"

lemma walked_simps:
  "walked ids [] = {}"
  "walked ids (pr # prs) = {(i, p). p = pr_prefix pr \<and> i \<in> set ids \<and> i \<in> rec_mui ` set (pr_meta pr)} \<union> walked ids prs"
  by (auto simp: walked_def)

lemma drain_compaction_view:
  assumes "store_laws (re_ops env) v" and "hm_wf pending"
  shows "sv_wd v (drain_compaction env fl ids prs pending n s) = sv_wd v s \<and>
    sv_rec v (drain_compaction env fl ids prs pending n s) = compacted (walked ids prs \<union> pairs pending) (sv_rec v s)"
  using assms(2)
proof (induction prs arbitrary: pending n s)
  case Nil
  then show ?case by (simp add: flush_compaction_view [OF assms(1)] walked_simps)
next
  case (Cons pr prs)
  obtain pending' added where g: "group_prefix_by_ingress ids pr pending = (pending', added)" by force
  then have wf: "hm_wf pending'" and pairs: "walked ids prs \<union> pairs pending' = walked ids (pr # prs) \<union> pairs pending"
    using group_prefix_pairs [OF Cons.prems, of ids pr] by (auto simp: walked_simps)
  have "compacted (walked ids prs \<union> pairs pending') f = compacted (walked ids prs) (compacted (pairs pending') f)" for f
    by (simp add: compacted_Un)
  then show ?case
    using Cons.IH [OF wf] Cons.IH [OF hm_wf_Nil] g pairs
    by (simp add: flush_compaction_view [OF assms(1) wf])
qed

lemma compaction_pointwise:
  assumes laws: "store_laws (re_ops env) v" and "\<exists>mc. specific = None \<or> afi_covers specific mc True \<or> afi_covers specific mc False"
  obtains s' where "compact_in_store env ids specific (Some s) = Some s'" "sv_wd v s' = sv_wd v s"
    "\<And>p i. sv_rec v s' p i =
      (if i \<in> set ids \<and> (\<exists>mc. afi_covers specific mc (is_v4 p)) \<and> sv_rec v s p i \<noteq> None
       then Some (withdrawn_record i 0) else sv_rec v s p i)"
proof -
  define fam where "fam = (\<lambda>v4. \<exists>mc. afi_covers specific mc v4)"
  define prs where "prs = flatten_ok (case specific of
             Some Ipv4Unicast \<Rightarrow> st_prefixes_iter_v4 (re_ops env) s
           | Some Ipv4Multicast \<Rightarrow> st_prefixes_iter_v4 (re_ops env) s
           | Some Ipv6Unicast \<Rightarrow> st_prefixes_iter_v6 (re_ops env) s
           | Some Ipv6Multicast \<Rightarrow> st_prefixes_iter_v6 (re_ops env) s
           | _ \<Rightarrow> st_prefixes_iter (re_ops env) s)"
  define s' where "s' = drain_compaction env FLUSH_AT ids prs [] 0 s"
  have it: "iterates v s fam prs"
    using assms(2) store_laws_iter [OF laws, where s = s] unfolding prs_def fam_def
    by (cases "(specific, True, True)" rule: afi_covers.cases) auto
  have view: "sv_wd v s' = sv_wd v s" "sv_rec v s' = compacted (walked ids prs) (sv_rec v s)"
    using drain_compaction_view [OF laws hm_wf_Nil] by (simp_all add: s'_def)
  have w: "(i, p) \<in> walked ids prs \<longleftrightarrow> i \<in> set ids \<and> fam (is_v4 p) \<and> sv_rec v s p i \<noteq> None" for i p
  proof -
    have "(\<exists>pr \<in> set prs. pr_prefix pr = p \<and> i \<in> rec_mui ` set (pr_meta pr)) \<longleftrightarrow> sv_rec v s p i \<noteq> None"
      if "fam (is_v4 p)"
      by (rule iterates_mui [OF it store_lawsD(1) [OF laws] that])
    moreover have "fam (is_v4 p)" if "(i, p) \<in> walked ids prs" using that it by (auto simp: walked_def iterates_def)
    ultimately show ?thesis unfolding walked_def by blast
  qed
  show thesis
  proof (cases "ids = []")
    case True
    then show thesis by (intro that [of s]) (simp_all add: compact_in_store_def)
  next
    case False
    then have "compact_in_store env ids specific (Some s) = Some s'"
      by (simp add: compact_in_store_def s'_def prs_def)
    then show thesis by (rule that) (use w view in \<open>auto simp: compacted_def fam_def\<close>)
  qed
qed

text \<open>\<open>compacts v P rib rib'\<close>: the records that \<open>P\<close> selects are withdrawn records, the rest is as before.\<close>

definition rib_compacted ::
  "(bool \<Rightarrow> bool \<Rightarrow> ingress_id \<Rightarrow> bool) \<Rightarrow> (bool \<Rightarrow> prefix \<Rightarrow> ingress_id \<Rightarrow> rib_record option) \<Rightarrow>
   bool \<Rightarrow> prefix \<Rightarrow> ingress_id \<Rightarrow> rib_record option" where
  "rib_compacted P f = (\<lambda>mc p i. if P mc (is_v4 p) i \<and> f mc p i \<noteq> None then Some (withdrawn_record i 0) else f mc p i)"

definition compacts :: "'s store_view \<Rightarrow> (bool \<Rightarrow> bool \<Rightarrow> ingress_id \<Rightarrow> bool) \<Rightarrow> 's rib \<Rightarrow> 's rib \<Rightarrow> bool" where
  "compacts v P rib rib' =
    (ready rib' \<and> rib_wd v rib' = rib_wd v rib \<and> rib_rec v rib' = rib_compacted P (rib_rec v rib) \<and>
     rb_register rib' = rb_register rib)"

lemma compacts_refl: "ready rib \<Longrightarrow> (\<And>mc v4 i. \<not> P mc v4 i) \<Longrightarrow> compacts v P rib rib"
  by (simp add: compacts_def rib_compacted_def fun_eq_iff)

lemma compacts_trans:
  assumes "compacts v P rib rib1" and "compacts v Q rib1 rib2"
    and "\<And>mc v4 i. R mc v4 i \<longleftrightarrow> P mc v4 i \<or> Q mc v4 i"
  shows "compacts v R rib rib2"
  using assms by (auto simp: compacts_def rib_compacted_def fun_eq_iff)

definition scope :: "bool \<Rightarrow> afisafi option \<Rightarrow> ingress_id list \<Rightarrow> bool \<Rightarrow> bool \<Rightarrow> ingress_id \<Rightarrow> bool" where
  "scope mc' specific ids mc v4 i = (mc = mc' \<and> i \<in> set ids \<and> afi_covers specific mc v4)"

lemma scope_covers:
  "\<exists>v4. afi_covers specific mc v4 \<Longrightarrow> (\<exists>mc'. afi_covers specific mc' v4) \<longleftrightarrow> afi_covers specific mc v4"
  by (cases "(specific, mc, v4)" rule: afi_covers.cases) auto

lemma compact_store_compacts:
  assumes laws: "store_laws (re_ops env) v" and "ready rib" and "\<exists>v4. afi_covers specific mc v4"
    and "rib_store mc rib = Some s" and "compact_in_store env ids specific (Some s) = Some s'"
  shows "compacts v (scope mc specific ids) rib (set_store mc s' rib)"
proof -
  have "\<exists>mc. specific = None \<or> afi_covers specific mc True \<or> afi_covers specific mc False"
    using assms(3) by (metis (full_types))
  from compaction_pointwise [OF laws this, of ids s] obtain s1 where s1: "compact_in_store env ids specific (Some s) = Some s1"
    and wd: "sv_wd v s1 = sv_wd v s"
    and rec: "\<And>p i. sv_rec v s1 p i = (if i \<in> set ids \<and> (\<exists>mc. afi_covers specific mc (is_v4 p)) \<and> sv_rec v s p i \<noteq> None
       then Some (withdrawn_record i 0) else sv_rec v s p i)" by blast
  have "s1 = s'" using s1 assms(5) by simp
  moreover have "(\<exists>mc'. afi_covers specific mc' v4) = afi_covers specific mc v4" for v4 by (rule scope_covers [OF assms(3)])
  ultimately show ?thesis
    using assms(2,4) wd rec
    by (auto simp: compacts_def rib_compacted_def scope_def rib_rec_set rib_rec_store fun_eq_iff)
qed

lemma compact_unicast_compacts:
  assumes "store_laws (re_ops env) v" and "ready rib" and "\<exists>v4. afi_covers specific False v4"
  shows "compacts v (scope False specific ids) rib (compact_unicast env ids specific rib)"
proof -
  obtain s where s: "rb_unicast rib = Some s" using assms(2) by (rule readyE)
  obtain s' where s': "compact_in_store env ids specific (Some s) = Some s'"
    by (cases "ids = []") (auto simp: compact_in_store_def)
  have "compact_unicast env ids specific rib = set_store False s' rib"
    using s s' by (simp add: compact_unicast_def set_store_def)
  then show ?thesis using compact_store_compacts [OF assms, of s ids s'] s s' by (simp add: rib_store_def)
qed

lemma compact_multicast_compacts:
  assumes "store_laws (re_ops env) v" and "ready rib" and "\<exists>v4. afi_covers specific True v4"
  shows "compacts v (scope True specific ids) rib (compact_multicast env ids specific rib)"
proof -
  obtain s where s: "rb_multicast rib = Some s" using assms(2) by (rule readyE)
  obtain s' where s': "compact_in_store env ids specific (Some s) = Some s'"
    by (cases "ids = []") (auto simp: compact_in_store_def)
  have "compact_multicast env ids specific rib = set_store True s' rib"
    using s s' by (simp add: compact_multicast_def set_store_def)
  then show ?thesis using compact_store_compacts [OF assms, of s ids s'] s s' by (simp add: rib_store_def)
qed

lemma bucket_mem: "i \<in> set (bucket specific ids) \<longleftrightarrow> (i, specific) \<in> set ids"
  by (force simp: bucket_def)

lemma if_bucket_compacts:
  assumes "ready rib" and "compacts v (scope mc specific (bucket specific ids)) rib rib'"
  shows "compacts v (scope mc specific (bucket specific ids)) rib (if bucket specific ids \<noteq> [] then rib' else rib)"
  using assms by (cases "bucket specific ids = []") (auto intro: compacts_refl simp: scope_def)

lemma compact_all_compacts:
  assumes laws: "store_laws (re_ops env) v" and "ready rib"
  shows "compacts v (ids_cover ids) rib (compact_withdrawn_attributes_for_ingresses env ids rib)"
proof -
  let ?all = "bucket None ids"
  define rib0 where "rib0 = compact_unicast env ?all None rib"
  define rib1 where "rib1 = (if ?all \<noteq> [] then compact_multicast env ?all None rib0 else rib)"
  define rib2 where "rib2 = (if bucket (Some Ipv4Unicast) ids \<noteq> []
    then compact_unicast env (bucket (Some Ipv4Unicast) ids) (Some Ipv4Unicast) rib1 else rib1)"
  define rib3 where "rib3 = (if bucket (Some Ipv6Unicast) ids \<noteq> []
    then compact_unicast env (bucket (Some Ipv6Unicast) ids) (Some Ipv6Unicast) rib2 else rib2)"
  define rib4 where "rib4 = (if bucket (Some Ipv4Multicast) ids \<noteq> []
    then compact_multicast env (bucket (Some Ipv4Multicast) ids) (Some Ipv4Multicast) rib3 else rib3)"
  define rib5 where "rib5 = (if bucket (Some Ipv6Multicast) ids \<noteq> []
    then compact_multicast env (bucket (Some Ipv6Multicast) ids) (Some Ipv6Multicast) rib4 else rib4)"
  have eq: "compact_withdrawn_attributes_for_ingresses env ids rib = rib5"
    by (simp add: compact_withdrawn_attributes_for_ingresses_def rib0_def rib1_def rib2_def rib3_def rib4_def rib5_def Let_def)
  have c0: "compacts v (scope False None ?all) rib rib0"
    unfolding rib0_def by (rule compact_unicast_compacts [OF assms]) simp
  then have "ready rib0" by (simp add: compacts_def)
  then have "compacts v (\<lambda>mc v4 i. scope False None ?all mc v4 i \<or> scope True None ?all mc v4 i) rib
      (compact_multicast env ?all None rib0)"
    by (intro compacts_trans [OF c0 compact_multicast_compacts [OF laws]]) auto
  then have c1: "compacts v (\<lambda>mc v4 i. i \<in> set ?all) rib rib1"
    using assms(2) unfolding rib1_def
    by (cases "?all = []") (auto simp: compacts_def rib_compacted_def scope_def fun_eq_iff)
  note step = if_bucket_compacts [OF _ compact_unicast_compacts [OF laws]] if_bucket_compacts [OF _ compact_multicast_compacts [OF laws]]
  have c2: "compacts v (scope False (Some Ipv4Unicast) (bucket (Some Ipv4Unicast) ids)) rib1 rib2"
    unfolding rib2_def by (intro step) (use c1 in \<open>auto simp: compacts_def\<close>)
  have c3: "compacts v (scope False (Some Ipv6Unicast) (bucket (Some Ipv6Unicast) ids)) rib2 rib3"
    unfolding rib3_def by (intro step) (use c2 in \<open>auto simp: compacts_def\<close>)
  have c4: "compacts v (scope True (Some Ipv4Multicast) (bucket (Some Ipv4Multicast) ids)) rib3 rib4"
    unfolding rib4_def by (intro step) (use c3 in \<open>auto simp: compacts_def\<close>)
  have c5: "compacts v (scope True (Some Ipv6Multicast) (bucket (Some Ipv6Multicast) ids)) rib4 rib5"
    unfolding rib5_def by (intro step) (use c4 in \<open>auto simp: compacts_def\<close>)
  note chain = compacts_trans [OF compacts_trans [OF compacts_trans [OF compacts_trans [OF c1 c2 refl] c3 refl] c4 refl] c5]
  show ?thesis unfolding eq
  proof (rule chain)
    show "ids_cover ids mc v4 i = (((((i \<in> set ?all \<or> scope False (Some Ipv4Unicast) (bucket (Some Ipv4Unicast) ids) mc v4 i) \<or>
        scope False (Some Ipv6Unicast) (bucket (Some Ipv6Unicast) ids) mc v4 i) \<or>
        scope True (Some Ipv4Multicast) (bucket (Some Ipv4Multicast) ids) mc v4 i)) \<or>
        scope True (Some Ipv6Multicast) (bucket (Some Ipv6Multicast) ids) mc v4 i)" for mc v4 i
      unfolding ids_cover_def scope_def bucket_mem
      by (auto elim!: afi_covers.elims)
  qed
qed

subsection \<open>Withdrawal\<close>

fun supported :: "ingress_id \<times> afisafi option \<Rightarrow> bool" where
  "supported (_, Some (OtherAfiSafi _ _)) = False"
| "supported _ = True"

text \<open>\<open>flags v P rib rib'\<close>: the ingresses that \<open>P\<close> selects are withdrawn as a whole, the records are as before.\<close>

definition flags :: "'s store_view \<Rightarrow> (bool \<Rightarrow> bool \<Rightarrow> ingress_id \<Rightarrow> bool) \<Rightarrow> 's rib \<Rightarrow> 's rib \<Rightarrow> bool" where
  "flags v P rib rib' =
    (ready rib' \<and> rib_rec v rib' = rib_rec v rib \<and> rb_register rib' = rb_register rib \<and>
     rib_wd v rib' = (\<lambda>mc v4 i. rib_wd v rib mc v4 i \<or> P mc v4 i))"

lemma flags_trans:
  assumes "flags v P rib rib1" and "flags v Q rib1 rib2" and "\<And>mc v4 i. R mc v4 i \<longleftrightarrow> P mc v4 i \<or> Q mc v4 i"
  shows "flags v R rib rib2"
  using assms by (auto simp: flags_def fun_eq_iff)

lemma flag_store:
  assumes "ready rib" and "rib_store mc rib = Some s" and "sv_rec v s' = sv_rec v s" and "sv_wd v s' = upd_wd fam i True (sv_wd v s)"
  shows "flags v (\<lambda>mc' v4 j. mc' = mc \<and> j = i \<and> fam v4) rib (set_store mc s' rib)"
  using assms by (auto simp: flags_def rib_rec_set rib_rec_store upd_wd_def fun_eq_iff)

lemma on_unicast_flags:
  assumes "ready rib" and "\<And>s. sv_rec v (f s) = sv_rec v s" and "\<And>s. sv_wd v (f s) = upd_wd fam i True (sv_wd v s)"
  shows "snd (on_unicast f rib) = False \<and>
    flags v (\<lambda>mc' v4 j. mc' = False \<and> j = i \<and> fam v4) rib (fst (on_unicast f rib))"
proof -
  obtain s where s: "rb_unicast rib = Some s" using assms(1) by (rule readyE)
  then show ?thesis
    using flag_store [OF assms(1), of False s v "f s" fam i] assms(2,3) by (simp add: on_unicast_def rib_store_def set_unicast)
qed

lemma on_multicast_flags:
  assumes "ready rib" and "\<And>s. sv_rec v (f s) = sv_rec v s" and "\<And>s. sv_wd v (f s) = upd_wd fam i True (sv_wd v s)"
  shows "snd (on_multicast f rib) = False \<and>
    flags v (\<lambda>mc' v4 j. mc' = True \<and> j = i \<and> fam v4) rib (fst (on_multicast f rib))"
proof -
  obtain s where s: "rb_multicast rib = Some s" using assms(1) by (rule readyE)
  then show ?thesis
    using flag_store [OF assms(1), of True s v "f s" fam i] assms(2,3) by (simp add: on_multicast_def rib_store_def set_multicast)
qed

lemma mark_one_flags:
  assumes laws: "store_laws (re_ops env) v" and "ready rib"
  shows "snd (mark_one env i specific rib) = (\<not> supported (i, specific)) \<and>
    flags v (\<lambda>mc v4 j. j = i \<and> afi_covers specific mc v4) rib (fst (mark_one env i specific rib))"
proof -
  note law = store_lawsD(8-13) [OF laws]
  let ?f = "\<lambda>s. snd (st_mark_withdrawn (re_ops env) s i)"
  have both: "flags v (\<lambda>mc v4 j. j = i) rib (fst (mark_one env i None rib)) \<and> \<not> snd (mark_one env i None rib)"
  proof -
    define rib1 where "rib1 = fst (on_unicast ?f rib)"
    have u: "snd (on_unicast ?f rib) = False \<and> flags v (\<lambda>mc' v4 j. mc' = False \<and> j = i \<and> True) rib (fst (on_unicast ?f rib))"
      by (rule on_unicast_flags [OF assms(2)]) (simp_all add: law)
    then have "ready rib1" by (simp add: flags_def rib1_def)
    then have m: "snd (on_multicast ?f rib1) = False \<and> flags v (\<lambda>mc' v4 j. mc' = True \<and> j = i \<and> True) rib1 (fst (on_multicast ?f rib1))"
      by (rule on_multicast_flags) (simp_all add: law)
    have "mark_one env i None rib = on_multicast ?f rib1"
      using u by (auto simp: mark_one_def rib1_def split: prod.splits bool.splits)
    moreover have "flags v (\<lambda>mc v4 j. j = i) rib (fst (on_multicast ?f rib1))"
      by (rule flags_trans [OF u [THEN conjunct2, folded rib1_def] m [THEN conjunct2]]) auto
    ultimately show ?thesis using m by simp
  qed
  show ?thesis
  proof (cases specific)
    case None
    then show ?thesis using both by simp
  next
    case (Some a)
    note one = on_unicast_flags [OF assms(2), of v "\<lambda>s. snd (st_mark_withdrawn_v4 (re_ops env) s i)" "\<lambda>b. b" i, OF law(3,4)]
      on_unicast_flags [OF assms(2), of v "\<lambda>s. snd (st_mark_withdrawn_v6 (re_ops env) s i)" Not i, OF law(5,6)]
      on_multicast_flags [OF assms(2), of v "\<lambda>s. snd (st_mark_withdrawn_v4 (re_ops env) s i)" "\<lambda>b. b" i, OF law(3,4)]
      on_multicast_flags [OF assms(2), of v "\<lambda>s. snd (st_mark_withdrawn_v6 (re_ops env) s i)" Not i, OF law(5,6)]
    have "(\<lambda>mc v4 j. j = i \<and> \<not> mc \<and> P v4) = (\<lambda>mc v4 j. \<not> mc \<and> j = i \<and> P v4)"
      "(\<lambda>mc v4 j. j = i \<and> mc \<and> P v4) = (\<lambda>mc v4 j. mc \<and> j = i \<and> P v4)" for P :: "bool \<Rightarrow> bool" by auto
    then show ?thesis
      using Some one assms(2) by (cases a) (simp_all add: mark_one_def, simp add: flags_def)
  qed
qed

lemma mark_all_flags:
  assumes laws: "store_laws (re_ops env) v" and "ready rib"
  shows "snd (mark_all env ids rib) = (\<not> list_all supported ids) \<and>
    flags v (ids_cover (takeWhile supported ids)) rib (fst (mark_all env ids rib))"
  using assms(2)
proof (induction ids arbitrary: rib)
  case Nil
  then show ?case by (simp add: flags_def ids_cover_def)
next
  case (Cons e ids)
  obtain i specific where e: "e = (i, specific)" by force
  obtain rib1 pn where m: "mark_one env i specific rib = (rib1, pn)" by force
  note one = mark_one_flags [OF laws Cons.prems, of i specific, unfolded m, simplified]
  show ?case
  proof (cases pn)
    case True
    then show ?thesis using one m e
      by (cases "(i, specific)" rule: supported.cases) (auto simp: flags_def ids_cover_def)
  next
    case False
    then have ok: "supported (i, specific)" using one by simp
    have "ready rib1" using one by (simp add: flags_def)
    note rest = Cons.IH [OF this]
    have "flags v (ids_cover (takeWhile supported (e # ids))) rib (fst (mark_all env ids rib1))"
      by (rule flags_trans [OF one [THEN conjunct2] rest [THEN conjunct2]]) (use ok e in \<open>auto simp: ids_cover_def\<close>)
    then show ?thesis using rest m e False ok by simp
  qed
qed

lemma withdraw_table:
  assumes laws: "store_laws (re_ops env) v" and "ready rib" and "tidy v rib"
  shows "ready (fst (withdraw_for_ingresses env ids False rib)) \<and>
    tidy v (fst (withdraw_for_ingresses env ids False rib)) \<and>
    rib_active v (fst (withdraw_for_ingresses env ids False rib)) = tab_withdraw ids (rib_active v rib) \<and>
    rb_register (fst (withdraw_for_ingresses env ids False rib)) = rb_register rib"
proof (cases "ids = []")
  case True
  then show ?thesis using assms by (simp add: withdraw_for_ingresses_def tab_withdraw_def ids_cover_def)
next
  case False
  define rib1 where "rib1 = compact_withdrawn_attributes_for_ingresses env ids rib"
  define rib2 where "rib2 = fst (mark_all env ids rib1)"
  have eq: "fst (withdraw_for_ingresses env ids False rib) = rib2"
    using False by (simp add: withdraw_for_ingresses_def rib1_def rib2_def)
  have c: "compacts v (ids_cover ids) rib rib1" unfolding rib1_def by (rule compact_all_compacts [OF assms(1,2)])
  then have r1: "ready rib1" by (simp add: compacts_def)
  have f: "flags v (ids_cover (takeWhile supported ids)) rib1 rib2"
    unfolding rib2_def using mark_all_flags [OF laws r1] by blast
  have sub: "ids_cover (takeWhile supported ids) mc v4 i \<Longrightarrow> ids_cover ids mc v4 i" for mc v4 i
    unfolding ids_cover_def using set_takeWhileD by fast
  have rec: "rib_rec v rib2 mc p i = (if ids_cover ids mc (is_v4 p) i \<and> rib_rec v rib mc p i \<noteq> None
      then Some (withdrawn_record i 0) else rib_rec v rib mc p i)" for mc p i
    using c f by (simp add: compacts_def flags_def rib_compacted_def)
  have wd: "rib_wd v rib2 mc v4 i \<longleftrightarrow> rib_wd v rib mc v4 i \<or> ids_cover (takeWhile supported ids) mc v4 i" for mc v4 i
    using c f by (simp add: compacts_def flags_def)
  have t: "tidy v rib2" using assms(3) sub unfolding tidy_def rec wd by (auto simp: withdrawn_record_def split: if_splits)
  moreover have "rib_active v rib2 = tab_withdraw ids (rib_active v rib)"
    by (auto simp: fun_eq_iff rib_active_tidy [OF t] rib_active_tidy [OF assms(3)] rec tab_withdraw_def withdrawn_record_def
        split: option.splits)
  ultimately show ?thesis using c f unfolding eq by (simp add: compacts_def flags_def)
qed

subsection \<open>Removal and garbage collection\<close>

lemma remove_one_view:
  assumes laws: "store_laws (re_ops env) v"
  defines "del \<equiv> \<lambda>i rib. rib\<lparr>rb_unicast := remove_mui_from env i (rb_unicast rib),
      rb_multicast := remove_mui_from env i (rb_multicast rib)\<rparr>"
  shows "rib_rec v (del i rib) = (\<lambda>mc p j. if j = i then None else rib_rec v rib mc p j)"
    and "rib_wd v (del i rib) = (\<lambda>mc v4 j. if j = i then False else rib_wd v rib mc v4 j)"
    and "ready (del i rib) = ready rib" and "rb_register (del i rib) = rb_register rib"
  by (auto simp: del_def rib_rec_def rib_wd_def rib_store_def remove_mui_from_def ready_def fun_eq_iff upd_wd_def
      store_lawsD [OF laws] split: option.splits)

lemma remove_view:
  assumes laws: "store_laws (re_ops env) v"
  shows "rib_rec v (remove_for_ingresses env ids rib) = (\<lambda>mc p j. if j \<in> set ids then None else rib_rec v rib mc p j)"
    and "rib_wd v (remove_for_ingresses env ids rib) = (\<lambda>mc v4 j. if j \<in> set ids then False else rib_wd v rib mc v4 j)"
    and "ready (remove_for_ingresses env ids rib) = ready rib"
    and "rb_register (remove_for_ingresses env ids rib) = rb_register rib"
  unfolding remove_for_ingresses_def
  by (induction ids arbitrary: rib) (auto simp: remove_one_view [OF laws] fun_eq_iff)

lemma remove_table:
  assumes laws: "store_laws (re_ops env) v"
  shows "rib_active v (remove_for_ingresses env ids rib) = tab_remove ids (rib_active v rib)"
    and "tidy v rib \<Longrightarrow> tidy v (remove_for_ingresses env ids rib)"
  by (auto simp: rib_active_alt tab_remove_def fun_eq_iff remove_view [OF laws] tidy_def split: option.splits)

definition disconnected_in :: "(ingress_id, ingress_info) hmap \<Rightarrow> ingress_type \<Rightarrow> ingress_id \<Rightarrow> bool" where
  "disconnected_in info t i =
    (case hm_get info i of None \<Rightarrow> False | Some e \<Rightarrow> ii_state e = Some Disconnected \<and> ii_ingress_type e = Some t)"

definition disconnected_now :: "register \<Rightarrow> ingress_id \<Rightarrow> bool" where
  "disconnected_now r i = (case reg_get r i of None \<Rightarrow> False | Some e \<Rightarrow> ii_state e = Some Disconnected)"

definition has_child :: "(ingress_id, ingress_info) hmap \<Rightarrow> ingress_id \<Rightarrow> bool" where
  "has_child info i = (\<exists>c e. hm_get info c = Some e \<and> ii_parent_ingress e = Some i)"

lemma gc_sets:
  assumes "hm_wf info"
  shows "i \<in> set (gc_peers info) \<longleftrightarrow> disconnected_in info IT_BgpViaBmp i"
    and "i \<in> set (gc_childless_routers info) \<longleftrightarrow> disconnected_in info IT_Bmp i \<and> \<not> has_child info i"
    and "i \<in> set (gc_disconnected info) \<longleftrightarrow> disconnected_in info IT_BgpViaBmp i \<or> disconnected_in info IT_Bmp i"
proof -
  have mem: "(\<exists>e. (i, e) \<in> set info \<and> P e) \<longleftrightarrow> (case hm_get info i of None \<Rightarrow> False | Some e \<Rightarrow> P e)" for P
    by (auto simp: hm_entries_get [OF assms] split: option.splits)
  have child: "Some i \<in> (\<lambda>x. ii_parent_ingress (snd x)) ` set info \<longleftrightarrow> has_child info i"
    unfolding has_child_def hm_entries_get [OF assms, symmetric] by force
  have f: "i \<in> fst ` {x \<in> set info. case x of (_, e) \<Rightarrow> P e} \<longleftrightarrow> (\<exists>e. (i, e) \<in> set info \<and> P e)" for P by force
  have f2: "i \<in> fst ` {x \<in> set info. case x of (k, e) \<Rightarrow> Q k e} \<longleftrightarrow> (\<exists>e. (i, e) \<in> set info \<and> Q i e)" for Q by force
  show "i \<in> set (gc_peers info) \<longleftrightarrow> disconnected_in info IT_BgpViaBmp i"
    by (simp add: gc_peers_def f mem disconnected_in_def)
  show "i \<in> set (gc_childless_routers info) \<longleftrightarrow> disconnected_in info IT_Bmp i \<and> \<not> has_child info i"
    by (simp add: gc_childless_routers_def f2 mem disconnected_in_def child split: option.splits)
  show "i \<in> set (gc_disconnected info) \<longleftrightarrow> disconnected_in info IT_BgpViaBmp i \<or> disconnected_in info IT_Bmp i"
    by (auto simp: gc_disconnected_def f mem disconnected_in_def split: option.splits)
qed

lemma remove_disconnected_spec:
  "set (fst (remove_disconnected ids r)) = {i \<in> set ids. disconnected_now r i} \<and>
   (\<forall>j. reg_get (snd (remove_disconnected ids r)) j =
     (if j \<in> set ids \<and> disconnected_now r j then None else reg_get r j))"
proof (induction ids arbitrary: r)
  case Nil
  then show ?case by simp
next
  case (Cons i ids)
  obtain removed r1 where r1: "remove_if_disconnected r i = (removed, r1)" by force
  then have "removed \<noteq> None \<longleftrightarrow> disconnected_now r i"
    "reg_get r1 j = (if j = i \<and> disconnected_now r i then None else reg_get r j)" for j
    by (auto simp: remove_if_disconnected_cases disconnected_now_def split: if_splits option.splits)
  moreover from this have "disconnected_now r1 j \<longleftrightarrow> disconnected_now r j \<and> j \<noteq> i" if "disconnected_now r i" for j
    using that by (simp add: disconnected_now_def)
  moreover from calculation have "disconnected_now r1 j \<longleftrightarrow> disconnected_now r j" if "\<not> disconnected_now r i" for j
    using that by (simp add: disconnected_now_def)
  ultimately show ?case
    using Cons.IH [of r1] r1 by (cases "disconnected_now r i") (auto split: prod.splits)
qed

lemma gc_reclaim_eq:
  assumes "hm_wf info" and "gc_reclaim env info prev rib = (nxt, rib')"
  obtains gone where "set gone = {i. i \<in> set prev \<and> disconnected_in info IT_BgpViaBmp i \<and> disconnected_now (rb_register rib) i}"
    and "rib' = remove_for_ingresses env gone rib\<lparr>rb_register := rb_register rib'\<rparr>"
    and "reg_get (rb_register rib') j =
      (if j \<in> set prev \<and> disconnected_now (rb_register rib) j \<and>
          (disconnected_in info IT_BgpViaBmp j \<or> disconnected_in info IT_Bmp j \<and> \<not> has_child info j)
       then None else reg_get (rb_register rib) j)"
proof -
  let ?ps = "iterate (re_ids_it env) (filter (\<lambda>i. i \<in> set prev) (gc_peers info))"
  let ?rs = "iterate (re_ids_it env) (filter (\<lambda>i. i \<in> set prev) (gc_childless_routers info))"
  obtain gone r1 where g: "remove_disconnected ?ps (rb_register rib) = (gone, r1)" by force
  obtain x r2 where r2: "remove_disconnected ?rs r1 = (x, r2)" by force
  have reg: "rb_register (remove_for_ingresses env gone s) = rb_register s" for s :: "'a rib"
    unfolding remove_for_ingresses_def by (induction gone arbitrary: s) simp_all
  have comm: "remove_for_ingresses env gone (s\<lparr>rb_register := r\<rparr>) = remove_for_ingresses env gone s\<lparr>rb_register := r\<rparr>"
    for s :: "'a rib" and r
  proof -
    have c: "s\<lparr>rb_register := r, rb_unicast := a, rb_multicast := b\<rparr> = s\<lparr>rb_unicast := a, rb_multicast := b, rb_register := r\<rparr>"
      for s :: "'a rib" and a b by (cases s) simp
    show ?thesis unfolding remove_for_ingresses_def by (induction gone arbitrary: s) (simp_all add: c)
  qed
  have rib': "rib' = remove_for_ingresses env gone rib\<lparr>rb_register := r2\<rparr>"
    using assms(2) g r2 by (simp add: gc_reclaim_def comm reg)
  note s1 = remove_disconnected_spec [of ?ps "rb_register rib", unfolded g, simplified]
  note s2 = remove_disconnected_spec [of ?rs r1, unfolded r2, simplified]
  show thesis
  proof (rule that [of gone])
    show "set gone = {i. i \<in> set prev \<and> disconnected_in info IT_BgpViaBmp i \<and> disconnected_now (rb_register rib) i}"
      using s1 by (auto simp: gc_sets [OF assms(1)])
    show "rib' = remove_for_ingresses env gone rib\<lparr>rb_register := rb_register rib'\<rparr>" using rib' by simp
    have apart: "\<not> (disconnected_in info IT_BgpViaBmp j \<and> disconnected_in info IT_Bmp j)"
      by (auto simp: disconnected_in_def split: option.splits)
    have r1j: "reg_get r1 j = (if j \<in> set prev \<and> disconnected_in info IT_BgpViaBmp j \<and> disconnected_now (rb_register rib) j
        then None else reg_get (rb_register rib) j)" using s1 by (auto simp: gc_sets [OF assms(1)])
    then have "disconnected_now r1 j \<longleftrightarrow> disconnected_now (rb_register rib) j \<and> \<not> (j \<in> set prev \<and> disconnected_in info IT_BgpViaBmp j)"
      by (auto simp: disconnected_now_def split: option.splits)
    then show "reg_get (rb_register rib') j =
      (if j \<in> set prev \<and> disconnected_now (rb_register rib) j \<and>
          (disconnected_in info IT_BgpViaBmp j \<or> disconnected_in info IT_Bmp j \<and> \<not> has_child info j)
       then None else reg_get (rb_register rib) j)"
      using s2 apart r1j by (auto simp: rib' gc_sets [OF assms(1)])
  qed
qed

subsection \<open>Properties\<close>

text \<open>A RIB over the list store.\<close>

definition list_env :: "list_store rib_env" where
  "list_env = \<lparr>re_ops = list_ops, re_hash_bytes = (\<lambda>bs. of_nat (length bs)), re_pending_it = rev, re_ids_it = rev\<rparr>"

definition empty_store :: list_store where
  "empty_store = \<lparr>ls_recs = [], ls_wd4 = [], ls_wd6 = []\<rparr>"

definition empty_rib :: "register \<Rightarrow> list_store rib" where
  "empty_rib r = \<lparr>rb_unicast = Some empty_store, rb_multicast = Some empty_store, rb_register = r,
     rb_interner = interner_default, rb_heap = \<lparr>ah_blob = (\<lambda>_. []), ah_strong = (\<lambda>_. 0), ah_next = 0\<rparr>\<rparr>"

lemma list_env_laws: "store_laws (re_ops list_env) list_view"
  by (simp add: list_env_def list_store_laws)

lemma empty_rib_ok: "ready (empty_rib r)" "tidy list_view (empty_rib r)"
  "rib_active list_view (empty_rib r) = (\<lambda>_ _ _. None)"
  by (auto simp: empty_rib_def ready_def tidy_def rib_rec_def rib_store_def empty_store_def list_view_def ls_get_def
      rib_active_def eff_rec_def fun_eq_iff)

definition sample_pfx :: prefix where
  "sample_pfx = \<lparr>pfx_addr = V4 0x0A000000, pfx_len = 8\<rparr>"

definition sample_route :: "bytes \<Rightarrow> rotonda_route" where
  "sample_route bs = RR_Ipv4Unicast sample_pfx (pa_map_from_vec bs)"

text \<open>
  C11: Compacting the withdrawn routes of any batch of ingresses is exact. The code walks each store
  once per address family, buffers the hits in a hash map that it flushes when it is full and drains
  in any order, and remembers at most eight ingresses per prefix against duplicates; the result is
  as if every stored record of an ingress in the scope of the batch had been overwritten with an
  empty withdrawn record and nothing else had changed.
\<close>

theorem compaction_exact:
  assumes "store_laws (re_ops env) v" and "ready rib"
  shows "rib_rec v (compact_withdrawn_attributes_for_ingresses env ids rib) mc p i =
      (if (\<exists>a. (i, a) \<in> set ids \<and> afi_covers a mc (is_v4 p)) \<and> rib_rec v rib mc p i \<noteq> None
       then Some (withdrawn_record i 0) else rib_rec v rib mc p i) \<and>
    rib_wd v (compact_withdrawn_attributes_for_ingresses env ids rib) = rib_wd v rib"
  using compact_all_compacts [OF assms, of ids] by (simp add: compacts_def rib_compacted_def ids_cover_def)

theorem compaction_exact_witness:
  "rib_rec list_view (compact_withdrawn_attributes_for_ingresses list_env [(7, Some Ipv4Unicast)]
      (snd (rib_insert list_env (sample_route [1, 2]) Active 0 7 False True (empty_rib register_new)))) False sample_pfx 7 =
    Some (withdrawn_record 7 0)"
proof -
  let ?rib = "snd (rib_insert list_env (sample_route [1, 2]) Active 0 7 False True (empty_rib register_new))"
  have r: "ready ?rib" and s: "rib_rec list_view ?rib False sample_pfx 7 \<noteq> None" by code_simp+
  have "is_v4 sample_pfx" by code_simp
  then show ?thesis
    using compaction_exact [OF list_env_laws r, of "[(7, Some Ipv4Unicast)]" False sample_pfx 7] s by simp
qed


definition idle_register :: register where
  "idle_register = \<lparr>reg_serial = 9, reg_info =
    [(7, ingress_info_new\<lparr>ii_ingress_type := Some IT_BgpViaBmp, ii_state := Some Disconnected\<rparr>),
     (8, ingress_info_new\<lparr>ii_ingress_type := Some IT_BgpViaBmp, ii_state := Some Connected\<rparr>)]\<rparr>"


end
