(* ===== verification/Rib_Query.thy ===== *)
theory Rib_Query
  imports Rib_Table
begin

text \<open>
  The reading half of the RIB (src/units/rib_unit/rib.rs) and the HTTP endpoints on top of it
  (src/units/rib_unit/http_ng.rs): the query filter, the search for a prefix, the dump of a whole
  address family that is streamed in chunks, the writer that hands the bytes to the client, and
  the limit on concurrent dumps.

  routecore's accessors of path attributes, a compiled roto filter, and the JSON text of a line are
  parameters. A writer is given by the outcomes of its sends. While a dump runs the store is in
  use: \<open>qe_drift n s\<close> is the store that the \<open>n\<close>-th access of the dump finds, where \<open>s\<close> is the store
  the dump began with. A panic is \<open>None\<close>.
\<close>

subsection \<open>Filters\<close>

datatype include_kind = MoreSpecifics | LessSpecifics

datatype output_format = Format_Json | Format_Jsonl

record route_filter =
  rf_include :: "include_kind list"
  rf_ingress_id :: "ingress_id option"
  rf_origin_asn :: "asn option"
  rf_otc :: "asn option"
  rf_community :: "u32 option"
  rf_large_community :: "(u32 \<times> u32 \<times> u32) option"
  rf_rib_type :: "peer_rib_type option"
  rf_rov_status :: "rov_status option"
  rf_peer_asn :: "asn option"
  rf_peer_addr :: "ip_addr option"
  rf_fields_path_attributes :: "u8 list option"
  rf_roto_function :: "ustr option"
  rf_format :: output_format

definition enable_more_specifics :: "route_filter \<Rightarrow> route_filter" where
  "enable_more_specifics f =
    (if MoreSpecifics \<notin> set (rf_include f) then f\<lparr>rf_include := rf_include f @ [MoreSpecifics]\<rparr> else f)"

type_synonym 'ctx roto_http_filter = "'ctx \<Rightarrow> rotonda_pa_map \<Rightarrow> bool \<times> 'ctx"

record jsonl_line =
  jl_prefix :: prefix
  jl_section :: string
  jl_status :: route_status
  jl_ingress :: "(ingress_id \<times> ingress_info) option"
  jl_pamap :: rotonda_pa_map
  jl_fields :: "u8 list option"

record ('s, 'ctx) query_env =
  qe_ops :: "'s store_ops"
  qe_otc :: "owned_path_attributes \<Rightarrow> asn option"
  qe_communities :: "owned_path_attributes \<Rightarrow> u32 list option"
  qe_large_communities :: "owned_path_attributes \<Rightarrow> (u32 \<times> u32 \<times> u32) list option"
  qe_origin :: "owned_path_attributes \<Rightarrow> asn option"
  qe_package :: "(ustr \<Rightarrow> 'ctx roto_http_filter option) option"
  qe_line :: "jsonl_line \<Rightarrow> bytes list"
  qe_json :: "query_result \<Rightarrow> (ingress_id, ingress_info) hmap \<Rightarrow> route_filter \<Rightarrow> bytes list"
  qe_drift :: "nat \<Rightarrow> 's \<Rightarrow> 's"
  qe_late :: "nat \<Rightarrow> bool"
  qe_prefix_new :: "ip_addr \<Rightarrow> u8 \<Rightarrow> prefix option"

text \<open>\<open>Vec::retain\<close> with a closure that may panic.\<close>

fun retain :: "('a \<Rightarrow> bool option) \<Rightarrow> 'a list \<Rightarrow> 'a list option" where
  "retain f [] = Some []"
| "retain f (x # xs) =
    (case f x of
      None \<Rightarrow> None
    | Some keep \<Rightarrow> map_option (\<lambda>ys. if keep then x # ys else ys) (retain f xs))"

fun retain_roto :: "'ctx roto_http_filter \<Rightarrow> rib_record list \<Rightarrow> 'ctx \<Rightarrow> rib_record list \<times> 'ctx" where
  "retain_roto f [] ctx = ([], ctx)"
| "retain_roto f (r # rs) ctx =
    (case f ctx (rec_meta r) of
      (accept, ctx) \<Rightarrow>
        (case retain_roto f rs ctx of (rs, ctx) \<Rightarrow> (if accept then r # rs else rs, ctx)))"

text \<open>A condition on the peer of a record; a record whose ingress is not known passes.\<close>

definition retain_info ::
  "('v option) \<Rightarrow> (ingress_info \<Rightarrow> 'v option) \<Rightarrow> (ingress_id, ingress_info) hmap \<Rightarrow> rib_record list \<Rightarrow> rib_record list" where
  "retain_info wanted field info rs =
    (case wanted of
      None \<Rightarrow> rs
    | Some x \<Rightarrow>
        filter (\<lambda>r. case hm_get info (rec_mui r) of None \<Rightarrow> True | Some ii \<Rightarrow> field ii = Some x) rs)"

definition attributes_match :: "('s, 'ctx) query_env \<Rightarrow> route_filter \<Rightarrow> rib_record \<Rightarrow> bool option" where
  "attributes_match env f r =
    (case (case rf_rov_status f of
            None \<Rightarrow> Some True
          | Some st \<Rightarrow> map_option (\<lambda>i. rov i = st) (get_rpki_info (rec_meta r))) of
      None \<Rightarrow> None
    | Some False \<Rightarrow> Some False
    | Some True \<Rightarrow>
        (case path_attributes (rec_meta r) of
          None \<Rightarrow> None
        | Some pas \<Rightarrow>
            if rf_otc f \<noteq> None \<and> rf_otc f \<noteq> qe_otc env pas then Some False
            else if (case rf_large_community f of
                       None \<Rightarrow> False
                     | Some c \<Rightarrow> (case qe_large_communities env pas of None \<Rightarrow> True | Some cs \<Rightarrow> c \<notin> set cs))
            then Some False
            else if (case rf_community f of
                       None \<Rightarrow> False
                     | Some c \<Rightarrow> (case qe_communities env pas of None \<Rightarrow> True | Some cs \<Rightarrow> c \<notin> set cs))
            then Some False
            else if rf_origin_asn f \<noteq> None \<and> rf_origin_asn f \<noteq> qe_origin env pas then Some False
            else Some True))"

definition attributes_asked :: "route_filter \<Rightarrow> bool" where
  "attributes_asked f =
    (rf_origin_asn f \<noteq> None \<or> rf_otc f \<noteq> None \<or> rf_community f \<noteq> None \<or> rf_large_community f \<noteq> None \<or>
     rf_rov_status f \<noteq> None)"

definition apply_filter ::
  "('s, 'ctx) query_env \<Rightarrow> route_filter \<Rightarrow> 'ctx roto_http_filter option \<Rightarrow> (ingress_id, ingress_info) hmap \<Rightarrow>
   rib_record list \<Rightarrow> 'ctx \<Rightarrow> (rib_record list \<times> 'ctx) option" where
  "apply_filter env f roto info rs ctx =
    (let rs = (case rf_ingress_id f of None \<Rightarrow> rs | Some i \<Rightarrow> filter (\<lambda>r. rec_mui r = i) rs);
         rs = retain_info (rf_rib_type f) ii_peer_rib_type info rs;
         rs = retain_info (rf_peer_asn f) ii_remote_asn info rs;
         rs = retain_info (rf_peer_addr f) ii_remote_addr info rs;
         (rs, ctx) = (case roto of None \<Rightarrow> (rs, ctx) | Some g \<Rightarrow> retain_roto g rs ctx)
     in if attributes_asked f then map_option (\<lambda>rs. (rs, ctx)) (retain (attributes_match env f) rs)
        else Some (rs, ctx))"

subsection \<open>Search\<close>

datatype query_error = QE_NotReady | QE_Unsupported afisafi | QE_Store store_error | QE_NoFunction ustr

definition query_store :: "afisafi \<Rightarrow> 's rib \<Rightarrow> query_error + 's" where
  "query_store a rib =
    (case a of
      Ipv4Unicast \<Rightarrow> (case rb_unicast rib of None \<Rightarrow> Inl QE_NotReady | Some s \<Rightarrow> Inr s)
    | Ipv6Unicast \<Rightarrow> (case rb_unicast rib of None \<Rightarrow> Inl QE_NotReady | Some s \<Rightarrow> Inr s)
    | Ipv4Multicast \<Rightarrow> (case rb_multicast rib of None \<Rightarrow> Inl QE_NotReady | Some s \<Rightarrow> Inr s)
    | Ipv6Multicast \<Rightarrow> (case rb_multicast rib of None \<Rightarrow> Inl QE_NotReady | Some s \<Rightarrow> Inr s)
    | u \<Rightarrow> Inl (QE_Unsupported u))"

definition find_function ::
  "('s, 'ctx) query_env \<Rightarrow> route_filter \<Rightarrow> query_error + 'ctx roto_http_filter option" where
  "find_function env f =
    (case rf_roto_function f of
      None \<Rightarrow> Inr None
    | Some name \<Rightarrow>
        (case Option.bind (qe_package env) (\<lambda>package. package name) of
          None \<Rightarrow> Inl (QE_NoFunction name)
        | Some g \<Rightarrow> Inr (Some g)))"

fun filter_set ::
  "('s, 'ctx) query_env \<Rightarrow> route_filter \<Rightarrow> 'ctx roto_http_filter option \<Rightarrow> (ingress_id, ingress_info) hmap \<Rightarrow>
   prefix_record list \<Rightarrow> 'ctx \<Rightarrow> (prefix_record list \<times> 'ctx) option" where
  "filter_set env f roto info [] ctx = Some ([], ctx)"
| "filter_set env f roto info (pr # prs) ctx =
    (case apply_filter env f roto info (pr_meta pr) ctx of
      None \<Rightarrow> None
    | Some (meta, ctx) \<Rightarrow>
        (case filter_set env f roto info prs ctx of
          None \<Rightarrow> None
        | Some (prs, ctx) \<Rightarrow>
            Some (if meta = [] then prs else \<lparr>pr_prefix = pr_prefix pr, pr_meta = meta\<rparr> # prs, ctx)))"

definition filter_record_set ::
  "('s, 'ctx) query_env \<Rightarrow> route_filter \<Rightarrow> 'ctx roto_http_filter option \<Rightarrow> (ingress_id, ingress_info) hmap \<Rightarrow>
   record_set option \<Rightarrow> 'ctx \<Rightarrow> (record_set option \<times> 'ctx) option" where
  "filter_record_set env f roto info rs ctx =
    (case rs of
      None \<Rightarrow> Some (None, ctx)
    | Some rs \<Rightarrow>
        (case filter_set env f roto info (rs_v4 rs) ctx of
          None \<Rightarrow> None
        | Some (v4, ctx) \<Rightarrow>
            (case filter_set env f roto info (rs_v6 rs) ctx of
              None \<Rightarrow> None
            | Some (v6, ctx) \<Rightarrow> Some (Some \<lparr>rs_v4 = v4, rs_v6 = v6\<rparr>, ctx))))"

definition query_options :: "route_filter \<Rightarrow> match_options" where
  "query_options f =
    \<lparr>mo_match_type = ExactMatch, mo_include_withdrawn = False,
     mo_include_less_specifics = (LessSpecifics \<in> set (rf_include f)),
     mo_include_more_specifics = (MoreSpecifics \<in> set (rf_include f)),
     mo_mui = rf_ingress_id f\<rparr>"

record search_result =
  sr_query_result :: query_result
  sr_ingress_info :: "(ingress_id, ingress_info) hmap"
  sr_query_filter :: route_filter

definition search_routes ::
  "('s, 'ctx) query_env \<Rightarrow> afisafi \<Rightarrow> prefix \<Rightarrow> route_filter \<Rightarrow> 's rib \<Rightarrow> 'ctx \<Rightarrow>
   ((query_error + search_result) \<times> 'ctx) option" where
  "search_routes env a p f rib ctx =
    (case query_store a rib of
      Inl e \<Rightarrow> Some (Inl e, ctx)
    | Inr store \<Rightarrow>
        (let res = st_match_prefix (qe_ops env) store p (query_options f);
             info = reg_info (rb_register rib)
         in case find_function env f of
              Inl e \<Rightarrow> Some (Inl e, ctx)
            | Inr roto \<Rightarrow>
                (case res of
                  Inl e \<Rightarrow> Some (Inl (QE_Store e), ctx)
                | Inr qr \<Rightarrow>
                    (case apply_filter env f roto info (qr_records qr) ctx of
                      None \<Rightarrow> None
                    | Some (recs, ctx) \<Rightarrow>
                        (case filter_record_set env f roto info (qr_more_specifics qr) ctx of
                          None \<Rightarrow> None
                        | Some (more_sp, ctx) \<Rightarrow>
                            (case filter_record_set env f roto info (qr_less_specifics qr) ctx of
                              None \<Rightarrow> None
                            | Some (less_sp, ctx) \<Rightarrow>
                                Some (Inr \<lparr>sr_query_result =
                                    \<lparr>qr_prefix = qr_prefix qr, qr_records = recs, qr_less_specifics = less_sp, qr_more_specifics = more_sp\<rparr>,
                                  sr_ingress_info = info, sr_query_filter = f\<rparr>, ctx)))))))"

definition check_filter_and_store :: "('s, 'ctx) query_env \<Rightarrow> afisafi \<Rightarrow> route_filter \<Rightarrow> 's rib \<Rightarrow> query_error option" where
  "check_filter_and_store env a f rib =
    (case query_store a rib of
      Inl e \<Rightarrow> Some e
    | Inr _ \<Rightarrow> (case find_function env f of Inl e \<Rightarrow> Some e | Inr _ \<Rightarrow> None))"

subsection \<open>Walks\<close>

definition DUMP_KEY_CHUNK :: nat where
  "DUMP_KEY_CHUNK = 512"

fun chunks :: "nat \<Rightarrow> 'a list \<Rightarrow> 'a list list" where
  "chunks n xs = (if n = 0 \<or> xs = [] then [] else take n xs # chunks n (drop n xs))"

declare chunks.simps [simp del]

definition not_withdrawn :: "rib_record \<Rightarrow> bool" where
  "not_withdrawn r = (rec_status r \<noteq> Withdrawn)"

definition iter_all_prefix_records :: "('s, 'ctx) query_env \<Rightarrow> 's rib \<Rightarrow> query_error + prefix_record list" where
  "iter_all_prefix_records env rib =
    (case rb_unicast rib of
      None \<Rightarrow> Inl QE_NotReady
    | Some s \<Rightarrow> Inr (List.map_filter (\<lambda>pr.
        let meta = filter not_withdrawn (pr_meta pr)
        in if meta = [] then None else Some \<lparr>pr_prefix = pr_prefix pr, pr_meta = meta\<rparr>)
        (flatten_ok (st_prefixes_iter (qe_ops env) s))))"

text \<open>The records of a chunk of keys; the \<open>n\<close>-th key of a walk is looked up in the store of its access \<open>n\<close>.\<close>

fun fetch_live :: "('s, 'ctx) query_env \<Rightarrow> 's \<Rightarrow> nat \<Rightarrow> prefix list \<Rightarrow> prefix_record list" where
  "fetch_live env s n [] = []"
| "fetch_live env s n (p # ps) =
    (case st_get_records (qe_ops env) (qe_drift env n s) p None True of
      Inr (Some meta) \<Rightarrow>
        (let meta = filter not_withdrawn meta
         in if meta \<noteq> [] then \<lparr>pr_prefix = p, pr_meta = meta\<rparr> # fetch_live env s (n + 1) ps
            else fetch_live env s (n + 1) ps)
    | _ \<Rightarrow> fetch_live env s (n + 1) ps)"

fun emit_batch :: "(prefix_record \<Rightarrow> 'k \<Rightarrow> bool \<times> 'k) \<Rightarrow> prefix_record list \<Rightarrow> nat \<Rightarrow> 'k \<Rightarrow> bool \<times> nat \<times> 'k" where
  "emit_batch f [] cnt k = (True, cnt, k)"
| "emit_batch f (pr # prs) cnt k =
    (case f pr k of
      (False, k) \<Rightarrow> (False, cnt + 1, k)
    | (True, k) \<Rightarrow> emit_batch f prs (cnt + 1) k)"

fun stream_chunks ::
  "('s, 'ctx) query_env \<Rightarrow> (prefix_record \<Rightarrow> 'k \<Rightarrow> bool \<times> 'k) \<Rightarrow> 's \<Rightarrow> nat \<Rightarrow> nat \<Rightarrow> prefix list list \<Rightarrow> nat \<Rightarrow> 'k \<Rightarrow> nat \<times> 'k" where
  "stream_chunks env f s n tick [] cnt k = (cnt, k)"
| "stream_chunks env f s n tick (c # cs) cnt k =
    (case emit_batch f (fetch_live env s n c) cnt k of
      (False, cnt, k) \<Rightarrow> (cnt, k)
    | (True, cnt, k) \<Rightarrow>
        if qe_late env tick then (cnt, k) else stream_chunks env f s (n + length c) (tick + 1) cs cnt k)"

definition stream_prefix_records ::
  "('s, 'ctx) query_env \<Rightarrow> (prefix_record \<Rightarrow> 'k \<Rightarrow> bool \<times> 'k) \<Rightarrow> 's rib \<Rightarrow> 'k \<Rightarrow> (query_error + nat) \<times> 'k" where
  "stream_prefix_records env f rib k =
    (case rb_unicast rib of
      None \<Rightarrow> (Inl QE_NotReady, k)
    | Some s \<Rightarrow>
        (let keys = st_prefixes_keys (qe_ops env) (qe_drift env 0 s)
         in case stream_chunks env f s 1 0 (chunks DUMP_KEY_CHUNK keys) 0 k of (cnt, k) \<Rightarrow> (Inr cnt, k)))"

subsection \<open>The response writer\<close>

datatype send_outcome = Sent | SendTimeout | SendClosed

datatype io_error = TimedOut | BrokenPipe

text \<open>\<open>sw_outcomes n\<close> is the outcome of the \<open>n\<close>-th send, \<open>sw_sends\<close> the number of sends so far.\<close>

record stream_writer =
  sw_buffer :: bytes
  sw_sent :: "bytes list"
  sw_sends :: nat
  sw_outcomes :: "nat \<Rightarrow> send_outcome"

definition STREAM_CHUNK_SIZE :: nat where
  "STREAM_CHUNK_SIZE = 256 * 1024"

definition writer_new :: "(nat \<Rightarrow> send_outcome) \<Rightarrow> stream_writer" where
  "writer_new outcomes = \<lparr>sw_buffer = [], sw_sent = [], sw_sends = 0, sw_outcomes = outcomes\<rparr>"

definition send_buffer :: "stream_writer \<Rightarrow> io_error option \<times> stream_writer" where
  "send_buffer w =
    (if sw_buffer w = [] then (None, w)
     else
       (let chunk = sw_buffer w;
            w' = w\<lparr>sw_buffer := [], sw_sends := sw_sends w + 1\<rparr>
        in case sw_outcomes w (sw_sends w) of
             Sent \<Rightarrow> (None, w'\<lparr>sw_sent := sw_sent w @ [chunk]\<rparr>)
           | SendTimeout \<Rightarrow> (Some TimedOut, w')
           | SendClosed \<Rightarrow> (Some BrokenPipe, w')))"

definition writer_write :: "bytes \<Rightarrow> stream_writer \<Rightarrow> io_error option \<times> stream_writer" where
  "writer_write buf w =
    (let w = w\<lparr>sw_buffer := sw_buffer w @ buf\<rparr>
     in if STREAM_CHUNK_SIZE \<le> length (sw_buffer w) then send_buffer w else (None, w))"

definition writer_flush :: "stream_writer \<Rightarrow> io_error option \<times> stream_writer" where
  "writer_flush w = send_buffer w"

text \<open>\<open>Write::write_all\<close> for each of the pieces of a text.\<close>

fun write_pieces :: "bytes list \<Rightarrow> stream_writer \<Rightarrow> io_error option \<times> stream_writer" where
  "write_pieces [] w = (None, w)"
| "write_pieces (b # bs) w =
    (if b = [] then write_pieces bs w
     else case writer_write b w of
       (Some e, w) \<Rightarrow> (Some e, w)
     | (None, w) \<Rightarrow> write_pieces bs w)"

definition newline :: bytes where
  "newline = [10]"

definition line_of ::
  "route_filter \<Rightarrow> (ingress_id, ingress_info) hmap \<Rightarrow> prefix \<Rightarrow> string \<Rightarrow> rib_record \<Rightarrow> jsonl_line" where
  "line_of f info p section r =
    \<lparr>jl_prefix = p, jl_section = section, jl_status = rec_status r,
     jl_ingress = map_option (Pair (rec_mui r)) (hm_get info (rec_mui r)), jl_pamap = rec_meta r,
     jl_fields = rf_fields_path_attributes f\<rparr>"

fun write_lines :: "('s, 'ctx) query_env \<Rightarrow> jsonl_line list \<Rightarrow> stream_writer \<Rightarrow> io_error option \<times> stream_writer" where
  "write_lines env [] w = (None, w)"
| "write_lines env (l # ls) w =
    (case write_pieces (qe_line env l @ [newline]) w of
      (Some e, w) \<Rightarrow> (Some e, w)
    | (None, w) \<Rightarrow> write_lines env ls w)"

definition recordset_lines ::
  "search_result \<Rightarrow> record_set option \<Rightarrow> string \<Rightarrow> jsonl_line list" where
  "recordset_lines sr rs section =
    (case rs of
      None \<Rightarrow> []
    | Some rs \<Rightarrow>
        concat (map (\<lambda>pr. map (line_of (sr_query_filter sr) (sr_ingress_info sr) (pr_prefix pr) section) (pr_meta pr))
          (rs_v4 rs @ rs_v6 rs)))"

definition result_lines :: "search_result \<Rightarrow> jsonl_line list" where
  "result_lines sr =
    (let qr = sr_query_result sr
     in (case qr_prefix qr of
          None \<Rightarrow> []
        | Some p \<Rightarrow> map (line_of (sr_query_filter sr) (sr_ingress_info sr) p ''data'') (qr_records qr)) @
        recordset_lines sr (qr_more_specifics qr) ''moreSpecifics'' @
        recordset_lines sr (qr_less_specifics qr) ''lessSpecifics'')"

definition write_jsonl :: "('s, 'ctx) query_env \<Rightarrow> search_result \<Rightarrow> stream_writer \<Rightarrow> io_error option \<times> stream_writer" where
  "write_jsonl env sr w = write_lines env (result_lines sr) w"

subsection \<open>The dump of an address family\<close>

record dump_counts =
  dc_scanned :: nat
  dc_emitted :: nat
  dc_records :: nat

fun fetch_all :: "('s, 'ctx) query_env \<Rightarrow> 's \<Rightarrow> nat \<Rightarrow> prefix list \<Rightarrow> prefix_record list" where
  "fetch_all env s n [] = []"
| "fetch_all env s n (p # ps) =
    (case st_get_records (qe_ops env) (qe_drift env n s) p None True of
      Inr (Some meta) \<Rightarrow> \<lparr>pr_prefix = p, pr_meta = meta\<rparr> # fetch_all env s (n + 1) ps
    | Inr None \<Rightarrow> \<lparr>pr_prefix = p, pr_meta = []\<rparr> # fetch_all env s (n + 1) ps
    | Inl _ \<Rightarrow> fetch_all env s (n + 1) ps)"

text \<open>
  What a dump of a record does: the lines of the record in turn. The result of a batch is an
  error of the writer or none, the writer, the counters and the context.
\<close>

fun dump_lines ::
  "('s, 'ctx) query_env \<Rightarrow> jsonl_line list \<Rightarrow> stream_writer \<Rightarrow> dump_counts \<Rightarrow>
   io_error option \<times> stream_writer \<times> dump_counts" where
  "dump_lines env [] w dc = (None, w, dc)"
| "dump_lines env (l # ls) w dc =
    (let dc = dc\<lparr>dc_records := dc_records dc + 1\<rparr>
     in case write_pieces (qe_line env l @ [newline]) w of
          (Some e, w) \<Rightarrow> (Some e, w, dc)
        | (None, w) \<Rightarrow> dump_lines env ls w dc)"

fun dump_batch ::
  "('s, 'ctx) query_env \<Rightarrow> route_filter \<Rightarrow> 'ctx roto_http_filter option \<Rightarrow> (ingress_id, ingress_info) hmap \<Rightarrow> prefix \<Rightarrow>
   prefix_record list \<Rightarrow> stream_writer \<Rightarrow> dump_counts \<Rightarrow> 'ctx \<Rightarrow>
   (io_error option \<times> stream_writer \<times> dump_counts \<times> 'ctx) option" where
  "dump_batch env f roto info q [] w dc ctx = Some (None, w, dc, ctx)"
| "dump_batch env f roto info q (pr # prs) w dc ctx =
    (let dc = dc\<lparr>dc_scanned := dc_scanned dc + 1\<rparr>;
         meta = filter not_withdrawn (pr_meta pr)
     in if meta = [] then dump_batch env f roto info q prs w dc ctx
        else
          (case apply_filter env f roto info meta ctx of
            None \<Rightarrow> None
          | Some (meta, ctx) \<Rightarrow>
              if meta = [] then dump_batch env f roto info q prs w dc ctx
              else
                (let dc = dc\<lparr>dc_emitted := dc_emitted dc + 1\<rparr>;
                     section = (if pr_prefix pr = q then ''data'' else ''moreSpecifics'')
                 in case dump_lines env (map (line_of f info (pr_prefix pr) section) meta) w dc of
                      (Some e, w, dc) \<Rightarrow> Some (Some e, w, dc, ctx)
                    | (None, w, dc) \<Rightarrow> dump_batch env f roto info q prs w dc ctx)))"

fun dump_chunks ::
  "('s, 'ctx) query_env \<Rightarrow> route_filter \<Rightarrow> 'ctx roto_http_filter option \<Rightarrow> (ingress_id, ingress_info) hmap \<Rightarrow> prefix \<Rightarrow> 's \<Rightarrow>
   nat \<Rightarrow> nat \<Rightarrow> prefix list list \<Rightarrow> stream_writer \<Rightarrow> dump_counts \<Rightarrow> 'ctx \<Rightarrow>
   (io_error option \<times> stream_writer \<times> dump_counts \<times> 'ctx) option" where
  "dump_chunks env f roto info q s n tick [] w dc ctx = Some (None, w, dc, ctx)"
| "dump_chunks env f roto info q s n tick (c # cs) w dc ctx =
    (case dump_batch env f roto info q (fetch_all env s n c) w dc ctx of
      None \<Rightarrow> None
    | Some (Some e, w, dc, ctx) \<Rightarrow> Some (Some e, w, dc, ctx)
    | Some (None, w, dc, ctx) \<Rightarrow>
        if qe_late env tick then Some (None, w, dc, ctx)
        else dump_chunks env f roto info q s (n + length c) (tick + 1) cs w dc ctx)"

datatype dump_error = DE_Query query_error | DE_Io io_error

definition write_jsonl_stream ::
  "('s, 'ctx) query_env \<Rightarrow> afisafi \<Rightarrow> prefix \<Rightarrow> route_filter \<Rightarrow> 's rib \<Rightarrow> stream_writer \<Rightarrow> 'ctx \<Rightarrow>
   (dump_error option \<times> stream_writer \<times> dump_counts \<times> 'ctx) option" where
  "write_jsonl_stream env a q f rib w ctx =
    (let dc = \<lparr>dc_scanned = 0, dc_emitted = 0, dc_records = 0\<rparr>
     in case query_store a rib of
          Inl e \<Rightarrow> Some (Some (DE_Query e), w, dc, ctx)
        | Inr s \<Rightarrow>
            (let info = reg_info (rb_register rib)
             in case find_function env f of
                  Inl e \<Rightarrow> Some (Some (DE_Query e), w, dc, ctx)
                | Inr roto \<Rightarrow>
                    (let keys = (if is_v4 q then st_prefixes_keys_v4 (qe_ops env) (qe_drift env 0 s)
                                 else st_prefixes_keys_v6 (qe_ops env) (qe_drift env 0 s))
                     in map_option (\<lambda>(e, w, dc, ctx). (map_option DE_Io e, w, dc, ctx))
                          (dump_chunks env f roto info q s 1 0 (chunks DUMP_KEY_CHUNK keys) w dc ctx))))"

subsection \<open>Endpoints\<close>

datatype api_error = BadRequest | InternalServerError | ServiceUnavailable

definition MAX_CONCURRENT_DUMPS :: u64 where
  "MAX_CONCURRENT_DUMPS = 8"

text \<open>
  The chunks of a response body; \<open>None\<close> when the task that writes it panics, which ends the body
  early. \<open>active\<close> is the number of dumps in flight when the request asks for a permit.
\<close>

definition stream_search_result ::
  "('s, 'ctx) query_env \<Rightarrow> search_result \<Rightarrow> (nat \<Rightarrow> send_outcome) \<Rightarrow> bytes list" where
  "stream_search_result env sr outcomes =
    (let w = snd (case rf_format (sr_query_filter sr) of
           Format_Json \<Rightarrow>
             write_pieces (qe_json env (sr_query_result sr) (sr_ingress_info sr) (sr_query_filter sr)) (writer_new outcomes)
         | Format_Jsonl \<Rightarrow> write_jsonl env sr (writer_new outcomes))
     in sw_sent (snd (writer_flush w)))"

definition stream_all_routes ::
  "('s, 'ctx) query_env \<Rightarrow> 's rib \<Rightarrow> afisafi \<Rightarrow> prefix \<Rightarrow> route_filter \<Rightarrow> u64 \<Rightarrow> (nat \<Rightarrow> send_outcome) \<Rightarrow> 'ctx \<Rightarrow>
   api_error + bytes list option" where
  "stream_all_routes env rib a q f active outcomes ctx =
    (case check_filter_and_store env a f rib of
      Some _ \<Rightarrow> Inl BadRequest
    | None \<Rightarrow>
        if MAX_CONCURRENT_DUMPS \<le> active then Inl ServiceUnavailable
        else Inr (map_option (\<lambda>(_, w, _). sw_sent (snd (writer_flush w)))
               (write_jsonl_stream env a q f rib (writer_new outcomes) ctx)))"

definition search_unicast ::
  "('s, 'ctx) query_env \<Rightarrow> bool \<Rightarrow> ip_addr \<Rightarrow> u8 \<Rightarrow> route_filter \<Rightarrow> 's rib option \<Rightarrow> u64 \<Rightarrow> (nat \<Rightarrow> send_outcome) \<Rightarrow> 'ctx \<Rightarrow>
   api_error + bytes list option" where
  "search_unicast env v4 addr len f store active outcomes ctx =
    (case qe_prefix_new env addr len of
      None \<Rightarrow> Inl BadRequest
    | Some p \<Rightarrow>
        (case store of
          None \<Rightarrow> Inl InternalServerError
        | Some rib \<Rightarrow>
            (let a = (if v4 then Ipv4Unicast else Ipv6Unicast)
             in if pfx_len p = 0 \<and> MoreSpecifics \<in> set (rf_include f) then
                  (if rf_format f \<noteq> Format_Jsonl then Inl BadRequest
                   else stream_all_routes env rib a p f active outcomes ctx)
                else
                  (case search_routes env a p f rib ctx of
                    None \<Rightarrow> Inl InternalServerError
                  | Some (Inl _, _) \<Rightarrow> Inl BadRequest
                  | Some (Inr sr, _) \<Rightarrow> Inr (Some (stream_search_result env sr outcomes))))))"

definition search_unicast_all ::
  "('s, 'ctx) query_env \<Rightarrow> bool \<Rightarrow> route_filter \<Rightarrow> 's rib option \<Rightarrow> u64 \<Rightarrow> (nat \<Rightarrow> send_outcome) \<Rightarrow> 'ctx \<Rightarrow>
   api_error + bytes list option" where
  "search_unicast_all env v4 f store active outcomes ctx =
    search_unicast env v4 (if v4 then V4 0 else V6 0) 0 (enable_more_specifics f) store active outcomes ctx"

end
