(* ===== verification/Rib_Dump.thy ===== *)
theory Rib_Dump
  imports Rib_Query
begin

text \<open>
  What the queries of \<open>Rib_Query\<close> return. A query filter is one predicate on records (\<open>passes\<close>),
  whatever the order of its stages. A client gets exactly the text that was written, or a prefix
  of it when a send fails. A dump lists every route that is there from its beginning to its end
  exactly once, whatever happens to the other routes meanwhile, and nothing that was never there.
  Over a store at rest it has the same lines as the search for the whole address space.

  The limit on concurrent dumps (\<open>DumpGuard\<close>) is a transition system of threads.
\<close>

subsection \<open>Filters\<close>

definition info_passes ::
  "'v option \<Rightarrow> (ingress_info \<Rightarrow> 'v option) \<Rightarrow> (ingress_id, ingress_info) hmap \<Rightarrow> rib_record \<Rightarrow> bool" where
  "info_passes wanted field info r =
    (wanted = None \<or> (case hm_get info (rec_mui r) of None \<Rightarrow> True | Some ii \<Rightarrow> field ii = wanted))"

definition passes ::
  "('s, 'ctx) query_env \<Rightarrow> route_filter \<Rightarrow> (rotonda_pa_map \<Rightarrow> bool) \<Rightarrow> (ingress_id, ingress_info) hmap \<Rightarrow> rib_record \<Rightarrow> bool" where
  "passes env f acc info r =
    ((rf_ingress_id f = None \<or> rf_ingress_id f = Some (rec_mui r)) \<and>
     info_passes (rf_rib_type f) ii_peer_rib_type info r \<and>
     info_passes (rf_peer_asn f) ii_remote_asn info r \<and>
     info_passes (rf_peer_addr f) ii_remote_addr info r \<and>
     acc (rec_meta r) \<and>
     (attributes_asked f \<longrightarrow> attributes_match env f r = Some True))"

text \<open>A roto filter whose verdict depends on the route only, not on the context.\<close>

definition verdict :: "'ctx roto_http_filter option \<Rightarrow> (rotonda_pa_map \<Rightarrow> bool) \<Rightarrow> bool" where
  "verdict roto acc =
    (case roto of None \<Rightarrow> acc = (\<lambda>_. True) | Some g \<Rightarrow> (\<forall>ctx pm. fst (g ctx pm) = acc pm))"

lemma retain_info_filter: "retain_info wanted field info rs = filter (info_passes wanted field info) rs"
  by (auto simp: retain_info_def info_passes_def fun_eq_iff split: option.splits intro!: filter_cong)

lemma retain_roto_filter:
  "(\<And>ctx pm. fst (g ctx pm) = acc pm) \<Longrightarrow> fst (retain_roto g rs ctx) = filter (\<lambda>r. acc (rec_meta r)) rs"
proof (induction rs arbitrary: ctx)
  case (Cons r rs)
  then have "fst (g ctx (rec_meta r)) = acc (rec_meta r)" by simp
  with Cons.IH [OF Cons.prems] show ?case by (simp add: split_beta)
qed simp

lemma get_rpki_info_readable: "readable r \<Longrightarrow> get_rpki_info (rec_meta r) \<noteq> None"
  by (auto simp: readable_def path_attributes_def get_rpki_info_def split: list.splits)

lemma attributes_match_total:
  assumes "readable r"
  shows "attributes_match env f r \<noteq> None"
proof -
  obtain pas i where p: "path_attributes (rec_meta r) = Some pas" "get_rpki_info (rec_meta r) = Some i"
    using assms get_rpki_info_readable [OF assms] by (auto simp: readable_def)
  obtain b where "(case rf_rov_status f of None \<Rightarrow> Some True | Some st \<Rightarrow> map_option (\<lambda>i. rov i = st) (get_rpki_info (rec_meta r))) = Some b"
    by (cases "rf_rov_status f") (simp_all add: p)
  then show ?thesis by (cases b) (simp_all add: attributes_match_def p del: not_None_eq)
qed

lemma retain_filter:
  "list_all (\<lambda>x. f x \<noteq> None) xs \<Longrightarrow> retain f xs = Some (filter (\<lambda>x. f x = Some True) xs)"
  by (induction xs) auto

lemma apply_filter_passes:
  assumes "list_all readable rs" and "verdict roto acc"
  shows "\<exists>ctx'. apply_filter env f roto info rs ctx = Some (filter (passes env f acc info) rs, ctx')"
proof -
  define rs1 where "rs1 = filter (info_passes (rf_peer_addr f) ii_remote_addr info)
    (filter (info_passes (rf_peer_asn f) ii_remote_asn info) (filter (info_passes (rf_rib_type f) ii_peer_rib_type info)
      (filter (\<lambda>r. rf_ingress_id f = None \<or> rf_ingress_id f = Some (rec_mui r)) rs)))"
  have ing: "(case rf_ingress_id f of None \<Rightarrow> rs | Some i \<Rightarrow> filter (\<lambda>r. rec_mui r = i) rs) =
      filter (\<lambda>r. rf_ingress_id f = None \<or> rf_ingress_id f = Some (rec_mui r)) rs"
    by (auto split: option.splits intro!: filter_cong)
  obtain rs2 ctx2 where r2: "(case roto of None \<Rightarrow> (rs1, ctx) | Some g \<Rightarrow> retain_roto g rs1 ctx) = (rs2, ctx2)"
    by fastforce
  have rs2: "rs2 = filter (\<lambda>r. acc (rec_meta r)) rs1"
  proof (cases roto)
    case (Some g)
    then have "\<And>ctx pm. fst (g ctx pm) = acc pm" using assms(2) by (simp add: verdict_def)
    from retain_roto_filter [of g acc rs1 ctx, OF this] show ?thesis using r2 Some by simp
  qed (use r2 assms(2) in \<open>auto simp: verdict_def\<close>)
  have "list_all (\<lambda>r. attributes_match env f r \<noteq> None) rs2"
    using assms(1) attributes_match_total [of _ env f] by (auto simp: rs2 rs1_def list_all_iff simp del: not_None_eq)
  note ret = retain_filter [OF this]
  have "apply_filter env f roto info rs ctx =
      Some (if attributes_asked f then filter (\<lambda>r. attributes_match env f r = Some True) rs2 else rs2, ctx2)"
    unfolding apply_filter_def Let_def ing retain_info_filter rs1_def [symmetric] r2 by (simp add: ret)
  moreover have "(if attributes_asked f then filter (\<lambda>r. attributes_match env f r = Some True) rs2 else rs2) =
      filter (passes env f acc info) rs"
    by (auto simp: rs2 rs1_def passes_def intro!: filter_cong)
  ultimately show ?thesis by auto
qed

subsection \<open>The writer\<close>

definition written :: "stream_writer \<Rightarrow> bytes" where
  "written w = concat (sw_sent w) @ sw_buffer w"

definition reading :: "stream_writer \<Rightarrow> bool" where
  "reading w = (\<forall>n. sw_outcomes w n = Sent)"

text \<open>
  One operation of the writer on a text: with a client that keeps reading it succeeds and all of
  the text is written; otherwise, on an error, what was sent is a prefix.
\<close>

definition writes_text :: "bytes \<Rightarrow> stream_writer \<Rightarrow> io_error option \<Rightarrow> stream_writer \<Rightarrow> bool" where
  "writes_text t w e w' =
    (sw_outcomes w' = sw_outcomes w \<and> (reading w \<longrightarrow> e = None) \<and> (e = None \<longrightarrow> written w' = written w @ t) \<and>
     (\<exists>rest. written w @ t = concat (sw_sent w') @ rest) \<and> (e \<noteq> None \<longrightarrow> sw_buffer w' = []))"

lemma send_buffer_text: "writes_text [] w (fst (send_buffer w)) (snd (send_buffer w))"
  by (auto simp: writes_text_def send_buffer_def written_def reading_def Let_def split: send_outcome.splits)

lemma send_buffer_empties: "sw_buffer (snd (send_buffer w)) = []"
  by (auto simp: send_buffer_def Let_def split: send_outcome.splits)

lemma writer_write_text: "writes_text b w (fst (writer_write b w)) (snd (writer_write b w))"
proof (cases "STREAM_CHUNK_SIZE \<le> length (sw_buffer w @ b)")
  case True
  have "written (w\<lparr>sw_buffer := sw_buffer w @ b\<rparr>) = written w @ b" "reading (w\<lparr>sw_buffer := sw_buffer w @ b\<rparr>) = reading w"
    by (simp_all add: written_def reading_def)
  then show ?thesis using send_buffer_text [of "w\<lparr>sw_buffer := sw_buffer w @ b\<rparr>"] True
    by (simp add: writer_write_def writes_text_def)
qed (auto simp: writer_write_def writes_text_def written_def)

lemma writes_text_trans:
  assumes "writes_text a w None w1" and "writes_text b w1 e w2"
  shows "writes_text (a @ b) w e w2"
  using assms by (auto simp: writes_text_def reading_def)

lemma writes_text_fail: "writes_text a w (Some e) w1 \<Longrightarrow> writes_text (a @ b) w (Some e) w1"
  by (auto simp: writes_text_def) (metis append_assoc)

lemma writes_text_refl: "writes_text [] w None w"
  by (simp add: writes_text_def written_def)

lemma write_pieces_text: "writes_text (concat bs) w (fst (write_pieces bs w)) (snd (write_pieces bs w))"
proof (induction bs arbitrary: w)
  case (Cons b bs)
  obtain e w1 where w1: "writer_write b w = (e, w1)" by fastforce
  have t: "writes_text b w e w1" using writer_write_text [of b w] w1 by simp
  show ?case
  proof (cases e)
    case None
    then show ?thesis using writes_text_trans [OF t [unfolded None] Cons.IH [of w1]] Cons.IH [of w] w1 by simp
  next
    case (Some x)
    then show ?thesis using writes_text_fail [OF t [unfolded Some]] Cons.IH [of w] w1 by simp
  qed
qed (simp add: writes_text_refl)

definition text_of :: "('s, 'ctx) query_env \<Rightarrow> jsonl_line list \<Rightarrow> bytes" where
  "text_of env ls = concat (map (\<lambda>l. concat (qe_line env l) @ newline) ls)"

lemma text_of_simps [simp]:
  "text_of env [] = []" "text_of env (l # ls) = concat (qe_line env l @ [newline]) @ text_of env ls"
  "text_of env (xs @ ys) = text_of env xs @ text_of env ys"
  by (simp_all add: text_of_def)

lemma dump_lines_text:
  "case dump_lines env ls w dc of (e, w', dc') \<Rightarrow> writes_text (text_of env ls) w e w'"
proof (induction ls arbitrary: w dc)
  case (Cons l ls)
  obtain e w1 where w1: "write_pieces (qe_line env l @ [newline]) w = (e, w1)" by fastforce
  have t: "writes_text (concat (qe_line env l @ [newline])) w e w1"
    using write_pieces_text [of "qe_line env l @ [newline]" w] w1 by simp
  show ?case
  proof (cases e)
    case None
    then show ?thesis using Cons.IH [of w1 "dc\<lparr>dc_records := dc_records dc + 1\<rparr>"] writes_text_trans [OF t [unfolded None]] w1
      by (auto simp: Let_def)
  next
    case (Some x)
    then show ?thesis using writes_text_fail [OF t [unfolded Some]] w1 by (simp add: Let_def)
  qed
qed (simp add: writes_text_refl)

lemma write_lines_text:
  "writes_text (text_of env ls) w (fst (write_lines env ls w)) (snd (write_lines env ls w))"
proof (induction ls arbitrary: w)
  case (Cons l ls)
  obtain e w1 where w1: "write_pieces (qe_line env l @ [newline]) w = (e, w1)" by fastforce
  have t: "writes_text (concat (qe_line env l @ [newline])) w e w1"
    using write_pieces_text [of "qe_line env l @ [newline]" w] w1 by simp
  show ?case
  proof (cases e)
    case None
    then show ?thesis using writes_text_trans [OF t [unfolded None] Cons.IH [of w1]] w1 by simp
  next
    case (Some x)
    then show ?thesis using writes_text_fail [OF t [unfolded Some]] w1 by simp
  qed
qed (simp add: writes_text_refl)

subsection \<open>What a dump writes\<close>

definition keeps ::
  "('s, 'ctx) query_env \<Rightarrow> route_filter \<Rightarrow> (rotonda_pa_map \<Rightarrow> bool) \<Rightarrow> (ingress_id, ingress_info) hmap \<Rightarrow> rib_record \<Rightarrow> bool" where
  "keeps env f acc info r = (not_withdrawn r \<and> passes env f acc info r)"

definition kept :: "(rib_record \<Rightarrow> bool) \<Rightarrow> prefix_record list \<Rightarrow> (prefix \<times> rib_record) list" where
  "kept P prs = concat (map (\<lambda>pr. map (Pair (pr_prefix pr)) (filter P (pr_meta pr))) prs)"

definition dump_line ::
  "route_filter \<Rightarrow> (ingress_id, ingress_info) hmap \<Rightarrow> prefix \<Rightarrow> prefix \<times> rib_record \<Rightarrow> jsonl_line" where
  "dump_line f info q = (\<lambda>(p, r). line_of f info p (if p = q then ''data'' else ''moreSpecifics'') r)"

lemma kept_simps [simp]:
  "kept P [] = []" "kept P (pr # prs) = map (Pair (pr_prefix pr)) (filter P (pr_meta pr)) @ kept P prs"
  "kept P (xs @ ys) = kept P xs @ kept P ys"
  by (simp_all add: kept_def)

lemma kept_mem: "(p, r) \<in> set (kept P prs) \<longleftrightarrow> (\<exists>pr \<in> set prs. pr_prefix pr = p \<and> r \<in> set (pr_meta pr) \<and> P r)"
  by (auto simp: kept_def)

lemma dump_batch_text:
  assumes "verdict roto acc" and "\<forall>pr \<in> set prs. list_all readable (pr_meta pr)"
  shows "\<exists>e w' dc' ctx'. dump_batch env f roto info q prs w dc ctx = Some (e, w', dc', ctx') \<and>
    writes_text (text_of env (map (dump_line f info q) (kept (keeps env f acc info) prs))) w e w'"
  using assms(2)
proof (induction prs arbitrary: w dc ctx)
  case (Cons pr prs)
  define dc1 where "dc1 = dc\<lparr>dc_scanned := dc_scanned dc + 1\<rparr>"
  define meta where "meta = filter not_withdrawn (pr_meta pr)"
  define out where "out = filter (passes env f acc info) meta"
  define ls where "ls = map (line_of f info (pr_prefix pr) (if pr_prefix pr = q then ''data'' else ''moreSpecifics'')) out"
  have keep: "filter (keeps env f acc info) (pr_meta pr) = out"
    by (auto simp: keeps_def out_def meta_def intro: filter_cong)
  have lines: "map (dump_line f info q) (map (Pair (pr_prefix pr)) out) = ls" by (simp add: ls_def dump_line_def)
  have rd: "list_all readable meta" using Cons.prems by (auto simp: meta_def list_all_iff)
  obtain ctx1 where af: "apply_filter env f roto info meta ctx = Some (out, ctx1)"
    using apply_filter_passes [OF rd assms(1)] out_def by blast
  have rest: "\<forall>pr \<in> set prs. list_all readable (pr_meta pr)" using Cons.prems by simp
  show ?case
  proof (cases "out = []")
    case True
    then obtain ctx2 where st: "dump_batch env f roto info q (pr # prs) w dc ctx = dump_batch env f roto info q prs w dc1 ctx2"
      using af by (cases "meta = []") (auto simp: Let_def meta_def [symmetric] dc1_def)
    show ?thesis unfolding st using Cons.IH [OF rest, of w dc1 ctx2] keep True by simp
  next
    case False
    then have m: "meta \<noteq> []" by (auto simp: out_def)
    define dc2 where "dc2 = dc1\<lparr>dc_emitted := dc_emitted dc1 + 1\<rparr>"
    obtain e w1 dc3 where d: "dump_lines env ls w dc2 = (e, w1, dc3)" by (cases "dump_lines env ls w dc2")
    have t: "writes_text (text_of env ls) w e w1" using dump_lines_text [of env ls w dc2] d by simp
    have step: "dump_batch env f roto info q (pr # prs) w dc ctx =
        (case (e, w1, dc3) of (Some e, w, dc) \<Rightarrow> Some (Some e, w, dc, ctx1)
         | (None, w, dc) \<Rightarrow> dump_batch env f roto info q prs w dc ctx1)"
      using af m False d [unfolded ls_def dc2_def dc1_def] by (simp add: Let_def meta_def [symmetric] del: dump_lines.simps)
    obtain e2 w2 dc4 ctx2 where ih: "dump_batch env f roto info q prs w1 dc3 ctx1 = Some (e2, w2, dc4, ctx2)"
      "writes_text (text_of env (map (dump_line f info q) (kept (keeps env f acc info) prs))) w1 e2 w2"
      using Cons.IH [OF rest] by blast
    show ?thesis
    proof (cases e)
      case None
      then show ?thesis unfolding step using ih(1) writes_text_trans [OF t [unfolded None] ih(2)] keep lines by auto
    next
      case (Some x)
      then show ?thesis unfolding step using writes_text_fail [OF t [unfolded Some]] keep lines by auto
    qed
  qed
qed (simp add: writes_text_refl)

lemma fetch_all_append: "fetch_all env s n (xs @ ys) = fetch_all env s n xs @ fetch_all env s (n + length xs) ys"
  by (induction xs arbitrary: n) (auto split: sum.splits option.splits)

lemma chunks_concat: "0 < n \<Longrightarrow> concat (chunks n xs) = xs"
proof (induction n xs rule: chunks.induct)
  case (1 n xs)
  show ?case
  proof (cases "xs = []")
    case False
    with 1 show ?thesis by (subst chunks.simps) simp
  qed (simp add: chunks.simps)
qed

definition fetches_readable :: "('s, 'ctx) query_env \<Rightarrow> 's \<Rightarrow> bool" where
  "fetches_readable env s = (\<forall>n p meta.
    st_get_records (qe_ops env) (qe_drift env n s) p None True = Inr (Some meta) \<longrightarrow> list_all readable meta)"

lemma fetch_all_readable:
  "fetches_readable env s \<Longrightarrow> pr \<in> set (fetch_all env s n ps) \<Longrightarrow> list_all readable (pr_meta pr)"
  by (induction ps arbitrary: n) (auto simp: fetches_readable_def split: sum.splits option.splits)

text \<open>The number of chunks a dump gets to before its deadline.\<close>

fun reached :: "('s, 'ctx) query_env \<Rightarrow> nat \<Rightarrow> 'a list list \<Rightarrow> nat" where
  "reached env tick [] = 0"
| "reached env tick (c # cs) = (if qe_late env tick then 1 else Suc (reached env (tick + 1) cs))"

lemma reached_all: "(\<And>t. \<not> qe_late env t) \<Longrightarrow> reached env tick cs = length cs"
  by (induction cs arbitrary: tick) auto

lemma dump_chunks_text:
  assumes "verdict roto acc" and "fetches_readable env s"
  shows "\<exists>e w' dc' ctx'. dump_chunks env f roto info q s n tick cs w dc ctx = Some (e, w', dc', ctx') \<and>
    writes_text (text_of env (map (dump_line f info q)
      (kept (keeps env f acc info) (fetch_all env s n (concat (take (reached env tick cs) cs)))))) w e w'"
proof (induction cs arbitrary: n tick w dc ctx)
  case (Cons c cs)
  let ?text = "\<lambda>prs. text_of env (map (dump_line f info q) (kept (keeps env f acc info) prs))"
  have rd: "\<forall>pr \<in> set (fetch_all env s n c). list_all readable (pr_meta pr)"
    using fetch_all_readable [OF assms(2)] by blast
  obtain e w1 dc1 ctx1 where b: "dump_batch env f roto info q (fetch_all env s n c) w dc ctx = Some (e, w1, dc1, ctx1)"
    and t: "writes_text (?text (fetch_all env s n c)) w e w1"
    using dump_batch_text [OF assms(1) rd] by blast
  obtain e2 w2 dc2 ctx2 where ih: "dump_chunks env f roto info q s (n + length c) (tick + 1) cs w1 dc1 ctx1 = Some (e2, w2, dc2, ctx2)"
    "writes_text (?text (fetch_all env s (n + length c) (concat (take (reached env (tick + 1) cs) cs)))) w1 e2 w2"
    using Cons.IH by blast
  show ?case
  proof (cases e)
    case (Some x)
    then show ?thesis using b t writes_text_fail [OF t [unfolded Some]] by (auto simp: fetch_all_append)
  next
    case None
    then show ?thesis using b t ih(1) writes_text_trans [OF t [unfolded None] ih(2)] by (auto simp: fetch_all_append)
  qed
qed (simp add: writes_text_refl)

lemma kept_fetch_all:
  assumes "store_laws (qe_ops env) v"
  shows "(p, r) \<in> set (kept P (fetch_all env s n ps)) \<longleftrightarrow>
    (\<exists>j < length ps. ps ! j = p \<and> eff_rec v (qe_drift env (n + j) s) p (rec_mui r) = Some r \<and> P r)"
proof (induction ps arbitrary: n)
  case (Cons q ps)
  have g: "gets v (qe_drift env n s) q (st_get_records (qe_ops env) (qe_drift env n s) q None True)"
    by (rule store_laws_iter(8) [OF assms])
  have split: "(\<exists>j < length (q # ps). (q # ps) ! j = p \<and> eff_rec v (qe_drift env (n + j) s) p (rec_mui r) = Some r \<and> P r) \<longleftrightarrow>
      (q = p \<and> eff_rec v (qe_drift env n s) p (rec_mui r) = Some r \<and> P r) \<or>
      (\<exists>j < length ps. ps ! j = p \<and> eff_rec v (qe_drift env (n + 1 + j) s) p (rec_mui r) = Some r \<and> P r)"
    by (auto simp: less_Suc_eq_0_disj)
  show ?case
  proof (cases "\<exists>i. sv_rec v (qe_drift env n s) q i \<noteq> None")
    case True
    then obtain rs where rs: "st_get_records (qe_ops env) (qe_drift env n s) q None True = Inr (Some rs)"
      "set rs = {r. eff_rec v (qe_drift env n s) q (rec_mui r) = Some r}"
      using g by (auto simp: gets_def)
    then show ?thesis unfolding split using Cons.IH [of "n + 1"] by auto
  next
    case False
    then have "st_get_records (qe_ops env) (qe_drift env n s) q None True = Inr None" using g by (auto simp: gets_def)
    moreover have "eff_rec v (qe_drift env n s) q i = None" for i using False by (auto simp: eff_rec_def split: option.splits)
    ultimately show ?thesis unfolding split using Cons.IH [of "n + 1"] by auto
  qed
qed simp

lemma kept_distinct:
  assumes "store_laws (qe_ops env) v" and "distinct ps"
  shows "distinct (map (\<lambda>(p, r). (p, rec_mui r)) (kept P (fetch_all env s n ps)))"
  using assms(2)
proof (induction ps arbitrary: n)
  case (Cons q ps)
  have g: "gets v (qe_drift env n s) q (st_get_records (qe_ops env) (qe_drift env n s) q None True)"
    by (rule store_laws_iter(8) [OF assms(1)])
  have new: "(q, r) \<notin> set (kept P (fetch_all env s (n + 1) ps))" for r
    using Cons.prems by (auto simp: kept_fetch_all [OF assms(1)])
  have ih: "distinct (map (\<lambda>(p, r). (p, rec_mui r)) (kept P (fetch_all env s (n + 1) ps)))" using Cons by simp
  show ?case
  proof (cases "\<exists>i. sv_rec v (qe_drift env n s) q i \<noteq> None")
    case True
    then obtain rs where rs: "st_get_records (qe_ops env) (qe_drift env n s) q None True = Inr (Some rs)"
      "distinct (map rec_mui rs)" using g by (auto simp: gets_def)
    have "distinct (map rec_mui (filter P rs))" using rs(2) distinct_map_filter by blast
    then have "distinct (map (\<lambda>r. (q, rec_mui r)) (filter P rs))" by (auto simp: distinct_map inj_on_def)
    then show ?thesis using rs(1) new ih by (auto simp: comp_def)
  next
    case False
    then have "st_get_records (qe_ops env) (qe_drift env n s) q None True = Inr None" using g by (auto simp: gets_def)
    then show ?thesis using ih by simp
  qed
qed simp

text \<open>The routes a dump lists.\<close>

definition dump_keys :: "('s, 'ctx) query_env \<Rightarrow> bool \<Rightarrow> 's \<Rightarrow> prefix list" where
  "dump_keys env v4 s =
    (if v4 then st_prefixes_keys_v4 (qe_ops env) (qe_drift env 0 s) else st_prefixes_keys_v6 (qe_ops env) (qe_drift env 0 s))"

definition dump_routes ::
  "('s, 'ctx) query_env \<Rightarrow> route_filter \<Rightarrow> (rotonda_pa_map \<Rightarrow> bool) \<Rightarrow> (ingress_id, ingress_info) hmap \<Rightarrow> bool \<Rightarrow> 's \<Rightarrow>
   (prefix \<times> rib_record) list" where
  "dump_routes env f acc info v4 s =
    (let cs = chunks DUMP_KEY_CHUNK (dump_keys env v4 s)
     in kept (keeps env f acc info) (fetch_all env s 1 (concat (take (reached env 0 cs) cs))))"

lemma write_jsonl_stream_text:
  assumes "query_store a rib = Inr s" and "find_function env f = Inr roto" and "verdict roto acc" and "fetches_readable env s"
  shows "\<exists>e w' dc ctx'. write_jsonl_stream env a q f rib w ctx = Some (map_option DE_Io e, w', dc, ctx') \<and>
    writes_text (text_of env (map (dump_line f (reg_info (rb_register rib)) q)
      (dump_routes env f acc (reg_info (rb_register rib)) (is_v4 q) s))) w e w'"
proof -
  let ?cs = "chunks DUMP_KEY_CHUNK (dump_keys env (is_v4 q) s)"
  obtain e w' dc ctx' where d: "dump_chunks env f roto (reg_info (rb_register rib)) q s 1 0 ?cs w
      \<lparr>dc_scanned = 0, dc_emitted = 0, dc_records = 0\<rparr> ctx = Some (e, w', dc, ctx')"
    and t: "writes_text (text_of env (map (dump_line f (reg_info (rb_register rib)) q)
      (dump_routes env f acc (reg_info (rb_register rib)) (is_v4 q) s))) w e w'"
    using dump_chunks_text [OF assms(3,4)] unfolding dump_routes_def Let_def by metis
  have "write_jsonl_stream env a q f rib w ctx = Some (map_option DE_Io e, w', dc, ctx')"
    using d assms(1,2) by (simp add: write_jsonl_stream_def Let_def dump_keys_def)
  with t show ?thesis by blast
qed

lemma sent_after_flush:
  assumes "writes_text t (writer_new outcomes) e w'"
  shows "\<exists>rest. t = concat (sw_sent (snd (writer_flush w'))) @ rest"
    and "(\<And>n. outcomes n = Sent) \<Longrightarrow> concat (sw_sent (snd (writer_flush w'))) = t"
proof -
  have new: "written (writer_new outcomes) = []" "sw_outcomes (writer_new outcomes) = outcomes"
    by (simp_all add: writer_new_def written_def)
  note fl = send_buffer_text [of w', folded writer_flush_def] and em = send_buffer_empties [of w', folded writer_flush_def]
  show "\<exists>rest. t = concat (sw_sent (snd (writer_flush w'))) @ rest"
  proof (cases e)
    case None
    then show ?thesis using assms fl new by (auto simp: writes_text_def)
  next
    case (Some x)
    then have "sw_buffer w' = []" using assms by (simp add: writes_text_def)
    then show ?thesis using assms new by (auto simp: writes_text_def writer_flush_def send_buffer_def)
  qed
  assume ok: "\<And>n. outcomes n = Sent"
  then have "reading (writer_new outcomes)" by (simp add: reading_def new)
  then have "written w' = t" "reading w'" using assms new ok by (auto simp: writes_text_def reading_def)
  then have "written (snd (writer_flush w')) = t" using fl by (simp add: writes_text_def)
  then show "concat (sw_sent (snd (writer_flush w'))) = t" using em by (simp add: written_def)
qed

lemma enable_more_specifics_fields [simp]:
  "MoreSpecifics \<in> set (rf_include (enable_more_specifics f))"
  "rf_format (enable_more_specifics f) = rf_format f"
  "rf_ingress_id (enable_more_specifics f) = rf_ingress_id f" "rf_origin_asn (enable_more_specifics f) = rf_origin_asn f"
  "rf_otc (enable_more_specifics f) = rf_otc f" "rf_community (enable_more_specifics f) = rf_community f"
  "rf_large_community (enable_more_specifics f) = rf_large_community f" "rf_rib_type (enable_more_specifics f) = rf_rib_type f"
  "rf_rov_status (enable_more_specifics f) = rf_rov_status f" "rf_peer_asn (enable_more_specifics f) = rf_peer_asn f"
  "rf_peer_addr (enable_more_specifics f) = rf_peer_addr f" "rf_roto_function (enable_more_specifics f) = rf_roto_function f"
  "rf_fields_path_attributes (enable_more_specifics f) = rf_fields_path_attributes f"
  by (simp_all add: enable_more_specifics_def)

lemma enable_more_specifics_filter [simp]:
  "find_function env (enable_more_specifics f) = find_function env f"
  "keeps env (enable_more_specifics f) = keeps env f"
  "line_of (enable_more_specifics f) = line_of f"
proof -
  have "attributes_match env (enable_more_specifics f) = attributes_match env f"
    by (rule ext) (simp only: attributes_match_def enable_more_specifics_fields)
  then show "keeps env (enable_more_specifics f) = keeps env f"
    by (simp add: keeps_def passes_def attributes_asked_def fun_eq_iff)
qed (simp_all add: find_function_def line_of_def fun_eq_iff)

text \<open>The zero-length prefix of an address family, as \<open>Prefix::new\<close> makes it.\<close>

definition whole :: "bool \<Rightarrow> prefix" where
  "whole v4 = \<lparr>pfx_addr = (if v4 then V4 0 else V6 0), pfx_len = 0\<rparr>"

lemma is_v4_whole [simp]: "is_v4 (whole v4) = v4" "pfx_len (whole v4) = 0"
  by (simp_all add: whole_def is_v4_def)

lemma full_dump_body:
  assumes "rb_unicast rib = Some s" and "find_function env f = Inr roto" and "verdict roto acc" and "fetches_readable env s"
    and "qe_prefix_new env (pfx_addr (whole v4)) 0 = Some (whole v4)"
    and "rf_format f = Format_Jsonl" and "active < MAX_CONCURRENT_DUMPS"
  shows "\<exists>body. search_unicast_all env v4 f (Some rib) active outcomes ctx = Inr (Some body) \<and>
    (\<exists>rest. text_of env (map (dump_line f (reg_info (rb_register rib)) (whole v4))
      (dump_routes env f acc (reg_info (rb_register rib)) v4 s)) = concat body @ rest) \<and>
    ((\<forall>n. outcomes n = Sent) \<longrightarrow> concat body = text_of env (map (dump_line f (reg_info (rb_register rib)) (whole v4))
      (dump_routes env f acc (reg_info (rb_register rib)) v4 s)))"
proof -
  define a where "a = (if v4 then Ipv4Unicast else Ipv6Unicast)"
  define f' where "f' = enable_more_specifics f"
  have q: "query_store a rib = Inr s" using assms(1) by (simp add: query_store_def a_def)
  have fn: "find_function env f' = Inr roto" using assms(2) by (simp add: f'_def)
  obtain e w' dc ctx' where d: "write_jsonl_stream env a (whole v4) f' rib (writer_new outcomes) ctx = Some (map_option DE_Io e, w', dc, ctx')"
    and t: "writes_text (text_of env (map (dump_line f' (reg_info (rb_register rib)) (whole v4))
      (dump_routes env f' acc (reg_info (rb_register rib)) (is_v4 (whole v4)) s))) (writer_new outcomes) e w'"
    using write_jsonl_stream_text [OF q fn assms(3,4)] by blast
  have addr: "(if v4 then V4 0 else V6 0) = pfx_addr (whole v4)" by (simp add: whole_def)
  have inc: "MoreSpecifics \<in> set (rf_include f')" "rf_format f' = Format_Jsonl" using assms(6) by (simp_all add: f'_def)
  have "check_filter_and_store env a f' rib = None" using q fn by (simp add: check_filter_and_store_def)
  then have "search_unicast_all env v4 f (Some rib) active outcomes ctx = Inr (Some (sw_sent (snd (writer_flush w'))))"
    using d assms(5,7) inc unfolding search_unicast_all_def addr f'_def [symmetric]
    by (simp add: search_unicast_def stream_all_routes_def a_def [symmetric] not_le)
  moreover have "dump_line f' = dump_line f" "dump_routes env f' = dump_routes env f"
    by (auto simp: f'_def dump_line_def dump_routes_def fun_eq_iff)
  ultimately show ?thesis using sent_after_flush [OF t] by auto
qed

lemma dump_keys_set:
  assumes "store_laws (qe_ops env) v"
  shows "set (dump_keys env v4 s) = {p. is_v4 p = v4 \<and> (\<exists>i. sv_rec v (qe_drift env 0 s) p i \<noteq> None)}"
    and "distinct (dump_keys env v4 s)"
  using store_laws_iter(4-7) [OF assms, where s = "qe_drift env 0 s"] by (auto simp: dump_keys_def)

lemma concat_take_prefix: "\<exists>rest. concat cs = concat (take n cs) @ rest"
  by (metis append_take_drop_id concat_append)

lemma readable_withdrawn [simp]: "readable (r\<lparr>rec_status := st\<rparr>) = readable r"
  by (simp add: readable_def)

lemma fetches_readableI:
  assumes "store_laws (qe_ops env) v" and "\<And>n p i r. sv_rec v (qe_drift env n s) p i = Some r \<Longrightarrow> readable r"
  shows "fetches_readable env s"
  unfolding fetches_readable_def
proof (intro allI impI)
  fix n p meta
  assume m: "st_get_records (qe_ops env) (qe_drift env n s) p None True = Inr (Some meta)"
  have "gets v (qe_drift env n s) p (Inr (Some meta))"
    using store_laws_iter(8) [OF assms(1), where s = "qe_drift env n s" and p = p] m by simp
  then have "set meta = {r. eff_rec v (qe_drift env n s) p (rec_mui r) = Some r}" by (auto simp: gets_def split: if_splits)
  then show "list_all readable meta"
    using assms(2) by (auto simp: list_all_iff eff_rec_def split: option.splits if_splits)
qed

lemma dump_routes_churn:
  assumes laws: "store_laws (qe_ops env) v"
  shows "distinct (map (\<lambda>(p, r). (p, rec_mui r)) (dump_routes env f acc info v4 s))"
    and "(p, r) \<in> set (dump_routes env f acc info v4 s) \<Longrightarrow>
      is_v4 p = v4 \<and> keeps env f acc info r \<and> (\<exists>n. eff_rec v (qe_drift env n s) p (rec_mui r) = Some r)"
    and "(\<And>t. \<not> qe_late env t) \<Longrightarrow> is_v4 p = v4 \<Longrightarrow> keeps env f acc info r \<Longrightarrow>
      (\<And>n. eff_rec v (qe_drift env n s) p (rec_mui r) = Some r) \<Longrightarrow> (p, r) \<in> set (dump_routes env f acc info v4 s)"
proof -
  define cs where "cs = chunks DUMP_KEY_CHUNK (dump_keys env v4 s)"
  define ps where "ps = concat (take (reached env 0 cs) cs)"
  have dr: "dump_routes env f acc info v4 s = kept (keeps env f acc info) (fetch_all env s 1 ps)"
    by (simp add: dump_routes_def ps_def cs_def Let_def)
  have all: "concat cs = dump_keys env v4 s" by (simp add: cs_def chunks_concat DUMP_KEY_CHUNK_def)
  then obtain rest where ps: "dump_keys env v4 s = ps @ rest" using concat_take_prefix ps_def by metis
  then have "distinct ps" using dump_keys_set(2) [OF laws, of v4 s] by simp
  then show "distinct (map (\<lambda>(p, r). (p, rec_mui r)) (dump_routes env f acc info v4 s))"
    unfolding dr by (rule kept_distinct [OF laws])
  show "is_v4 p = v4 \<and> keeps env f acc info r \<and> (\<exists>n. eff_rec v (qe_drift env n s) p (rec_mui r) = Some r)"
    if m: "(p, r) \<in> set (dump_routes env f acc info v4 s)"
  proof -
    obtain j where j: "j < length ps" "ps ! j = p" "eff_rec v (qe_drift env (1 + j) s) p (rec_mui r) = Some r"
      "keeps env f acc info r" using m unfolding dr kept_fetch_all [OF laws] by blast
    have "p \<in> set ps" using j(1,2) nth_mem by blast
    then have "p \<in> set (dump_keys env v4 s)" using ps by simp
    then show ?thesis using dump_keys_set(1) [OF laws] j by blast
  qed
  show "(p, r) \<in> set (dump_routes env f acc info v4 s)"
    if "\<And>t. \<not> qe_late env t" "is_v4 p = v4" "keeps env f acc info r" "\<And>n. eff_rec v (qe_drift env n s) p (rec_mui r) = Some r"
  proof -
    have "reached env 0 cs = length cs" by (rule reached_all) (rule that(1))
    then have "ps = dump_keys env v4 s" using all by (simp add: ps_def)
    moreover have "sv_rec v (qe_drift env 0 s) p (rec_mui r) \<noteq> None" using that(4) [of 0] by (auto simp: eff_rec_def split: option.splits)
    ultimately have "p \<in> set ps" using dump_keys_set(1) [OF laws, of v4 s] that(2) by blast
    then obtain j where "j < length ps" "ps ! j = p" by (auto simp: in_set_conv_nth)
    then show ?thesis unfolding dr kept_fetch_all [OF laws] using that(3,4) by blast
  qed
qed

text \<open>
  The walk that feeds the BMP output (\<open>stream_prefix_records\<close>) reads the same routes as the
  iterator that collects them all.
\<close>

lemma fetch_live_kept: "kept (\<lambda>_. True) (fetch_live env s n ps) = kept not_withdrawn (fetch_all env s n ps)"
  by (induction ps arbitrary: n) (auto simp: Let_def split: sum.splits option.splits)

lemma fetch_live_append: "fetch_live env s n (xs @ ys) = fetch_live env s n xs @ fetch_live env s (n + length xs) ys"
  by (induction xs arbitrary: n) (auto simp: Let_def split: sum.splits option.splits)

lemma emit_batch_collect: "emit_batch (\<lambda>pr k. (True, k @ [pr])) prs cnt k = (True, cnt + length prs, k @ prs)"
  by (induction prs arbitrary: cnt k) simp_all

lemma stream_chunks_collect:
  assumes "\<And>t. \<not> qe_late env t"
  shows "snd (stream_chunks env (\<lambda>pr k. (True, k @ [pr])) s n tick cs cnt k) = k @ fetch_live env s n (concat cs)"
proof (induction cs arbitrary: n tick cnt k)
  case (Cons c cs)
  then show ?case using assms by (simp add: emit_batch_collect fetch_live_append)
qed simp

lemma stream_matches_iter_all:
  assumes laws: "store_laws (qe_ops env) v" and s: "rb_unicast rib = Some s"
    and still: "\<forall>n t. qe_drift env n t = t" and late: "\<forall>t. \<not> qe_late env t"
  obtains all streamed cnt where "iter_all_prefix_records env rib = Inr all"
    "stream_prefix_records env (\<lambda>pr k. (True, k @ [pr])) rib [] = (Inr cnt, streamed)"
    "set (kept (\<lambda>_. True) all) = {(p, r). not_withdrawn r \<and> eff_rec v s p (rec_mui r) = Some r}"
    "set (kept (\<lambda>_. True) streamed) = {(p, r). not_withdrawn r \<and> eff_rec v s p (rec_mui r) = Some r}"
proof -
  define prs where "prs = flatten_ok (st_prefixes_iter (qe_ops env) s)"
  define g :: "prefix_record \<Rightarrow> prefix_record option" where "g = (\<lambda>pr. let meta = filter not_withdrawn (pr_meta pr)
    in if meta = [] then None else Some \<lparr>pr_prefix = pr_prefix pr, pr_meta = meta\<rparr>)"
  define keys where "keys = st_prefixes_keys (qe_ops env) s"
  have it: "iterates v s (\<lambda>_. True) prs" unfolding prs_def by (rule store_laws_iter(1) [OF laws])
  have "set (kept (\<lambda>_. True) (List.map_filter g prs)) = set (kept not_withdrawn prs)"
    by (induction prs) (auto simp: map_filter_simps g_def Let_def filter_empty_conv split: if_splits)
  moreover have "(p, r) \<in> set (kept not_withdrawn prs) \<longleftrightarrow> not_withdrawn r \<and> eff_rec v s p (rec_mui r) = Some r" for p r
  proof
    assume "(p, r) \<in> set (kept not_withdrawn prs)"
    then show "not_withdrawn r \<and> eff_rec v s p (rec_mui r) = Some r" using it by (auto simp: kept_mem iterates_def)
  next
    assume r: "not_withdrawn r \<and> eff_rec v s p (rec_mui r) = Some r"
    then have "sv_rec v s p (rec_mui r) \<noteq> None" by (auto simp: eff_rec_def split: option.splits)
    then obtain pr where "pr \<in> set prs" "pr_prefix pr = p" using it unfolding iterates_def by blast
    moreover from this have "r \<in> set (pr_meta pr)" using it r by (auto simp: iterates_def)
    ultimately show "(p, r) \<in> set (kept not_withdrawn prs)" using r by (auto simp: kept_mem)
  qed
  ultimately have all: "set (kept (\<lambda>_. True) (List.map_filter g prs)) = {(p, r). not_withdrawn r \<and> eff_rec v s p (rec_mui r) = Some r}"
    by auto
  have keys: "set keys = {p. \<exists>i. sv_rec v s p i \<noteq> None}" unfolding keys_def by (rule store_laws_iter(4) [OF laws])
  have "(p, r) \<in> set (kept not_withdrawn (fetch_all env s 1 keys)) \<longleftrightarrow> not_withdrawn r \<and> eff_rec v s p (rec_mui r) = Some r" for p r
  proof -
    have "p \<in> set keys" if "eff_rec v s p (rec_mui r) = Some r"
      unfolding keys using that by (auto simp: eff_rec_def split: option.splits)
    then show ?thesis unfolding kept_fetch_all [OF laws] using still by (auto simp: in_set_conv_nth)
  qed
  then have str: "set (kept (\<lambda>_. True) (fetch_live env s 1 keys)) = {(p, r). not_withdrawn r \<and> eff_rec v s p (rec_mui r) = Some r}"
    unfolding fetch_live_kept by auto
  obtain cnt k where c: "stream_chunks env (\<lambda>pr k. (True, k @ [pr])) s 1 0 (chunks DUMP_KEY_CHUNK keys) 0 [] = (cnt, k)" by fastforce
  have "k = fetch_live env s 1 keys"
    using stream_chunks_collect [of env s 1 0 "chunks DUMP_KEY_CHUNK keys" 0 "[]"] late c
    by (simp add: chunks_concat DUMP_KEY_CHUNK_def)
  moreover have "stream_prefix_records env (\<lambda>pr k. (True, k @ [pr])) rib [] = (Inr cnt, k)"
    using c still s by (simp add: stream_prefix_records_def keys_def)
  moreover have "iter_all_prefix_records env rib = Inr (List.map_filter g prs)"
    using s by (simp add: iter_all_prefix_records_def g_def prs_def)
  ultimately show thesis using that all str by blast
qed

subsection \<open>The search\<close>

lemma filter_set_passes:
  assumes "verdict roto acc" and "\<forall>pr \<in> set prs. list_all readable (pr_meta pr)"
  shows "\<exists>prs' ctx'. filter_set env f roto info prs ctx = Some (prs', ctx') \<and>
    kept (\<lambda>_. True) prs' = kept (passes env f acc info) prs"
  using assms(2)
proof (induction prs arbitrary: ctx)
  case (Cons pr prs)
  obtain ctx1 where a: "apply_filter env f roto info (pr_meta pr) ctx = Some (filter (passes env f acc info) (pr_meta pr), ctx1)"
    using apply_filter_passes [OF _ assms(1)] Cons.prems by (meson list.set_intros(1))
  obtain prs' ctx' where ih: "filter_set env f roto info prs ctx1 = Some (prs', ctx')"
    "kept (\<lambda>_. True) prs' = kept (passes env f acc info) prs" using Cons by fastforce
  then show ?case using a by auto
qed simp

text \<open>The prefix records of an optional set.\<close>

definition set_records :: "record_set option \<Rightarrow> prefix_record list" where
  "set_records rs = (case rs of None \<Rightarrow> [] | Some rs \<Rightarrow> rs_v4 rs @ rs_v6 rs)"

lemma filter_record_set_passes:
  assumes "verdict roto acc" and "\<forall>pr \<in> set (set_records rs). list_all readable (pr_meta pr)"
  shows "\<exists>rs' ctx'. filter_record_set env f roto info rs ctx = Some (rs', ctx') \<and>
    kept (\<lambda>_. True) (set_records rs') = kept (passes env f acc info) (set_records rs)"
proof (cases rs)
  case (Some x)
  obtain v4 ctx1 where v4: "filter_set env f roto info (rs_v4 x) ctx = Some (v4, ctx1)"
    "kept (\<lambda>_. True) v4 = kept (passes env f acc info) (rs_v4 x)"
    using filter_set_passes [OF assms(1), of "rs_v4 x"] assms(2) Some by (fastforce simp: set_records_def)
  obtain v6 ctx2 where v6: "filter_set env f roto info (rs_v6 x) ctx1 = Some (v6, ctx2)"
    "kept (\<lambda>_. True) v6 = kept (passes env f acc info) (rs_v6 x)"
    using filter_set_passes [OF assms(1), of "rs_v6 x"] assms(2) Some by (fastforce simp: set_records_def)
  show ?thesis using v4 v6 Some by (auto simp: filter_record_set_def set_records_def)
qed (simp add: filter_record_set_def set_records_def)

definition result_routes :: "(rib_record \<Rightarrow> bool) \<Rightarrow> prefix \<Rightarrow> query_result \<Rightarrow> (prefix \<times> rib_record) list" where
  "result_routes P q qr =
    map (Pair q) (filter P (qr_records qr)) @
    kept P (set_records (qr_more_specifics qr))"

lemma kept_distinct_records:
  "distinct (map pr_prefix prs) \<Longrightarrow> \<forall>pr \<in> set prs. distinct (map rec_mui (pr_meta pr)) \<Longrightarrow> distinct (kept P prs)"
proof (induction prs)
  case (Cons pr prs)
  have "distinct (pr_meta pr)" using Cons.prems(2) distinct_map by auto
  then have "distinct (map (Pair (pr_prefix pr)) (filter P (pr_meta pr)))" by (simp add: distinct_map inj_on_def)
  then show ?case using Cons by (auto simp: kept_mem) (metis imageI)
qed simp

lemma covers_whole: "covers (whole v4) p \<longleftrightarrow> is_v4 p = v4"
proof -
  have "unat (x :: u32) < 2 ^ 32" "unat (y :: u128) < 2 ^ 128" for x y
    using unsigned_less [of x] unsigned_less [of y] by simp_all
  then show ?thesis by (cases "pfx_addr p") (auto simp: covers_def whole_def is_v4_def addr_bits_def)
qed

lemma result_routes_set:
  assumes "answers v s (query_options f) (whole v4) (Inr qr)" and "MoreSpecifics \<in> set (rf_include f)"
  shows "distinct (result_routes (passes env f acc info) (whole v4) qr)"
    and "set (result_routes (passes env f acc info) (whole v4) qr) =
      {(p, r). is_v4 p = v4 \<and> keeps env f acc info r \<and> eff_rec v s p (rec_mui r) = Some r}"
proof -
  define prs where "prs = set_records (qr_more_specifics qr)"
  let ?vis = "visible v s (query_options f)"
  have recs: "set (qr_records qr) = ?vis (whole v4)" "distinct (map rec_mui (qr_records qr))"
    using assms(1) by (simp_all add: answers_def)
  have more: "distinct (map pr_prefix prs)" "\<forall>pr \<in> set prs. below (whole v4) (pr_prefix pr) \<and>
      distinct (map rec_mui (pr_meta pr)) \<and> set (pr_meta pr) = ?vis (pr_prefix pr)"
    "\<forall>p. below (whole v4) p \<longrightarrow> ?vis p \<noteq> {} \<longrightarrow> p \<in> pr_prefix ` set prs"
    using assms by (simp_all add: answers_def answers_set_def query_options_def Let_def prs_def set_records_def)
  have "distinct (qr_records qr)" using recs(2) distinct_map by blast
  then have "distinct (map (Pair (whole v4)) (filter (passes env f acc info) (qr_records qr)))"
    by (simp add: distinct_map inj_on_def)
  moreover have "distinct (kept (passes env f acc info) prs)" using kept_distinct_records more(1,2) by blast
  ultimately show "distinct (result_routes (passes env f acc info) (whole v4) qr)"
    using more(2) by (auto simp: result_routes_def prs_def [symmetric] kept_mem below_def)
  have vis: "r \<in> ?vis p \<and> passes env f acc info r \<longleftrightarrow> keeps env f acc info r \<and> eff_rec v s p (rec_mui r) = Some r" for p r
    by (auto simp: visible_def query_options_def keeps_def passes_def not_withdrawn_def)
  have below: "below (whole v4) p \<longleftrightarrow> is_v4 p = v4 \<and> p \<noteq> whole v4" for p by (simp add: below_def covers_whole)
  have "(p, r) \<in> set (result_routes (passes env f acc info) (whole v4) qr) \<longleftrightarrow>
      is_v4 p = v4 \<and> r \<in> ?vis p \<and> passes env f acc info r" for p r
  proof (cases "p = whole v4")
    case True
    then show ?thesis using recs(1) more(2) below by (auto simp: result_routes_def prs_def [symmetric] kept_mem)
  next
    case False
    then have "(p, r) \<in> set (result_routes (passes env f acc info) (whole v4) qr) \<longleftrightarrow>
        (\<exists>pr \<in> set prs. pr_prefix pr = p \<and> r \<in> set (pr_meta pr) \<and> passes env f acc info r)"
      by (auto simp: result_routes_def prs_def [symmetric] kept_mem)
    also have "\<dots> \<longleftrightarrow> is_v4 p = v4 \<and> r \<in> ?vis p \<and> passes env f acc info r"
    proof (intro iffI; elim conjE bexE)
      assume "is_v4 p = v4" and r: "r \<in> ?vis p" "passes env f acc info r"
      then have "p \<in> pr_prefix ` set prs" using more(3) below False by blast
      then obtain pr where "pr \<in> set prs" "pr_prefix pr = p" by blast
      then show "\<exists>pr \<in> set prs. pr_prefix pr = p \<and> r \<in> set (pr_meta pr) \<and> passes env f acc info r" using more(2) r by blast
    qed (use more(2) below in auto)
    finally show ?thesis .
  qed
  then show "set (result_routes (passes env f acc info) (whole v4) qr) =
      {(p, r). is_v4 p = v4 \<and> keeps env f acc info r \<and> eff_rec v s p (rec_mui r) = Some r}"
    using vis by auto
qed

lemma recordset_lines_kept:
  "recordset_lines \<lparr>sr_query_result = qr, sr_ingress_info = info, sr_query_filter = f\<rparr> rs section =
    map (\<lambda>(p, r). line_of f info p section r) (kept (\<lambda>_. True) (set_records rs))"
  unfolding recordset_lines_def search_result.select_convs kept_def set_records_def
  by (cases rs) (simp_all add: map_concat comp_def)

lemma result_lines_routes:
  assumes "kept (\<lambda>_. True) (set_records (qr_less_specifics qr)) = []" and "qr_records qr \<noteq> [] \<Longrightarrow> qr_prefix qr = Some q"
    and "\<forall>(p, r) \<in> set (kept (\<lambda>_. True) (set_records (qr_more_specifics qr))). p \<noteq> q"
  shows "result_lines \<lparr>sr_query_result = qr, sr_ingress_info = info, sr_query_filter = f\<rparr> =
    map (dump_line f info q) (result_routes (\<lambda>_. True) q qr)"
proof -
  have "(case qr_prefix qr of None \<Rightarrow> [] | Some p \<Rightarrow> map (line_of f info p ''data'') (qr_records qr)) =
      map (dump_line f info q) (map (Pair q) (qr_records qr))"
    using assms(2) by (cases "qr_records qr") (auto simp: dump_line_def split: option.splits)
  moreover have "map (\<lambda>(p, r). line_of f info p ''moreSpecifics'' r) (kept (\<lambda>_. True) (set_records (qr_more_specifics qr))) =
      map (dump_line f info q) (kept (\<lambda>_. True) (set_records (qr_more_specifics qr)))"
    using assms(3) by (intro map_cong) (auto simp: dump_line_def)
  ultimately show ?thesis
    using assms(1) unfolding result_lines_def Let_def search_result.select_convs recordset_lines_kept
    by (simp add: result_routes_def)
qed

lemma search_routes_whole:
  assumes laws: "store_laws (qe_ops env) v" and "query_store a rib = Inr s"
    and "find_function env f = Inr roto" and vd: "verdict roto acc"
    and rd: "\<And>p i r. sv_rec v s p i = Some r \<Longrightarrow> readable r"
    and inc: "MoreSpecifics \<in> set (rf_include f)" "LessSpecifics \<notin> set (rf_include f)"
  shows "\<exists>sr ctx' routes. search_routes env a (whole v4) f rib ctx = Some (Inr sr, ctx') \<and>
    result_lines sr = map (dump_line f (reg_info (rb_register rib)) (whole v4)) routes \<and> distinct routes \<and>
    set routes = {(p, r). is_v4 p = v4 \<and> keeps env f acc (reg_info (rb_register rib)) r \<and> eff_rec v s p (rec_mui r) = Some r}"
proof -
  let ?info = "reg_info (rb_register rib)"
  have "mo_match_type (query_options f) = ExactMatch" by (simp add: query_options_def)
  from store_laws_iter(9) [OF laws this, where s = s and p = "whole v4"] obtain qr
    where m: "st_match_prefix (qe_ops env) s (whole v4) (query_options f) = Inr qr"
      and ans: "answers v s (query_options f) (whole v4) (Inr qr)"
    by (cases "st_match_prefix (qe_ops env) s (whole v4) (query_options f)") (auto simp: answers_def)
  have vis: "readable r" if "r \<in> visible v s (query_options f) p" for p r
    using that rd by (auto simp: visible_def eff_rec_def split: option.splits if_splits)
  have "list_all readable (qr_records qr)" using ans vis by (auto simp: answers_def list_all_iff)
  then obtain ctx1 where a1: "apply_filter env f roto ?info (qr_records qr) ctx = Some (filter (passes env f acc ?info) (qr_records qr), ctx1)"
    using apply_filter_passes [OF _ vd] by blast
  have more: "\<forall>pr \<in> set (set_records (qr_more_specifics qr)).
      below (whole v4) (pr_prefix pr) \<and> set (pr_meta pr) = visible v s (query_options f) (pr_prefix pr)"
    using ans inc by (simp add: answers_def answers_set_def query_options_def Let_def set_records_def)
  then have "\<forall>pr \<in> set (set_records (qr_more_specifics qr)). list_all readable (pr_meta pr)"
    using vis by (auto simp: list_all_iff)
  then obtain more' ctx2 where a2: "filter_record_set env f roto ?info (qr_more_specifics qr) ctx1 = Some (more', ctx2)"
    and k2: "kept (\<lambda>_. True) (set_records more') = kept (passes env f acc ?info) (set_records (qr_more_specifics qr))"
    using filter_record_set_passes [OF vd] by blast
  have less: "set_records (qr_less_specifics qr) = []"
    using ans inc by (cases "set_records (qr_less_specifics qr)") (auto simp: answers_def answers_set_def query_options_def Let_def set_records_def)
  then obtain less' ctx3 where a3: "filter_record_set env f roto ?info (qr_less_specifics qr) ctx2 = Some (less', ctx3)"
    and k3: "kept (\<lambda>_. True) (set_records less') = []"
    using filter_record_set_passes [OF vd, of "qr_less_specifics qr" env f ?info ctx2] by auto
  define qr' where "qr' = \<lparr>qr_prefix = qr_prefix qr, qr_records = filter (passes env f acc ?info) (qr_records qr),
    qr_less_specifics = less', qr_more_specifics = more'\<rparr>"
  have "search_routes env a (whole v4) f rib ctx =
      Some (Inr \<lparr>sr_query_result = qr', sr_ingress_info = ?info, sr_query_filter = f\<rparr>, ctx3)"
    using assms(2,3) m a1 a2 a3 by (simp add: search_routes_def Let_def qr'_def)
  moreover have "result_lines \<lparr>sr_query_result = qr', sr_ingress_info = ?info, sr_query_filter = f\<rparr> =
      map (dump_line f ?info (whole v4)) (result_routes (\<lambda>_. True) (whole v4) qr')"
  proof (rule result_lines_routes)
    show "qr_prefix qr' = Some (whole v4)" if "qr_records qr' \<noteq> []"
      using that ans by (auto simp: qr'_def answers_def)
    show "\<forall>(p, r) \<in> set (kept (\<lambda>_. True) (set_records (qr_more_specifics qr'))). p \<noteq> whole v4"
      using more by (auto simp: qr'_def k2 kept_mem below_def)
  qed (simp add: qr'_def k3)
  moreover have "result_routes (\<lambda>_. True) (whole v4) qr' = result_routes (passes env f acc ?info) (whole v4) qr"
    by (simp add: result_routes_def qr'_def k2)
  ultimately show ?thesis using result_routes_set [OF ans inc(1), of env acc ?info] by auto
qed

subsection \<open>The limit on concurrent dumps\<close>

text \<open>
  \<open>DumpGuard\<close> as threads see it. \<open>ds_active\<close> is the atomic \<open>ACTIVE_DUMPS\<close>; \<open>ds_trusted\<close> and
  \<open>ds_untrusted\<close> count the live guards that \<open>enter\<close> and \<open>try_enter\<close> gave out; a thread in the loop of
  \<open>try_enter\<close> has its last reading in \<open>ds_trying\<close>. The exchange may fail spuriously. Memory bounds the
  number of live guards.
\<close>

record dump_slots =
  ds_active :: u64
  ds_trusted :: nat
  ds_untrusted :: nat
  ds_trying :: "(nat, u64) hmap"

definition no_dumps :: dump_slots where
  "no_dumps = \<lparr>ds_active = 0, ds_trusted = 0, ds_untrusted = 0, ds_trying = []\<rparr>"

inductive dump_step :: "dump_slots \<Rightarrow> dump_slots \<Rightarrow> bool" where
  enter: "ds_trusted d + ds_untrusted d + 1 < 2 ^ 64 \<Longrightarrow>
    dump_step d (d\<lparr>ds_active := ds_active d + 1, ds_trusted := ds_trusted d + 1\<rparr>)"
| load: "hm_get (ds_trying d) t = None \<Longrightarrow> dump_step d (d\<lparr>ds_trying := hm_insert t (ds_active d) (ds_trying d)\<rparr>)"
| refuse: "hm_get (ds_trying d) t = Some cur \<Longrightarrow> MAX_CONCURRENT_DUMPS \<le> cur \<Longrightarrow>
    dump_step d (d\<lparr>ds_trying := hm_remove t (ds_trying d)\<rparr>)"
| exchange: "hm_get (ds_trying d) t = Some cur \<Longrightarrow> cur < MAX_CONCURRENT_DUMPS \<Longrightarrow> ds_active d = cur \<Longrightarrow>
    dump_step d (d\<lparr>ds_active := cur + 1, ds_untrusted := ds_untrusted d + 1, ds_trying := hm_remove t (ds_trying d)\<rparr>)"
| retry: "hm_get (ds_trying d) t = Some cur \<Longrightarrow> cur < MAX_CONCURRENT_DUMPS \<Longrightarrow>
    dump_step d (d\<lparr>ds_trying := hm_insert t (ds_active d) (ds_trying d)\<rparr>)"
| drop_trusted: "0 < ds_trusted d \<Longrightarrow>
    dump_step d (d\<lparr>ds_active := ds_active d - 1, ds_trusted := ds_trusted d - 1\<rparr>)"
| drop_untrusted: "0 < ds_untrusted d \<Longrightarrow>
    dump_step d (d\<lparr>ds_active := ds_active d - 1, ds_untrusted := ds_untrusted d - 1\<rparr>)"

definition slots_ok :: "dump_slots \<Rightarrow> bool" where
  "slots_ok d = (ds_active d = of_nat (ds_trusted d + ds_untrusted d) \<and> ds_trusted d + ds_untrusted d < 2 ^ 64 \<and>
    ds_untrusted d \<le> 8)"

lemma slots_active:
  assumes "slots_ok d"
  shows "unat (ds_active d) = ds_trusted d + ds_untrusted d"
proof -
  have "ds_active d = of_nat (ds_trusted d + ds_untrusted d)" "ds_trusted d + ds_untrusted d < 2 ^ 64"
    using assms unfolding slots_ok_def by blast+
  then show ?thesis by (simp only: unat_of_nat) simp
qed

lemma dump_step_ok:
  assumes "dump_step d d'" and "slots_ok d"
  shows "slots_ok d'"
  using assms
proof cases
  case (exchange t cur)
  have "unat (ds_active d) < 8" using exchange(3,4) by (simp add: MAX_CONCURRENT_DUMPS_def word_less_nat_alt)
  then have "ds_trusted d + ds_untrusted d < 8" using slots_active [OF assms(2)] by simp
  then show ?thesis using exchange assms(2) by (auto simp: slots_ok_def)
next
  case drop_trusted
  then obtain n where "ds_trusted d = Suc n" by (auto simp: gr0_conv_Suc)
  then show ?thesis using drop_trusted assms(2) by (auto simp: slots_ok_def)
next
  case drop_untrusted
  then obtain n where "ds_untrusted d = Suc n" by (auto simp: gr0_conv_Suc)
  then show ?thesis using drop_untrusted assms(2) by (auto simp: slots_ok_def)
qed (auto simp: slots_ok_def)

lemma dump_slots_ok: "dump_step\<^sup>*\<^sup>* no_dumps d \<Longrightarrow> slots_ok d"
proof (induction rule: rtranclp_induct)
  case base
  show ?case by (simp add: slots_ok_def no_dumps_def)
qed (rule dump_step_ok)

subsection \<open>Properties\<close>

text \<open>
  C15: A full dump over HTTP (\<open>GET /ribs/ipv4unicast/routes?format=jsonl\<close>, and for IPv6) of a RIB in
  use is complete and sound. While it runs, the store may change in any way between two lookups.
  If the client keeps reading and the deadline is not reached, the body is one line for each route
  of a list in which no prefix and ingress occur twice; every route of the list has the address
  family, passes the filter and was in the store, not withdrawn, at some moment of the dump; and
  every such route that is in the store for the whole dump is in the list.
\<close>

theorem dump_lists_stable_routes:
  assumes "store_laws (qe_ops env) v" and "rb_unicast rib = Some s"
    and "\<forall>n p i r. sv_rec v (qe_drift env n s) p i = Some r \<longrightarrow> readable r"
    and "find_function env f = Inr roto" and "verdict roto acc" and "rf_format f = Format_Jsonl"
    and "qe_prefix_new env (pfx_addr (whole v4)) 0 = Some (whole v4)" and "active < MAX_CONCURRENT_DUMPS"
    and "\<And>t. \<not> qe_late env t" and "\<And>n. outcomes n = Sent"
  shows "\<exists>body routes. search_unicast_all env v4 f (Some rib) active outcomes ctx = Inr (Some body) \<and>
    concat body = text_of env (map (dump_line f (reg_info (rb_register rib)) (whole v4)) routes) \<and>
    distinct (map (\<lambda>(p, r). (p, rec_mui r)) routes) \<and>
    (\<forall>p r. (p, r) \<in> set routes \<longrightarrow> is_v4 p = v4 \<and> keeps env f acc (reg_info (rb_register rib)) r \<and>
      (\<exists>n. eff_rec v (qe_drift env n s) p (rec_mui r) = Some r)) \<and>
    (\<forall>p r. is_v4 p = v4 \<and> keeps env f acc (reg_info (rb_register rib)) r \<and>
      (\<forall>n. eff_rec v (qe_drift env n s) p (rec_mui r) = Some r) \<longrightarrow> (p, r) \<in> set routes)"
proof -
  let ?routes = "dump_routes env f acc (reg_info (rb_register rib)) v4 s"
  have "fetches_readable env s" by (rule fetches_readableI [OF assms(1)]) (use assms(3) in blast)
  from full_dump_body [OF assms(2,4,5) this assms(7,6,8), of outcomes ctx] assms(10) obtain body
    where b: "search_unicast_all env v4 f (Some rib) active outcomes ctx = Inr (Some body)"
      "concat body = text_of env (map (dump_line f (reg_info (rb_register rib)) (whole v4)) ?routes)" by blast
  note r = dump_routes_churn [OF assms(1), where f = f and acc = acc and info = "reg_info (rb_register rib)" and ?v4.0 = v4 and s = s]
  show ?thesis by (intro exI [of _ body] exI [of _ ?routes] conjI b r(1)) (use r(2,3) assms(9) in blast)+
qed

definition sample_record :: "ingress_id \<Rightarrow> rib_record" where
  "sample_record i = \<lparr>rec_mui = i, rec_ltime = 0, rec_status = Active, rec_meta = \<lparr>pm_raw = [0, 0, 1]\<rparr>\<rparr>"

definition sample_store :: list_store where
  "sample_store = \<lparr>ls_recs = [((sample_pfx, 1), sample_record 1), ((sample_pfx, 2), sample_record 2)], ls_wd4 = [], ls_wd6 = []\<rparr>"

definition sample_rib :: "list_store rib" where
  "sample_rib = (empty_rib register_new)\<lparr>rb_unicast := Some sample_store\<rparr>"

definition sample_query_env :: "(nat \<Rightarrow> list_store \<Rightarrow> list_store) \<Rightarrow> (list_store, unit) query_env" where
  "sample_query_env drift = \<lparr>qe_ops = list_ops, qe_otc = (\<lambda>_. None), qe_communities = (\<lambda>_. None),
     qe_large_communities = (\<lambda>_. None), qe_origin = (\<lambda>_. None), qe_package = None, qe_line = (\<lambda>l. [pm_raw (jl_pamap l)]),
     qe_json = (\<lambda>_ _ _. []), qe_drift = drift, qe_late = (\<lambda>_. False),
     qe_prefix_new = (\<lambda>a l. Some \<lparr>pfx_addr = a, pfx_len = l\<rparr>)\<rparr>"

definition all_filter :: route_filter where
  "all_filter = \<lparr>rf_include = [], rf_ingress_id = None, rf_origin_asn = None, rf_otc = None, rf_community = None,
     rf_large_community = None, rf_rib_type = None, rf_rov_status = None, rf_peer_asn = None, rf_peer_addr = None,
     rf_fields_path_attributes = None, rf_roto_function = None, rf_format = Format_Jsonl\<rparr>"

text \<open>The second ingress is removed right after the keys have been read.\<close>

definition losing_drift :: "nat \<Rightarrow> list_store \<Rightarrow> list_store" where
  "losing_drift n s = (if n = 0 then s else snd (st_remove_mui list_ops s 2))"

lemma sample_get:
  "sv_rec list_view sample_store p i = Some r \<Longrightarrow> readable r"
  "sv_rec list_view (losing_drift n sample_store) p i = Some r \<Longrightarrow> readable r"
  "eff_rec list_view (losing_drift n sample_store) sample_pfx 1 = Some (sample_record 1)"
  by (auto simp: list_view_def ls_get_def hm_get_def sample_store_def losing_drift_def list_ops_def sample_record_def
      readable_def path_attributes_def eff_rec_def ls_flag_def split: if_splits)

lemma sample_keeps: "keeps (sample_query_env d) all_filter (\<lambda>_. True) info (sample_record i)"
  by (simp add: keeps_def passes_def all_filter_def attributes_asked_def info_passes_def not_withdrawn_def sample_record_def)

theorem dump_lists_stable_routes_witness:
  "\<exists>body routes. search_unicast_all (sample_query_env losing_drift) True all_filter (Some sample_rib) 0 (\<lambda>_. Sent) () = Inr (Some body) \<and>
    concat body = text_of (sample_query_env losing_drift) (map (dump_line all_filter [] (whole True)) routes) \<and>
    (sample_pfx, sample_record 1) \<in> set routes"
proof -
  let ?e = "sample_query_env losing_drift"
  have s: "store_laws (qe_ops ?e) list_view" "rb_unicast sample_rib = Some sample_store" "reg_info (rb_register sample_rib) = []"
    "find_function ?e all_filter = Inr None" "verdict None (\<lambda>_. True)" "rf_format all_filter = Format_Jsonl"
    "qe_prefix_new ?e (pfx_addr (whole True)) 0 = Some (whole True)" "(0 :: u64) < MAX_CONCURRENT_DUMPS"
    by (simp_all add: sample_query_env_def list_store_laws sample_rib_def empty_rib_def register_new_def find_function_def
        all_filter_def verdict_def whole_def MAX_CONCURRENT_DUMPS_def)
  have drift: "qe_drift ?e = losing_drift" "\<not> qe_late ?e t" for t by (simp_all add: sample_query_env_def)
  have rd: "\<forall>n p i r. sv_rec list_view (qe_drift ?e n sample_store) p i = Some r \<longrightarrow> readable r"
    unfolding drift using sample_get(2) by blast
  have v4: "is_v4 sample_pfx = True" by (simp add: sample_pfx_def is_v4_def)
  have mui: "rec_mui (sample_record 1) = 1" by (simp add: sample_record_def)
  obtain body routes where
    b: "search_unicast_all ?e True all_filter (Some sample_rib) 0 (\<lambda>_. Sent) () = Inr (Some body)"
    and t: "concat body = text_of ?e (map (dump_line all_filter (reg_info (rb_register sample_rib)) (whole True)) routes)"
    and all: "\<forall>p r. is_v4 p = True \<and> keeps ?e all_filter (\<lambda>_. True) (reg_info (rb_register sample_rib)) r \<and>
      (\<forall>n. eff_rec list_view (qe_drift ?e n sample_store) p (rec_mui r) = Some r) \<longrightarrow> (p, r) \<in> set routes"
    using dump_lists_stable_routes [where v = list_view and s = sample_store and outcomes = "\<lambda>_. Sent" and ctx = "()",
      OF s(1,2) rd s(4-8) drift(2) refl] by (elim exE conjE) (rule that)
  have "\<forall>n. eff_rec list_view (qe_drift ?e n sample_store) sample_pfx (rec_mui (sample_record 1)) = Some (sample_record 1)"
    unfolding drift(1) mui using sample_get(3) by blast
  then have "(sample_pfx, sample_record 1) \<in> set routes" using all v4 sample_keeps by blast
  then show ?thesis using b t unfolding s(3) by blast
qed

text \<open>
  C18: The streamed dump is equivalent to the search it replaces. On a store that does not change,
  dumping an address family in chunks of 512 keys writes, up to order, the same lines as searching
  the zero-length prefix with its more specifics, which collects the whole table in memory, and
  writing the result; for every filter, with a roto function whose verdict depends on the route
  only.
\<close>

theorem dump_equals_search:
  assumes laws: "store_laws (qe_ops env) v" and s: "rb_unicast rib = Some s"
    and rd: "\<forall>p i r. sv_rec v s p i = Some r \<longrightarrow> readable r"
    and fn: "find_function env f = Inr roto" and vd: "verdict roto acc"
    and inc: "MoreSpecifics \<in> set (rf_include f)" "LessSpecifics \<notin> set (rf_include f)"
    and still: "\<forall>n t. qe_drift env n t = t" and late: "\<forall>t. \<not> qe_late env t"
  shows "\<exists>w dc ctx1 lines sr ctx2.
    write_jsonl_stream env (if v4 then Ipv4Unicast else Ipv6Unicast) (whole v4) f rib (writer_new (\<lambda>_. Sent)) ctx = Some (None, w, dc, ctx1) \<and>
    written w = text_of env lines \<and>
    search_routes env (if v4 then Ipv4Unicast else Ipv6Unicast) (whole v4) f rib ctx = Some (Inr sr, ctx2) \<and>
    mset lines = mset (result_lines sr)"
proof -
  let ?a = "if v4 then Ipv4Unicast else Ipv6Unicast" and ?info = "reg_info (rb_register rib)"
  let ?routes = "dump_routes env f acc ?info v4 s"
  have q: "query_store ?a rib = Inr s" using s by (simp add: query_store_def)
  have fr: "fetches_readable env s" by (rule fetches_readableI [OF laws]) (use rd still in auto)
  obtain e w dc ctx1 where d: "write_jsonl_stream env ?a (whole v4) f rib (writer_new (\<lambda>_. Sent)) ctx = Some (map_option DE_Io e, w, dc, ctx1)"
    and t: "writes_text (text_of env (map (dump_line f ?info (whole v4)) ?routes)) (writer_new (\<lambda>_. Sent)) e w"
    using write_jsonl_stream_text [OF q fn vd fr, where q = "whole v4" and w = "writer_new (\<lambda>_. Sent)" and ctx = ctx] by auto
  have w: "e = None" "written w = text_of env (map (dump_line f ?info (whole v4)) ?routes)"
    using t by (auto simp: writes_text_def reading_def writer_new_def written_def)
  obtain sr ctx2 routes where sr: "search_routes env ?a (whole v4) f rib ctx = Some (Inr sr, ctx2)"
    "result_lines sr = map (dump_line f ?info (whole v4)) routes" "distinct routes"
    "set routes = {(p, r). is_v4 p = v4 \<and> keeps env f acc ?info r \<and> eff_rec v s p (rec_mui r) = Some r}"
    using search_routes_whole [OF laws q fn vd _ inc, where ?v4.0 = v4 and ctx = ctx] rd by blast
  note c = dump_routes_churn [OF laws, where f = f and acc = acc and info = ?info and ?v4.0 = v4 and s = s]
  have "distinct ?routes" using c(1) distinct_map by blast
  moreover have "(p, r) \<in> set ?routes \<longleftrightarrow> is_v4 p = v4 \<and> keeps env f acc ?info r \<and> eff_rec v s p (rec_mui r) = Some r" for p r
    using c(2) [of p r] c(3) [of p r] still late by auto
  then have "set ?routes = set routes" unfolding sr(4) by auto
  ultimately have "mset ?routes = mset routes" using sr(3) set_eq_iff_mset_eq_distinct by blast
  then have "mset (map (dump_line f ?info (whole v4)) ?routes) = mset (result_lines sr)" unfolding sr(2) by simp
  with d w sr(1) show ?thesis by auto
qed

theorem dump_equals_search_witness:
  "\<exists>w dc ctx1 lines sr ctx2.
    write_jsonl_stream (sample_query_env (\<lambda>_ s. s)) Ipv4Unicast (whole True) (enable_more_specifics all_filter) sample_rib (writer_new (\<lambda>_. Sent)) () =
      Some (None, w, dc, ctx1) \<and>
    written w = text_of (sample_query_env (\<lambda>_ s. s)) lines \<and>
    search_routes (sample_query_env (\<lambda>_ s. s)) Ipv4Unicast (whole True) (enable_more_specifics all_filter) sample_rib () = Some (Inr sr, ctx2) \<and>
    mset lines = mset (result_lines sr)"
proof -
  let ?e = "sample_query_env (\<lambda>_ s. s)" and ?f = "enable_more_specifics all_filter"
  have s: "store_laws (qe_ops ?e) list_view" "rb_unicast sample_rib = Some sample_store"
    "find_function ?e ?f = Inr None" "verdict None (\<lambda>_. True)" "MoreSpecifics \<in> set (rf_include ?f)" "LessSpecifics \<notin> set (rf_include ?f)"
    "\<forall>n t. qe_drift ?e n t = t" "\<forall>t. \<not> qe_late ?e t"
    by (simp_all add: sample_query_env_def list_store_laws sample_rib_def empty_rib_def find_function_def all_filter_def
        verdict_def enable_more_specifics_def)
  have rd: "\<forall>p i r. sv_rec list_view sample_store p i = Some r \<longrightarrow> readable r" using sample_get(1) by blast
  from dump_equals_search [where ?v4.0 = True and ctx = "()", OF s(1,2) rd s(3-8)] show ?thesis
    unfolding if_True .
qed

text \<open>
  C19: Whatever happens to the client of a full dump, what it receives is a prefix of the whole
  response: when a send times out or the connection closes, the dump stops, and no byte is left
  out, repeated or reordered before that point.
\<close>

theorem dump_cut_short_is_prefix:
  assumes "rb_unicast rib = Some s" and "find_function env f = Inr roto" and "verdict roto acc" and "fetches_readable env s"
    and "qe_prefix_new env (pfx_addr (whole v4)) 0 = Some (whole v4)"
    and "rf_format f = Format_Jsonl" and "active < MAX_CONCURRENT_DUMPS"
  shows "\<exists>body full rest. search_unicast_all env v4 f (Some rib) active outcomes ctx = Inr (Some body) \<and>
    search_unicast_all env v4 f (Some rib) active (\<lambda>_. Sent) ctx = Inr (Some full) \<and> concat full = concat body @ rest"
proof -
  obtain full where f: "search_unicast_all env v4 f (Some rib) active (\<lambda>_. Sent) ctx = Inr (Some full)"
    "concat full = text_of env (map (dump_line f (reg_info (rb_register rib)) (whole v4))
      (dump_routes env f acc (reg_info (rb_register rib)) v4 s))"
    using full_dump_body [OF assms, of "\<lambda>_. Sent" ctx] by blast
  then show ?thesis using full_dump_body [OF assms, of outcomes ctx, folded f(2)] by blast
qed

theorem dump_cut_short_is_prefix_witness:
  "\<exists>body full rest.
    search_unicast_all (sample_query_env (\<lambda>_ s. s)) True all_filter (Some sample_rib) 0 (\<lambda>_. SendClosed) () = Inr (Some body) \<and>
    search_unicast_all (sample_query_env (\<lambda>_ s. s)) True all_filter (Some sample_rib) 0 (\<lambda>_. Sent) () = Inr (Some full) \<and>
    concat full = concat body @ rest"
proof -
  let ?e = "sample_query_env (\<lambda>_ s. s)"
  have s: "rb_unicast sample_rib = Some sample_store"
    "find_function ?e all_filter = Inr None" "verdict None (\<lambda>_. True)" "qe_prefix_new ?e (pfx_addr (whole True)) 0 = Some (whole True)"
    "rf_format all_filter = Format_Jsonl" "(0 :: u64) < MAX_CONCURRENT_DUMPS"
    by (simp_all add: sample_query_env_def sample_rib_def find_function_def all_filter_def verdict_def whole_def MAX_CONCURRENT_DUMPS_def)
  have laws: "store_laws (qe_ops ?e) list_view" by (simp add: sample_query_env_def list_store_laws)
  have "fetches_readable ?e sample_store"
    by (rule fetches_readableI [OF laws]) (use sample_get(1) in \<open>simp add: sample_query_env_def\<close>)
  from dump_cut_short_is_prefix [OF s(1-3) this s(4-6), of "\<lambda>_. SendClosed" "()"] show ?thesis .
qed

text \<open>
  C20: The limit on concurrent dumps holds for every interleaving of the atomic operations of all
  threads: the counter is the number of dumps in flight, at most eight of them were admitted
  through \<open>try_enter\<close>, and a request is only ever refused by a reading of at least eight dumps.
\<close>

theorem dump_limit_holds:
  assumes "dump_step\<^sup>*\<^sup>* no_dumps d"
  shows "ds_active d = of_nat (ds_trusted d + ds_untrusted d) \<and> ds_untrusted d \<le> 8"
  using dump_slots_ok [OF assms] by (simp add: slots_ok_def)

theorem dump_limit_holds_witness:
  "\<exists>d. dump_step\<^sup>*\<^sup>* no_dumps d \<and> ds_untrusted d = 1 \<and> ds_active d = of_nat (ds_trusted d + ds_untrusted d) \<and> ds_untrusted d \<le> 8"
proof -
  define d1 where "d1 = no_dumps\<lparr>ds_trying := hm_insert 0 0 []\<rparr>"
  define d2 where "d2 = d1\<lparr>ds_active := 0 + 1, ds_untrusted := ds_untrusted d1 + 1, ds_trying := hm_remove 0 (ds_trying d1)\<rparr>"
  have "dump_step no_dumps d1" using dump_step.load [of no_dumps 0] by (simp add: d1_def no_dumps_def hm_get_def)
  moreover have "dump_step d1 d2" unfolding d2_def
    by (rule dump_step.exchange [of _ 0]) (simp_all add: d1_def no_dumps_def MAX_CONCURRENT_DUMPS_def hm_get_insert)
  ultimately have r: "dump_step\<^sup>*\<^sup>* no_dumps d2" by auto
  moreover have "ds_untrusted d2 = 1" by (simp add: d2_def d1_def no_dumps_def)
  ultimately show ?thesis using dump_limit_holds [OF r] by blast
qed

end
