(* ===== verification/Rtr_Cache.thy ===== *)
theory Rtr_Cache
  imports Payload
begin

text \<open>
  The RPKI data of the RIB unit: the RTR target that collects the verbs of an update
  (src/units/rtr/client.rs) and the \<open>Update::Rtr\<close> arm of \<open>RibUnitRunner::process_update\<close>
  that applies them to the \<open>RtrCache\<close> (src/units/rib_unit/unit.rs).

  The cache holds the VRPs twice: as the set \<open>route_origins\<close> and in the prefix store that
  \<open>check_rov\<close> reads. That store is rotonda_store's; its operations are the fields of
  \<open>vrp_ops\<close>, and \<open>vrp_store_laws\<close> states what it documents over a view that gives the list of
  maximum lengths of a prefix and origin. inetnum's \<open>Prefix::new\<close> is the argument
  \<open>prefix_new\<close>. A panic (\<open>unwrap\<close>, \<open>assert_eq\<close>) is \<open>None\<close>.

  The lemmas show that the two copies agree after the first reset and after every serial
  update, so that \<open>check_rov\<close> validates against exactly the announced VRPs, and what a later
  reset does to the store.
\<close>

subsection \<open>Data\<close>

record route_origin =
  ro_addr :: ip_addr
  ro_prefix_len :: u8
  ro_max_len :: u8
  ro_asn :: asn

datatype rtr_action = Announce | RtrWithdraw

datatype ('key, 'aspa) rtr_payload = Origin route_origin | RouterKey 'key | Aspa 'aspa

type_synonym ('key, 'aspa) rtr_verbs = "(rtr_action \<times> ('key, 'aspa) rtr_payload) list"

datatype ('key, 'aspa) rtr_update =
    Full "('key, 'aspa) rtr_verbs"
  | Delta "('key, 'aspa) rtr_verbs"

record ('key, 'aspa) rtr_target =
  rt_cache :: "('key, 'aspa) rtr_verbs"
  rt_name :: ustr

record ('st, 'key, 'aspa) rtr_cache =
  rc_route_origins :: "route_origin set"
  rc_router_keys :: "'key set"
  rc_aspas :: "'aspa set"
  rc_vrps :: 'st

record 'st vrp_ops =
  vo_exact :: "'st \<Rightarrow> prefix \<Rightarrow> u32 \<Rightarrow> vrp_record list option"
  vo_longest :: "'st \<Rightarrow> prefix \<Rightarrow> vrp_query_result option"
  vo_insert :: "'st \<Rightarrow> prefix \<Rightarrow> vrp_record \<Rightarrow> 'st option"

text \<open>Whether each of the cache's locks can be taken by \<open>try_write\<close> at that moment.\<close>

record lock_state =
  lk_route_origins :: bool
  lk_router_keys :: bool
  lk_aspas :: bool

subsection \<open>The RTR target\<close>

definition rtr_target_new :: "ustr \<Rightarrow> ('key, 'aspa) rtr_target" where
  "rtr_target_new name = \<lparr>rt_cache = [], rt_name = name\<rparr>"

definition rtr_start :: "('key, 'aspa) rtr_target \<Rightarrow> bool \<Rightarrow> ('key, 'aspa) rtr_update" where
  "rtr_start t reset = (if reset then Full [] else Delta (rt_cache t))"

text \<open>\<open>None\<close> is \<open>PayloadError::Corrupt\<close>.\<close>

fun push_update ::
  "('key, 'aspa) rtr_update \<Rightarrow> rtr_action \<Rightarrow> ('key, 'aspa) rtr_payload \<Rightarrow>
     ('key, 'aspa) rtr_update option" where
  "push_update (Full verbs) action pl =
    (if action = RtrWithdraw then None else Some (Full (verbs @ [(Announce, pl)])))"
| "push_update (Delta verbs) action pl = Some (Delta (verbs @ [(action, pl)]))"

fun push_all ::
  "('key, 'aspa) rtr_update \<Rightarrow> ('key, 'aspa) rtr_verbs \<Rightarrow> ('key, 'aspa) rtr_update option" where
  "push_all u [] = Some u"
| "push_all u ((action, pl) # vs) =
    (case push_update u action pl of None \<Rightarrow> None | Some u' \<Rightarrow> push_all u' vs)"

subsection \<open>A cache reset\<close>

definition origin_prefix :: "(ip_addr \<Rightarrow> u8 \<Rightarrow> prefix option) \<Rightarrow> route_origin \<Rightarrow> prefix option" where
  "origin_prefix prefix_new ro = prefix_new (ro_addr ro) (ro_prefix_len ro)"

definition vrp_push ::
  "(ip_addr \<Rightarrow> u8 \<Rightarrow> prefix option) \<Rightarrow> 'st vrp_ops \<Rightarrow> route_origin \<Rightarrow> 'st \<Rightarrow> 'st option" where
  "vrp_push prefix_new ops ro st =
    (case origin_prefix prefix_new ro of
      None \<Rightarrow> None
    | Some p \<Rightarrow>
        (case (case vo_exact ops st p (ro_asn ro) of
                Some [] \<Rightarrow> Some []
              | Some [r] \<Rightarrow> Some (vr_meta r)
              | Some _ \<Rightarrow> None
              | None \<Rightarrow> Some []) of
          None \<Rightarrow> None
        | Some maxlen_list \<Rightarrow>
            vo_insert ops st p
              \<lparr>vr_mui = ro_asn ro, vr_meta = mll_push maxlen_list (ro_max_len ro)\<rparr>))"

record ('st, 'key, 'aspa) reset_acc =
  ra_route_origins :: "route_origin set"
  ra_router_keys :: "'key set"
  ra_aspas :: "'aspa set"
  ra_vrps :: 'st

fun reset_loop ::
  "(ip_addr \<Rightarrow> u8 \<Rightarrow> prefix option) \<Rightarrow> 'st vrp_ops \<Rightarrow> ('key, 'aspa) rtr_verbs \<Rightarrow>
     ('st, 'key, 'aspa) reset_acc \<Rightarrow> ('st, 'key, 'aspa) reset_acc option" where
  "reset_loop pn ops [] acc = Some acc"
| "reset_loop pn ops ((action, pl) # verbs) acc =
    (if action = RtrWithdraw then reset_loop pn ops verbs acc
     else case pl of
       Origin ro \<Rightarrow>
         (case vrp_push pn ops ro (ra_vrps acc) of
           None \<Rightarrow> None
         | Some st \<Rightarrow> reset_loop pn ops verbs
             (acc\<lparr>ra_route_origins := insert ro (ra_route_origins acc), ra_vrps := st\<rparr>))
     | RouterKey k \<Rightarrow> reset_loop pn ops verbs (acc\<lparr>ra_router_keys := insert k (ra_router_keys acc)\<rparr>)
     | Aspa a \<Rightarrow> reset_loop pn ops verbs (acc\<lparr>ra_aspas := insert a (ra_aspas acc)\<rparr>))"

definition process_full ::
  "(ip_addr \<Rightarrow> u8 \<Rightarrow> prefix option) \<Rightarrow> 'st vrp_ops \<Rightarrow> lock_state \<Rightarrow> ('key, 'aspa) rtr_verbs \<Rightarrow>
     ('st, 'key, 'aspa) rtr_cache \<Rightarrow> ('st, 'key, 'aspa) rtr_cache option" where
  "process_full pn ops lk verbs c =
    (case reset_loop pn ops verbs
        \<lparr>ra_route_origins = {}, ra_router_keys = {}, ra_aspas = {}, ra_vrps = rc_vrps c\<rparr> of
      None \<Rightarrow> None
    | Some acc \<Rightarrow> Some
        \<lparr>rc_route_origins =
           (if lk_route_origins lk then ra_route_origins acc else rc_route_origins c),
         rc_router_keys = (if lk_router_keys lk then ra_router_keys acc else rc_router_keys c),
         rc_aspas = (if lk_aspas lk then ra_aspas acc else rc_aspas c),
         rc_vrps = ra_vrps acc\<rparr>)"

subsection \<open>A serial update\<close>

text \<open>
  The result of one verb: a panic, the early \<open>return Err\<close> of the handler, or the new cache.
\<close>

datatype 'a outcome = Panic | Failed | Done 'a

definition position :: "('a \<Rightarrow> bool) \<Rightarrow> 'a list \<Rightarrow> nat option" where
  "position P xs = map_option fst (find (\<lambda>(_, x). P x) (enumerate 0 xs))"

definition delta_maxlens :: "rtr_action \<Rightarrow> u8 \<Rightarrow> max_len_list \<Rightarrow> max_len_list" where
  "delta_maxlens action maxlen l =
    (case action of
      Announce \<Rightarrow> if maxlen \<in> set l then l else mll_push l maxlen
    | RtrWithdraw \<Rightarrow>
        (case position (\<lambda>m. m = maxlen) l of Some pos \<Rightarrow> mll_remove l pos | None \<Rightarrow> l))"

definition delta_origin ::
  "(ip_addr \<Rightarrow> u8 \<Rightarrow> prefix option) \<Rightarrow> 'st vrp_ops \<Rightarrow> lock_state \<Rightarrow> rtr_action \<Rightarrow> route_origin \<Rightarrow>
     ('st, 'key, 'aspa) rtr_cache \<Rightarrow> ('st, 'key, 'aspa) rtr_cache outcome" where
  "delta_origin pn ops lk action ro c =
    (case origin_prefix pn ro of
      None \<Rightarrow> Panic
    | Some p \<Rightarrow>
        (case vo_exact ops (rc_vrps c) p (ro_asn ro) of
          None \<Rightarrow> Failed
        | Some recs \<Rightarrow>
            (if 1 < length recs \<or> \<not> lk_route_origins lk then Panic
             else
               (let l = (case recs of [] \<Rightarrow> [] | r # _ \<Rightarrow> vr_meta r);
                    origins = (case action of
                       Announce \<Rightarrow> insert ro (rc_route_origins c)
                     | RtrWithdraw \<Rightarrow> rc_route_origins c - {ro})
                in case vo_insert ops (rc_vrps c) p
                        \<lparr>vr_mui = ro_asn ro, vr_meta = delta_maxlens action (ro_max_len ro) l\<rparr> of
                     None \<Rightarrow> Panic
                   | Some st \<Rightarrow> Done (c\<lparr>rc_route_origins := origins, rc_vrps := st\<rparr>)))))"

definition delta_set :: "rtr_action \<Rightarrow> 'a \<Rightarrow> 'a set \<Rightarrow> 'a set" where
  "delta_set action x s = (case action of Announce \<Rightarrow> insert x s | RtrWithdraw \<Rightarrow> s - {x})"

definition delta_step ::
  "(ip_addr \<Rightarrow> u8 \<Rightarrow> prefix option) \<Rightarrow> 'st vrp_ops \<Rightarrow> lock_state \<Rightarrow>
     rtr_action \<times> ('key, 'aspa) rtr_payload \<Rightarrow>
     ('st, 'key, 'aspa) rtr_cache \<Rightarrow> ('st, 'key, 'aspa) rtr_cache outcome" where
  "delta_step pn ops lk verb c =
    (case verb of
      (action, Origin ro) \<Rightarrow> delta_origin pn ops lk action ro c
    | (action, RouterKey k) \<Rightarrow>
        Done (if lk_router_keys lk
              then c\<lparr>rc_router_keys := delta_set action k (rc_router_keys c)\<rparr> else c)
    | (action, Aspa a) \<Rightarrow>
        Done (if lk_aspas lk then c\<lparr>rc_aspas := delta_set action a (rc_aspas c)\<rparr> else c))"

text \<open>\<open>lks n\<close> is the state of the locks when the \<open>n\<close>-th verb is processed.\<close>

fun process_delta ::
  "(ip_addr \<Rightarrow> u8 \<Rightarrow> prefix option) \<Rightarrow> 'st vrp_ops \<Rightarrow> (nat \<Rightarrow> lock_state) \<Rightarrow>
     ('key, 'aspa) rtr_verbs \<Rightarrow>
     ('st, 'key, 'aspa) rtr_cache \<Rightarrow> ('st, 'key, 'aspa) rtr_cache outcome" where
  "process_delta pn ops lks [] c = Done c"
| "process_delta pn ops lks (v # vs) c =
    (case delta_step pn ops (lks 0) v c of
      Done c' \<Rightarrow> process_delta pn ops (\<lambda>n. lks (Suc n)) vs c'
    | Failed \<Rightarrow> Failed
    | Panic \<Rightarrow> Panic)"

subsection \<open>The store's contract and the agreement of the two copies\<close>

definition vrp_store_laws ::
  "'st vrp_ops \<Rightarrow> ('st \<Rightarrow> prefix \<Rightarrow> u32 \<Rightarrow> max_len_list) \<Rightarrow> bool" where
  "vrp_store_laws ops view \<longleftrightarrow>
    (\<forall>st p a. \<exists>rs. vo_exact ops st p a = Some rs \<and> length rs \<le> 1 \<and>
       concat (map vr_meta rs) = view st p a) \<and>
    (\<forall>st p r. \<exists>st'. vo_insert ops st p r = Some st' \<and>
       (\<forall>q a. view st' q a = (if q = p \<and> a = vr_mui r then vr_meta r else view st q a))) \<and>
    (\<forall>st p. \<exists>stored. answers_covering stored (vo_longest ops st) p \<and>
       vrps_of stored = {(q, m, a). m \<in> set (view st q a)})"

definition prefix_new_laws :: "(ip_addr \<Rightarrow> u8 \<Rightarrow> prefix option) \<Rightarrow> bool" where
  "prefix_new_laws pn \<longleftrightarrow> (\<forall>a l p. pn a l = Some p \<longrightarrow> p = \<lparr>pfx_addr = a, pfx_len = l\<rparr>)"

definition origin_vrps :: "(ip_addr \<Rightarrow> u8 \<Rightarrow> prefix option) \<Rightarrow> route_origin set \<Rightarrow> vrp set" where
  "origin_vrps pn origins =
    {(p, ro_max_len ro, ro_asn ro) | p ro. ro \<in> origins \<and> origin_prefix pn ro = Some p}"

definition in_sync ::
  "(ip_addr \<Rightarrow> u8 \<Rightarrow> prefix option) \<Rightarrow> ('st \<Rightarrow> prefix \<Rightarrow> u32 \<Rightarrow> max_len_list) \<Rightarrow>
     route_origin set \<Rightarrow> 'st \<Rightarrow> bool" where
  "in_sync pn view origins st \<longleftrightarrow>
    (\<forall>p a. distinct (view st p a) \<and> (\<forall>m. m \<in> set (view st p a) \<longleftrightarrow> (p, m, a) \<in> origin_vrps pn origins))"

lemma vrp_laws_exact:
  assumes "vrp_store_laws ops view"
  obtains "vo_exact ops st p a = Some []" "view st p a = []"
  | r where "vo_exact ops st p a = Some [r]" "vr_meta r = view st p a"
proof -
  obtain rs where rs: "vo_exact ops st p a = Some rs" "length rs \<le> 1"
    "concat (map vr_meta rs) = view st p a"
    using assms unfolding vrp_store_laws_def by blast
  then show ?thesis using that by (cases rs) auto
qed

lemma vrp_laws_insert:
  assumes "vrp_store_laws ops view"
  obtains st' where "vo_insert ops st p r = Some st'"
    "\<And>q a. view st' q a = (if q = p \<and> a = vr_mui r then vr_meta r else view st q a)"
  using assms unfolding vrp_store_laws_def by blast

lemma check_rov_view:
  "vrp_store_laws ops view \<Longrightarrow>
    check_rov (vo_longest ops st) p origin =
      Some (rov_spec {(q, m, a). m \<in> set (view st q a)} p origin)"
proof -
  assume "vrp_store_laws ops view"
  then obtain stored where "answers_covering stored (vo_longest ops st) p"
    and v: "vrps_of stored = {(q, m, a). m \<in> set (view st q a)}"
    unfolding vrp_store_laws_def by blast
  from check_rov_covering [OF this(1), of origin] show ?thesis unfolding v .
qed

lemma in_sync_vrps:
  "in_sync pn view origins st \<Longrightarrow> {(q, m, a). m \<in> set (view st q a)} = origin_vrps pn origins"
  by (auto simp: in_sync_def)

lemma position_Some: "position P xs = Some i \<Longrightarrow> i < length xs \<and> P (xs ! i)"
  by (auto simp: position_def dest!: find_SomeD simp: in_set_enumerate_eq)

lemma position_None: "position P xs = None \<Longrightarrow> \<not> P x \<or> x \<notin> set xs"
proof (rule disjCI)
  assume n: "position P xs = None" and "\<not> x \<notin> set xs"
  then obtain i where "i < length xs" "x = xs ! i" by (auto simp: in_set_conv_nth)
  then have "(i, x) \<in> set (enumerate 0 xs)" by (simp add: in_set_enumerate_eq)
  with n show "\<not> P x" unfolding position_def map_option_is_None find_None_iff by fast
qed

lemma mll_remove_distinct:
  assumes "distinct l" and "i < length l"
  shows "distinct (mll_remove l i)" and "set (mll_remove l i) = set l - {l ! i}"
proof -
  have l: "l = take i l @ l ! i # drop (Suc i) l" using assms(2) by (simp add: id_take_nth_drop)
  then have "distinct (take i l @ l ! i # drop (Suc i) l)" using assms(1) by simp
  then show "distinct (mll_remove l i)" by (simp add: mll_remove_def)
  have "set l = set (take i l @ l ! i # drop (Suc i) l)" using l by simp
  with \<open>distinct (take i l @ l ! i # drop (Suc i) l)\<close>
  show "set (mll_remove l i) = set l - {l ! i}" by (auto simp: mll_remove_def)
qed

lemma delta_maxlens_spec:
  assumes "distinct l"
  shows "distinct (delta_maxlens action m l) \<and>
    set (delta_maxlens action m l) = delta_set action m (set l)"
proof (cases action)
  case Announce
  then show ?thesis using assms by (auto simp: delta_maxlens_def delta_set_def mll_push_def)
next
  case RtrWithdraw
  show ?thesis
  proof (cases "position (\<lambda>x. x = m) l")
    case None
    then show ?thesis
      using assms RtrWithdraw position_None [OF None, of m]
      by (auto simp: delta_maxlens_def delta_set_def)
  next
    case (Some i)
    with mll_remove_distinct [OF assms] position_Some [OF Some] RtrWithdraw show ?thesis
      by (simp add: delta_maxlens_def delta_set_def)
  qed
qed

lemma origin_vrps_delta:
  assumes "prefix_new_laws pn" and "origin_prefix pn ro = Some p"
  shows "origin_vrps pn (delta_set action ro origins) =
    delta_set action (p, ro_max_len ro, ro_asn ro) (origin_vrps pn origins)"
proof -
  have "ro' = ro" if "origin_prefix pn ro' = Some p" "ro_max_len ro' = ro_max_len ro"
    "ro_asn ro' = ro_asn ro" for ro'
    using assms that unfolding prefix_new_laws_def origin_prefix_def
    by (cases ro; cases ro') (metis prefix.ext_inject route_origin.select_convs)
  then have "x \<in> origin_vrps pn (origins - {ro}) \<longleftrightarrow>
      x \<in> origin_vrps pn origins - {(p, ro_max_len ro, ro_asn ro)}" for x
    using assms(2) unfolding origin_vrps_def by force
  then show ?thesis
    using assms(2) by (cases action) (auto simp: delta_set_def origin_vrps_def)
qed

lemma in_sync_put:
  assumes "in_sync pn view origins st"
    and "\<And>q a. view st' q a = (if q = p \<and> a = asn then l else view st q a)"
    and "distinct l" and "\<And>m. m \<in> set l \<longleftrightarrow> (p, m, asn) \<in> origin_vrps pn origins'"
    and "\<And>q m a. (q, a) \<noteq> (p, asn) \<Longrightarrow>
      (q, m, a) \<in> origin_vrps pn origins' \<longleftrightarrow> (q, m, a) \<in> origin_vrps pn origins"
  shows "in_sync pn view origins' st'"
  using assms unfolding in_sync_def by auto

lemma delta_origin_sync:
  assumes laws: "vrp_store_laws ops view" and pn: "prefix_new_laws pn"
    and sync: "in_sync pn view (rc_route_origins c) (rc_vrps c)"
    and lk: "lk_route_origins lk" and p: "origin_prefix pn ro = Some p"
  obtains c' where "delta_origin pn ops lk action ro c = Done c'"
    "rc_route_origins c' = delta_set action ro (rc_route_origins c)"
    "in_sync pn view (rc_route_origins c') (rc_vrps c')"
proof -
  let ?l = "view (rc_vrps c) p (ro_asn ro)"
  let ?r = "\<lparr>vr_mui = ro_asn ro, vr_meta = delta_maxlens action (ro_max_len ro) ?l\<rparr>"
  let ?os = "delta_set action ro (rc_route_origins c)"
  obtain st' where ins: "vo_insert ops (rc_vrps c) p ?r = Some st'"
    and v: "\<And>q a. view st' q a = (if q = p \<and> a = vr_mui ?r then vr_meta ?r else view (rc_vrps c) q a)"
    by (rule vrp_laws_insert [OF laws, of "rc_vrps c" p ?r]) (rule that)
  have d: "delta_origin pn ops lk action ro c = Done (c\<lparr>rc_route_origins := ?os, rc_vrps := st'\<rparr>)"
    by (rule vrp_laws_exact [OF laws, of "rc_vrps c" p "ro_asn ro"])
      (use p lk ins in \<open>simp_all add: delta_origin_def delta_set_def\<close>)
  note os = origin_vrps_delta [OF pn p, of action "rc_route_origins c"]
  have l: "distinct ?l" "\<And>m. m \<in> set ?l \<longleftrightarrow> (p, m, ro_asn ro) \<in> origin_vrps pn (rc_route_origins c)"
    using sync by (auto simp: in_sync_def)
  have v': "view st' q a = (if q = p \<and> a = ro_asn ro
      then delta_maxlens action (ro_max_len ro) ?l else view (rc_vrps c) q a)" for q a
    using v by simp
  have "in_sync pn view ?os st'"
  proof (rule in_sync_put [OF sync v'])
    show "distinct (delta_maxlens action (ro_max_len ro) ?l)"
      using delta_maxlens_spec [OF l(1)] by blast
    show "m \<in> set (delta_maxlens action (ro_max_len ro) ?l) \<longleftrightarrow>
        (p, m, ro_asn ro) \<in> origin_vrps pn ?os" for m
      using delta_maxlens_spec [OF l(1)] l(2) unfolding os
      by (cases action) (auto simp: delta_set_def)
    show "(q, m, a) \<in> origin_vrps pn ?os \<longleftrightarrow> (q, m, a) \<in> origin_vrps pn (rc_route_origins c)"
      if "(q, a) \<noteq> (p, ro_asn ro)" for q m a
      using that unfolding os by (cases action) (auto simp: delta_set_def)
  qed
  with d show ?thesis using that by simp
qed

text \<open>The origins after a list of verbs, and the verbs whose prefixes \<open>Prefix::new\<close> accepts.\<close>

definition origins_after :: "('key, 'aspa) rtr_verbs \<Rightarrow> route_origin set \<Rightarrow> route_origin set" where
  "origins_after verbs os =
    fold (\<lambda>(action, pl) os. case pl of Origin ro \<Rightarrow> delta_set action ro os | _ \<Rightarrow> os) verbs os"

definition verbs_ok :: "(ip_addr \<Rightarrow> u8 \<Rightarrow> prefix option) \<Rightarrow> ('key, 'aspa) rtr_verbs \<Rightarrow> bool" where
  "verbs_ok pn verbs = list_all (\<lambda>(_, pl). case pl of Origin ro \<Rightarrow> origin_prefix pn ro \<noteq> None | _ \<Rightarrow> True) verbs"

fun announced :: "('key, 'aspa) rtr_verbs \<Rightarrow> route_origin list" where
  "announced [] = []"
| "announced ((Announce, Origin ro) # vs) = ro # announced vs"
| "announced (_ # vs) = announced vs"

lemmas announced_induct = announced.induct [case_names Nil Announced Withdrawn Key Aspa]

lemma verbs_ok_simps [simp]:
  "verbs_ok pn []"
  "verbs_ok pn ((action, Origin ro) # vs) \<longleftrightarrow> origin_prefix pn ro \<noteq> None \<and> verbs_ok pn vs"
  "verbs_ok pn ((action, RouterKey k) # vs) \<longleftrightarrow> verbs_ok pn vs"
  "verbs_ok pn ((action, Aspa a) # vs) \<longleftrightarrow> verbs_ok pn vs"
  unfolding verbs_ok_def by auto

lemma verbs_ok_Cons: "verbs_ok pn (v # vs) \<longleftrightarrow> verbs_ok pn [v] \<and> verbs_ok pn vs"
proof -
  obtain action pl where "v = (action, pl)" by force
  then show ?thesis by (cases pl) simp_all
qed

lemma delta_step_sync:
  assumes "vrp_store_laws ops view" and "prefix_new_laws pn"
    and "in_sync pn view (rc_route_origins c) (rc_vrps c)"
    and "verbs_ok pn [v]" and "lk_route_origins lk"
  shows "\<exists>c'. delta_step pn ops lk v c = Done c' \<and>
    rc_route_origins c' = origins_after [v] (rc_route_origins c) \<and>
    in_sync pn view (rc_route_origins c') (rc_vrps c')"
proof -
  obtain action pl where v: "v = (action, pl)" by force
  show ?thesis
  proof (cases pl)
    case (Origin ro)
    with assms(4) v obtain p where "origin_prefix pn ro = Some p" by auto
    then show ?thesis
      by (rule delta_origin_sync [OF assms(1-3,5)])
        (auto simp: delta_step_def origins_after_def v Origin)
  next
    case (RouterKey k)
    then show ?thesis using assms(3) v by (simp add: delta_step_def origins_after_def)
  next
    case (Aspa a)
    then show ?thesis using assms(3) v by (simp add: delta_step_def origins_after_def)
  qed
qed

lemma process_delta_sync:
  assumes "vrp_store_laws ops view" and "prefix_new_laws pn"
    and "in_sync pn view (rc_route_origins c) (rc_vrps c)"
    and "verbs_ok pn verbs" and "\<forall>n. lk_route_origins (lks n)"
  shows "\<exists>c'. process_delta pn ops lks verbs c = Done c' \<and>
    rc_route_origins c' = origins_after verbs (rc_route_origins c) \<and>
    in_sync pn view (rc_route_origins c') (rc_vrps c')"
  using assms(3-5)
proof (induction verbs arbitrary: c lks)
  case Nil
  then show ?case by (simp add: origins_after_def)
next
  case (Cons v vs)
  then have "verbs_ok pn [v]" and vs: "verbs_ok pn vs" using verbs_ok_Cons by blast+
  with delta_step_sync [OF assms(1,2) Cons.prems(1)] Cons.prems(3)
  obtain c1 where c1: "delta_step pn ops (lks 0) v c = Done c1"
    "rc_route_origins c1 = origins_after [v] (rc_route_origins c)"
    "in_sync pn view (rc_route_origins c1) (rc_vrps c1)" by blast
  have "\<forall>n. lk_route_origins (lks (Suc n))" using Cons.prems(3) by blast
  from Cons.IH [OF c1(3) vs this] c1 show ?case by (simp add: origins_after_def)
qed

lemma vrp_push_view:
  assumes laws: "vrp_store_laws ops view" and p: "origin_prefix pn ro = Some p"
  obtains st' where "vrp_push pn ops ro st = Some st'"
    "\<And>q a. view st' q a = (if q = p \<and> a = ro_asn ro then view st q a @ [ro_max_len ro] else view st q a)"
proof -
  let ?l = "view st p (ro_asn ro)"
  let ?r = "\<lparr>vr_mui = ro_asn ro, vr_meta = mll_push ?l (ro_max_len ro)\<rparr>"
  obtain st' where ins: "vo_insert ops st p ?r = Some st'"
    and v: "\<And>q a. view st' q a = (if q = p \<and> a = vr_mui ?r then vr_meta ?r else view st q a)"
    by (rule vrp_laws_insert [OF laws, of st p ?r]) (rule that)
  have "vrp_push pn ops ro st = Some st'"
    by (rule vrp_laws_exact [OF laws, of st p "ro_asn ro"])
      (use p ins in \<open>simp_all add: vrp_push_def\<close>)
  then show ?thesis by (rule that) (simp add: v mll_push_def)
qed

lemma vrp_push_sync:
  assumes laws: "vrp_store_laws ops view" and pn: "prefix_new_laws pn"
    and p: "origin_prefix pn ro = Some p"
    and sync: "in_sync pn view os st" and new: "ro \<notin> os"
  shows "\<exists>st'. vrp_push pn ops ro st = Some st' \<and> in_sync pn view (insert ro os) st'"
proof -
  obtain st' where st': "vrp_push pn ops ro st = Some st'"
    and v: "\<And>q a. view st' q a =
      (if q = p \<and> a = ro_asn ro then view st q a @ [ro_max_len ro] else view st q a)"
    by (rule vrp_push_view [OF laws p]) (rule that)
  have w: "origin_vrps pn os = origin_vrps pn os - {(p, ro_max_len ro, ro_asn ro)}"
    using origin_vrps_delta [OF pn p, of RtrWithdraw os] new by (simp add: delta_set_def)
  have i: "origin_vrps pn (insert ro os) = insert (p, ro_max_len ro, ro_asn ro) (origin_vrps pn os)"
    using origin_vrps_delta [OF pn p, of Announce os] by (simp add: delta_set_def)
  have "in_sync pn view (insert ro os) st'"
    using sync w unfolding in_sync_def v i by auto
  with st' show ?thesis by blast
qed

lemma reset_loop_sync:
  assumes laws: "vrp_store_laws ops view" and pn: "prefix_new_laws pn"
    and "verbs_ok pn verbs" and "distinct (announced verbs)"
    and "set (announced verbs) \<inter> ra_route_origins acc = {}"
    and "in_sync pn view (ra_route_origins acc) (ra_vrps acc)"
  shows "\<exists>acc'. reset_loop pn ops verbs acc = Some acc' \<and>
    ra_route_origins acc' = ra_route_origins acc \<union> set (announced verbs) \<and>
    in_sync pn view (ra_route_origins acc') (ra_vrps acc')"
  using assms(3-6)
proof (induction verbs arbitrary: acc rule: announced_induct)
  case (Announced ro vs)
  then obtain p where "origin_prefix pn ro = Some p" by auto
  from vrp_push_sync [OF laws pn this Announced(5)] Announced(4) obtain st' where
    st': "vrp_push pn ops ro (ra_vrps acc) = Some st'"
    "in_sync pn view (insert ro (ra_route_origins acc)) st'" by auto
  let ?acc = "acc\<lparr>ra_route_origins := insert ro (ra_route_origins acc), ra_vrps := st'\<rparr>"
  have "verbs_ok pn vs" and "distinct (announced vs)"
    and "set (announced vs) \<inter> ra_route_origins ?acc = {}"
    and "in_sync pn view (ra_route_origins ?acc) (ra_vrps ?acc)"
    using Announced(2-4) st'(2) by auto
  from Announced(1) [OF this]
  show ?case using st'(1) by auto
next
  case (Withdrawn pl vs)
  have "verbs_ok pn vs" using Withdrawn(2) verbs_ok_Cons by blast
  then show ?case using Withdrawn by simp
next
  case (Key action k vs)
  then show ?case using Key(1) [where acc = "acc\<lparr>ra_router_keys := insert k (ra_router_keys acc)\<rparr>"]
    by simp
next
  case (Aspa action a vs)
  then show ?case using Aspa(1) [where acc = "acc\<lparr>ra_aspas := insert a (ra_aspas acc)\<rparr>"] by simp
qed simp_all

lemma reset_loop_grows:
  assumes laws: "vrp_store_laws ops view" and "reset_loop pn ops verbs acc = Some acc'"
  shows "(\<exists>extra. view (ra_vrps acc') p a = view (ra_vrps acc) p a @ extra) \<and>
    ra_route_origins acc' = ra_route_origins acc \<union> set (announced verbs)"
  using assms(2)
proof (induction verbs arbitrary: acc rule: announced_induct)
  case (Announced ro vs)
  then obtain st where st: "vrp_push pn ops ro (ra_vrps acc) = Some st"
    and rest: "reset_loop pn ops vs
      (acc\<lparr>ra_route_origins := insert ro (ra_route_origins acc), ra_vrps := st\<rparr>) = Some acc'"
    by (auto split: option.splits)
  from st obtain q where q: "origin_prefix pn ro = Some q"
    by (auto simp: vrp_push_def split: option.splits)
  have "\<exists>e. view st p a = view (ra_vrps acc) p a @ e"
    by (rule vrp_push_view [OF laws q, of "ra_vrps acc"]) (use st in auto)
  with Announced(1) [OF rest] show ?case by auto
next
  case (Key action k vs)
  then show ?case
    using Key(1) [of "acc\<lparr>ra_router_keys := insert k (ra_router_keys acc)\<rparr>"] Key(1) [of acc]
    by (cases action) simp_all
next
  case (Aspa action a vs)
  then show ?case
    using Aspa(1) [of "acc\<lparr>ra_aspas := insert a (ra_aspas acc)\<rparr>"] Aspa(1) [of acc]
    by (cases action) simp_all
qed auto

lemma process_full_grows:
  assumes "vrp_store_laws ops view" and "process_full pn ops lk verbs c = Some c'"
  shows "\<exists>extra. view (rc_vrps c') p a = view (rc_vrps c) p a @ extra"
    and "lk_route_origins lk \<Longrightarrow> rc_route_origins c' = set (announced verbs)"
  using assms(2) reset_loop_grows [OF assms(1)]
  by (force simp: process_full_def split: option.splits)+

lemma rov_spec_Valid_mono: "\<lbrakk>rov_spec V p a = Valid; V \<subseteq> V'\<rbrakk> \<Longrightarrow> rov_spec V' p a = Valid"
  unfolding rov_spec_def by (smt (verit, best) rov_status.distinct subsetD)

subsection \<open>A store that satisfies the contract\<close>

type_synonym alist_vrp_store = "((prefix \<times> u32) \<times> max_len_list) list"

definition alist_vrp_ops :: "alist_vrp_store vrp_ops" where
  "alist_vrp_ops =
    \<lparr>vo_exact = (\<lambda>st p a. Some (case map_of st (p, a) of None \<Rightarrow> [] | Some l \<Rightarrow> [\<lparr>vr_mui = a, vr_meta = l\<rparr>])),
     vo_longest = (\<lambda>st p. Some
       \<lparr>vq_records = map (\<lambda>((q, a), l). \<lparr>vr_mui = a, vr_meta = l\<rparr>)
          (filter (\<lambda>((q, a), l). covers q p) (AList.clearjunk st)),
        vq_less_specifics = None\<rparr>),
     vo_insert = (\<lambda>st p r. Some (AList.update (p, vr_mui r) (vr_meta r) st))\<rparr>"

definition alist_view :: "alist_vrp_store \<Rightarrow> prefix \<Rightarrow> u32 \<Rightarrow> max_len_list" where
  "alist_view st p a = (case map_of st (p, a) of None \<Rightarrow> [] | Some l \<Rightarrow> l)"

definition sample_prefix_new :: "ip_addr \<Rightarrow> u8 \<Rightarrow> prefix option" where
  "sample_prefix_new a l = (if prefix_ok \<lparr>pfx_addr = a, pfx_len = l\<rparr> then Some \<lparr>pfx_addr = a, pfx_len = l\<rparr> else None)"

lemma sample_prefix_new_laws: "prefix_new_laws sample_prefix_new"
  by (simp add: prefix_new_laws_def sample_prefix_new_def)

lemma alist_longest:
  "\<exists>stored. answers_covering stored (vo_longest alist_vrp_ops st) p \<and>
     vrps_of stored = {(q, m, a). m \<in> set (alist_view st q a)}"
proof (intro exI conjI)
  let ?stored = "{(q, \<lparr>vr_mui = a, vr_meta = l\<rparr>) | q a l. map_of st (q, a) = Some l}"
  have m: "((q, a), l) \<in> set (AList.clearjunk st) \<longleftrightarrow> map_of st (q, a) = Some l" for q a l
    by (metis distinct_clearjunk map_of_clearjunk map_of_eq_Some_iff)
  show "answers_covering ?stored (vo_longest alist_vrp_ops st) p"
    by (force simp: answers_covering_def alist_vrp_ops_def answer_records_def m)
  show "vrps_of ?stored = {(q, m, a). m \<in> set (alist_view st q a)}"
    by (force simp: vrps_of_def alist_view_def split: option.splits)
qed

lemma alist_vrp_laws: "vrp_store_laws alist_vrp_ops alist_view"
  unfolding vrp_store_laws_def
proof (intro conjI allI)
  show "\<exists>rs. vo_exact alist_vrp_ops st p a = Some rs \<and> length rs \<le> 1 \<and>
      concat (map vr_meta rs) = alist_view st p a" for st p a
    by (simp add: alist_vrp_ops_def alist_view_def split: option.split)
  show "\<exists>st'. vo_insert alist_vrp_ops st p r = Some st' \<and>
      (\<forall>q a. alist_view st' q a = (if q = p \<and> a = vr_mui r then vr_meta r else alist_view st q a))"
    for st p r
    by (simp add: alist_vrp_ops_def alist_view_def update_conv')
qed (rule alist_longest)

subsection \<open>Properties\<close>


definition sample_origin :: "u32 \<Rightarrow> u8 \<Rightarrow> u8 \<Rightarrow> route_origin" where
  "sample_origin addr len maxlen =
    \<lparr>ro_addr = V4 addr, ro_prefix_len = len, ro_max_len = maxlen, ro_asn = 65000\<rparr>"

definition sample_cache :: "(alist_vrp_store, unit, unit) rtr_cache" where
  "sample_cache = \<lparr>rc_route_origins = {}, rc_router_keys = {}, rc_aspas = {}, rc_vrps = []\<rparr>"

definition all_free :: lock_state where
  "all_free = \<lparr>lk_route_origins = True, lk_router_keys = True, lk_aspas = True\<rparr>"


text \<open>
  C31: A cache reset replaces the set of route origins but never takes a VRP out of the store
  that validation reads: whatever the reset announces, a route that was Valid before it is
  Valid after it. Since the client starts every new connection with a reset, VRPs that were
  withdrawn while it was disconnected stay in force.
\<close>

theorem rtr_reset_keeps_old_vrps:
  assumes "vrp_store_laws ops view" and "process_full pn ops lk verbs c = Some c'"
    and "lk_route_origins lk"
    and "check_rov (vo_longest ops (rc_vrps c)) p origin = Some Valid"
  shows "rc_route_origins c' = set (announced verbs) \<and>
    check_rov (vo_longest ops (rc_vrps c')) p origin = Some Valid"
proof -
  note grows = process_full_grows [OF assms(1,2)]
  have "m \<in> set (view (rc_vrps c') q a)" if "m \<in> set (view (rc_vrps c) q a)" for q m a
    using that grows(1) [of q a] by auto
  then have "{(q, m, a). m \<in> set (view (rc_vrps c) q a)} \<subseteq> {(q, m, a). m \<in> set (view (rc_vrps c') q a)}"
    by blast
  with assms(4) rov_spec_Valid_mono grows(2) [OF assms(3)] show ?thesis
    by (auto simp: check_rov_view [OF assms(1)])
qed

theorem rtr_reset_keeps_old_vrps_witness:
  "\<exists>c'. process_full sample_prefix_new alist_vrp_ops all_free [] (sample_cache\<lparr>rc_vrps :=
      [((\<lparr>pfx_addr = V4 0, pfx_len = 0\<rparr>, 65000), [24])]\<rparr>) = Some c' \<and>
    rc_route_origins c' = {} \<and>
    check_rov (vo_longest alist_vrp_ops (rc_vrps c')) \<lparr>pfx_addr = V4 0x0A000000, pfx_len = 8\<rparr> 65000 =
      Some Valid"
proof -
  let ?c = "sample_cache\<lparr>rc_vrps := [((\<lparr>pfx_addr = V4 0, pfx_len = 0\<rparr>, 65000), [24])]\<rparr>"
  have "process_full sample_prefix_new alist_vrp_ops all_free [] ?c = Some ?c"
    by (simp add: process_full_def all_free_def sample_cache_def)
  moreover have "check_rov (vo_longest alist_vrp_ops (rc_vrps ?c))
      \<lparr>pfx_addr = V4 0x0A000000, pfx_len = 8\<rparr> 65000 = Some Valid"
    by (simp add: check_rov_def alist_vrp_ops_def covers_def addr_bits_def maxlen_hit_def)
  moreover have "lk_route_origins all_free" by (simp add: all_free_def)
  ultimately show ?thesis
    using rtr_reset_keeps_old_vrps [OF alist_vrp_laws, of sample_prefix_new all_free "[]" ?c ?c]
    by auto
qed

end
