(* ===== verification/Rib_Unit.thy ===== *)
theory Rib_Unit
  imports Rib_Table Rtr_Cache
begin

text \<open>
  The RIB unit's handling of routes (src/units/rib_unit/unit.rs): the roto filter, the insertion
  of a payload with its metrics (status_reporter.rs, metrics.rs), and the messages of the roto
  output stream (src/roto_runtime/types.rs).

  The roto script engine is a library: a compiled filter is a function of the context, the route,
  the ingress and the register that returns its verdict, the route as it left it, and the new
  context. The content of a log entry is the type \<open>'e\<close>. Clock readings are numbered:
  \<open>ue_now n\<close> is the n-th, in microseconds. Counters are 64-bit and wrap.
\<close>

subsection \<open>Output stream messages\<close>

datatype 'e roto_output =
    Out_Community u32
  | Out_Asn asn
  | Out_Origin asn
  | Out_PeerDown
  | Out_Prefix prefix
  | Out_Custom u32 u32
  | Out_Entry 'e

datatype 'e osm_record =
    Osm_Route "rotonda_route option"
  | Osm_Peerdown ip_addr asn
  | Osm_Custom u32 u32
  | Osm_Entry 'e

record 'e output_stream_message =
  om_name :: ustr
  om_topic :: ustr
  om_record :: "'e osm_record"
  om_ingress_id :: "ingress_id option"

definition MQTT_NAME :: ustr where
  "MQTT_NAME = str ''mqtt''"

definition osm_route :: "string \<Rightarrow> rotonda_route option \<Rightarrow> ingress_id option \<Rightarrow> 'e output_stream_message" where
  "osm_route topic route i =
    \<lparr>om_name = MQTT_NAME, om_topic = str topic, om_record = Osm_Route route, om_ingress_id = i\<rparr>"

definition osm_custom :: "u32 \<Rightarrow> u32 \<Rightarrow> ingress_id option \<Rightarrow> 'e output_stream_message" where
  "osm_custom ident local i =
    \<lparr>om_name = MQTT_NAME, om_topic = str ''custom'', om_record = Osm_Custom ident local, om_ingress_id = i\<rparr>"

definition osm_entry :: "'e \<Rightarrow> ingress_id option \<Rightarrow> 'e output_stream_message" where
  "osm_entry entry i =
    \<lparr>om_name = MQTT_NAME, om_topic = str ''log_entry'', om_record = Osm_Entry entry, om_ingress_id = i\<rparr>"

fun output_message ::
  "rotonda_route option \<Rightarrow> ingress_id option \<Rightarrow> 'e roto_output \<Rightarrow> 'e output_stream_message option" where
  "output_message route i (Out_Prefix _) = Some (osm_route ''prefix'' route i)"
| "output_message route i (Out_Community _) = Some (osm_route ''community'' route i)"
| "output_message route i (Out_Asn _) = Some (osm_route ''asn'' route i)"
| "output_message route i (Out_Origin _) = Some (osm_route ''origin'' route i)"
| "output_message route i Out_PeerDown = None"
| "output_message route i (Out_Custom ident local) = Some (osm_custom ident local i)"
| "output_message route i (Out_Entry entry) = Some (osm_entry entry i)"

definition process_output_stream ::
  "rotonda_route option \<Rightarrow> ingress_id option \<Rightarrow> 'e roto_output list \<Rightarrow> 'e output_stream_message list" where
  "process_output_stream route i entries = List.map_filter (output_message route i) entries"

subsection \<open>Metrics\<close>

datatype store_insertion_effect = RoutesWithdrawn u64 | RoutesRemoved u64 | RouteAdded | RouteUpdated

record rib_router_metrics =
  rrm_last_e2e_delay_millis :: u64
  rrm_last_e2e_delay_at :: nat

record rib_unit_metrics =
  rm_num_unique_prefixes :: u64
  rm_num_items :: u64
  rm_num_insert_retries :: u64
  rm_num_insert_hard_failures :: u64
  rm_num_routes_announced :: u64
  rm_num_modified_route_announcements :: u64
  rm_num_routes_withdrawn :: u64
  rm_num_route_withdrawals_without_announcement :: u64
  rm_last_insert_duration_micros :: u64
  rm_routers :: "(ingress_id, rib_router_metrics) hmap"

text \<open>\<open>Instant::duration_since\<close> saturates at zero; \<open>try_from(..).unwrap_or(MAX)\<close>.\<close>

definition duration_since :: "nat \<Rightarrow> nat \<Rightarrow> nat" where
  "duration_since self earlier = self - earlier"

definition u64_or_max :: "nat \<Rightarrow> u64" where
  "u64_or_max n = (if n < 2 ^ 64 then of_nat n else - 1)"

definition u32_or_max :: "nat \<Rightarrow> u32" where
  "u32_or_max n = (if n < 2 ^ 32 then of_nat n else - 1)"

definition insert_failed :: "rib_unit_metrics \<Rightarrow> rib_unit_metrics" where
  "insert_failed m = m\<lparr>rm_num_insert_hard_failures := rm_num_insert_hard_failures m + 1\<rparr>"

fun count_effect :: "store_insertion_effect \<Rightarrow> rib_unit_metrics \<Rightarrow> rib_unit_metrics" where
  "count_effect (RoutesWithdrawn n) m =
    (if n = 0
     then m\<lparr>rm_num_route_withdrawals_without_announcement := rm_num_route_withdrawals_without_announcement m + 1\<rparr>
     else m\<lparr>rm_num_routes_announced := rm_num_routes_announced m - n,
       rm_num_routes_withdrawn := rm_num_routes_withdrawn m + n\<rparr>)"
| "count_effect (RoutesRemoved n) m =
    (if n = 0
     then m\<lparr>rm_num_route_withdrawals_without_announcement := rm_num_route_withdrawals_without_announcement m + 1\<rparr>
     else m\<lparr>rm_num_routes_announced := rm_num_routes_announced m - n, rm_num_items := rm_num_items m - n\<rparr>)"
| "count_effect RouteAdded m =
    m\<lparr>rm_num_routes_announced := rm_num_routes_announced m + 1,
      rm_num_unique_prefixes := rm_num_unique_prefixes m + 1, rm_num_items := rm_num_items m + 1\<rparr>"
| "count_effect RouteUpdated m =
    m\<lparr>rm_num_modified_route_announcements := rm_num_modified_route_announcements m + 1\<rparr>"

definition insert_or_update ::
  "ingress_id \<Rightarrow> nat \<Rightarrow> nat \<Rightarrow> u32 \<Rightarrow> store_insertion_effect \<Rightarrow> rib_unit_metrics \<Rightarrow> rib_unit_metrics" where
  "insert_or_update i propagation_delay now num_retries change m =
    (let m = m\<lparr>rm_routers := hm_insert i
           \<lparr>rrm_last_e2e_delay_millis = u64_or_max (propagation_delay div 1000), rrm_last_e2e_delay_at = now\<rparr> (rm_routers m)\<rparr>;
         m = (if 0 < num_retries
           then m\<lparr>rm_num_insert_retries := rm_num_insert_retries m + ucast num_retries\<rparr> else m)
     in count_effect change m)"

definition insert_ok ::
  "ingress_id \<Rightarrow> nat \<Rightarrow> nat \<Rightarrow> nat \<Rightarrow> u32 \<Rightarrow> store_insertion_effect \<Rightarrow> rib_unit_metrics \<Rightarrow> rib_unit_metrics" where
  "insert_ok i insert_delay propagation_delay now num_retries change m =
    insert_or_update i propagation_delay now num_retries change
      (m\<lparr>rm_last_insert_duration_micros := u64_or_max insert_delay\<rparr>)"

subsection \<open>Payloads\<close>

record ('s, 'ctx, 'e, 'st) rib_unit_env =
  ue_rib :: "'s rib_env"
  ue_retain :: bool
  ue_dedup :: bool
  ue_pre :: "('ctx \<Rightarrow> rotonda_route \<Rightarrow> ingress_id \<Rightarrow> register \<Rightarrow> bool \<times> rotonda_route \<times> 'ctx) option"
  ue_drain :: "'ctx \<Rightarrow> 'e roto_output list \<times> 'ctx"
  ue_now :: "nat \<Rightarrow> nat"
  ue_vrp_ops :: "'st vrp_ops"
  ue_prefix_new :: "ip_addr \<Rightarrow> u8 \<Rightarrow> prefix option"
  ue_locks :: "nat \<Rightarrow> lock_state"
  ue_origin :: "owned_path_attributes \<Rightarrow> asn option"
  ue_vrp_update :: "('ctx \<Rightarrow> rtr_action \<Rightarrow> route_origin \<Rightarrow> bool \<times> 'ctx) option"
  ue_vrp_update_post :: "('ctx \<Rightarrow> rov_status_update \<Rightarrow> 'ctx) option"

record ('s, 'ctx, 'st, 'key, 'aspa) rib_unit =
  ru_rib :: "'s rib"
  ru_ctx :: 'ctx
  ru_metrics :: rib_unit_metrics
  ru_ticks :: nat
  ru_cache :: "('st, 'key, 'aspa) rtr_cache"

definition insert_payload ::
  "('s, 'ctx, 'e, 'st) rib_unit_env \<Rightarrow> payload \<Rightarrow> ('s, 'ctx, 'st, 'key, 'aspa) rib_unit \<Rightarrow>
   ('s, 'ctx, 'st, 'key, 'aspa) rib_unit option" where
  "insert_payload env p u =
    (let pre_insert = ue_now env (ru_ticks u);
         status = pl_route_status p;
         i = pl_ingress_id p;
         ltime = 0
     in case rib_insert (ue_rib env) (pl_rx_value p) status ltime i (ue_retain env) (ue_dedup env) (ru_rib u) of
          (None, _) \<Rightarrow> None
        | (Some (Inl _), rib) \<Rightarrow>
            Some (u\<lparr>ru_rib := rib, ru_metrics := insert_failed (ru_metrics u), ru_ticks := ru_ticks u + 1\<rparr>)
        | (Some (Inr report), rib) \<Rightarrow>
            (let post_insert = ue_now env (ru_ticks u + 1);
                 store_op_delay = duration_since pre_insert post_insert;
                 propagation_delay = duration_since (pl_received p) post_insert;
                 retries = u32_or_max (ur_cas_count report);
                 change = (if ur_prefix_new report then RouteAdded else RouteUpdated);
                 m = insert_ok i store_op_delay propagation_delay (ue_now env (ru_ticks u + 2)) retries change (ru_metrics u);
                 m = (if status = Withdrawn
                   then insert_ok i store_op_delay propagation_delay (ue_now env (ru_ticks u + 3)) retries (RoutesWithdrawn 1) m
                   else m)
             in Some (u\<lparr>ru_rib := rib, ru_metrics := m, ru_ticks := ru_ticks u + 4\<rparr>)))"

text \<open>One payload of the loop in \<open>filter_payload\<close>: whether it passed, and the messages it produced.\<close>

definition filter_one ::
  "('s, 'ctx, 'e, 'st) rib_unit_env \<Rightarrow> payload \<Rightarrow> ('s, 'ctx, 'st, 'key, 'aspa) rib_unit \<Rightarrow>
   (bool \<times> payload \<times> 'e output_stream_message list \<times> ('s, 'ctx, 'st, 'key, 'aspa) rib_unit) option" where
  "filter_one env p u =
    (case (case ue_pre env of
            Some f \<Rightarrow>
              (case f (ru_ctx u) (pl_rx_value p) (pl_ingress_id p) (rb_register (ru_rib u)) of
                (accept, rr, ctx) \<Rightarrow> (accept, p\<lparr>pl_rx_value := rr\<rparr>, u\<lparr>ru_ctx := ctx\<rparr>))
          | None \<Rightarrow> (True, p, u)) of
      (accept, p, u) \<Rightarrow>
        (case (if accept then insert_payload env p u else Some u) of
          None \<Rightarrow> None
        | Some u \<Rightarrow>
            (case ue_drain env (ru_ctx u) of
              (entries, ctx) \<Rightarrow>
                Some (accept, p, process_output_stream (Some (pl_rx_value p)) (Some (pl_ingress_id p)) entries, u\<lparr>ru_ctx := ctx\<rparr>))))"

fun filter_loop ::
  "('s, 'ctx, 'e, 'st) rib_unit_env \<Rightarrow> payload list \<Rightarrow> payload list \<Rightarrow> ('e output_stream_message, 'rtr) update list \<Rightarrow>
   ('s, 'ctx, 'st, 'key, 'aspa) rib_unit \<Rightarrow>
   (payload list \<times> ('e output_stream_message, 'rtr) update list \<times> ('s, 'ctx, 'st, 'key, 'aspa) rib_unit) option" where
  "filter_loop env [] res out u = Some (res, out, u)"
| "filter_loop env (p # ps) res out u =
    (case filter_one env p u of
      None \<Rightarrow> None
    | Some (accept, p, osms, u) \<Rightarrow>
        filter_loop env ps (if accept then res @ [p] else res) (out @ [OutputStream osms]) u)"

definition passed_on :: "payload list \<Rightarrow> ('osm, 'rtr) update list" where
  "passed_on res = (case res of [] \<Rightarrow> [] | [p] \<Rightarrow> [Single p] | _ \<Rightarrow> [Bulk res])"

definition filter_payload ::
  "('s, 'ctx, 'e, 'st) rib_unit_env \<Rightarrow> payload list \<Rightarrow> ('s, 'ctx, 'st, 'key, 'aspa) rib_unit \<Rightarrow>
   (('e output_stream_message, 'rtr) update list \<times> ('s, 'ctx, 'st, 'key, 'aspa) rib_unit) option" where
  "filter_payload env ps u =
    (case filter_loop env ps [] [] u of
      None \<Rightarrow> None
    | Some (res, out, u) \<Rightarrow> Some (out @ passed_on res, u))"

end
