(* ===== verification/Rib_Rov.thy ===== *)
theory Rib_Rov
  imports Rib_Unit
begin

text \<open>
  Route origin validation of stored routes: the \<open>Update::Rtr\<close> arm of \<open>process_update\<close> of
  src/units/rib_unit/unit.rs as a whole. A serial update changes the VRP cache verb by verb
  (\<open>Rtr_Cache\<close>) and after each verb revalidates the routes at and below its prefix; a reset
  replaces the cache and starts a walk over all routes in the background.

  routecore's access to the AS path is the parameter \<open>ue_origin\<close>. The walk works on the prefix
  records its iterator has read (\<open>rov_walk_reads\<close>) and writes them back one by one, so other
  updates may come in between. A panic is \<open>None\<close>.
\<close>

subsection \<open>Matching\<close>

definition no_answer :: "query_result \<Rightarrow> bool" where
  "no_answer res = (qr_records res = [] \<and> qr_less_specifics res = None \<and> qr_more_specifics res = None)"

definition match_prefix :: "'s rib_env \<Rightarrow> 's rib \<Rightarrow> prefix \<Rightarrow> match_options \<Rightarrow> store_error + query_result" where
  "match_prefix env rib p opts =
    (case rb_unicast rib of
      None \<Rightarrow> Inl StoreNotReady
    | Some u \<Rightarrow>
        (case st_match_prefix (re_ops env) u p opts of
          Inl e \<Rightarrow> Inl e
        | Inr unicast_res \<Rightarrow>
            if no_answer unicast_res then
              (case rb_multicast rib of
                None \<Rightarrow> Inl StoreNotReady
              | Some m \<Rightarrow>
                  (case st_match_prefix (re_ops env) m p opts of
                    Inl e \<Rightarrow> Inl e
                  | Inr multicast_res \<Rightarrow>
                      if \<not> no_answer multicast_res then Inr multicast_res else Inr unicast_res))
            else Inr unicast_res))"

subsection \<open>Revalidation\<close>

text \<open>One record: \<open>Some None\<close> when it has no origin.\<close>

definition rov_one ::
  "('s, 'ctx, 'e, 'st) rib_unit_env \<Rightarrow> 'st \<Rightarrow> prefix \<Rightarrow> rib_record \<Rightarrow>
   (rov_status \<times> rov_status \<times> asn \<times> rib_record) option option" where
  "rov_one env vrps p r =
    (case path_attributes (rec_meta r) of
      None \<Rightarrow> None
    | Some pas \<Rightarrow>
        (case ue_origin env pas of
          None \<Rightarrow> Some None
        | Some origin \<Rightarrow>
            (case check_rov (vo_longest (ue_vrp_ops env) vrps) p origin of
              None \<Rightarrow> None
            | Some st \<Rightarrow>
                (case get_rpki_info (rec_meta r) of
                  None \<Rightarrow> None
                | Some old \<Rightarrow>
                    (case set_rpki_info \<lparr>rov = st\<rparr> (rec_meta r) of
                      None \<Rightarrow> None
                    | Some pm \<Rightarrow> Some (Some (rov old, st, origin, r\<lparr>rec_meta := pm\<rparr>)))))))"

definition peer_as :: "register \<Rightarrow> ingress_id \<Rightarrow> asn" where
  "peer_as reg i = (case Option.bind (reg_get reg i) ii_remote_asn of Some a \<Rightarrow> a | None \<Rightarrow> 0)"

fun rov_records ::
  "('s, 'ctx, 'e, 'st) rib_unit_env \<Rightarrow> 'st \<Rightarrow> register \<Rightarrow> prefix \<Rightarrow> rib_record list \<Rightarrow> 's \<Rightarrow> rov_status_update list \<Rightarrow>
   ('s \<times> rov_status_update list) option" where
  "rov_records env vrps reg p [] s ups = Some (s, ups)"
| "rov_records env vrps reg p (r # rs) s ups =
    (case rov_one env vrps p r of
      None \<Rightarrow> None
    | Some None \<Rightarrow> rov_records env vrps reg p rs s ups
    | Some (Some (old, st, origin, r')) \<Rightarrow>
        rov_records env vrps reg p rs (snd (st_insert (re_ops (ue_rib env)) s p r'))
          (ups @ [\<lparr>rsu_prefix = p, rsu_previous_status = old, rsu_current_status = st, rsu_origin = origin,
             rsu_peer_asn = peer_as reg (rec_mui r)\<rparr>]))"

fun rov_prefixes ::
  "('s, 'ctx, 'e, 'st) rib_unit_env \<Rightarrow> 'st \<Rightarrow> register \<Rightarrow> prefix_record list \<Rightarrow> 's \<Rightarrow> rov_status_update list \<Rightarrow>
   ('s \<times> rov_status_update list) option" where
  "rov_prefixes env vrps reg [] s ups = Some (s, ups)"
| "rov_prefixes env vrps reg (pr # prs) s ups =
    (case rov_records env vrps reg (pr_prefix pr) (pr_meta pr) s ups of
      None \<Rightarrow> None
    | Some (s, ups) \<Rightarrow> rov_prefixes env vrps reg prs s ups)"

definition rov_options :: match_options where
  "rov_options = \<lparr>mo_match_type = ExactMatch, mo_include_withdrawn = False, mo_include_less_specifics = False,
     mo_include_more_specifics = True, mo_mui = None\<rparr>"

definition record_set_list :: "record_set option \<Rightarrow> prefix_record list" where
  "record_set_list rs = (case rs of None \<Rightarrow> [] | Some rs \<Rightarrow> rs_v4 rs @ rs_v6 rs)"

text \<open>The routes at and below the prefix of a changed VRP; \<open>Some None\<close> when the match failed.\<close>

definition revalidate ::
  "('s, 'ctx, 'e, 'st) rib_unit_env \<Rightarrow> 'st \<Rightarrow> prefix \<Rightarrow> 's rib \<Rightarrow> ('s rib \<times> rov_status_update list) option option" where
  "revalidate env vrps p rib =
    (case match_prefix (ue_rib env) rib p rov_options of
      Inl _ \<Rightarrow> Some None
    | Inr res \<Rightarrow>
        (case rb_unicast rib of
          None \<Rightarrow> Some None
        | Some store \<Rightarrow>
            (case rov_records env vrps (rb_register rib) p (qr_records res) store [] of
              None \<Rightarrow> None
            | Some (store, ups) \<Rightarrow>
                (case rov_prefixes env vrps (rb_register rib) (record_set_list (qr_more_specifics res)) store ups of
                  None \<Rightarrow> None
                | Some (store, ups) \<Rightarrow> Some (Some (rib\<lparr>rb_unicast := Some store\<rparr>, ups))))))"

subsection \<open>Serial updates and resets\<close>

definition drain_unit ::
  "('s, 'ctx, 'e, 'st) rib_unit_env \<Rightarrow> ('s, 'ctx, 'st, 'key, 'aspa) rib_unit \<Rightarrow>
   ('e output_stream_message, 'rtr) update list \<Rightarrow>
   ('e output_stream_message, 'rtr) update list \<times> ('s, 'ctx, 'st, 'key, 'aspa) rib_unit" where
  "drain_unit env u out =
    (case ue_drain env (ru_ctx u) of
      (entries, ctx) \<Rightarrow> (out @ [OutputStream (process_output_stream None None entries)], u\<lparr>ru_ctx := ctx\<rparr>))"

definition ask_vrp_filter ::
  "('s, 'ctx, 'e, 'st) rib_unit_env \<Rightarrow> rtr_action \<Rightarrow> route_origin \<Rightarrow> ('s, 'ctx, 'st, 'key, 'aspa) rib_unit \<Rightarrow>
   bool \<times> ('e output_stream_message, 'rtr) update list \<times> ('s, 'ctx, 'st, 'key, 'aspa) rib_unit" where
  "ask_vrp_filter env action ro u =
    (case ue_vrp_update env of
      None \<Rightarrow> (True, [], u)
    | Some f \<Rightarrow>
        (case f (ru_ctx u) action ro of
          (accept, ctx) \<Rightarrow> (accept, drain_unit env (u\<lparr>ru_ctx := ctx\<rparr>) [])))"

definition report_rov_updates ::
  "('s, 'ctx, 'e, 'st) rib_unit_env \<Rightarrow> rov_status_update list \<Rightarrow> ('s, 'ctx, 'st, 'key, 'aspa) rib_unit \<Rightarrow>
   ('e output_stream_message, 'rtr) update list \<Rightarrow>
   ('e output_stream_message, 'rtr) update list \<times> ('s, 'ctx, 'st, 'key, 'aspa) rib_unit" where
  "report_rov_updates env ups u out =
    (case ue_vrp_update_post env of
      None \<Rightarrow> (out, u)
    | Some f \<Rightarrow> drain_unit env (u\<lparr>ru_ctx := foldl f (ru_ctx u) ups\<rparr>) out)"

definition apply_vrp ::
  "('s, 'ctx, 'e, 'st) rib_unit_env \<Rightarrow> rtr_action \<Rightarrow> route_origin \<Rightarrow> prefix \<Rightarrow> ('s, 'ctx, 'st, 'key, 'aspa) rib_unit \<Rightarrow>
   (('e output_stream_message, 'rtr) update list \<times> ('s, 'ctx, 'st, 'key, 'aspa) rib_unit) option" where
  "apply_vrp env action ro p u =
    (case ask_vrp_filter env action ro u of
      (accept, out, u) \<Rightarrow>
        if \<not> accept then Some (out, u)
        else (case revalidate env (rc_vrps (ru_cache u)) p (ru_rib u) of
          None \<Rightarrow> None
        | Some None \<Rightarrow> Some (out, u)
        | Some (Some (rib, ups)) \<Rightarrow> Some (report_rov_updates env ups (u\<lparr>ru_rib := rib\<rparr>) out)))"

text \<open>The result: whether it ended without an error, what went through the gate, and the unit.\<close>

fun rtr_delta ::
  "('s, 'ctx, 'e, 'st) rib_unit_env \<Rightarrow> ('key, 'aspa) rtr_verbs \<Rightarrow> ('e output_stream_message, 'rtr) update list \<Rightarrow>
   ('s, 'ctx, 'st, 'key, 'aspa) rib_unit \<Rightarrow>
   (bool \<times> ('e output_stream_message, 'rtr) update list \<times> ('s, 'ctx, 'st, 'key, 'aspa) rib_unit) option" where
  "rtr_delta env [] out u = Some (True, out, u)"
| "rtr_delta env ((action, pl) # vs) out u =
    (case delta_step (ue_prefix_new env) (ue_vrp_ops env) (ue_locks env (ru_ticks u)) (action, pl) (ru_cache u) of
      Panic \<Rightarrow> None
    | Failed \<Rightarrow> Some (False, out, u)
    | Done c \<Rightarrow>
        (let u = u\<lparr>ru_cache := c, ru_ticks := ru_ticks u + 1\<rparr>
         in case pl of
              Origin ro \<Rightarrow>
                (case origin_prefix (ue_prefix_new env) ro of
                  None \<Rightarrow> None
                | Some p \<Rightarrow>
                    (case apply_vrp env action ro p u of
                      None \<Rightarrow> None
                    | Some (out', u) \<Rightarrow> rtr_delta env vs (out @ out') u))
            | _ \<Rightarrow> rtr_delta env vs out u))"

definition rtr_full ::
  "('s, 'ctx, 'e, 'st) rib_unit_env \<Rightarrow> ('key, 'aspa) rtr_verbs \<Rightarrow> ('s, 'ctx, 'st, 'key, 'aspa) rib_unit \<Rightarrow>
   ('s, 'ctx, 'st, 'key, 'aspa) rib_unit option" where
  "rtr_full env verbs u =
    (case process_full (ue_prefix_new env) (ue_vrp_ops env) (ue_locks env (ru_ticks u)) verbs (ru_cache u) of
      None \<Rightarrow> None
    | Some c \<Rightarrow> Some (u\<lparr>ru_cache := c, ru_ticks := ru_ticks u + 1\<rparr>))"

text \<open>The background walk of a reset: what it reads, and what it writes back.\<close>

definition rov_walk_reads :: "'s rib_env \<Rightarrow> 's rib \<Rightarrow> prefix_record list" where
  "rov_walk_reads env rib =
    (case rb_unicast rib of None \<Rightarrow> [] | Some s \<Rightarrow> flatten_ok (st_prefixes_iter (re_ops env) s))"

definition rov_walk_writes ::
  "('s, 'ctx, 'e, 'st) rib_unit_env \<Rightarrow> 'st \<Rightarrow> prefix_record list \<Rightarrow> 's rib \<Rightarrow> 's rib option" where
  "rov_walk_writes env vrps prs rib =
    (case rb_unicast rib of
      None \<Rightarrow> Some rib
    | Some s \<Rightarrow>
        (case rov_prefixes env vrps (rb_register rib) prs s [] of
          None \<Rightarrow> None
        | Some (s, _) \<Rightarrow> Some (rib\<lparr>rb_unicast := Some s\<rparr>)))"

subsection \<open>What revalidation writes\<close>

definition origin_of :: "('s, 'ctx, 'e, 'st) rib_unit_env \<Rightarrow> rotonda_pa_map \<Rightarrow> asn option" where
  "origin_of env pm = Option.bind (path_attributes pm) (ue_origin env)"

definition validated :: "('s, 'ctx, 'e, 'st) rib_unit_env \<Rightarrow> vrp set \<Rightarrow> prefix \<Rightarrow> rotonda_pa_map \<Rightarrow> bool" where
  "validated env V p pm =
    (\<forall>origin. origin_of env pm = Some origin \<longrightarrow> get_rpki_info pm = Some \<lparr>rov = rov_spec V p origin\<rparr>)"

definition revalidated :: "('s, 'ctx, 'e, 'st) rib_unit_env \<Rightarrow> vrp set \<Rightarrow> prefix \<Rightarrow> rib_record \<Rightarrow> rib_record" where
  "revalidated env V p r =
    r\<lparr>rec_meta := the (set_rpki_info \<lparr>rov = rov_spec V p (the (origin_of env (rec_meta r)))\<rparr> (rec_meta r))\<rparr>"

lemma path_attributes_raw: "path_attributes pm \<noteq> None \<Longrightarrow> \<exists>a b rest. pm_raw pm = a # b # rest"
  by (auto simp: path_attributes_def split: list.splits)

lemma revalidated_simps [simp]:
  "rec_mui (revalidated env V p r) = rec_mui r" "rec_status (revalidated env V p r) = rec_status r"
  by (simp_all add: revalidated_def)

lemma set_rpki_info_facts:
  assumes "path_attributes pm \<noteq> None"
  obtains pm' where "set_rpki_info i pm = Some pm'" "path_attributes pm' = path_attributes pm" "get_rpki_info pm' = Some i"
proof -
  obtain a b rest where raw: "pm_raw pm = a # b # rest" using path_attributes_raw [OF assms] by blast
  show thesis
    by (rule that [of "\<lparr>pm_raw = u8_from_rpki_info i # b # rest\<rparr>"])
      (use raw in \<open>simp_all add: set_rpki_info_def path_attributes_def get_rpki_info_def rpki_info_roundtrip\<close>)
qed

lemma revalidated_ok:
  assumes "readable r" and "origin_of env (rec_meta r) \<noteq> None"
  shows "readable (revalidated env V p r)" and "origin_of env (rec_meta (revalidated env V p r)) = origin_of env (rec_meta r)"
    and "validated env V p (rec_meta (revalidated env V p r))"
proof -
  obtain o' where o': "origin_of env (rec_meta r) = Some o'" using assms(2) by blast
  obtain pm' where pm': "set_rpki_info \<lparr>rov = rov_spec V p o'\<rparr> (rec_meta r) = Some pm'"
    "path_attributes pm' = path_attributes (rec_meta r)" "get_rpki_info pm' = Some \<lparr>rov = rov_spec V p o'\<rparr>"
    using assms(1) unfolding readable_def by (rule set_rpki_info_facts) blast
  then have m: "rec_meta (revalidated env V p r) = pm'" by (simp add: revalidated_def o')
  have same: "origin_of env pm' = Some o'" using o' pm'(2) by (simp add: origin_of_def)
  show "readable (revalidated env V p r)" using assms(1) m pm'(2) by (simp add: readable_def)
  show "origin_of env (rec_meta (revalidated env V p r)) = origin_of env (rec_meta r)" using m same o' by simp
  show "validated env V p (rec_meta (revalidated env V p r))" using m same pm'(3) by (simp add: validated_def)
qed

lemma rov_one_eq:
  assumes "vrp_store_laws (ue_vrp_ops env) view" and "readable r"
    and V: "V = {(q, m, a). m \<in> set (view vrps q a)}"
  shows "if origin_of env (rec_meta r) = None then rov_one env vrps p r = Some None
    else (\<exists>old st origin. rov_one env vrps p r = Some (Some (old, st, origin, revalidated env V p r)))"
proof -
  obtain pas where pas: "path_attributes (rec_meta r) = Some pas" using assms(2) by (auto simp: readable_def)
  show ?thesis
  proof (cases "ue_origin env pas")
    case None
    then show ?thesis using pas by (simp add: rov_one_def origin_of_def)
  next
    case (Some origin)
    obtain pm' where pm': "set_rpki_info \<lparr>rov = rov_spec V p origin\<rparr> (rec_meta r) = Some pm'"
      using assms(2) unfolding readable_def by (rule set_rpki_info_facts) blast
    obtain old where "get_rpki_info (rec_meta r) = Some old"
      using pm' by (auto simp: set_rpki_info_def get_rpki_info_def split: list.splits)
    then show ?thesis
      using Some pas pm' check_rov_view [OF assms(1), of vrps p origin]
      by (simp add: rov_one_def origin_of_def revalidated_def V)
  qed
qed

text \<open>\<open>W\<close> lists the prefixes and records a run works on.\<close>

definition touches :: "('s, 'ctx, 'e, 'st) rib_unit_env \<Rightarrow> (prefix \<times> rib_record) list \<Rightarrow> prefix \<Rightarrow> ingress_id \<Rightarrow> bool" where
  "touches env W q j = (\<exists>r. (q, r) \<in> set W \<and> rec_mui r = j \<and> origin_of env (rec_meta r) \<noteq> None)"

definition rov_effect ::
  "('s, 'ctx, 'e, 'st) rib_unit_env \<Rightarrow> 's store_view \<Rightarrow> vrp set \<Rightarrow> (prefix \<times> rib_record) list \<Rightarrow> 's \<Rightarrow> 's \<Rightarrow> bool" where
  "rov_effect env v V W s s' =
    (sv_wd v s' = sv_wd v s \<and>
     (\<forall>q j. \<not> touches env W q j \<longrightarrow> sv_rec v s' q j = sv_rec v s q j) \<and>
     (\<forall>q r. (q, r) \<in> set W \<longrightarrow> origin_of env (rec_meta r) \<noteq> None \<longrightarrow>
        sv_rec v s' q (rec_mui r) = Some (revalidated env V q r)))"

definition functional :: "(prefix \<times> rib_record) list \<Rightarrow> bool" where
  "functional W = (\<forall>q r r'. (q, r) \<in> set W \<longrightarrow> (q, r') \<in> set W \<longrightarrow> rec_mui r = rec_mui r' \<longrightarrow> r = r')"

lemma functional_append: "functional (W1 @ W2) \<Longrightarrow> functional W1 \<and> functional W2"
  unfolding functional_def by (metis Un_iff set_append)

lemma rov_effect_append:
  assumes "rov_effect env v V W1 s s1" and "rov_effect env v V W2 s1 s2" and "functional (W1 @ W2)"
  shows "rov_effect env v V (W1 @ W2) s s2"
proof -
  have t: "touches env (W1 @ W2) q j \<longleftrightarrow> touches env W1 q j \<or> touches env W2 q j" for q j
    by (auto simp: touches_def)
  have "sv_rec v s2 q (rec_mui r) = Some (revalidated env V q r)"
    if r: "(q, r) \<in> set W1" "origin_of env (rec_meta r) \<noteq> None" for q r
  proof (cases "touches env W2 q (rec_mui r)")
    case True
    then obtain r' where r': "(q, r') \<in> set W2" "rec_mui r' = rec_mui r" by (auto simp: touches_def)
    then have "r' = r" using assms(3) r(1) unfolding functional_def by (metis Un_iff set_append)
    then show ?thesis using assms(2) r(2) r'(1) by (auto simp: rov_effect_def)
  next
    case False
    then show ?thesis using assms(1,2) r by (simp add: rov_effect_def)
  qed
  then show ?thesis using assms(1,2) unfolding rov_effect_def by (auto simp: t)
qed

lemma rov_records_effect:
  assumes laws: "store_laws (re_ops (ue_rib env)) v" and vl: "vrp_store_laws (ue_vrp_ops env) view"
    and V: "V = {(q, m, a). m \<in> set (view vrps q a)}"
    and "list_all readable rs" and "functional (map (Pair p) rs)"
  shows "\<exists>s' ups'. rov_records env vrps reg p rs s ups = Some (s', ups') \<and> rov_effect env v V (map (Pair p) rs) s s'"
  using assms(4,5)
proof (induction rs arbitrary: s ups)
  case Nil
  then show ?case by (simp add: rov_effect_def touches_def)
next
  case (Cons r rs)
  have rd: "readable r" using Cons.prems by simp
  have f: "functional ([(p, r)] @ map (Pair p) rs)" using Cons.prems(2) by simp
  have frs: "functional (map (Pair p) rs)" using functional_append [OF f] by blast
  note one = rov_one_eq [OF vl rd V, of p]
  show ?case
  proof (cases "origin_of env (rec_meta r) = None")
    case True
    then have e: "rov_effect env v V [(p, r)] s s" by (simp add: rov_effect_def touches_def)
    obtain s' ups' where "rov_records env vrps reg p rs s ups = Some (s', ups')" "rov_effect env v V (map (Pair p) rs) s s'"
      using Cons.IH [of s ups] Cons.prems(1) frs by auto
    then show ?thesis using one True rov_effect_append [OF e _ f] by auto
  next
    case False
    define s1 where "s1 = snd (st_insert (re_ops (ue_rib env)) s p (revalidated env V p r))"
    have e: "rov_effect env v V [(p, r)] s s1"
      using False by (auto simp: s1_def rov_effect_def touches_def store_lawsD [OF laws] upd_rec_def)
    obtain old st origin where o': "rov_one env vrps p r = Some (Some (old, st, origin, revalidated env V p r))"
      using one False by auto
    define ups1 where "ups1 = ups @ [\<lparr>rsu_prefix = p, rsu_previous_status = old,
        rsu_current_status = st, rsu_origin = origin, rsu_peer_asn = peer_as reg (rec_mui r)\<rparr>]"
    obtain s' ups' where "rov_records env vrps reg p rs s1 ups1 = Some (s', ups')" "rov_effect env v V (map (Pair p) rs) s1 s'"
      using Cons.IH [of s1 ups1] Cons.prems(1) frs by auto
    then show ?thesis using o' rov_effect_append [OF e _ f] by (auto simp: s1_def ups1_def)
  qed
qed

definition pairs_of :: "prefix_record list \<Rightarrow> (prefix \<times> rib_record) list" where
  "pairs_of prs = concat (map (\<lambda>pr. map (Pair (pr_prefix pr)) (pr_meta pr)) prs)"

lemma rov_prefixes_effect:
  assumes laws: "store_laws (re_ops (ue_rib env)) v" and vl: "vrp_store_laws (ue_vrp_ops env) view"
    and V: "V = {(q, m, a). m \<in> set (view vrps q a)}"
    and "\<forall>pr \<in> set prs. list_all readable (pr_meta pr)" and "functional (pairs_of prs)"
  shows "\<exists>s' ups'. rov_prefixes env vrps reg prs s ups = Some (s', ups') \<and> rov_effect env v V (pairs_of prs) s s'"
  using assms(4,5)
proof (induction prs arbitrary: s ups)
  case Nil
  then show ?case by (simp add: rov_effect_def touches_def pairs_of_def)
next
  case (Cons pr prs)
  have f: "functional (map (Pair (pr_prefix pr)) (pr_meta pr) @ pairs_of prs)" using Cons.prems(2) by (simp add: pairs_of_def)
  obtain s1 ups1 where s1: "rov_records env vrps reg (pr_prefix pr) (pr_meta pr) s ups = Some (s1, ups1)"
    "rov_effect env v V (map (Pair (pr_prefix pr)) (pr_meta pr)) s s1"
    using rov_records_effect [OF laws vl V, of "pr_meta pr" "pr_prefix pr"] Cons.prems(1) functional_append [OF f] by fastforce
  obtain s' ups' where s': "rov_prefixes env vrps reg prs s1 ups1 = Some (s', ups')" "rov_effect env v V (pairs_of prs) s1 s'"
    using Cons.IH [of s1 ups1] Cons.prems(1) functional_append [OF f] by auto
  from rov_effect_append [OF s1(2) s'(2) f] s1(1) s'(1) show ?case by (simp add: pairs_of_def)
qed

subsection \<open>Every active route is validated\<close>

definition all_readable :: "'s store_view \<Rightarrow> 's rib \<Rightarrow> bool" where
  "all_readable v rib = (\<forall>mc q j r. rib_rec v rib mc q j = Some r \<longrightarrow> readable r)"

definition rov_fresh :: "('s, 'ctx, 'e, 'st) rib_unit_env \<Rightarrow> 's store_view \<Rightarrow> vrp set \<Rightarrow> 's rib \<Rightarrow> bool" where
  "rov_fresh env v V rib = (\<forall>q j pm. rib_active v rib False q j = Some pm \<longrightarrow> validated env V q pm)"

lemma covers_below: "covers p q \<longleftrightarrow> q = p \<or> below p q"
  by (auto simp: below_def covers_def)

lemma visible_rec:
  assumes "r \<in> visible v s rov_options q"
  shows "sv_rec v s q (rec_mui r) = Some r"
  using assms by (auto simp: visible_def rov_options_def eff_rec_def split: option.splits if_splits)

lemma visible_active:
  assumes "rib_active v rib False q j = Some pm" and "rb_unicast rib = Some s" and "store_laws ops v"
  obtains r where "r \<in> visible v s rov_options q" "rec_mui r = j" "sv_rec v s q j = Some r" "rec_meta r = pm"
proof -
  obtain r where r: "sv_rec v s q j = Some r" "rec_status r = Active" "\<not> sv_wd v s (is_v4 q) j" "rec_meta r = pm"
    using assms(1,2) by (auto simp: rib_active_alt rib_rec_def rib_wd_def rib_store_def split: option.splits if_splits)
  have m: "rec_mui r = j" by (rule store_lawsD(1) [OF assms(3) r(1)])
  then have "r \<in> visible v s rov_options q" using r by (simp add: visible_def rov_options_def eff_rec_def)
  then show thesis using m r by (intro that)
qed

text \<open>The records a query answers with, as work for revalidation.\<close>

definition work :: "prefix \<Rightarrow> query_result \<Rightarrow> (prefix \<times> rib_record) list" where
  "work p res = map (Pair p) (qr_records res) @ pairs_of (record_set_list (qr_more_specifics res))"

lemma work_facts:
  assumes a: "answers v s rov_options p (Inr res)"
  shows "(q, r) \<in> set (work p res) \<longleftrightarrow> covers p q \<and> r \<in> visible v s rov_options q"
proof -
  let ?more = "record_set_list (qr_more_specifics res)"
  have ex: "set (qr_records res) = visible v s rov_options p" using a by (simp add: answers_def)
  have m: "answers_set v s rov_options (below p) (qr_more_specifics res)"
    using a by (simp add: answers_def rov_options_def)
  note more = m [unfolded answers_set_def Let_def, folded record_set_list_def]
  have "(q, r) \<in> set (pairs_of ?more) \<longleftrightarrow> below p q \<and> r \<in> visible v s rov_options q"
  proof
    assume "(q, r) \<in> set (pairs_of ?more)"
    then obtain pr where "pr \<in> set ?more" "q = pr_prefix pr" "r \<in> set (pr_meta pr)" by (auto simp: pairs_of_def)
    then show "below p q \<and> r \<in> visible v s rov_options q" using more by auto
  next
    assume b: "below p q \<and> r \<in> visible v s rov_options q"
    then obtain pr where pr: "pr \<in> set ?more" "pr_prefix pr = q" using more by blast
    then have "r \<in> set (pr_meta pr)" using more b by auto
    then show "(q, r) \<in> set (pairs_of ?more)" using pr by (auto simp: pairs_of_def)
  qed
  then show ?thesis using ex by (auto simp: work_def covers_below)
qed

lemma visible_functional: "(\<And>q r. (q, r) \<in> set W \<Longrightarrow> r \<in> visible v s opts q) \<Longrightarrow> functional W"
  unfolding functional_def visible_def by (metis (mono_tags, lifting) mem_Collect_eq option.inject)

lemma rov_work_effect:
  assumes laws: "store_laws (re_ops (ue_rib env)) v" and vl: "vrp_store_laws (ue_vrp_ops env) view"
    and V: "V = {(q, m, a). m \<in> set (view vrps q a)}"
    and a: "answers v s0 rov_options p (Inr res)" and rd: "\<forall>(q, r) \<in> set (work p res). readable r"
  obtains s1 ups1 s2 ups2 where "rov_records env vrps reg p (qr_records res) s ups = Some (s1, ups1)"
    "rov_prefixes env vrps reg (record_set_list (qr_more_specifics res)) s1 ups1 = Some (s2, ups2)"
    "rov_effect env v V (work p res) s s2"
proof -
  let ?more = "record_set_list (qr_more_specifics res)"
  have f: "functional (map (Pair p) (qr_records res) @ pairs_of ?more)"
    by (rule visible_functional [of _ v s0 rov_options]) (use work_facts [OF a] in \<open>simp add: work_def\<close>)
  have "list_all readable (qr_records res)" using rd by (auto simp: work_def list_all_iff)
  then obtain s1 ups1 where s1: "rov_records env vrps reg p (qr_records res) s ups = Some (s1, ups1)"
    "rov_effect env v V (map (Pair p) (qr_records res)) s s1"
    using rov_records_effect [OF laws vl V] functional_append [OF f] by blast
  have "\<forall>pr \<in> set ?more. list_all readable (pr_meta pr)"
    using rd by (fastforce simp: work_def list_all_iff pairs_of_def)
  then obtain s2 ups2 where s2: "rov_prefixes env vrps reg ?more s1 ups1 = Some (s2, ups2)"
    "rov_effect env v V (pairs_of ?more) s1 s2"
    using rov_prefixes_effect [OF laws vl V] functional_append [OF f] by blast
  from rov_effect_append [OF s1(2) s2(2) f] s1(1) s2(1) show thesis by (intro that) (simp_all add: work_def)
qed

lemma no_answer_visible:
  assumes "answers v s rov_options p (Inr res)" and "no_answer res" and "covers p q"
  shows "visible v s rov_options q = {}"
  using work_facts [OF assms(1), of q] assms(2,3) by (auto simp: no_answer_def work_def pairs_of_def record_set_list_def)

text \<open>Whichever store answered: the answer is complete for the unicast store, and readable.\<close>

lemma match_prefix_work:
  assumes laws: "store_laws (re_ops env) v" and rdy: "rb_unicast rib = Some u" "rb_multicast rib = Some m"
    and rd: "all_readable v rib"
  obtains res s0 where "match_prefix env rib p rov_options = Inr res" "answers v s0 rov_options p (Inr res)"
    "\<forall>(q, r) \<in> set (work p res). readable r"
    "\<And>q r. covers p q \<Longrightarrow> r \<in> visible v u rov_options q \<Longrightarrow> (q, r) \<in> set (work p res)"
proof -
  have exact: "mo_match_type rov_options = ExactMatch" by (simp add: rov_options_def)
  have ans: "\<exists>res. st_match_prefix (re_ops env) s p rov_options = Inr res \<and> answers v s rov_options p (Inr res)" for s
    using store_laws_iter(9) [OF laws exact, of s p] by (auto simp: answers_def split: sum.splits)
  obtain ures where ures: "st_match_prefix (re_ops env) u p rov_options = Inr ures" "answers v u rov_options p (Inr ures)"
    using ans by blast
  obtain mres where mres: "st_match_prefix (re_ops env) m p rov_options = Inr mres" "answers v m rov_options p (Inr mres)"
    using ans by blast
  have rdu: "\<forall>(q, r) \<in> set (work p ures). readable r" and rdm: "\<forall>(q, r) \<in> set (work p mres). readable r"
  proof -
    have "readable r" if "r \<in> visible v u rov_options q" for q r
      using rd rdy(1) visible_rec [OF that] unfolding all_readable_def rib_rec_def rib_store_def
      by (metis (full_types) option.simps(5))
    then show "\<forall>(q, r) \<in> set (work p ures). readable r" using work_facts [OF ures(2)] by blast
    have "readable r" if "r \<in> visible v m rov_options q" for q r
      using rd rdy(2) visible_rec [OF that] unfolding all_readable_def rib_rec_def rib_store_def
      by (metis (full_types) option.simps(5))
    then show "\<forall>(q, r) \<in> set (work p mres). readable r" using work_facts [OF mres(2)] by blast
  qed
  show thesis
  proof (cases "no_answer ures \<and> \<not> no_answer mres")
    case True
    then have "match_prefix env rib p rov_options = Inr mres" using rdy ures(1) mres(1) by (simp add: match_prefix_def)
    then show thesis by (rule that [OF _ mres(2) rdm]) (use True no_answer_visible [OF ures(2)] in blast)
  next
    case False
    then have "match_prefix env rib p rov_options = Inr ures"
      using rdy ures(1) mres(1) by (auto simp: match_prefix_def)
    then show thesis by (rule that [OF _ ures(2) rdu]) (use work_facts [OF ures(2)] in blast)
  qed
qed

lemma revalidate_fresh:
  assumes laws: "store_laws (re_ops (ue_rib env)) v" and vl: "vrp_store_laws (ue_vrp_ops env) view"
    and V: "V = {(q, m, a). m \<in> set (view vrps q a)}"
    and "ready rib" and rd: "all_readable v rib" and fresh: "rov_fresh env v V0 rib"
    and off: "\<And>q origin. \<not> covers p q \<Longrightarrow> rov_spec V q origin = rov_spec V0 q origin"
  obtains rib' ups where "revalidate env vrps p rib = Some (Some (rib', ups))" "ready rib'" "all_readable v rib'"
    "rov_fresh env v V rib'" "rb_register rib' = rb_register rib"
proof -
  obtain u m where um: "rb_unicast rib = Some u" "rb_multicast rib = Some m" using assms(4) by (rule readyE)
  obtain res s0 where res: "match_prefix (ue_rib env) rib p rov_options = Inr res" "answers v s0 rov_options p (Inr res)"
    "\<forall>(q, r) \<in> set (work p res). readable r"
    and compl: "\<And>q r. covers p q \<Longrightarrow> r \<in> visible v u rov_options q \<Longrightarrow> (q, r) \<in> set (work p res)"
    using match_prefix_work [OF laws um rd] by metis
  obtain s1 ups1 s2 ups2 where w: "rov_records env vrps (rb_register rib) p (qr_records res) u [] = Some (s1, ups1)"
    "rov_prefixes env vrps (rb_register rib) (record_set_list (qr_more_specifics res)) s1 ups1 = Some (s2, ups2)"
    and eff: "rov_effect env v V (work p res) u s2"
    by (rule rov_work_effect [OF laws vl V res(2,3)])
  let ?rib = "rib\<lparr>rb_unicast := Some s2\<rparr>"
  have keep: "sv_rec v s2 q j = sv_rec v u q j" if "\<not> touches env (work p res) q j" for q j
    using eff that by (simp add: rov_effect_def)
  have new: "\<exists>r. readable r \<and> origin_of env (rec_meta r) \<noteq> None \<and> sv_rec v s2 q j = Some (revalidated env V q r)"
    if "touches env (work p res) q j" for q j
    using eff that res(3) by (fastforce simp: touches_def rov_effect_def)
  have rd': "all_readable v ?rib"
    unfolding all_readable_def
  proof (intro allI impI)
    fix mc q j r assume r: "rib_rec v ?rib mc q j = Some r"
    show "readable r"
    proof (cases "mc \<or> \<not> touches env (work p res) q j")
      case True
      then have "rib_rec v rib mc q j = Some r" using r um keep [of q j] by (auto simp: rib_rec_def rib_store_def)
      then show ?thesis using rd by (simp add: all_readable_def)
    next
      case False
      then show ?thesis using r new [of q j] revalidated_ok(1) [of _ env V q] by (auto simp: rib_rec_def rib_store_def)
    qed
  qed
  have "rov_fresh env v V ?rib"
    unfolding rov_fresh_def
  proof (intro allI impI)
    fix q j pm assume act: "rib_active v ?rib False q j = Some pm"
    then obtain r where r: "sv_rec v s2 q j = Some r" "rec_meta r = pm"
      by (rule visible_active [OF _ _ laws]) simp
    show "validated env V q pm"
    proof (cases "touches env (work p res) q j")
      case True
      then show ?thesis using new [of q j] r revalidated_ok(3) [of _ env V q] by fastforce
    next
      case False
      then have same: "sv_rec v u q j = Some r" using keep r(1) by simp
      have wd: "sv_wd v s2 = sv_wd v u" using eff by (simp add: rov_effect_def)
      have act0: "rib_active v rib False q j = Some pm"
        using act same r(1) um wd by (simp add: rib_active_def rib_store_def eff_rec_def)
      show ?thesis
      proof (cases "covers p q")
        case True
        obtain r0 where r0: "r0 \<in> visible v u rov_options q" "rec_mui r0 = j" "rec_meta r0 = pm"
          using act0 um(1) laws by (rule visible_active) blast
        with compl [OF True r0(1)] False have "origin_of env pm = None" unfolding touches_def by blast
        then show ?thesis by (simp add: validated_def)
      next
        case out: False
        have "validated env V0 q pm" using fresh act0 by (simp add: rov_fresh_def)
        then show ?thesis using off [OF out] by (simp add: validated_def)
      qed
    qed
  qed
  then show thesis
    by (intro that [of ?rib ups2]) (use assms(4) rd' res(1) w um in \<open>simp_all add: revalidate_def ready_def\<close>)
qed

lemma rov_spec_off:
  assumes "\<And>q m a. q \<noteq> p \<Longrightarrow> (q, m, a) \<in> V \<longleftrightarrow> (q, m, a) \<in> V0" and "\<not> covers p q"
  shows "rov_spec V q origin = rov_spec V0 q origin"
proof -
  have mem: "(q', m, a) \<in> V \<longleftrightarrow> (q', m, a) \<in> V0" if "covers q' q" for q' m a
    by (rule assms(1)) (use assms(2) that in auto)
  have valid: "(\<exists>(q', m, a) \<in> V. covers q' q \<and> pfx_len q \<le> m \<and> a = origin) \<longleftrightarrow>
      (\<exists>(q', m, a) \<in> V0. covers q' q \<and> pfx_len q \<le> m \<and> a = origin)" using mem by fast
  have covered: "(\<exists>(q', m, a) \<in> V. covers q' q) \<longleftrightarrow> (\<exists>(q', m, a) \<in> V0. covers q' q)" using mem by fast
  show ?thesis unfolding rov_spec_def valid covered ..
qed

definition vrp_filter_accepts :: "('s, 'ctx, 'e, 'st) rib_unit_env \<Rightarrow> bool" where
  "vrp_filter_accepts env = (case ue_vrp_update env of None \<Rightarrow> True | Some f \<Rightarrow> \<forall>ctx action ro. fst (f ctx action ro))"

text \<open>The cache is in step with the announced VRPs, and every active route is validated against them.\<close>

definition rov_inv ::
  "('s, 'ctx, 'e, 'st) rib_unit_env \<Rightarrow> 's store_view \<Rightarrow> ('st \<Rightarrow> prefix \<Rightarrow> u32 \<Rightarrow> max_len_list) \<Rightarrow>
   ('s, 'ctx, 'st, 'key, 'aspa) rib_unit \<Rightarrow> bool" where
  "rov_inv env v view u =
    (ready (ru_rib u) \<and> all_readable v (ru_rib u) \<and>
     in_sync (ue_prefix_new env) view (rc_route_origins (ru_cache u)) (rc_vrps (ru_cache u)) \<and>
     rov_fresh env v (origin_vrps (ue_prefix_new env) (rc_route_origins (ru_cache u))) (ru_rib u))"

definition rov_world ::
  "('s, 'ctx, 'e, 'st) rib_unit_env \<Rightarrow> 's store_view \<Rightarrow> ('st \<Rightarrow> prefix \<Rightarrow> u32 \<Rightarrow> max_len_list) \<Rightarrow> bool" where
  "rov_world env v view =
    (store_laws (re_ops (ue_rib env)) v \<and> vrp_store_laws (ue_vrp_ops env) view \<and>
     prefix_new_laws (ue_prefix_new env) \<and> vrp_filter_accepts env \<and> (\<forall>n. lk_route_origins (ue_locks env n)))"

lemma ask_vrp_filter_same:
  assumes "vrp_filter_accepts env"
  obtains out u' where "ask_vrp_filter env action ro u = (True, out, u')" "ru_rib u' = ru_rib u" "ru_cache u' = ru_cache u"
proof (cases "ue_vrp_update env")
  case None
  then show thesis by (intro that [of "[]" u]) (simp_all add: ask_vrp_filter_def)
next
  case (Some f)
  then have "fst (f (ru_ctx u) action ro)" using assms by (simp add: vrp_filter_accepts_def)
  then show thesis
    using Some by (intro that [of "fst (drain_unit env (u\<lparr>ru_ctx := snd (f (ru_ctx u) action ro)\<rparr>) [])"
          "snd (drain_unit env (u\<lparr>ru_ctx := snd (f (ru_ctx u) action ro)\<rparr>) [])"])
      (auto simp: ask_vrp_filter_def drain_unit_def split: prod.splits)
qed

lemma report_rov_updates_same:
  "ru_rib (snd (report_rov_updates env ups u out)) = ru_rib u"
  "ru_cache (snd (report_rov_updates env ups u out)) = ru_cache u"
  by (simp_all add: report_rov_updates_def drain_unit_def split: option.splits prod.splits)

lemma rtr_verb_step:
  fixes u :: "('s, 'ctx, 'st, 'key, 'aspa) rib_unit" and env :: "('s, 'ctx, 'e, 'st) rib_unit_env"
  assumes world: "rov_world env v view" and inv: "rov_inv env v view u"
    and p: "origin_prefix (ue_prefix_new env) ro = Some p"
  obtains c u' and out :: "('e output_stream_message, 'rtr) update list" where
    "delta_step (ue_prefix_new env) (ue_vrp_ops env) (ue_locks env (ru_ticks u)) (action, Origin ro) (ru_cache u) = Done c"
    "apply_vrp env action ro p (u\<lparr>ru_cache := c, ru_ticks := ru_ticks u + 1\<rparr>) = Some (out, u')"
    "rov_inv env v view u'" "ru_cache u' = c" "rc_route_origins c = delta_set action ro (rc_route_origins (ru_cache u))"
proof -
  let ?pn = "ue_prefix_new env"
  have laws: "store_laws (re_ops (ue_rib env)) v" and vl: "vrp_store_laws (ue_vrp_ops env) view" and pn: "prefix_new_laws ?pn"
    and acc: "vrp_filter_accepts env" and lk: "lk_route_origins (ue_locks env (ru_ticks u))"
    using world by (auto simp: rov_world_def)
  have sync: "in_sync ?pn view (rc_route_origins (ru_cache u)) (rc_vrps (ru_cache u))" using inv by (simp add: rov_inv_def)
  obtain c where c: "delta_origin ?pn (ue_vrp_ops env) (ue_locks env (ru_ticks u)) action ro (ru_cache u) = Done c"
    "rc_route_origins c = delta_set action ro (rc_route_origins (ru_cache u))"
    "in_sync ?pn view (rc_route_origins c) (rc_vrps c)"
    by (rule delta_origin_sync [OF vl pn sync lk p])
  define u1 where "u1 = u\<lparr>ru_cache := c, ru_ticks := ru_ticks u + 1\<rparr>"
  obtain u2 and out :: "('e output_stream_message, 'rtr) update list" where f: "ask_vrp_filter env action ro u1 = (True, out, u2)" "ru_rib u2 = ru_rib u" "ru_cache u2 = c"
    using ask_vrp_filter_same [OF acc, of action ro u1] by (auto simp: u1_def)
  let ?old = "origin_vrps ?pn (rc_route_origins (ru_cache u))" and ?V = "origin_vrps ?pn (rc_route_origins c)"
  have V: "?V = {(q, m, a). m \<in> set (view (rc_vrps c) q a)}" using in_sync_vrps [OF c(3)] by simp
  have off: "rov_spec ?V q origin = rov_spec ?old q origin" if "\<not> covers p q" for q origin
    by (rule rov_spec_off [OF _ that]) (use origin_vrps_delta [OF pn p, of action] c(2) in \<open>cases action; auto simp: delta_set_def\<close>)
  have "ready (ru_rib u)" "all_readable v (ru_rib u)" "rov_fresh env v ?old (ru_rib u)" using inv by (simp_all add: rov_inv_def)
  then obtain rib' ups where r: "revalidate env (rc_vrps c) p (ru_rib u) = Some (Some (rib', ups))" "ready rib'" "all_readable v rib'"
    "rov_fresh env v ?V rib'"
    by (rule revalidate_fresh [OF laws vl V _ _ _ off])
  define u3 where "u3 = snd (report_rov_updates env ups (u2\<lparr>ru_rib := rib'\<rparr>) out)"
  have "apply_vrp env action ro p u1 = Some (fst (report_rov_updates env ups (u2\<lparr>ru_rib := rib'\<rparr>) out), u3)"
    using f r(1) by (simp add: apply_vrp_def u3_def)
  moreover have "ru_rib u3 = rib'" "ru_cache u3 = c" using f(3) by (simp_all add: u3_def report_rov_updates_same)
  ultimately show thesis
    by (intro that [of c _ u3]) (use c r in \<open>simp_all add: delta_step_def u1_def rov_inv_def\<close>)
qed

lemma rtr_delta_inv:
  fixes u :: "('s, 'ctx, 'st, 'key, 'aspa) rib_unit" and env :: "('s, 'ctx, 'e, 'st) rib_unit_env"
    and out :: "('e output_stream_message, 'rtr) update list"
  assumes world: "rov_world env v view" and "rov_inv env v view u" and "verbs_ok (ue_prefix_new env) verbs"
  shows "\<exists>out' u'. rtr_delta env verbs out u = Some (True, out', u') \<and> rov_inv env v view u' \<and>
    rc_route_origins (ru_cache u') = origins_after verbs (rc_route_origins (ru_cache u))"
  using assms(2,3)
proof (induction verbs arbitrary: u out)
  case Nil
  then show ?case by (simp add: origins_after_def)
next
  case (Cons verb verbs)
  obtain action pl where verb: "verb = (action, pl)" by force
  have rest: "verbs_ok (ue_prefix_new env) verbs" using Cons.prems(2) verbs_ok_Cons by blast
  show ?case
  proof (cases pl)
    case (Origin ro)
    with Cons.prems(2) verb obtain p where p: "origin_prefix (ue_prefix_new env) ro = Some p" by auto
    obtain c u1 and out1 :: "('e output_stream_message, 'rtr) update list" where
      c: "delta_step (ue_prefix_new env) (ue_vrp_ops env) (ue_locks env (ru_ticks u)) (action, Origin ro) (ru_cache u) = Done c"
      and a: "apply_vrp env action ro p (u\<lparr>ru_cache := c, ru_ticks := ru_ticks u + 1\<rparr>) = Some (out1, u1)"
      and i: "rov_inv env v view u1" "ru_cache u1 = c" "rc_route_origins c = delta_set action ro (rc_route_origins (ru_cache u))"
      by (rule rtr_verb_step [OF world Cons.prems(1) p])
    from Cons.IH [OF i(1) rest, of "out @ out1"] i c a p show ?thesis
      by (simp add: verb Origin origins_after_def)
  next
    case (RouterKey k)
    define u1 where "u1 = u\<lparr>ru_cache := (if lk_router_keys (ue_locks env (ru_ticks u))
      then (ru_cache u)\<lparr>rc_router_keys := delta_set action k (rc_router_keys (ru_cache u))\<rparr> else ru_cache u), ru_ticks := ru_ticks u + 1\<rparr>"
    have "rov_inv env v view u1" using Cons.prems(1) by (simp add: rov_inv_def u1_def)
    from Cons.IH [OF this rest, of out] show ?thesis
      by (simp add: verb RouterKey origins_after_def delta_step_def u1_def split: if_splits)
  next
    case (Aspa k)
    define u1 where "u1 = u\<lparr>ru_cache := (if lk_aspas (ue_locks env (ru_ticks u))
      then (ru_cache u)\<lparr>rc_aspas := delta_set action k (rc_aspas (ru_cache u))\<rparr> else ru_cache u), ru_ticks := ru_ticks u + 1\<rparr>"
    have "rov_inv env v view u1" using Cons.prems(1) by (simp add: rov_inv_def u1_def)
    from Cons.IH [OF this rest, of out] show ?thesis
      by (simp add: verb Aspa origins_after_def delta_step_def u1_def split: if_splits)
  qed
qed

subsection \<open>The walk of a reset\<close>

lemma eff_recE:
  assumes "eff_rec v s q j = Some r"
  obtains r0 where "sv_rec v s q j = Some r0" "rec_meta r0 = rec_meta r" "rec_mui r0 = rec_mui r"
    "sv_wd v s (is_v4 q) j \<Longrightarrow> rec_status r = Withdrawn"
  using assms by (auto simp: eff_rec_def split: option.splits if_splits)

lemma eff_rec_readable:
  assumes "all_readable v rib" and "rb_unicast rib = Some s" and "eff_rec v s q j = Some r"
  shows "readable r"
proof -
  obtain r0 where r0: "sv_rec v s q j = Some r0" "rec_meta r0 = rec_meta r" using assms(3) by (rule eff_recE)
  have "rib_rec v rib False q j = Some r0" using r0(1) assms(2) by (simp add: rib_rec_def rib_store_def)
  then have "readable r0" using assms(1) unfolding all_readable_def by blast
  then show ?thesis using r0(2) by (simp add: readable_def)
qed

lemma walk_reads_mem:
  assumes "store_laws (re_ops env) v" and "rb_unicast rib = Some s"
  shows "(q, r) \<in> set (pairs_of (rov_walk_reads env rib)) \<longleftrightarrow> eff_rec v s q (rec_mui r) = Some r"
proof -
  have it: "iterates v s (\<lambda>_. True) (rov_walk_reads env rib)"
    using store_laws_iter(1) [OF assms(1)] assms(2) by (simp add: rov_walk_reads_def)
  show ?thesis
  proof
    assume "(q, r) \<in> set (pairs_of (rov_walk_reads env rib))"
    then show "eff_rec v s q (rec_mui r) = Some r" using it by (auto simp: pairs_of_def iterates_def)
  next
    assume e: "eff_rec v s q (rec_mui r) = Some r"
    then have "sv_rec v s q (rec_mui r) \<noteq> None" by (auto simp: eff_rec_def split: option.splits)
    then obtain pr where pr: "pr \<in> set (rov_walk_reads env rib)" "pr_prefix pr = q"
      using it unfolding iterates_def by blast
    then have "r \<in> set (pr_meta pr)" using it e by (auto simp: iterates_def)
    then show "(q, r) \<in> set (pairs_of (rov_walk_reads env rib))" using pr by (auto simp: pairs_of_def)
  qed
qed

text \<open>The writes of a walk, on whatever the RIB has become since its reads.\<close>

lemma walk_effect:
  assumes laws: "store_laws (re_ops (ue_rib env)) v" and vl: "vrp_store_laws (ue_vrp_ops env) view"
    and V: "V = {(q, m, a). m \<in> set (view vrps q a)}"
    and s: "rb_unicast rib = Some s" and rd: "all_readable v rib" and s2: "rb_unicast rib2 = Some s2"
  obtains s3 where "rov_walk_writes env vrps (rov_walk_reads (ue_rib env) rib) rib2 = Some (rib2\<lparr>rb_unicast := Some s3\<rparr>)"
    "rov_effect env v V (pairs_of (rov_walk_reads (ue_rib env) rib)) s2 s3"
proof -
  let ?prs = "rov_walk_reads (ue_rib env) rib"
  note mem = walk_reads_mem [OF laws s]
  have f: "functional (pairs_of ?prs)" unfolding functional_def mem by (metis option.inject)
  have "readable r" if "(q, r) \<in> set (pairs_of ?prs)" for q r
    using eff_rec_readable [OF rd s] that mem by blast
  then have "\<forall>pr \<in> set ?prs. list_all readable (pr_meta pr)" by (fastforce simp: pairs_of_def list_all_iff)
  then obtain s3 ups where "rov_prefixes env vrps (rb_register rib2) ?prs s2 [] = Some (s3, ups)"
    "rov_effect env v V (pairs_of ?prs) s2 s3"
    using rov_prefixes_effect [OF laws vl V _ f] by blast
  then show thesis using s2 by (intro that [of s3]) (simp_all add: rov_walk_writes_def)
qed

lemma walk_fresh:
  assumes laws: "store_laws (re_ops (ue_rib env)) v" and vl: "vrp_store_laws (ue_vrp_ops env) view"
    and V: "V = {(q, m, a). m \<in> set (view vrps q a)}" and "ready rib" and rd: "all_readable v rib"
  obtains rib' where "rov_walk_writes env vrps (rov_walk_reads (ue_rib env) rib) rib = Some rib'" "rov_fresh env v V rib'"
    "\<And>q j. (rib_active v rib' False q j = None) = (rib_active v rib False q j = None)"
proof -
  obtain s where s: "rb_unicast rib = Some s" using assms(4) by (rule readyE)
  obtain s3 where w: "rov_walk_writes env vrps (rov_walk_reads (ue_rib env) rib) rib = Some (rib\<lparr>rb_unicast := Some s3\<rparr>)"
    and e: "rov_effect env v V (pairs_of (rov_walk_reads (ue_rib env) rib)) s s3"
    by (rule walk_effect [OF laws vl V s rd s])
  let ?W = "pairs_of (rov_walk_reads (ue_rib env) rib)" and ?rib = "rib\<lparr>rb_unicast := Some s3\<rparr>"
  note mem = walk_reads_mem [OF laws s]
  have mui: "rec_mui r = j" if "eff_rec v s q j = Some r" for q j r
    using that by (rule eff_recE) (use store_lawsD(1) [OF laws] in auto)
  have wd: "sv_wd v s3 = sv_wd v s" using e by (simp add: rov_effect_def)
  have eff: "eff_rec v s3 q j = (case eff_rec v s q j of None \<Rightarrow> None
      | Some r \<Rightarrow> Some (if origin_of env (rec_meta r) = None then r else revalidated env V q r))" for q j
  proof (cases "touches env ?W q j")
    case True
    then obtain r where r: "eff_rec v s q j = Some r" "origin_of env (rec_meta r) \<noteq> None" "(q, r) \<in> set ?W"
      unfolding touches_def mem by blast
    then have "sv_rec v s3 q j = Some (revalidated env V q r)" using e mui [OF r(1)] by (auto simp: rov_effect_def)
    moreover have "(revalidated env V q r)\<lparr>rec_status := Withdrawn\<rparr> = revalidated env V q r" if "sv_wd v s (is_v4 q) j"
    proof -
      have "rec_status r = Withdrawn" by (rule eff_recE [OF r(1)]) (use that in blast)
      then show ?thesis by (cases r) (simp add: revalidated_def)
    qed
    ultimately have "eff_rec v s3 q j = Some (revalidated env V q r)" by (simp add: eff_rec_def wd)
    then show ?thesis using r by auto
  next
    case False
    then have "sv_rec v s3 q j = sv_rec v s q j" using e by (simp add: rov_effect_def)
    then have "eff_rec v s3 q j = eff_rec v s q j" unfolding eff_rec_def wd by simp
    moreover have "origin_of env (rec_meta r) = None" if "eff_rec v s q j = Some r" for r
      using False that mui [OF that] unfolding touches_def mem by auto
    ultimately show ?thesis by (auto split: option.splits)
  qed
  have act: "rib_active v ?rib False q j = (case eff_rec v s3 q j of Some r \<Rightarrow> if rec_status r = Active then Some (rec_meta r) else None | None \<Rightarrow> None)"
    "rib_active v rib False q j = (case eff_rec v s q j of Some r \<Rightarrow> if rec_status r = Active then Some (rec_meta r) else None | None \<Rightarrow> None)" for q j
    using s by (simp_all add: rib_active_def rib_store_def)
  note rdb = eff_rec_readable [OF rd s]
  show thesis
  proof (rule that [OF w])
    show "rov_fresh env v V ?rib"
      unfolding rov_fresh_def act eff using revalidated_ok(3) [of _ env V] rdb
      by (auto simp: validated_def split: option.splits if_splits)
    show "(rib_active v ?rib False q j = None) = (rib_active v rib False q j = None)" for q j
      unfolding act eff by (auto split: option.splits)
  qed
qed

lemma withdraw_keeps_flags:
  assumes "store_laws (re_ops env) v"
  shows "rib_wd v (snd (rib_insert env val Withdrawn ltime j retain dedup rib)) = rib_wd v rib"
proof (cases "rib_store (is_multicast val) rib")
  case None
  then show ?thesis by (simp add: rib_insert_def insert_prefix_def)
next
  case (Some s)
  have put: "rib_wd v (set_store (is_multicast val) s' rib) = rib_wd v rib" if "sv_wd v s' = sv_wd v s" for s'
    using that Some by (auto simp: rib_rec_set rib_rec_store fun_eq_iff)
  show ?thesis
    using Some put store_lawsD(4,7) [OF assms, of s]
    by (auto simp: rib_insert_def insert_prefix_def split: prod.splits sum.splits) (metis snd_conv)+
qed

subsection \<open>Properties\<close>


definition rov_env :: "(list_store, unit, unit, alist_vrp_store) rib_unit_env" where
  "rov_env = \<lparr>ue_rib = list_env, ue_retain = False, ue_dedup = False, ue_pre = None, ue_drain = (\<lambda>_. ([], ())),
     ue_now = (\<lambda>n. n), ue_vrp_ops = alist_vrp_ops, ue_prefix_new = sample_prefix_new, ue_locks = (\<lambda>_. all_free),
     ue_origin = (\<lambda>(_, blob). case blob of [] \<Rightarrow> None | b # _ \<Rightarrow> Some 65000),
     ue_vrp_update = None, ue_vrp_update_post = None\<rparr>"

definition zero_metrics :: rib_unit_metrics where
  "zero_metrics = \<lparr>rm_num_unique_prefixes = 0, rm_num_items = 0, rm_num_insert_retries = 0, rm_num_insert_hard_failures = 0,
     rm_num_routes_announced = 0, rm_num_modified_route_announcements = 0, rm_num_routes_withdrawn = 0,
     rm_num_route_withdrawals_without_announcement = 0, rm_last_insert_duration_micros = 0, rm_routers = []\<rparr>"

text \<open>A unit that holds one route, validated as not found against an empty cache.\<close>

definition rov_route :: rotonda_route where
  "rov_route = RR_Ipv4Unicast sample_pfx \<lparr>pm_raw = [1, 1, 7]\<rparr>"

definition rov_rib :: "list_store rib" where
  "rov_rib = snd (rib_insert list_env rov_route Active 0 7 False False (empty_rib register_new))"

definition rov_unit :: "(list_store, unit, alist_vrp_store, unit, unit) rib_unit" where
  "rov_unit = \<lparr>ru_rib = rov_rib, ru_ctx = (), ru_metrics = zero_metrics, ru_ticks = 0, ru_cache = sample_cache\<rparr>"

lemma rov_world_sample: "rov_world rov_env list_view alist_view"
  by (simp add: rov_world_def rov_env_def list_env_laws alist_vrp_laws sample_prefix_new_laws vrp_filter_accepts_def all_free_def)

lemma rov_rib_rec:
  "rib_rec list_view rov_rib mc q j =
    (if \<not> mc \<and> q = sample_pfx \<and> j = 7
     then Some \<lparr>rec_mui = 7, rec_ltime = 0, rec_status = Active, rec_meta = \<lparr>pm_raw = [1, 1, 7]\<rparr>\<rparr> else None)"
  "rib_wd list_view rov_rib mc v4 j = False"
  by (simp_all add: rov_rib_def rib_insert_def insert_prefix_def rov_route_def empty_rib_def rib_store_def list_env_def
      list_ops_def empty_store_def stored_attributes_def set_store_def ls_put_def rib_rec_def rib_wd_def list_view_def
      ls_get_def ls_flag_def hm_get_def hm_insert_def)

lemma rov_inv_sample: "rov_inv rov_env list_view alist_view rov_unit"
proof -
  have "ready rov_rib" by code_simp
  moreover have "in_sync sample_prefix_new alist_view {} []" by (simp add: in_sync_def origin_vrps_def alist_view_def)
  moreover have "rov_fresh rov_env list_view {} rov_rib"
    by (auto simp: rov_fresh_def rib_active_alt rov_rib_rec validated_def origin_of_def path_attributes_def rov_env_def
        rov_spec_def get_rpki_info_def rpki_info_from_u8_def)
  moreover have "all_readable list_view rov_rib" by (simp add: all_readable_def rov_rib_rec readable_def path_attributes_def)
  ultimately show ?thesis by (simp add: rov_inv_def rov_unit_def sample_cache_def rov_env_def origin_vrps_def)
qed


text \<open>
  C40: The walk that a cache reset starts in the background revives routes withdrawn meanwhile. It
  writes back the records it has read, status included: an active route that is withdrawn between
  the read and the write is gone after the withdrawal and active again after the walk.
\<close>

theorem reset_walk_revives_withdrawn:
  assumes "store_laws (re_ops (ue_rib env)) v" and "vrp_store_laws (ue_vrp_ops env) view"
    and "ready rib" and "tidy v rib" and "all_readable v rib"
    and "rib_active v rib False q j = Some pm" and "origin_of env pm \<noteq> None"
    and "is_multicast val = False" and "route_prefix val = q"
    and "rib_insert (ue_rib env) val Withdrawn ltime j retain dedup rib = (res, rib2)"
    and "rov_walk_writes env vrps (rov_walk_reads (ue_rib env) rib) rib2 = Some rib3"
  shows "rib_active v rib2 False q j = None \<and> rib_active v rib3 False q j \<noteq> None"
proof -
  let ?V = "{(q, m, a). m \<in> set (view vrps q a)}"
  obtain s where s: "rb_unicast rib = Some s" using assms(3) by (rule readyE)
  obtain r where r: "sv_rec v s q j = Some r" "rec_status r = Active" "\<not> sv_wd v s (is_v4 q) j" "rec_meta r = pm"
    using assms(6) s by (auto simp: rib_active_alt rib_rec_def rib_wd_def rib_store_def split: option.splits if_splits)
  have mui: "rec_mui r = j" by (rule store_lawsD(1) [OF assms(1) r(1)])
  have gone: "rib_active v rib2 = tab_insert val Withdrawn j (rib_active v rib)" and rdy: "ready rib2" and "tidy v rib2"
    using rib_insert_table [OF assms(1,3,4)] assms(10) by (metis prod.inject)+
  obtain s2 where s2: "rb_unicast rib2 = Some s2" using rdy by (rule readyE)
  obtain s3 where w: "rov_walk_writes env vrps (rov_walk_reads (ue_rib env) rib) rib2 = Some (rib2\<lparr>rb_unicast := Some s3\<rparr>)"
    and e: "rov_effect env v ?V (pairs_of (rov_walk_reads (ue_rib env) rib)) s2 s3"
    by (rule walk_effect [OF assms(1,2) refl s assms(5) s2])
  have s3: "rib3 = rib2\<lparr>rb_unicast := Some s3\<rparr>" using w assms(11) by simp
  have "(q, r) \<in> set (pairs_of (rov_walk_reads (ue_rib env) rib))"
    using walk_reads_mem [OF assms(1) s] r mui by (simp add: eff_rec_def)
  then have "sv_rec v s3 q j = Some (revalidated env ?V q r)" and "sv_wd v s3 = sv_wd v s2"
    using e assms(7) r(4) mui by (auto simp: rov_effect_def)
  moreover have "rib_wd v rib2 False (is_v4 q) j = rib_wd v rib False (is_v4 q) j"
    using withdraw_keeps_flags [OF assms(1), of val ltime j retain dedup rib] assms(10) by simp
  then have "\<not> sv_wd v s2 (is_v4 q) j" using s s2 r(3) by (simp add: rib_wd_def rib_store_def)
  ultimately show ?thesis
    using r(2) gone assms(8,9) by (simp add: s3 rib_active_alt rib_rec_def rib_wd_def rib_store_def tab_insert_def)
qed

theorem reset_walk_revives_withdrawn_witness:
  "\<exists>rib2 rib3. rib2 = snd (rib_insert list_env rov_route Withdrawn 0 7 False False rov_rib) \<and>
    rov_walk_writes rov_env [] (rov_walk_reads list_env rov_rib) rib2 = Some rib3 \<and>
    rib_active list_view rib2 False sample_pfx 7 = None \<and> rib_active list_view rib3 False sample_pfx 7 \<noteq> None"
proof -
  have env: "ue_rib rov_env = list_env" "ue_vrp_ops rov_env = alist_vrp_ops" by (simp_all add: rov_env_def)
  have laws: "store_laws (re_ops (ue_rib rov_env)) list_view" "vrp_store_laws (ue_vrp_ops rov_env) alist_view"
    by (simp_all add: env list_env_laws alist_vrp_laws)
  have rdy: "ready rov_rib" by code_simp
  have tidy: "tidy list_view rov_rib" by (simp add: tidy_def rov_rib_rec)
  have rd: "all_readable list_view rov_rib" by (simp add: all_readable_def rov_rib_rec readable_def path_attributes_def)
  have act: "rib_active list_view rov_rib False sample_pfx 7 = Some \<lparr>pm_raw = [1, 1, 7]\<rparr>"
    by (simp add: rib_active_alt rov_rib_rec)
  have orig: "origin_of rov_env \<lparr>pm_raw = [1, 1, 7]\<rparr> \<noteq> None" by (simp add: origin_of_def path_attributes_def rov_env_def)
  obtain res rib2 where ins: "rib_insert list_env rov_route Withdrawn 0 7 False False rov_rib = (res, rib2)" by force
  have "ready rib2" using rib_insert_table [OF list_env_laws rdy tidy] ins by (metis prod.inject)
  then obtain s2 where s2: "rb_unicast rib2 = Some s2" by (rule readyE)
  obtain s where s: "rb_unicast rov_rib = Some s" using rdy by (rule readyE)
  obtain rib3 where w: "rov_walk_writes rov_env [] (rov_walk_reads (ue_rib rov_env) rov_rib) rib2 = Some rib3"
    by (rule walk_effect [OF laws refl s rd s2])
  have val: "is_multicast rov_route = False" "route_prefix rov_route = sample_pfx" by (simp_all add: rov_route_def)
  from reset_walk_revives_withdrawn [OF laws rdy tidy rd act orig val ins [folded env(1)] w] show ?thesis
    using ins w by (simp add: env)
qed

end
