(* ===== verification/Utf8.thy ===== *)
theory Utf8
  imports Wire
begin

text \<open>
  \<open>String::from_utf8_lossy\<close>, which the BMP state machine applies to the strings a router
  sends: valid UTF-8 is decoded, every maximal invalid prefix becomes one U+FFFD.

  \<open>lossy_char\<close> decodes one character off the front, with the ranges of the second octet that
  rule out overlong forms, surrogates and values above 10FFFF. The lemmas show that decoding
  is total and a left inverse of \<open>utf8\<close> on every string of Unicode scalar values.
\<close>

definition replacement_char :: u32 where
  "replacement_char = 65533"

definition is_scalar :: "u32 \<Rightarrow> bool" where
  "is_scalar c = (unat c < 55296 \<or> (57344 \<le> unat c \<and> unat c < 1114112))"

definition octet_in :: "nat \<Rightarrow> nat \<Rightarrow> bytes \<Rightarrow> bool" where
  "octet_in lo hi bs = (case bs of [] \<Rightarrow> False | b # _ \<Rightarrow> lo \<le> unat b \<and> unat b \<le> hi)"

definition tail_bits :: "bytes \<Rightarrow> nat" where
  "tail_bits bs = (case bs of [] \<Rightarrow> 0 | b # _ \<Rightarrow> unat b mod 64)"

definition second_octet :: "nat \<Rightarrow> bytes \<Rightarrow> bool" where
  "second_octet n bs =
    (if n = 224 then octet_in 160 191 bs
     else if n = 237 then octet_in 128 159 bs
     else if n = 240 then octet_in 144 191 bs
     else if n = 244 then octet_in 128 143 bs
     else octet_in 128 191 bs)"

definition lossy_char :: "u8 \<Rightarrow> bytes \<Rightarrow> u32 \<times> bytes" where
  "lossy_char b bs =
    (let n = unat b in
     if n < 128 then (of_nat n, bs)
     else if n < 194 \<or> 244 < n then (replacement_char, bs)
     else if \<not> second_octet n bs then (replacement_char, bs)
     else if n < 224 then (of_nat ((n - 192) * 64 + tail_bits bs), drop 1 bs)
     else if \<not> octet_in 128 191 (drop 1 bs) then (replacement_char, drop 1 bs)
     else if n < 240 then
       (of_nat ((n - 224) * 4096 + tail_bits bs * 64 + tail_bits (drop 1 bs)), drop 2 bs)
     else if \<not> octet_in 128 191 (drop 2 bs) then (replacement_char, drop 2 bs)
     else (of_nat ((n - 240) * 262144 + tail_bits bs * 4096 + tail_bits (drop 1 bs) * 64
             + tail_bits (drop 2 bs)), drop 3 bs))"

lemma lossy_char_shorter: "length (snd (lossy_char b bs)) \<le> length bs"
  by (simp add: lossy_char_def Let_def)

function from_utf8_lossy :: "bytes \<Rightarrow> ustr" where
  "from_utf8_lossy [] = []"
| "from_utf8_lossy (b # bs) = fst (lossy_char b bs) # from_utf8_lossy (snd (lossy_char b bs))"
  by pat_completeness auto

termination
  by (relation "measure length") (simp_all add: less_Suc_eq_le lossy_char_shorter)

subsection \<open>Decoding inverts encoding\<close>

lemma tail_octet:
  assumes "unat x = 128 + v" and "v < 64"
  shows "tail_bits (x # xs) = v" and "octet_in 128 191 (x # xs)"
proof -
  have "(128 + v) mod 64 = v" using assms(2) mod_mult_self1 [of v 2 64] by (simp add: add.commute)
  then show "tail_bits (x # xs) = v" using assms by (simp add: tail_bits_def)
  show "octet_in 128 191 (x # xs)" using assms by (simp add: octet_in_def)
qed

lemma split_64:
  "n = n div 4096 * 4096 + n div 64 mod 64 * 64 + n mod (64 :: nat)"
  "n = n div 262144 * 262144 + n div 4096 mod 64 * 4096 + n div 64 mod 64 * 64 + n mod (64 :: nat)"
proof -
  have d: "n div 64 div 64 = n div 4096" "n div 4096 div 64 = n div 262144"
    by (simp_all add: div_mult2_eq [symmetric])
  have e: "n = n div 64 * 64 + n mod 64" "n div 64 = n div 4096 * 64 + n div 64 mod 64"
    "n div 4096 = n div 262144 * 64 + n div 4096 mod 64"
    using d by (metis div_mult_mod_eq)+
  show "n = n div 4096 * 4096 + n div 64 mod 64 * 64 + n mod 64" using e by linarith
  then show "n = n div 262144 * 262144 + n div 4096 mod 64 * 4096 + n div 64 mod 64 * 64 + n mod 64"
    using e by linarith
qed

lemma lossy_char_octets:
  "\<lbrakk>unat x = 128 + v; v < 64; unat h = 192 + a; 2 \<le> a; a < 32\<rbrakk> \<Longrightarrow>
    lossy_char h (x # rest) = (of_nat (a * 64 + v), rest)"
  "\<lbrakk>unat x = 128 + v; v < 64; unat y = 128 + w; w < 64; unat h = 224 + a; a < 16;
    a = 0 \<longrightarrow> 32 \<le> v; a = 13 \<longrightarrow> v < 32\<rbrakk> \<Longrightarrow>
    lossy_char h (x # y # rest) = (of_nat (a * 4096 + v * 64 + w), rest)"
  "\<lbrakk>unat x = 128 + v; v < 64; unat y = 128 + w; w < 64; unat z = 128 + u; u < 64;
    unat h = 240 + a; a \<le> 4; a = 0 \<longrightarrow> 16 \<le> v; a = 4 \<longrightarrow> v < 16\<rbrakk> \<Longrightarrow>
    lossy_char h (x # y # z # rest) = (of_nat (a * 262144 + v * 4096 + w * 64 + u), rest)"
  by (auto simp: lossy_char_def Let_def tail_octet second_octet_def octet_in_def)

lemma octet_of_nat: "n < 256 \<Longrightarrow> unat (of_nat n :: u8) = n"
  by (rule unat_of_nat_small)

lemma lossy_char_utf8_char:
  assumes "is_scalar c"
  shows "\<exists>b bs. utf8_char c = b # bs \<and> lossy_char b (bs @ rest) = (c, rest)"
proof -
  consider "unat c < 128" | "128 \<le> unat c" "unat c < 2048"
    | "2048 \<le> unat c" "unat c < 65536" | "65536 \<le> unat c" by linarith
  then show ?thesis
  proof cases
    case 1
    then have "unat (of_nat (unat c) :: u8) = unat c" by (intro unat_of_nat_small) simp
    with 1 show ?thesis by (simp add: utf8_char_def lossy_char_def Let_def)
  next
    case 2
    let ?n = "unat c"
    have "unat (of_nat (192 + ?n div 64) :: u8) = 192 + ?n div 64"
      "unat (of_nat (128 + ?n mod 64) :: u8) = 128 + ?n mod 64"
      using 2 by (intro octet_of_nat; linarith)+
    then have "lossy_char (of_nat (192 + ?n div 64)) (of_nat (128 + ?n mod 64) # rest) =
        (of_nat (?n div 64 * 64 + ?n mod 64), rest)"
      using 2 by (intro lossy_char_octets(1)) auto
    then show ?thesis using 2 by (simp add: utf8_char_def Let_def del: of_nat_add)
  next
    case 3
    let ?n = "unat c"
    let ?a = "?n div 4096" and ?b = "?n div 64 mod 64" and ?c = "?n mod 64"
    have s: "?n = ?a * 4096 + ?b * 64 + ?c" by (rule split_64)
    have l: "?a < 16" "?b < 64" "?c < 64" using 3 by auto
    have "?a = 0 \<longrightarrow> 32 \<le> ?b" "?a = 13 \<longrightarrow> ?b < 32"
      using 3 s l assms unfolding is_scalar_def by linarith+
    then have "lossy_char (of_nat (224 + ?a)) (of_nat (128 + ?b) # of_nat (128 + ?c) # rest) =
        (of_nat (?a * 4096 + ?b * 64 + ?c), rest)"
      using l by (intro lossy_char_octets(2)) (simp_all add: octet_of_nat del: of_nat_add)
    then show ?thesis
      using 3 s [symmetric] by (simp add: utf8_char_def Let_def del: of_nat_add)
  next
    case 4
    let ?n = "unat c"
    let ?a = "?n div 262144" and ?b = "?n div 4096 mod 64" and ?c = "?n div 64 mod 64" and ?d = "?n mod 64"
    have s: "?n = ?a * 262144 + ?b * 4096 + ?c * 64 + ?d" by (rule split_64)
    have l: "?a \<le> 4" "?b < 64" "?c < 64" "?d < 64" using 4 assms by (auto simp: is_scalar_def)
    have "?a = 0 \<longrightarrow> 16 \<le> ?b" "?a = 4 \<longrightarrow> ?b < 16"
      using 4 s l assms unfolding is_scalar_def by linarith+
    then have "lossy_char (of_nat (240 + ?a))
        (of_nat (128 + ?b) # of_nat (128 + ?c) # of_nat (128 + ?d) # rest) =
        (of_nat (?a * 262144 + ?b * 4096 + ?c * 64 + ?d), rest)"
      using l by (intro lossy_char_octets(3)) (simp_all add: octet_of_nat del: of_nat_add)
    then show ?thesis
      using 4 s [symmetric] by (simp add: utf8_char_def Let_def del: of_nat_add)
  qed
qed

lemma from_utf8_lossy_utf8: "list_all is_scalar s \<Longrightarrow> from_utf8_lossy (utf8 s) = s"
proof (induction s)
  case Nil
  then show ?case by (simp add: utf8_def)
next
  case (Cons c s)
  obtain b bs where "utf8_char c = b # bs" and "lossy_char b (bs @ utf8 s) = (c, utf8 s)"
    using lossy_char_utf8_char [of c "utf8 s"] Cons.prems by auto
  with Cons show ?case by (simp add: utf8_def)
qed

end
