(* ===== verification/Bmp_Metrics.thy ===== *)
theory Bmp_Metrics
  imports Net_Types
begin

text \<open>
  The per-router metrics of the BMP state machine and its status reporter
  (src/units/bmp_tcp_in/state_machine/metrics.rs and status_reporter.rs).

  \<open>router_bmp_metrics\<close> is \<open>RouterBmpMetrics\<close>, its atomic counters as \<open>nat\<close> with the
  wrap-around of \<open>fetch_sub\<close> in \<open>usize_sub\<close>; \<open>bmp_metrics\<close> is the map from router ids to
  them. \<open>ring_buffer\<close> is \<open>ParseErrorsRingBuffer\<close>. One definition per method of
  \<open>BmpStateMachineStatusReporter\<close> that touches a metric.

  The lemmas show that the ring buffer implements "the last ten errors, oldest first".
\<close>

subsection \<open>The ring buffer of parse errors\<close>

text \<open>
  \<open>rb_errors\<close> is the vector behind the lock, \<open>rb_next_idx\<close> the atomic index of the slot to
  write. \<open>filler\<close> is \<open>ParseError::default()\<close>, with which \<open>resize\<close> grows the vector.
\<close>

record 'e ring_buffer =
  rb_errors :: "'e list"
  rb_next_idx :: nat

definition max_recent_parse_errors :: nat where
  "max_recent_parse_errors = 10"

definition ring_default :: "'e ring_buffer" where
  "ring_default = \<lparr>rb_errors = [], rb_next_idx = 0\<rparr>"

definition vec_resize :: "nat \<Rightarrow> 'e \<Rightarrow> 'e list \<Rightarrow> 'e list" where
  "vec_resize n filler xs = take n xs @ replicate (n - length xs) filler"

definition ring_push :: "'e \<Rightarrow> 'e \<Rightarrow> 'e ring_buffer \<Rightarrow> 'e ring_buffer" where
  "ring_push filler e rb =
    (let next_idx = rb_next_idx rb;
         locked = (if next_idx + 1 > length (rb_errors rb)
                   then vec_resize (next_idx + 1) filler (rb_errors rb) else rb_errors rb)
     in \<lparr>rb_errors = locked[next_idx := e],
         rb_next_idx = (if next_idx \<ge> max_recent_parse_errors - 1 then 0 else next_idx + 1)\<rparr>)"

definition ring_get :: "'e ring_buffer \<Rightarrow> 'e list \<times> 'e list" where
  "ring_get rb =
    (if length (rb_errors rb) < max_recent_parse_errors then (rb_errors rb, [])
     else (drop (rb_next_idx rb) (rb_errors rb), take (rb_next_idx rb) (rb_errors rb)))"

subsection \<open>Metrics\<close>

datatype bmp_state_idx =
  Idx_Initiating | Idx_Dumping | Idx_Updating | Idx_Terminated | Idx_Aborted

record parse_error =
  pe_msg :: ustr
  pe_bytes :: "bytes option"
  pe_recoverable :: bool

definition parse_error_default :: parse_error where
  "parse_error_default = \<lparr>pe_msg = [], pe_bytes = None, pe_recoverable = False\<rparr>"

record router_bmp_metrics =
  rm_state :: bmp_state_idx
  rm_num_received_prefixes :: nat
  rm_num_unknown_peer :: nat
  rm_num_reparsed :: nat
  rm_num_unprocessable :: nat
  rm_num_announcements :: nat
  rm_num_withdrawals :: nat
  rm_num_peers_up :: nat
  rm_num_peers_up_eor_capable :: nat
  rm_num_peers_up_dumping :: nat
  rm_parse_errors :: "parse_error ring_buffer"

definition router_metrics_new :: router_bmp_metrics where
  "router_metrics_new =
    \<lparr>rm_state = Idx_Dumping, rm_num_received_prefixes = 0, rm_num_unknown_peer = 0,
     rm_num_reparsed = 0, rm_num_unprocessable = 0, rm_num_announcements = 0,
     rm_num_withdrawals = 0, rm_num_peers_up = 0, rm_num_peers_up_eor_capable = 0,
     rm_num_peers_up_dumping = 0, rm_parse_errors = ring_default\<rparr>"

type_synonym bmp_metrics = "(ustr, router_bmp_metrics) hmap"

definition router_metrics :: "ustr \<Rightarrow> bmp_metrics \<Rightarrow> router_bmp_metrics" where
  "router_metrics router_id ms =
    (case hm_get ms router_id of None \<Rightarrow> router_metrics_new | Some m \<Rightarrow> m)"

text \<open>
  Every method fetches the router's entry with \<open>router_metrics\<close>, which inserts a new one when
  there is none, and then updates its counters.
\<close>

definition on_router ::
  "ustr \<Rightarrow> (router_bmp_metrics \<Rightarrow> router_bmp_metrics) \<Rightarrow> bmp_metrics \<Rightarrow> bmp_metrics" where
  "on_router router_id f ms = hm_insert router_id (f (router_metrics router_id ms)) ms"

definition remove_router_metrics :: "ustr \<Rightarrow> bmp_metrics \<Rightarrow> bmp_metrics" where
  "remove_router_metrics router_id ms = hm_remove router_id ms"

record update_report =
  ur_router_id :: ustr
  ur_n_new_prefixes :: nat
  ur_n_valid_announcements :: nat
  ur_n_valid_withdrawals :: nat

definition update_report_new :: "ustr \<Rightarrow> update_report" where
  "update_report_new router_id =
    \<lparr>ur_router_id = router_id, ur_n_new_prefixes = 0, ur_n_valid_announcements = 0,
     ur_n_valid_withdrawals = 0\<rparr>"

definition sr_change_state :: "ustr \<Rightarrow> bmp_state_idx \<Rightarrow> bmp_metrics \<Rightarrow> bmp_metrics" where
  "sr_change_state router_id new_idx = on_router router_id (\<lambda>m. m\<lparr>rm_state := new_idx\<rparr>)"

definition sr_peer_up :: "ustr \<Rightarrow> bool \<Rightarrow> bmp_metrics \<Rightarrow> bmp_metrics" where
  "sr_peer_up router_id eor_capable =
    on_router router_id (\<lambda>m.
      let m = m\<lparr>rm_num_peers_up := rm_num_peers_up m + 1\<rparr>
      in if eor_capable
         then m\<lparr>rm_num_peers_up_eor_capable := rm_num_peers_up_eor_capable m + 1\<rparr> else m)"

definition sr_peer_down :: "ustr \<Rightarrow> bool option \<Rightarrow> bmp_metrics \<Rightarrow> bmp_metrics" where
  "sr_peer_down router_id eor_capable =
    on_router router_id (\<lambda>m.
      let m = m\<lparr>rm_num_peers_up := usize_sub (rm_num_peers_up m) 1\<rparr>
      in if eor_capable = Some True
         then m\<lparr>rm_num_peers_up_eor_capable := usize_sub (rm_num_peers_up_eor_capable m) 1\<rparr>
         else m)"

definition sr_peer_unknown :: "ustr \<Rightarrow> bmp_metrics \<Rightarrow> bmp_metrics" where
  "sr_peer_unknown router_id =
    on_router router_id (\<lambda>m. m\<lparr>rm_num_unknown_peer := rm_num_unknown_peer m + 1\<rparr>)"

definition sr_parse_soft_fail :: "ustr \<Rightarrow> ustr \<Rightarrow> bytes option \<Rightarrow> bmp_metrics \<Rightarrow> bmp_metrics" where
  "sr_parse_soft_fail router_id err bs =
    on_router router_id (\<lambda>m.
      m\<lparr>rm_num_reparsed := rm_num_reparsed m + 1,
        rm_parse_errors := ring_push parse_error_default
          \<lparr>pe_msg = err, pe_bytes = bs, pe_recoverable = True\<rparr> (rm_parse_errors m)\<rparr>)"

definition sr_parse_hard_fail :: "ustr \<Rightarrow> ustr \<Rightarrow> bytes option \<Rightarrow> bmp_metrics \<Rightarrow> bmp_metrics" where
  "sr_parse_hard_fail router_id err bs =
    on_router router_id (\<lambda>m.
      m\<lparr>rm_num_unprocessable := rm_num_unprocessable m + 1,
        rm_parse_errors := ring_push parse_error_default
          \<lparr>pe_msg = err, pe_bytes = bs, pe_recoverable = False\<rparr> (rm_parse_errors m)\<rparr>)"

definition sr_pending_eors_update :: "ustr \<Rightarrow> nat \<Rightarrow> bmp_metrics \<Rightarrow> bmp_metrics" where
  "sr_pending_eors_update router_id n =
    on_router router_id (\<lambda>m. m\<lparr>rm_num_peers_up_dumping := n\<rparr>)"

definition sr_routing_update :: "update_report \<Rightarrow> bmp_metrics \<Rightarrow> bmp_metrics" where
  "sr_routing_update r =
    on_router (ur_router_id r) (\<lambda>m.
      m\<lparr>rm_num_received_prefixes := rm_num_received_prefixes m + ur_n_new_prefixes r,
        rm_num_announcements := rm_num_announcements m + ur_n_valid_announcements r,
        rm_num_withdrawals := rm_num_withdrawals m + ur_n_valid_withdrawals r\<rparr>)"

subsection \<open>Reads of the metrics\<close>

lemma router_metrics_on_router [simp]:
  "router_metrics r (on_router q f ms) = (if r = q then f (router_metrics q ms) else router_metrics r ms)"
  by (simp add: router_metrics_def on_router_def)

lemma router_metrics_Nil [simp]: "router_metrics r [] = router_metrics_new"
  by (simp add: router_metrics_def)

lemmas sr_defs = sr_change_state_def sr_peer_unknown_def sr_parse_soft_fail_def
  sr_parse_hard_fail_def sr_pending_eors_update_def sr_routing_update_def

text \<open>The reporter's methods that leave the two gauges of the peers alone.\<close>

definition gauges :: "ustr \<Rightarrow> bmp_metrics \<Rightarrow> nat \<times> nat" where
  "gauges r ms =
    (rm_num_peers_up (router_metrics r ms), rm_num_peers_up_eor_capable (router_metrics r ms))"

lemma gauges_simps [simp]:
  "gauges r (sr_change_state q i ms) = gauges r ms"
  "gauges r (sr_peer_unknown q ms) = gauges r ms"
  "gauges r (sr_parse_soft_fail q e bs ms) = gauges r ms"
  "gauges r (sr_parse_hard_fail q e bs ms) = gauges r ms"
  "gauges r (sr_pending_eors_update q n ms) = gauges r ms"
  "gauges r (sr_routing_update u ms) = gauges r ms"
  by (simp_all add: gauges_def sr_defs)

lemma gauges_peer_up:
  "gauges r (sr_peer_up r eor ms) =
    (fst (gauges r ms) + 1, snd (gauges r ms) + (if eor then 1 else 0))"
  by (simp add: gauges_def sr_peer_up_def Let_def)

lemma gauges_peer_down:
  "gauges r (sr_peer_down r eor ms) =
    (usize_sub (fst (gauges r ms)) 1,
     if eor = Some True then usize_sub (snd (gauges r ms)) 1 else snd (gauges r ms))"
  by (simp add: gauges_def sr_peer_down_def Let_def)

subsection \<open>The ring buffer keeps the last errors\<close>

text \<open>
  The abstract buffer is the list of everything pushed so far, newest last; a reader sees its
  last ten elements in order.
\<close>

definition last_n :: "nat \<Rightarrow> 'a list \<Rightarrow> 'a list" where
  "last_n n xs = drop (length xs - n) xs"

definition ring_read :: "'e ring_buffer \<Rightarrow> 'e list" where
  "ring_read rb = fst (ring_get rb) @ snd (ring_get rb)"

definition ring_wf :: "'e ring_buffer \<Rightarrow> bool" where
  "ring_wf rb =
    (length (rb_errors rb) \<le> max_recent_parse_errors \<and> rb_next_idx rb < max_recent_parse_errors \<and>
     (length (rb_errors rb) < max_recent_parse_errors \<longrightarrow> rb_next_idx rb = length (rb_errors rb)))"

lemma ring_wf_default: "ring_wf ring_default"
  by (simp add: ring_wf_def ring_default_def max_recent_parse_errors_def)

lemma ring_push_growing:
  assumes "length (rb_errors rb) < max_recent_parse_errors" and "ring_wf rb"
  shows "rb_errors (ring_push filler e rb) = rb_errors rb @ [e]"
    and "rb_next_idx (ring_push filler e rb) =
      (if length (rb_errors rb) = 9 then 0 else length (rb_errors rb) + 1)"
  using assms
  by (auto simp: ring_push_def ring_wf_def vec_resize_def max_recent_parse_errors_def Let_def
      list_update_append)

lemma ring_push_full:
  assumes "length (rb_errors rb) = max_recent_parse_errors" and "ring_wf rb"
  shows "rb_errors (ring_push filler e rb) =
      take (rb_next_idx rb) (rb_errors rb) @ e # drop (rb_next_idx rb + 1) (rb_errors rb)"
    and "rb_next_idx (ring_push filler e rb) =
      (if rb_next_idx rb = 9 then 0 else rb_next_idx rb + 1)"
  using assms
  by (auto simp: ring_push_def ring_wf_def max_recent_parse_errors_def Let_def upd_conv_take_nth_drop)

lemma ring_wf_push: "ring_wf rb \<Longrightarrow> ring_wf (ring_push filler e rb)"
proof (cases "length (rb_errors rb) < max_recent_parse_errors")
  case True
  assume "ring_wf rb"
  with True show ?thesis
    by (simp add: ring_wf_def [of "ring_push filler e rb"] ring_push_growing)
      (auto simp: max_recent_parse_errors_def)
next
  case False
  assume wf: "ring_wf rb"
  with False have len: "length (rb_errors rb) = max_recent_parse_errors" by (simp add: ring_wf_def)
  with wf show ?thesis
    by (simp add: ring_wf_def [of "ring_push filler e rb"] ring_push_full)
      (auto simp: ring_wf_def max_recent_parse_errors_def)
qed

lemma ring_read_push:
  assumes wf: "ring_wf rb"
  shows "ring_read (ring_push filler e rb) = last_n max_recent_parse_errors (ring_read rb @ [e])"
proof (cases "length (rb_errors rb) < max_recent_parse_errors")
  case True
  then show ?thesis
    using ring_push_growing [OF True wf, of filler e]
    by (auto simp: ring_read_def ring_get_def last_n_def max_recent_parse_errors_def)
next
  case False
  with wf have len: "length (rb_errors rb) = max_recent_parse_errors" by (simp add: ring_wf_def)
  have i: "rb_next_idx rb < 10" using wf by (simp add: ring_wf_def max_recent_parse_errors_def)
  show ?thesis
  proof (cases "rb_next_idx rb = 9")
    case True
    then show ?thesis
      using ring_push_full [OF len wf, of filler e] len
      by (simp add: ring_read_def ring_get_def last_n_def max_recent_parse_errors_def drop_Suc
          drop_tl tl_append split: list.split)
  next
    case False
    with i have "rb_next_idx rb < 9" by simp
    then show ?thesis
      using ring_push_full [OF len wf, of filler e] len
      by (simp add: ring_read_def ring_get_def last_n_def max_recent_parse_errors_def)
  qed
qed

lemma last_n_snoc: "last_n n (last_n n xs @ [e]) = last_n n (xs @ [e])"
  by (cases "length xs \<le> n") (auto simp: last_n_def Suc_diff_le)

lemma ring_pushes:
  "ring_wf (fold (ring_push filler) es ring_default) \<and>
   ring_read (fold (ring_push filler) es ring_default) = last_n max_recent_parse_errors es"
proof (induction es rule: rev_induct)
  case Nil
  then show ?case
    by (simp add: ring_wf_default)
      (simp add: ring_read_def ring_get_def ring_default_def last_n_def max_recent_parse_errors_def)
next
  case (snoc e es)
  then show ?case by (simp add: ring_wf_push ring_read_push last_n_snoc)
qed

text \<open>
  The ring buffer of parse errors implements its contract: after any sequence of pushes a
  reader gets the last ten errors pushed, oldest first, none lost, none repeated and no filler,
  and the vector never holds more than ten.
\<close>

lemma ring_buffer_last_errors:
  "(let rb = fold (ring_push filler) es ring_default in
    fst (ring_get rb) @ snd (ring_get rb) = drop (length es - 10) es \<and> length (rb_errors rb) \<le> 10)"
  using ring_pushes [of filler es]
  by (simp add: Let_def ring_read_def ring_wf_def last_n_def max_recent_parse_errors_def)

end
