(* ===== verification/Bmp_Machine.thy ===== *)
theory Bmp_Machine
  imports Payload Utf8 Bmp_Metrics
begin

text \<open>
  The BMP state machine of the monitoring station (src/units/bmp_tcp_in/state_machine):
  machine.rs, processing.rs and the states initiating.rs, dumping.rs, updating.rs and
  terminated.rs, with \<open>explode_announcements\<close> and \<open>explode_withdrawals\<close> of
  src/roto_runtime/types.rs and \<open>generate_alternate_config\<close> of src/common/routecore_extra.rs.

  Messages arrive parsed by routecore. A message is modelled by what routecore's accessors
  return for it: a per-peer header is the record of the fields its equality compares
  (everything but the time stamp, which the state machine does not read), a Route Monitoring
  message carries the function from a session configuration to the parsed BGP UPDATE or the
  parse error, and an UPDATE the results of its accessors. How the peer flags are read
  (\<open>rib_type\<close>, \<open>adj_rib_type\<close>, \<open>is_post_policy\<close>) is routecore's and is a parameter, as are the
  iteration orders of the hash maps.

  \<open>'c\<close> is the part of \<open>SessionConfig\<close> other than the four-octet-AS flag, the one field the
  sources set. \<open>world\<close> is what a session shares with the rest of the program: the ingress
  register and the metrics. Error texts are values of \<open>bmp_error\<close>. An operation that can
  panic (\<open>unwrap\<close>, \<open>unreachable!\<close>) returns an option, \<open>None\<close> being the panic.
\<close>

subsection \<open>Messages\<close>

record pph =
  pph_peer_type :: peer_type
  pph_flags :: u8
  pph_distinguisher :: bytes
  pph_address :: ip_addr
  pph_asn :: asn
  pph_bgp_id :: bytes

datatype information_tlv_type =
  TlvString | TlvSysDesc | TlvSysName | TlvVrfTableName | TlvOther u16

type_synonym information_tlv = "information_tlv_type \<times> bytes"

datatype capability_type = GracefulRestart | OtherCapability u8

record 'c session_config =
  sc_four_octet_asns :: bool
  sc_rest :: 'c

datatype nlri =
    N_Ipv4Unicast prefix
  | N_Ipv4Multicast prefix
  | N_Ipv6Unicast prefix
  | N_Ipv6Multicast prefix
  | N_Unsupported afisafi

record bgp_update =
  bu_ppi :: pdu_parse_info
  bu_path_attributes :: "owned_path_attributes option"
  bu_announcements :: "nlri option list option"
  bu_withdrawals :: "nlri option list option"
  bu_announcements_vec :: "nlri list option"
  bu_is_eor :: "afisafi option option"

record 'c peer_up_msg =
  pu_pph :: pph
  pu_session_config :: "'c session_config"
  pu_rcvd_capability_types :: "capability_type list"
  pu_sent_capabilities :: bytes
  pu_rcvd_capabilities :: bytes
  pu_information_tlvs :: "information_tlv list"
  pu_raw :: bytes

record 'c route_mon_msg =
  rmo_pph :: pph
  rmo_bgp_update :: "'c session_config \<Rightarrow> ustr + bgp_update"
  rmo_raw :: bytes

datatype 'c bmp_msg =
    InitiationMessage "information_tlv list" bytes
  | PeerUpNotification "'c peer_up_msg"
  | PeerDownNotification pph bytes
  | RouteMonitoring "'c route_mon_msg"
  | StatisticsReport pph bytes
  | TerminationMessage bytes
  | RouteMirroring pph bytes

fun msg_raw :: "'c bmp_msg \<Rightarrow> bytes" where
  "msg_raw (InitiationMessage _ raw) = raw"
| "msg_raw (PeerUpNotification m) = pu_raw m"
| "msg_raw (PeerDownNotification _ raw) = raw"
| "msg_raw (RouteMonitoring m) = rmo_raw m"
| "msg_raw (StatisticsReport _ raw) = raw"
| "msg_raw (TerminationMessage raw) = raw"
| "msg_raw (RouteMirroring _ raw) = raw"

subsection \<open>State\<close>

record eor_properties =
  eor_afi_safi :: afisafi
  eor_post_policy :: bool
  eor_adj_rib_out :: bool

record peer_details =
  pd_bgp_id :: bytes
  pd_distinguisher :: bytes
  pd_rib_type :: rib_type
  pd_addr :: ip_addr
  pd_asn :: asn

record 'c peer_state =
  ps_session_config :: "'c session_config"
  ps_eor_capable :: bool
  ps_pending_eors :: "eor_properties list"
  ps_peer_details :: peer_details
  ps_ingress_id :: ingress_id
  ps_synthesized :: bool

type_synonym 'c peer_states = "(pph, 'c peer_state) hmap"

record initiating =
  in_sys_name :: "ustr option"
  in_sys_desc :: "ustr option"
  in_sys_extra :: "ustr list"

text \<open>\<open>Dumping\<close> and \<open>Updating\<close> have the same fields.\<close>

record 'c peering =
  pg_sys_name :: ustr
  pg_sys_desc :: ustr
  pg_sys_extra :: "ustr list"
  pg_peer_states :: "'c peer_states"

record 'd bmp_state_details =
  sd_ingress_id :: ingress_id
  sd_router_id :: ustr
  sd_details :: 'd

datatype 'c bmp_state =
    SM_Initiating "initiating bmp_state_details"
  | SM_Dumping "'c peering bmp_state_details"
  | SM_Updating "'c peering bmp_state_details"
  | SM_Terminated "unit bmp_state_details"
  | SM_Aborted ingress_id ustr

datatype bmp_error =
    PeerAlreadyUp pph
  | PeerDownNotUp
  | CannotSynthesize pph
  | CannotSynthesizeFromSibling pph
  | RouteMonitoringNotUp pph
  | NlriUnparsable
  | UpdateUnparsable
  | UpdateInvalid ustr
  | ExpectedInitiation
  | MessageAfterTermination

datatype ('osm, 'rtr) message_type =
    InvalidMessage "bool option" "bytes option" bmp_error
  | Other
  | RoutingUpdate "('osm, 'rtr) update"
  | StateTransition
  | MT_Aborted

record world =
  w_reg :: register
  w_metrics :: bmp_metrics

record 'c machine_env =
  me_rib_type :: "pph \<Rightarrow> rib_type"
  me_adj_rib_type :: "pph \<Rightarrow> rib_type"
  me_is_post_policy :: "pph \<Rightarrow> bool"
  me_reg_it :: reg_order
  me_peers_it :: "(pph \<times> 'c peer_state) list \<Rightarrow> (pph \<times> 'c peer_state) list"
  me_error_text :: "bmp_error \<Rightarrow> ustr"

type_synonym ('c, 'osm, 'rtr) processing_result = "('osm, 'rtr) message_type \<times> 'c bmp_state"

definition on_metrics :: "(bmp_metrics \<Rightarrow> bmp_metrics) \<Rightarrow> world \<Rightarrow> world" where
  "on_metrics f w = w\<lparr>w_metrics := f (w_metrics w)\<rparr>"

fun state_ingress_id :: "'c bmp_state \<Rightarrow> ingress_id" where
  "state_ingress_id (SM_Initiating v) = sd_ingress_id v"
| "state_ingress_id (SM_Dumping v) = sd_ingress_id v"
| "state_ingress_id (SM_Updating v) = sd_ingress_id v"
| "state_ingress_id (SM_Terminated v) = sd_ingress_id v"
| "state_ingress_id (SM_Aborted i _) = i"

fun state_router_id :: "'c bmp_state \<Rightarrow> ustr" where
  "state_router_id (SM_Initiating v) = sd_router_id v"
| "state_router_id (SM_Dumping v) = sd_router_id v"
| "state_router_id (SM_Updating v) = sd_router_id v"
| "state_router_id (SM_Terminated v) = sd_router_id v"
| "state_router_id (SM_Aborted _ r) = r"

fun state_idx :: "'c bmp_state \<Rightarrow> bmp_state_idx" where
  "state_idx (SM_Initiating _) = Idx_Initiating"
| "state_idx (SM_Dumping _) = Idx_Dumping"
| "state_idx (SM_Updating _) = Idx_Updating"
| "state_idx (SM_Terminated _) = Idx_Terminated"
| "state_idx (SM_Aborted _ _) = Idx_Aborted"

fun has_status_reporter :: "'c bmp_state \<Rightarrow> bool" where
  "has_status_reporter (SM_Aborted _ _) = False"
| "has_status_reporter _ = True"

definition mk_state_transition_result ::
  "'c bmp_state \<Rightarrow> world \<Rightarrow> ('c, 'osm, 'rtr) processing_result \<times> world" where
  "mk_state_transition_result next_state w =
    ((StateTransition, next_state),
     if has_status_reporter next_state
     then on_metrics (sr_change_state (state_router_id next_state) (state_idx next_state)) w
     else w)"

subsection \<open>Exploding an UPDATE into routes\<close>

fun nlri_afi_safi :: "nlri \<Rightarrow> afisafi" where
  "nlri_afi_safi (N_Ipv4Unicast _) = Ipv4Unicast"
| "nlri_afi_safi (N_Ipv4Multicast _) = Ipv4Multicast"
| "nlri_afi_safi (N_Ipv6Unicast _) = Ipv6Unicast"
| "nlri_afi_safi (N_Ipv6Multicast _) = Ipv6Multicast"
| "nlri_afi_safi (N_Unsupported a) = a"

fun route_try_from :: "nlri \<Rightarrow> rotonda_pa_map \<Rightarrow> rotonda_route option" where
  "route_try_from (N_Ipv4Unicast n) pm = Some (RR_Ipv4Unicast n pm)"
| "route_try_from (N_Ipv4Multicast n) pm = Some (RR_Ipv4Multicast n pm)"
| "route_try_from (N_Ipv6Unicast n) pm = Some (RR_Ipv6Unicast n pm)"
| "route_try_from (N_Ipv6Multicast n) pm = Some (RR_Ipv6Multicast n pm)"
| "route_try_from (N_Unsupported _) pm = None"

fun explode_loop ::
  "rotonda_pa_map \<Rightarrow> nlri option list \<Rightarrow> rotonda_route list \<Rightarrow> rotonda_route list option" where
  "explode_loop pm [] res = Some res"
| "explode_loop pm (None # ns) res = None"
| "explode_loop pm (Some n # ns) res =
    (case route_try_from n pm of
      Some r \<Rightarrow> explode_loop pm ns (res @ [r])
    | None \<Rightarrow> explode_loop pm ns res)"

definition explode_announcements :: "bgp_update \<Rightarrow> rotonda_route list option" where
  "explode_announcements u =
    (case bu_path_attributes u of
      None \<Rightarrow> None
    | Some pas \<Rightarrow>
        (case bu_announcements u of
          None \<Rightarrow> None
        | Some ns \<Rightarrow> explode_loop (pa_map_new pas) ns []))"

definition explode_withdrawals :: "bgp_update \<Rightarrow> rotonda_route list option" where
  "explode_withdrawals u =
    (case bu_withdrawals u of
      None \<Rightarrow> None
    | Some ns \<Rightarrow> explode_loop (pa_map_new (bu_ppi u, [])) ns [])"

definition generate_alternate_config :: "'c session_config \<Rightarrow> 'c session_config option" where
  "generate_alternate_config cfg = Some (cfg\<lparr>sc_four_octet_asns := \<not> sc_four_octet_asns cfg\<rparr>)"

subsection \<open>The peers of a session\<close>

definition pph_distinguisher_bytes :: "pph \<Rightarrow> bytes" where
  "pph_distinguisher_bytes h =
    (if length (pph_distinguisher h) = 8 then pph_distinguisher h else replicate 8 0)"

definition eor_properties_new :: "'c machine_env \<Rightarrow> pph \<Rightarrow> afisafi \<Rightarrow> eor_properties" where
  "eor_properties_new env h afi_safi =
    \<lparr>eor_afi_safi = afi_safi, eor_post_policy = me_is_post_policy env h,
     eor_adj_rib_out = (me_adj_rib_type env h = AdjRibOut)\<rparr>"

definition peer_details_new :: "'c machine_env \<Rightarrow> pph \<Rightarrow> peer_details" where
  "peer_details_new env h =
    \<lparr>pd_bgp_id = pph_bgp_id h, pd_distinguisher = pph_distinguisher_bytes h,
     pd_rib_type = me_rib_type env h, pd_addr = pph_address h, pd_asn = pph_asn h\<rparr>"

text \<open>The identity of a peer: everything in the header but the flags.\<close>

definition same_identity :: "pph \<Rightarrow> pph \<Rightarrow> bool" where
  "same_identity k h =
    (pph_peer_type k = pph_peer_type h \<and> pph_distinguisher k = pph_distinguisher h \<and>
     pph_address k = pph_address h \<and> pph_asn k = pph_asn h \<and> pph_bgp_id k = pph_bgp_id h)"

fun carries_distinguisher :: "peer_type \<Rightarrow> bool" where
  "carries_distinguisher RdInstance = True"
| "carries_distinguisher LocalInstance = True"
| "carries_distinguisher LocalRibInstance = True"
| "carries_distinguisher _ = False"

definition query_ingress ::
  "'c machine_env \<Rightarrow> pph \<Rightarrow> bytes \<Rightarrow> bytes \<Rightarrow> ingress_id \<Rightarrow> information_tlv list \<Rightarrow> ingress_info" where
  "query_ingress env h local_caps remote_caps bmp_ingress_id tlvs =
    ingress_info_new
      \<lparr>ii_ingress_type := Some IT_BgpViaBmp,
       ii_parent_ingress := Some bmp_ingress_id,
       ii_state := Some Connected,
       ii_remote_addr := Some (pph_address h),
       ii_remote_asn := Some (pph_asn h),
       ii_rib_type := Some (me_rib_type env h),
       ii_peer_rib_type := Some (peer_rib_type_from (me_is_post_policy env h) (me_rib_type env h)),
       ii_peer_type := Some (pph_peer_type h),
       ii_local_capabilities := Some local_caps,
       ii_remote_capabilities := Some remote_caps,
       ii_distinguisher :=
         (if carries_distinguisher (pph_peer_type h) then Some (pph_distinguisher_bytes h) else None),
       ii_vrf_name :=
         (case find (\<lambda>t. fst t = TlvVrfTableName) tlvs of
           None \<Rightarrow> None
         | Some t \<Rightarrow> Some (from_utf8_lossy (snd t)))\<rparr>"

definition add_peer_config ::
  "'c machine_env \<Rightarrow> pph \<Rightarrow> 'c session_config \<Rightarrow> bool \<Rightarrow> bytes \<Rightarrow> bytes \<Rightarrow> ingress_id \<Rightarrow>
   information_tlv list \<Rightarrow> 'c peer_states \<Rightarrow> register \<Rightarrow>
   (bool \<times> ingress_id option) \<times> 'c peer_states \<times> register" where
  "add_peer_config env h cfg eor_capable local_caps remote_caps bmp_ingress_id tlvs ps r =
    (if hm_get ps h \<noteq> None then ((False, None), ps, r)
     else
       let query = query_ingress env h local_caps remote_caps bmp_ingress_id tlvs;
           (peer_ingress_id, existing, r) =
             (case find_existing_peer_and_claim (me_reg_it env) r query of
               (Some (ident, _), r) \<Rightarrow> (ident, Some ident, r)
             | (None, r) \<Rightarrow> (case register_id r of (ident, r) \<Rightarrow> (ident, None, r)));
           r = snd (update_info r peer_ingress_id query);
           peer = \<lparr>ps_session_config = cfg, ps_eor_capable = eor_capable, ps_pending_eors = [],
                   ps_peer_details = peer_details_new env h, ps_ingress_id = peer_ingress_id,
                   ps_synthesized = False\<rparr>
       in (case hm_get ps h of
            None \<Rightarrow> ((True, existing), hm_insert h peer ps, r)
          | Some _ \<Rightarrow> ((False, existing), ps, r)))"

definition get_peer_ingress_id :: "'c peer_states \<Rightarrow> pph \<Rightarrow> ingress_id option" where
  "get_peer_ingress_id ps h = map_option ps_ingress_id (hm_get ps h)"

definition update_peer_config ::
  "'c machine_env \<Rightarrow> pph \<Rightarrow> 'c session_config \<Rightarrow> 'c peer_states \<Rightarrow> bool \<times> 'c peer_states" where
  "update_peer_config env h cfg ps =
    (case hm_get ps h of
      Some p \<Rightarrow>
        (True, hm_insert h (p\<lparr>ps_session_config := cfg, ps_peer_details := peer_details_new env h\<rparr>) ps)
    | None \<Rightarrow> (False, ps))"

definition get_peer_config :: "'c peer_states \<Rightarrow> pph \<Rightarrow> 'c session_config option" where
  "get_peer_config ps h = map_option ps_session_config (hm_get ps h)"

definition find_sibling_pph :: "'c machine_env \<Rightarrow> 'c peer_states \<Rightarrow> pph \<Rightarrow> pph option" where
  "find_sibling_pph env ps h =
    find (\<lambda>k. k \<noteq> h \<and> same_identity k h) (map fst (iterate (me_peers_it env) ps))"

definition add_cloned_peer_config ::
  "pph \<Rightarrow> pph \<Rightarrow> ingress_id \<Rightarrow> 'c peer_states \<Rightarrow> (bool \<times> 'c peer_states) option" where
  "add_cloned_peer_config source_pph dst_pph ident ps =
    (case hm_get ps source_pph of
      None \<Rightarrow> None
    | Some p \<Rightarrow>
        (case hm_put dst_pph (p\<lparr>ps_ingress_id := ident, ps_synthesized := True\<rparr>) ps of
          (Some _, ps') \<Rightarrow> Some (False, ps')
        | (None, ps') \<Rightarrow> Some (True, ps')))"

fun take_peers :: "pph list \<Rightarrow> 'c peer_states \<Rightarrow> 'c peer_state list \<times> 'c peer_states" where
  "take_peers [] ps = ([], ps)"
| "take_peers (k # ks) ps =
    (case hm_take k ps of (v, ps') \<Rightarrow>
      (case take_peers ks ps' of (vs, ps'') \<Rightarrow>
        ((case v of None \<Rightarrow> vs | Some p \<Rightarrow> p # vs), ps'')))"

definition remove_peer_identity_siblings ::
  "'c machine_env \<Rightarrow> pph \<Rightarrow> 'c peer_states \<Rightarrow> 'c peer_state list \<times> 'c peer_states" where
  "remove_peer_identity_siblings env h ps =
    take_peers (map fst (filter (\<lambda>(k, _). same_identity k h) (iterate (me_peers_it env) ps))) ps"

definition is_peer_eor_capable :: "'c peer_states \<Rightarrow> pph \<Rightarrow> bool option" where
  "is_peer_eor_capable ps h = map_option ps_eor_capable (hm_get ps h)"

definition add_pending_eor ::
  "'c machine_env \<Rightarrow> pph \<Rightarrow> afisafi \<Rightarrow> 'c peer_states \<Rightarrow> nat \<times> 'c peer_states" where
  "add_pending_eor env h afi_safi ps =
    (case hm_get ps h of
      Some p \<Rightarrow>
        (let eors = List.insert (eor_properties_new env h afi_safi) (ps_pending_eors p)
         in (length eors, hm_insert h (p\<lparr>ps_pending_eors := eors\<rparr>) ps))
    | None \<Rightarrow> (0, ps))"

definition remove_pending_eor ::
  "'c machine_env \<Rightarrow> pph \<Rightarrow> afisafi \<Rightarrow> 'c peer_states \<Rightarrow> bool \<times> 'c peer_states" where
  "remove_pending_eor env h afi_safi ps =
    (let ps' = (case hm_get ps h of
                 Some p \<Rightarrow> hm_insert h
                   (p\<lparr>ps_pending_eors :=
                      removeAll (eor_properties_new env h afi_safi) (ps_pending_eors p)\<rparr>) ps
               | None \<Rightarrow> ps)
     in (list_all (\<lambda>(_, p). ps_pending_eors p = []) (iterate (me_peers_it env) ps'), ps'))"

definition num_pending_eors :: "'c machine_env \<Rightarrow> 'c peer_states \<Rightarrow> nat" where
  "num_pending_eors env ps =
    fold (\<lambda>(_, p) acc. acc + length (ps_pending_eors p)) (iterate (me_peers_it env) ps) 0"

definition disconnect_peer :: "'c peer_state \<Rightarrow> register \<Rightarrow> register" where
  "disconnect_peer p r =
    snd (update_info r (ps_ingress_id p) (with_state Disconnected ingress_info_new))"

definition disconnect_into_register ::
  "'c machine_env \<Rightarrow> 'c peer_states \<Rightarrow> register \<Rightarrow>
   (ingress_id \<times> ingress_info option) list \<times> register" where
  "disconnect_into_register env ps r =
    (let peers = map snd (iterate (me_peers_it env) ps)
     in (map (\<lambda>p. (ps_ingress_id p, None)) peers, fold disconnect_peer peers r))"

fun state_disconnect ::
  "'c machine_env \<Rightarrow> 'c bmp_state \<Rightarrow> register \<Rightarrow> (ingress_id \<times> ingress_info option) list \<times> register"
where
  "state_disconnect env (SM_Dumping v) r =
    disconnect_into_register env (pg_peer_states (sd_details v)) r"
| "state_disconnect env (SM_Updating v) r =
    disconnect_into_register env (pg_peer_states (sd_details v)) r"
| "state_disconnect env _ r = ([], r)"

subsection \<open>Handlers shared by Dumping and Updating\<close>

text \<open>
  \<open>into\<close> is the conversion \<open>From<BmpStateDetails<T>>\<close>: \<open>SM_Dumping\<close> or \<open>SM_Updating\<close>.
\<close>

type_synonym 'c peering_details = "'c peering bmp_state_details"

definition peers_of :: "'c peering_details \<Rightarrow> 'c peer_states" where
  "peers_of d = pg_peer_states (sd_details d)"

definition with_peers :: "'c peer_states \<Rightarrow> 'c peering_details \<Rightarrow> 'c peering_details" where
  "with_peers ps d = d\<lparr>sd_details := (sd_details d)\<lparr>pg_peer_states := ps\<rparr>\<rparr>"

fun join_bar :: "ustr list \<Rightarrow> ustr" where
  "join_bar [] = []"
| "join_bar [s] = s"
| "join_bar (s # ss) = s @ str ''|'' @ join_bar ss"

definition tlv_strings :: "information_tlv_type \<Rightarrow> information_tlv list \<Rightarrow> ustr list" where
  "tlv_strings typ tlvs = map (\<lambda>t. from_utf8_lossy (snd t)) (filter (\<lambda>t. fst t = typ) tlvs)"

definition initiate_peering :: "information_tlv list \<Rightarrow> 'c peering_details \<Rightarrow> 'c peering_details" where
  "initiate_peering tlvs d =
    d\<lparr>sd_details := (sd_details d)
       \<lparr>pg_sys_name := join_bar (tlv_strings TlvSysName tlvs),
        pg_sys_desc := join_bar (tlv_strings TlvSysDesc tlvs),
        pg_sys_extra := tlv_strings TlvString tlvs\<rparr>\<rparr>"

definition initiate_initiating ::
  "information_tlv list \<Rightarrow> initiating bmp_state_details \<Rightarrow> initiating bmp_state_details" where
  "initiate_initiating tlvs d =
    d\<lparr>sd_details := (sd_details d)
       \<lparr>in_sys_name := Some (join_bar (tlv_strings TlvSysName tlvs)),
        in_sys_desc := Some (join_bar (tlv_strings TlvSysDesc tlvs)),
        in_sys_extra := tlv_strings TlvString tlvs\<rparr>\<rparr>"

definition peer_up ::
  "'c machine_env \<Rightarrow> ('c peering_details \<Rightarrow> 'c bmp_state) \<Rightarrow> 'c peer_up_msg \<Rightarrow> 'c peering_details \<Rightarrow>
   world \<Rightarrow> ('c, 'osm, 'rtr) processing_result \<times> world" where
  "peer_up env into m d w =
    (let eor_capable = list_ex (\<lambda>c. c = GracefulRestart) (pu_rcvd_capability_types m);
         ((added, existing), ps, r) =
           add_peer_config env (pu_pph m) (pu_session_config m) eor_capable
             (pu_sent_capabilities m) (pu_rcvd_capabilities m) (sd_ingress_id d)
             (pu_information_tlvs m) (peers_of d) (w_reg w);
         d = with_peers ps d;
         w = w\<lparr>w_reg := r\<rparr>
     in if \<not> added
        then ((InvalidMessage (Some True) (Some (pu_raw m)) (PeerAlreadyUp (pu_pph m)), into d), w)
        else
          let w = on_metrics (sr_peer_up (sd_router_id d) eor_capable) w
          in (case existing of
               Some ident \<Rightarrow> ((RoutingUpdate (IngressReappeared ident), into d), w)
             | None \<Rightarrow> ((Other, into d), w)))"

definition peer_down ::
  "'c machine_env \<Rightarrow> ('c peering_details \<Rightarrow> 'c bmp_state) \<Rightarrow> pph \<Rightarrow> bytes \<Rightarrow> 'c peering_details \<Rightarrow>
   world \<Rightarrow> ('c, 'osm, 'rtr) processing_result \<times> world" where
  "peer_down env into h raw d w =
    (case remove_peer_identity_siblings env h (peers_of d) of
      (removed, ps) \<Rightarrow>
        (let d = with_peers ps d
         in if removed \<noteq> []
            then
              let w = on_metrics (sr_routing_update (update_report_new (sd_router_id d))) w;
                  w = on_metrics (fold (\<lambda>p. sr_peer_down (sd_router_id d) (Some (ps_eor_capable p)))
                        (filter (\<lambda>p. \<not> ps_synthesized p) removed)) w;
                  entries = map (\<lambda>p. (ps_ingress_id p, None)) removed;
                  w = w\<lparr>w_reg := fold disconnect_peer removed (w_reg w)\<rparr>
              in (case removed of
                   [p] \<Rightarrow>
                     (if \<not> ps_synthesized p
                      then ((RoutingUpdate (Withdraw (ps_ingress_id p) None), into d), w)
                      else ((RoutingUpdate (WithdrawBulk entries), into d), w))
                 | _ \<Rightarrow> ((RoutingUpdate (WithdrawBulk entries), into d), w))
            else ((InvalidMessage (Some False) (Some raw) PeerDownNotUp, into d), w)))"

definition statistics_report ::
  "('c peering_details \<Rightarrow> 'c bmp_state) \<Rightarrow> pph \<Rightarrow> bytes \<Rightarrow> 'c peering_details \<Rightarrow>
   ('c, 'osm, 'rtr) processing_result" where
  "statistics_report into h raw d =
    (case get_peer_ingress_id (peers_of d) h of
      None \<Rightarrow> (Other, into d)
    | Some ident \<Rightarrow>
        (if length raw < 48 then (Other, into d)
         else (RoutingUpdate (PeerStats ident (drop 48 raw)), into d)))"

subsection \<open>Route Monitoring\<close>

definition nulled_flags :: "pph \<Rightarrow> pph" where
  "nulled_flags h = h\<lparr>pph_flags := pph_flags h AND 0xAF\<rparr>"

text \<open>
  The two fallbacks for a header no Peer Up was seen for run the same steps on the header
  \<open>source_pph\<close> they start from.
\<close>

definition synthesize ::
  "'c machine_env \<Rightarrow> pph \<Rightarrow> pph \<Rightarrow> 'c peer_states \<Rightarrow> register \<Rightarrow>
   (bool \<times> 'c peer_states \<times> register) option" where
  "synthesize env source_pph h ps r =
    (case get_peer_ingress_id ps source_pph of
      None \<Rightarrow> None
    | Some existing_ingress_id \<Rightarrow>
        (case reg_get r existing_ingress_id of
          None \<Rightarrow> None
        | Some info \<Rightarrow>
            (let adapted = info
                   \<lparr>ii_rib_type := Some (me_rib_type env h),
                    ii_peer_rib_type :=
                      Some (peer_rib_type_from (me_is_post_policy env h) (me_rib_type env h)),
                    ii_state := Some Connected\<rparr>;
                 (new_ingress_id, r) =
                   (case find_existing_peer_and_claim (me_reg_it env) r adapted of
                     (Some (ident, _), r) \<Rightarrow> (ident, r)
                   | (None, r) \<Rightarrow> register_id r);
                 r = snd (update_info r new_ingress_id adapted)
             in (case add_cloned_peer_config source_pph h new_ingress_id ps of
                  None \<Rightarrow> None
                | Some (added, ps) \<Rightarrow> Some (added, ps, r)))))"

text \<open>
  The configuration to parse with: \<open>Some (Inr cfg, d, w)\<close>; \<open>Some (Inl res, d, w)\<close> when the
  handler returns \<open>res\<close> at once.
\<close>

definition resolve_peer_config ::
  "'c machine_env \<Rightarrow> 'c route_mon_msg \<Rightarrow> 'c peering_details \<Rightarrow> world \<Rightarrow>
   ((('osm, 'rtr) message_type + 'c session_config) \<times> 'c peering_details \<times> world) option" where
  "resolve_peer_config env m d w =
    (let h = rmo_pph m; ps = peers_of d;
         from_source = (\<lambda>source_pph err.
           (case synthesize env source_pph h ps (w_reg w) of
             None \<Rightarrow> None
           | Some (added, ps, r) \<Rightarrow>
               (let d = with_peers ps d; w = w\<lparr>w_reg := r\<rparr>
                in if \<not> added then Some (Inl (InvalidMessage (Some False) (Some (rmo_raw m)) err), d, w)
                   else (case get_peer_config ps h of
                          None \<Rightarrow> None
                        | Some cfg \<Rightarrow> Some (Inr cfg, d, w)))))
     in (case get_peer_config ps h of
          Some cfg \<Rightarrow> Some (Inr cfg, d, w)
        | None \<Rightarrow>
            (if get_peer_config ps (nulled_flags h) \<noteq> None
             then from_source (nulled_flags h) (CannotSynthesize h)
             else (case find_sibling_pph env ps h of
                    Some sibling_pph \<Rightarrow> from_source sibling_pph (CannotSynthesizeFromSibling h)
                  | None \<Rightarrow>
                      Some (Inl (InvalidMessage (Some False) (Some (rmo_raw m)) (RouteMonitoringNotUp h)),
                        d, on_metrics (sr_peer_unknown (sd_router_id d)) w)))))"

text \<open>
  The retry loop: parse with the configuration at hand, and after an error with the alternate
  one unless it was tried already. The result is the configuration in force, the UPDATE and
  the first error if there was a retry, or the last error.
\<close>

function parse_loop ::
  "('c session_config \<Rightarrow> ustr + bgp_update) \<Rightarrow> 'c session_config \<Rightarrow> 'c session_config list \<Rightarrow>
   ustr option \<Rightarrow> ustr + ('c session_config \<times> bgp_update \<times> ustr option)" where
  "parse_loop parse cfg tried retry =
    (case parse cfg of
      Inr u \<Rightarrow> Inr (cfg, u, retry)
    | Inl err \<Rightarrow>
        (case generate_alternate_config cfg of
          Some alt \<Rightarrow>
            (if alt \<notin> set (tried @ [cfg])
             then parse_loop parse alt (tried @ [cfg]) (if retry = None then Some err else retry)
             else Inl err)
        | None \<Rightarrow> Inl err))"
  by pat_completeness auto

definition alternate :: "'c session_config \<Rightarrow> 'c session_config" where
  "alternate cfg = cfg\<lparr>sc_four_octet_asns := \<not> sc_four_octet_asns cfg\<rparr>"

lemma alternate_alternate [simp]: "alternate (alternate cfg) = cfg"
  by (simp add: alternate_def)

lemma alternate_neq [simp]: "alternate cfg \<noteq> cfg" "cfg \<noteq> alternate cfg"
  by (metis alternate_def session_config.simps(1,3) session_config.surjective
      session_config.update_convs(1))+

lemma generate_alternate_config_eq [simp]: "generate_alternate_config cfg = Some (alternate cfg)"
  by (simp add: generate_alternate_config_def alternate_def)

termination parse_loop
  by (relation "measure (\<lambda>(_, cfg, tried, _). if alternate cfg \<in> set tried then 0 else 1)") auto

definition mk_payload :: "nat \<Rightarrow> ingress_id \<Rightarrow> route_status \<Rightarrow> rotonda_route \<Rightarrow> payload" where
  "mk_payload received ident status rr =
    \<lparr>pl_rx_value = rr, pl_trace_id = None, pl_received = received, pl_ingress_id = ident,
     pl_route_status = status\<rparr>"

definition extract_route_monitoring_routes ::
  "nat \<Rightarrow> pph \<Rightarrow> bgp_update \<Rightarrow> 'c peering_details \<Rightarrow> (payload list \<times> update_report) option" where
  "extract_route_monitoring_routes received h u d =
    (case explode_announcements u of
      None \<Rightarrow> None
    | Some rr_reach \<Rightarrow>
        (case explode_withdrawals u of
          None \<Rightarrow> None
        | Some rr_unreach \<Rightarrow>
            (case get_peer_ingress_id (peers_of d) h of
              None \<Rightarrow> None
            | Some ident \<Rightarrow>
                Some (map (mk_payload received ident Active) rr_reach @
                      map (mk_payload received ident Withdrawn) rr_unreach,
                  (update_report_new (sd_router_id d))
                    \<lparr>ur_n_new_prefixes := length rr_reach,
                     ur_n_valid_announcements := length rr_reach,
                     ur_n_valid_withdrawals := length rr_unreach\<rparr>))))"

definition dumping_preprocessing ::
  "'c machine_env \<Rightarrow> pph \<Rightarrow> bgp_update \<Rightarrow> 'c peering_details \<Rightarrow> world \<Rightarrow>
   (('c, 'osm, 'rtr) processing_result + 'c peering_details) \<times> world" where
  "dumping_preprocessing env h u d w =
    (case bu_is_eor u of
      Some (Some afi_safi) \<Rightarrow>
        (case remove_pending_eor env h afi_safi (peers_of d) of
          (last_one, ps) \<Rightarrow>
            (let d = with_peers ps d
             in if last_one
                then (case mk_state_transition_result (SM_Updating d)
                        (on_metrics (sr_pending_eors_update (sd_router_id d) (num_pending_eors env ps)) w) of
                       (res, w) \<Rightarrow> (Inl res, w))
                else (Inr d, w)))
    | _ \<Rightarrow> (Inr d, w))"

definition updating_preprocessing ::
  "'c machine_env \<Rightarrow> pph \<Rightarrow> bgp_update \<Rightarrow> 'c peering_details \<Rightarrow> world \<Rightarrow>
   (('c, 'osm, 'rtr) processing_result + 'c peering_details) \<times> world" where
  "updating_preprocessing env h u d w =
    (case bu_is_eor u of
      Some (Some afi_safi) \<Rightarrow>
        (case remove_pending_eor env h afi_safi (peers_of d) of
          (last_one, ps) \<Rightarrow>
            (let d = with_peers ps d
             in (Inr d,
                 if last_one
                 then on_metrics (sr_pending_eors_update (sd_router_id d) (num_pending_eors env ps)) w
                 else w)))
    | _ \<Rightarrow> (Inr d, w))"

text \<open>What follows a successful preprocessing: extraction, bookkeeping of End-of-RIB, the update.\<close>

definition emit_routes ::
  "'c machine_env \<Rightarrow> ('c peering_details \<Rightarrow> 'c bmp_state) \<Rightarrow> nat \<Rightarrow> 'c route_mon_msg \<Rightarrow> bgp_update \<Rightarrow>
   'c peering_details \<Rightarrow> world \<Rightarrow> ('c, 'osm, 'rtr) processing_result \<times> world" where
  "emit_routes env into received m u d w =
    (case extract_route_monitoring_routes received (rmo_pph m) u d of
      None \<Rightarrow> ((InvalidMessage (Some True) (Some (rmo_raw m)) UpdateUnparsable, into d), w)
    | Some (payloads, report) \<Rightarrow>
        (case bu_announcements_vec u of
          None \<Rightarrow> ((InvalidMessage (Some True) (Some (rmo_raw m)) NlriUnparsable, into d), w)
        | Some announcements \<Rightarrow>
            (let (d, w) =
               (if ur_n_valid_announcements report > 0 \<and>
                   is_peer_eor_capable (peers_of d) (rmo_pph m) = Some True
                then (case announcements of
                       [] \<Rightarrow> (d, w)
                     | first # _ \<Rightarrow>
                         (case add_pending_eor env (rmo_pph m) (nlri_afi_safi first) (peers_of d) of
                           (n, ps) \<Rightarrow>
                             (with_peers ps d,
                              on_metrics (sr_pending_eors_update (sd_router_id d) n) w)))
                else (d, w));
              w = on_metrics (sr_routing_update report) w
             in ((RoutingUpdate (Bulk payloads), into d), w))))"

definition route_monitoring ::
  "'c machine_env \<Rightarrow> ('c peering_details \<Rightarrow> 'c bmp_state) \<Rightarrow>
   (pph \<Rightarrow> bgp_update \<Rightarrow> 'c peering_details \<Rightarrow> world \<Rightarrow>
     (('c, 'osm, 'rtr) processing_result + 'c peering_details) \<times> world) \<Rightarrow>
   nat \<Rightarrow> 'c route_mon_msg \<Rightarrow> 'c peering_details \<Rightarrow> world \<Rightarrow>
   (('c, 'osm, 'rtr) processing_result \<times> world) option" where
  "route_monitoring env into preprocessing received m d w =
    (case resolve_peer_config env m d w of
      None \<Rightarrow> None
    | Some (Inl res, d, w) \<Rightarrow> Some ((res, into d), w)
    | Some (Inr cfg, d, w) \<Rightarrow>
        (case parse_loop (rmo_bgp_update m) cfg [] None of
          Inl err \<Rightarrow>
            Some ((InvalidMessage (Some True) (Some (rmo_raw m)) (UpdateInvalid err), into d), w)
        | Inr (cfg, u, retry) \<Rightarrow>
            (let (d, w) =
               (case retry of
                 None \<Rightarrow> (d, w)
               | Some err \<Rightarrow>
                   (with_peers (snd (update_peer_config env (rmo_pph m) cfg (peers_of d))) d,
                    on_metrics (sr_parse_soft_fail (sd_router_id d) err (Some (rmo_raw m))) w))
             in (case preprocessing (rmo_pph m) u d w of
                  (Inl res, w) \<Rightarrow> Some (res, w)
                | (Inr d, w) \<Rightarrow> Some (emit_routes env into received m u d w)))))"

subsection \<open>The states\<close>

definition terminate ::
  "'c machine_env \<Rightarrow> 'c peering_details \<Rightarrow> world \<Rightarrow> ('c, 'osm, 'rtr) processing_result \<times> world" where
  "terminate env d w =
    (case disconnect_into_register env (peers_of d) (w_reg w) of
      (entries, r) \<Rightarrow>
        (let w = w\<lparr>w_reg := r\<rparr>;
             next_state = SM_Terminated
               \<lparr>sd_ingress_id = sd_ingress_id d, sd_router_id = sd_router_id d, sd_details = ()\<rparr>
         in if entries = [] then mk_state_transition_result next_state w
            else ((RoutingUpdate (WithdrawBulk entries), next_state), w)))"

definition dumping_from :: "initiating bmp_state_details \<Rightarrow> 'c peering_details option" where
  "dumping_from v =
    (case (in_sys_name (sd_details v), in_sys_desc (sd_details v)) of
      (Some n, Some de) \<Rightarrow>
        Some \<lparr>sd_ingress_id = sd_ingress_id v, sd_router_id = sd_router_id v,
              sd_details = \<lparr>pg_sys_name = n, pg_sys_desc = de,
                pg_sys_extra = in_sys_extra (sd_details v), pg_peer_states = []\<rparr>\<rparr>
    | _ \<Rightarrow> None)"

definition first_tlv :: "information_tlv_type \<Rightarrow> ustr \<Rightarrow> information_tlv list \<Rightarrow> ustr" where
  "first_tlv typ dflt tlvs =
    (case find (\<lambda>t. fst t = typ) tlvs of
      None \<Rightarrow> dflt
    | Some t \<Rightarrow> from_utf8_lossy (snd t))"

definition router_identity :: "information_tlv list \<Rightarrow> ingress_info option \<Rightarrow> ingress_info" where
  "router_identity tlvs provisional =
    (case provisional of None \<Rightarrow> ingress_info_new | Some i \<Rightarrow> i)
      \<lparr>ii_state := Some Connected,
       ii_name := Some (first_tlv TlvSysName (str ''no-sysname'') tlvs),
       ii_desc := Some (first_tlv TlvSysDesc (str ''no-sysdesc'') tlvs)\<rparr>"

definition initiating_process_msg ::
  "'c machine_env \<Rightarrow> 'c bmp_msg \<Rightarrow> initiating bmp_state_details \<Rightarrow> world \<Rightarrow>
   (('c, 'osm, 'rtr) processing_result \<times> world) option" where
  "initiating_process_msg env m v w =
    (case m of
      InitiationMessage tlvs raw \<Rightarrow>
        (let identity = router_identity tlvs (reg_get (w_reg w) (sd_ingress_id v));
             (found, r) = find_existing_bmp_router_and_claim (me_reg_it env) (w_reg w) identity;
             adopted =
               (case found of
                 Some (existing_id, _) \<Rightarrow>
                   (if existing_id \<noteq> sd_ingress_id v then existing_id else sd_ingress_id v)
               | None \<Rightarrow> sd_ingress_id v);
             w = w\<lparr>w_reg := snd (update_info r adopted identity)\<rparr>;
             v = v\<lparr>sd_ingress_id := adopted\<rparr>
         in (case dumping_from (initiate_initiating tlvs v) of
              None \<Rightarrow> None
            | Some d \<Rightarrow> Some (mk_state_transition_result (SM_Dumping d) w)))
    | _ \<Rightarrow> Some ((InvalidMessage None (Some (msg_raw m)) ExpectedInitiation, SM_Initiating v), w))"

definition dumping_process_msg ::
  "'c machine_env \<Rightarrow> nat \<Rightarrow> 'c bmp_msg \<Rightarrow> 'c peering_details \<Rightarrow> world \<Rightarrow>
   (('c, 'osm, 'rtr) processing_result \<times> world) option" where
  "dumping_process_msg env received m d w =
    (case m of
      InitiationMessage tlvs _ \<Rightarrow> Some ((Other, SM_Dumping (initiate_peering tlvs d)), w)
    | PeerUpNotification pu \<Rightarrow>
        (case peer_up env SM_Dumping pu d w of
          ((mt, SM_Dumping d), w) \<Rightarrow>
            Some ((mt, SM_Dumping d),
              on_metrics (sr_pending_eors_update (sd_router_id d) (num_pending_eors env (peers_of d))) w)
        | (res, w) \<Rightarrow> Some (res, w))
    | PeerDownNotification h raw \<Rightarrow> Some (peer_down env SM_Dumping h raw d w)
    | RouteMonitoring rm \<Rightarrow> route_monitoring env SM_Dumping (dumping_preprocessing env) received rm d w
    | TerminationMessage _ \<Rightarrow> Some (terminate env d w)
    | StatisticsReport h raw \<Rightarrow> Some (statistics_report SM_Dumping h raw d, w)
    | RouteMirroring _ _ \<Rightarrow> Some ((Other, SM_Dumping d), w))"

definition updating_process_msg ::
  "'c machine_env \<Rightarrow> nat \<Rightarrow> 'c bmp_msg \<Rightarrow> 'c peering_details \<Rightarrow> world \<Rightarrow>
   (('c, 'osm, 'rtr) processing_result \<times> world) option" where
  "updating_process_msg env received m d w =
    (case m of
      InitiationMessage tlvs _ \<Rightarrow> Some ((Other, SM_Updating (initiate_peering tlvs d)), w)
    | PeerUpNotification pu \<Rightarrow> Some (peer_up env SM_Updating pu d w)
    | PeerDownNotification h raw \<Rightarrow> Some (peer_down env SM_Updating h raw d w)
    | RouteMonitoring rm \<Rightarrow> route_monitoring env SM_Updating (updating_preprocessing env) received rm d w
    | TerminationMessage _ \<Rightarrow> Some (terminate env d w)
    | StatisticsReport h raw \<Rightarrow> Some (statistics_report SM_Updating h raw d, w)
    | RouteMirroring _ _ \<Rightarrow> Some ((Other, SM_Updating d), w))"

definition terminated_process_msg ::
  "'c bmp_msg \<Rightarrow> unit bmp_state_details \<Rightarrow> ('c, 'osm, 'rtr) processing_result" where
  "terminated_process_msg m v =
    (InvalidMessage None (Some (msg_raw m)) MessageAfterTermination, SM_Terminated v)"

fun dispatch_msg ::
  "'c machine_env \<Rightarrow> nat \<Rightarrow> 'c bmp_msg \<Rightarrow> 'c bmp_state \<Rightarrow> world \<Rightarrow>
   (('c, 'osm, 'rtr) processing_result \<times> world) option" where
  "dispatch_msg env received m (SM_Initiating v) w = initiating_process_msg env m v w"
| "dispatch_msg env received m (SM_Dumping d) w = dumping_process_msg env received m d w"
| "dispatch_msg env received m (SM_Updating d) w = updating_process_msg env received m d w"
| "dispatch_msg env received m (SM_Terminated v) w = Some (terminated_process_msg m v, w)"
| "dispatch_msg env received m (SM_Aborted i r) w = Some ((MT_Aborted, SM_Aborted i r), w)"

definition process_msg ::
  "'c machine_env \<Rightarrow> nat \<Rightarrow> 'c bmp_msg \<Rightarrow> 'c bmp_state \<Rightarrow> world \<Rightarrow>
   (('c, 'osm, 'rtr) processing_result \<times> world) option" where
  "process_msg env received m st w =
    (case dispatch_msg env received m st w of
      None \<Rightarrow> None
    | Some ((InvalidMessage _ msg_bytes err, next_state), w) \<Rightarrow>
        Some ((InvalidMessage None None err, next_state),
          if has_status_reporter next_state
          then on_metrics (sr_parse_hard_fail (state_router_id next_state) (me_error_text env err) msg_bytes) w
          else w)
    | Some (res, w) \<Rightarrow> Some (res, w))"

definition bmp_state_new :: "ingress_id \<Rightarrow> ustr \<Rightarrow> 'c bmp_state" where
  "bmp_state_new source_id router_id =
    SM_Initiating \<lparr>sd_ingress_id = source_id, sd_router_id = router_id,
      sd_details = \<lparr>in_sys_name = None, in_sys_desc = None, in_sys_extra = []\<rparr>\<rparr>"

end
