(* ===== verification/Bmp_Peers.thy ===== *)
theory Bmp_Peers
  imports Bmp_Machine
begin

text \<open>
  The peers of a BMP session and what the handlers do to them.

  Each peer holds an entry of the ingress register: \<open>peers_ok\<close> says that the entry exists, is
  connected, is of type \<open>BgpViaBmp\<close>, and that no two peers hold the same. \<open>reg_guar\<close> is what a
  handler guarantees the other users of the register: entries that are \<open>protected\<close> (connected,
  or the provisional entry of a router that has not introduced itself) are left alone unless
  the session holds them, and an id it takes was not protected.

  The lemmas give, for every branch, what Peer Up, Peer Down, Termination and the fallbacks of
  Route Monitoring return and leave behind.
\<close>

subsection \<open>Invariants\<close>

definition up_entry :: "ingress_info \<Rightarrow> bool" where
  "up_entry i = (ii_state i = Some Connected \<and> ii_ingress_type i = Some IT_BgpViaBmp)"

definition protected :: "ingress_info \<Rightarrow> bool" where
  "protected i = (ii_state i = Some Connected \<or> (ii_remote_asn i = None \<and> ii_name i = None))"

definition peer_ids :: "'c peer_states \<Rightarrow> ingress_id set" where
  "peer_ids ps = {ps_ingress_id p |h p. hm_get ps h = Some p}"

definition peers_ok :: "'c peer_states \<Rightarrow> register \<Rightarrow> bool" where
  "peers_ok ps r =
    (hm_wf ps \<and>
     (\<forall>h p. hm_get ps h = Some p \<longrightarrow> (\<exists>i. reg_get r (ps_ingress_id p) = Some i \<and> up_entry i)) \<and>
     (\<forall>h p h' p'. hm_get ps h = Some p \<longrightarrow> hm_get ps h' = Some p' \<longrightarrow>
       ps_ingress_id p = ps_ingress_id p' \<longrightarrow> h = h'))"

definition reg_guar ::
  "ingress_id set \<Rightarrow> register \<Rightarrow> ingress_id set \<Rightarrow> register \<Rightarrow> bool" where
  "reg_guar H r H' r' =
    (reg_wf r' \<and>
     (\<forall>j i. reg_get r j = Some i \<longrightarrow> protected i \<longrightarrow> j \<notin> H \<longrightarrow> reg_get r' j = Some i) \<and>
     (\<forall>j \<in> H'. j \<in> H \<or> (\<forall>i. reg_get r j = Some i \<longrightarrow> \<not> protected i)))"

definition peers_step ::
  "'c peering_details \<Rightarrow> world \<Rightarrow> 'c peering_details \<Rightarrow> world \<Rightarrow> bool" where
  "peers_step d w d' w' =
    (sd_ingress_id d' = sd_ingress_id d \<and> sd_router_id d' = sd_router_id d \<and>
     peers_ok (peers_of d') (w_reg w') \<and>
     reg_guar (peer_ids (peers_of d)) (w_reg w) (peer_ids (peers_of d')) (w_reg w'))"

lemma peers_okD:
  assumes "peers_ok ps r" and "hm_get ps h = Some p"
  obtains i where "reg_get r (ps_ingress_id p) = Some i" and "up_entry i"
  using assms unfolding peers_ok_def by blast

lemma peers_ok_inj:
  "\<lbrakk>peers_ok ps r; hm_get ps h = Some p; hm_get ps h' = Some p'; ps_ingress_id p = ps_ingress_id p'\<rbrakk>
    \<Longrightarrow> h = h'"
  unfolding peers_ok_def by blast

lemma peers_ok_wf: "peers_ok ps r \<Longrightarrow> hm_wf ps"
  by (simp add: peers_ok_def)

lemma up_entry_protected: "up_entry i \<Longrightarrow> protected i"
  by (simp add: up_entry_def protected_def)

lemma peer_idsI: "hm_get ps h = Some p \<Longrightarrow> ps_ingress_id p \<in> peer_ids ps"
  unfolding peer_ids_def by blast

lemma peer_idsE:
  assumes "j \<in> peer_ids ps"
  obtains h p where "hm_get ps h = Some p" and "j = ps_ingress_id p"
  using assms unfolding peer_ids_def by blast

lemma peer_ids_insert: "hm_get ps k = None \<Longrightarrow> peer_ids ps \<subseteq> peer_ids (hm_insert k p ps)"
proof
  fix j assume new: "hm_get ps k = None" and "j \<in> peer_ids ps"
  then obtain h q where hq: "hm_get ps h = Some q" "j = ps_ingress_id q" by (blast elim: peer_idsE)
  then have "h \<noteq> k" using new by auto
  then show "j \<in> peer_ids (hm_insert k p ps)" using hq by (auto intro: peer_idsI)
qed

lemma peers_okI:
  assumes "hm_wf ps"
    and "\<And>h p. hm_get ps h = Some p \<Longrightarrow> \<exists>i. reg_get r (ps_ingress_id p) = Some i \<and> up_entry i"
    and "\<And>h p h' p'. hm_get ps h = Some p \<Longrightarrow> hm_get ps h' = Some p' \<Longrightarrow>
      ps_ingress_id p = ps_ingress_id p' \<Longrightarrow> h = h'"
  shows "peers_ok ps r"
  unfolding peers_ok_def using assms by blast

lemma peers_ok_cong:
  assumes ok: "peers_ok ps r" and same: "\<And>j. j \<in> peer_ids ps \<Longrightarrow> reg_get r' j = reg_get r j"
  shows "peers_ok ps r'"
proof (rule peers_okI)
  show "hm_wf ps" by (rule peers_ok_wf [OF ok])
  fix h p assume g: "hm_get ps h = Some p"
  show "\<exists>i. reg_get r' (ps_ingress_id p) = Some i \<and> up_entry i"
    using peers_okD [OF ok g] same [OF peer_idsI [OF g]] by metis
qed (rule peers_ok_inj [OF ok])

lemma peers_ok_Nil [simp]: "peers_ok [] r"
  by (simp add: peers_ok_def)

lemma peer_ids_Nil [simp]: "peer_ids [] = {}"
  by (simp add: peer_ids_def)

lemma reg_guar_refl: "reg_wf r \<Longrightarrow> H' \<subseteq> H \<Longrightarrow> reg_guar H r H' r"
  by (auto simp: reg_guar_def)

lemma reg_guar_trans:
  assumes "reg_guar H r H' r'" and "reg_guar H' r' H'' r''"
  shows "reg_guar H r H'' r''"
  unfolding reg_guar_def
proof (intro conjI allI ballI impI)
  show "reg_wf r''" using assms(2) by (simp add: reg_guar_def)
next
  fix j i assume "reg_get r j = Some i" and "protected i" and "j \<notin> H"
  then have "reg_get r' j = Some i" and "j \<notin> H'" using assms(1) by (auto simp: reg_guar_def)
  then show "reg_get r'' j = Some i" using assms(2) \<open>protected i\<close> by (simp add: reg_guar_def)
next
  fix j assume "j \<in> H''"
  then show "j \<in> H \<or> (\<forall>i. reg_get r j = Some i \<longrightarrow> \<not> protected i)"
    using assms unfolding reg_guar_def by blast
qed

lemma with_peers_simps [simp]:
  "peers_of (with_peers ps d) = ps" "sd_ingress_id (with_peers ps d) = sd_ingress_id d"
  "sd_router_id (with_peers ps d) = sd_router_id d"
  by (simp_all add: peers_of_def with_peers_def)

lemma initiate_peering_simps [simp]:
  "peers_of (initiate_peering tlvs d) = peers_of d"
  "sd_ingress_id (initiate_peering tlvs d) = sd_ingress_id d"
  "sd_router_id (initiate_peering tlvs d) = sd_router_id d"
  by (simp_all add: peers_of_def initiate_peering_def)

lemma w_reg_on_metrics [simp]: "w_reg (on_metrics f w) = w_reg w"
  by (simp add: on_metrics_def)

lemma w_metrics_on_metrics [simp]: "w_metrics (on_metrics f w) = f (w_metrics w)"
  by (simp add: on_metrics_def)

subsection \<open>Binding an id\<close>

lemma bind_facts:
  assumes wf: "reg_wf r" and room: "reg_room r" and st: "ii_state q = Some Connected"
    and ty: "ii_ingress_type q = Some t" and b: "reg.bind it r q = (ident, r')"
  shows "reg_wf r'"
    and "\<And>i. reg_get r ident = Some i \<Longrightarrow> \<not> protected i"
    and "\<And>j. j \<noteq> ident \<Longrightarrow> reg_get r' j = reg_get r j"
    and "\<exists>i. reg_get r' ident = Some i \<and> ii_state i = Some Connected \<and> ii_ingress_type i = Some t"
proof -
  note spec = reg.bind_spec [OF wf room st b]
  show "reg_wf r'" and other: "\<And>j. j \<noteq> ident \<Longrightarrow> reg_get r' j = reg_get r j" by (rule spec)+
  obtain res r1 where c: "find_existing_peer_and_claim it r q = (res, r1)" by force
  have hw: "hm_wf (reg_info r)" using wf by (simp add: reg_wf_def)
  have "(\<forall>i. reg_get r ident = Some i \<longrightarrow> \<not> protected i) \<and>
    (\<exists>i. reg_get r' ident = Some i \<and> ii_state i = Some Connected \<and> ii_ingress_type i = Some t)"
  proof (cases res)
    case None
    then have "r1 = r" using reg.claim_None [OF wf] c by blast
    then have "ident = reg_serial r" and "r' = snd (update_info (snd (register_id r)) ident q)"
      using b c None by (auto simp: reg.bind_def register_id_def)
    moreover have "reg_get r (reg_serial r) = None" using wf by (auto simp: reg_wf_def)
    ultimately show ?thesis using st ty by simp
  next
    case (Some a)
    obtain i2 info where a: "a = (i2, info)" by force
    have c': "claim_entry it (\<lambda>info. peer_matches info q) r = (Some (i2, info), r1)"
      using c Some a by (simp add: find_existing_peer_and_claim_def)
    have "ident = i2" and r': "r' = snd (update_info r1 i2 q)"
      using b c Some a by (auto simp: reg.bind_def)
    moreover obtain old where "reg_get r i2 = Some old" and "ii_state old \<noteq> Some Connected"
      and "peer_matches old q" and "reg_get r1 i2 = Some info"
      using claim_entry_Some [OF hw c'] by auto
    ultimately show ?thesis
      using st ty by (auto simp: protected_def peer_matches_def mandatory_eq_def merge_info_def
          update_field_def)
  qed
  then show "\<And>i. reg_get r ident = Some i \<Longrightarrow> \<not> protected i"
    and "\<exists>i. reg_get r' ident = Some i \<and> ii_state i = Some Connected \<and> ii_ingress_type i = Some t"
    by blast+
qed

lemma bind_peer_ok:
  assumes wf: "reg_wf r" and room: "reg_room r" and st: "ii_state q = Some Connected"
    and ty: "ii_ingress_type q = Some IT_BgpViaBmp" and b: "reg.bind it r q = (ident, r')"
    and ok: "peers_ok ps r" and new: "hm_get ps h = None" and p: "ps_ingress_id p = ident"
  shows "peers_ok (hm_insert h p ps) r'"
    and "reg_guar (peer_ids ps) r (peer_ids (hm_insert h p ps)) r'"
proof -
  note f = bind_facts [OF wf room st ty b]
  have fresh: "ps_ingress_id p' \<noteq> ident" if "hm_get ps h' = Some p'" for h' p'
    using peers_okD [OF ok that] f(2) up_entry_protected by metis
  have up: "\<exists>i. reg_get r' (ps_ingress_id p') = Some i \<and> up_entry i"
    if "hm_get (hm_insert h p ps) h' = Some p'" for h' p'
  proof (cases "h' = h")
    case True
    then show ?thesis using that p f(4) by (auto simp: up_entry_def)
  next
    case False
    then have "hm_get ps h' = Some p'" using that by simp
    then show ?thesis using peers_okD [OF ok] fresh f(3) by metis
  qed
  show "peers_ok (hm_insert h p ps) r'"
  proof (rule peers_okI)
    fix h1 p1 h2 p2
    assume g: "hm_get (hm_insert h p ps) h1 = Some p1" "hm_get (hm_insert h p ps) h2 = Some p2"
      and eq: "ps_ingress_id p1 = ps_ingress_id p2"
    show "h1 = h2"
      using g eq fresh [of h1 p1] fresh [of h2 p2] p peers_ok_inj [OF ok, of h1 p1 h2 p2]
      by (auto split: if_splits)
  qed (simp add: peers_ok_wf [OF ok], rule up)
  have ids: "j = ident \<or> j \<in> peer_ids ps" if "j \<in> peer_ids (hm_insert h p ps)" for j
    using that p by (auto elim!: peer_idsE intro: peer_idsI split: if_splits)
  show "reg_guar (peer_ids ps) r (peer_ids (hm_insert h p ps)) r'"
    unfolding reg_guar_def
  proof (intro conjI allI ballI impI)
    fix j i assume "reg_get r j = Some i" and "protected i"
    then show "reg_get r' j = Some i" using f(2) [of i] f(3) [of j] by auto
  next
    fix j assume "j \<in> peer_ids (hm_insert h p ps)"
    then show "j \<in> peer_ids ps \<or> (\<forall>i. reg_get r j = Some i \<longrightarrow> \<not> protected i)" using ids f(2) by blast
  qed (rule f(1))
qed

subsection \<open>Peer Up\<close>

definition new_peer ::
  "'c machine_env \<Rightarrow> pph \<Rightarrow> 'c session_config \<Rightarrow> bool \<Rightarrow> ingress_id \<Rightarrow> 'c peer_state" where
  "new_peer env h cfg eor_capable ident =
    \<lparr>ps_session_config = cfg, ps_eor_capable = eor_capable, ps_pending_eors = [],
     ps_peer_details = peer_details_new env h, ps_ingress_id = ident, ps_synthesized = False\<rparr>"

lemma new_peer_simps [simp]:
  "ps_ingress_id (new_peer env h cfg e ident) = ident"
  "ps_synthesized (new_peer env h cfg e ident) = False"
  "ps_eor_capable (new_peer env h cfg e ident) = e"
  "ps_pending_eors (new_peer env h cfg e ident) = []"
  by (simp_all add: new_peer_def)

lemma query_ingress_simps [simp]:
  "ii_state (query_ingress env h lc rc b tlvs) = Some Connected"
  "ii_ingress_type (query_ingress env h lc rc b tlvs) = Some IT_BgpViaBmp"
  by (simp_all add: query_ingress_def)

lemma add_peer_config_new:
  assumes "hm_get ps h = None"
    and "reg.bind (me_reg_it env) r (query_ingress env h lc rc b tlvs) = (ident, r')"
  shows "add_peer_config env h cfg e lc rc b tlvs ps r =
    ((True, map_option fst (fst (find_existing_peer_and_claim (me_reg_it env) r
        (query_ingress env h lc rc b tlvs)))),
     hm_insert h (new_peer env h cfg e ident) ps, r')"
  using assms
  by (simp add: add_peer_config_def reg.bind_def new_peer_def Let_def split: prod.splits option.splits)

definition pu_eor_capable :: "'c peer_up_msg \<Rightarrow> bool" where
  "pu_eor_capable m = list_ex (\<lambda>c. c = GracefulRestart) (pu_rcvd_capability_types m)"

definition pu_query :: "'c machine_env \<Rightarrow> 'c peering_details \<Rightarrow> 'c peer_up_msg \<Rightarrow> ingress_info" where
  "pu_query env d m =
    query_ingress env (pu_pph m) (pu_sent_capabilities m) (pu_rcvd_capabilities m) (sd_ingress_id d)
      (pu_information_tlvs m)"

lemma pu_query_simps [simp]:
  "ii_state (pu_query env d m) = Some Connected"
  "ii_ingress_type (pu_query env d m) = Some IT_BgpViaBmp"
  by (simp_all add: pu_query_def)

lemma with_peers_same [simp]: "with_peers (peers_of d) d = d"
  by (simp add: with_peers_def peers_of_def)

lemma peer_up_known:
  assumes "hm_get (peers_of d) (pu_pph m) = Some p"
  shows "peer_up env into m d w =
    ((InvalidMessage (Some True) (Some (pu_raw m)) (PeerAlreadyUp (pu_pph m)), into d), w)"
  using assms by (simp add: peer_up_def add_peer_config_def Let_def)

lemma peer_up_new:
  assumes "hm_get (peers_of d) (pu_pph m) = None"
    and "reg.bind (me_reg_it env) (w_reg w) (pu_query env d m) = (ident, r')"
  shows "peer_up env into m d w =
    ((case fst (find_existing_peer_and_claim (me_reg_it env) (w_reg w) (pu_query env d m)) of
        None \<Rightarrow> Other
      | Some (existing, _) \<Rightarrow> RoutingUpdate (IngressReappeared existing),
      into (with_peers (hm_insert (pu_pph m)
        (new_peer env (pu_pph m) (pu_session_config m) (pu_eor_capable m) ident) (peers_of d)) d)),
     on_metrics (sr_peer_up (sd_router_id d) (pu_eor_capable m)) (w\<lparr>w_reg := r'\<rparr>))"
  unfolding peer_up_def pu_eor_capable_def [symmetric]
    add_peer_config_new [OF assms(1) assms(2) [unfolded pu_query_def]] pu_query_def [symmetric]
  by (simp add: Let_def split: option.splits)

subsection \<open>Peer Down\<close>

lemma take_peers_get:
  "distinct ks \<Longrightarrow> hm_get (snd (take_peers ks ps)) h = (if h \<in> set ks then None else hm_get ps h)"
  by (induction ks ps rule: take_peers.induct) (auto simp: hm_take_def split: prod.splits)

lemma take_peers_wf: "hm_wf ps \<Longrightarrow> hm_wf (snd (take_peers ks ps))"
  by (induction ks ps rule: take_peers.induct) (auto simp: hm_take_def split: prod.splits)

lemma take_peers_fst:
  "distinct ks \<Longrightarrow> (\<And>k. k \<in> set ks \<Longrightarrow> hm_get ps k \<noteq> None) \<Longrightarrow>
    fst (take_peers ks ps) = map (\<lambda>k. the (hm_get ps k)) ks"
proof (induction ks arbitrary: ps)
  case Nil
  then show ?case by simp
next
  case (Cons k ks)
  have "hm_get (hm_remove k ps) k' = hm_get ps k'" if "k' \<in> set ks" for k'
    using that Cons.prems(1) by auto
  moreover have "fst (take_peers ks (hm_remove k ps)) = map (\<lambda>k'. the (hm_get (hm_remove k ps) k')) ks"
    using Cons.prems calculation by (intro Cons.IH) auto
  ultimately show ?case
    using Cons.prems(2) [of k] by (auto simp: hm_take_def split: prod.splits)
qed

text \<open>Peer Down takes exactly the views of the peer out of the map, in the order of iteration.\<close>

lemma remove_siblings:
  assumes wf: "hm_wf ps" and r: "remove_peer_identity_siblings env h ps = (removed, ps')"
  shows "hm_wf ps'"
    and "\<And>k. hm_get ps' k = (if same_identity k h then None else hm_get ps k)"
    and "removed = map snd (filter (\<lambda>(k, _). same_identity k h) (iterate (me_peers_it env) ps))"
proof -
  let ?sel = "filter (\<lambda>(k, _). same_identity k h) (iterate (me_peers_it env) ps)"
  let ?ks = "map fst ?sel"
  have t: "take_peers ?ks ps = (removed, ps')" using r by (simp add: remove_peer_identity_siblings_def)
  have dist: "distinct ?ks" using wf by (intro distinct_map_filter) (simp add: hm_wf_def)
  have mem: "(k, v) \<in> set ?sel \<longleftrightarrow> hm_get ps k = Some v \<and> same_identity k h" for k v
    using hm.iterate_entries [OF wf] by auto
  show "hm_wf ps'" using take_peers_wf [OF wf] t by (metis snd_conv)
  show "hm_get ps' k = (if same_identity k h then None else hm_get ps k)" for k
  proof -
    have "k \<in> set ?ks \<longleftrightarrow> same_identity k h \<and> hm_get ps k \<noteq> None" using mem by force
    then show ?thesis using take_peers_get [OF dist, of ps k] t by auto
  qed
  have "removed = map (\<lambda>k. the (hm_get ps k)) ?ks"
    using take_peers_fst [OF dist, of ps] mem t by force
  also have "\<dots> = map snd ?sel" using mem by (auto simp: split_beta)
  finally show "removed = map snd ?sel" .
qed

lemma merge_disconnected: "merge_info i (with_state s ingress_info_new) = with_state s i"
  by (simp add: merge_info_def with_state_def ingress_info_new_def update_field_def)

lemma with_state_twice [simp]: "with_state s (with_state t i) = with_state s i"
  by (simp add: with_state_def)

lemma reg_get_disconnect_peer:
  "reg_get (disconnect_peer p r) j =
    (if j = ps_ingress_id p
     then Some (with_state Disconnected (case reg_get r j of None \<Rightarrow> ingress_info_new | Some i \<Rightarrow> i))
     else reg_get r j)"
  by (simp add: disconnect_peer_def merge_disconnected split: option.splits)

lemma disconnect_peers_get:
  "reg_get (fold disconnect_peer peers r) j =
    (if j \<in> ps_ingress_id ` set peers
     then Some (with_state Disconnected (case reg_get r j of None \<Rightarrow> ingress_info_new | Some i \<Rightarrow> i))
     else reg_get r j)"
  by (induction peers arbitrary: r) (auto simp: reg_get_disconnect_peer)

lemma disconnect_peers_wf:
  "\<lbrakk>reg_wf r; \<And>p. p \<in> set peers \<Longrightarrow> reg_get r (ps_ingress_id p) \<noteq> None\<rbrakk> \<Longrightarrow>
    reg_wf (fold disconnect_peer peers r)"
proof (induction peers arbitrary: r)
  case Nil
  then show ?case by simp
next
  case (Cons p peers)
  have "reg_wf (disconnect_peer p r)"
    using reg.upd_ok [OF Cons.prems(1) Cons.prems(2) [of p]] by (simp add: disconnect_peer_def)
  moreover have "reg_get (disconnect_peer p r) (ps_ingress_id q) \<noteq> None" if "q \<in> set peers" for q
    using Cons.prems(2) [of q] that by (simp add: reg_get_disconnect_peer)
  ultimately show ?case using Cons.IH by simp
qed

text \<open>Disconnecting some of the peers of a session, the others staying in the map.\<close>

lemma disconnect_some:
  assumes ok: "peers_ok ps r" and wf: "reg_wf r" and wf': "hm_wf ps'"
    and keep: "\<And>k. hm_get ps' k = (if P k then None else hm_get ps k)"
    and gone: "\<And>p. p \<in> set removed \<longleftrightarrow> (\<exists>k. P k \<and> hm_get ps k = Some p)"
  shows "peers_ok ps' (fold disconnect_peer removed r)"
    and "reg_guar (peer_ids ps) r (peer_ids ps') (fold disconnect_peer removed r)"
proof -
  let ?r = "fold disconnect_peer removed r"
  have sub: "peer_ids ps' \<subseteq> peer_ids ps"
    using keep by (auto elim!: peer_idsE intro: peer_idsI split: if_splits)
  have rem: "\<exists>k. P k \<and> hm_get ps k = Some p" if "p \<in> set removed" for p
    using gone that by blast
  have other: "reg_get ?r (ps_ingress_id p) = reg_get r (ps_ingress_id p)"
    if "hm_get ps' k = Some p" for k p
  proof -
    have k: "hm_get ps k = Some p" "\<not> P k" using that keep by (auto split: if_splits)
    have "ps_ingress_id p \<noteq> ps_ingress_id q" if "q \<in> set removed" for q
      using rem [OF that] peers_ok_inj [OF ok k(1)] k(2) by blast
    then show ?thesis by (auto simp: disconnect_peers_get)
  qed
  show "peers_ok ps' ?r"
  proof (rule peers_okI [OF wf'])
    fix k p assume g: "hm_get ps' k = Some p"
    then have "hm_get ps k = Some p" using keep by (auto split: if_splits)
    then show "\<exists>i. reg_get ?r (ps_ingress_id p) = Some i \<and> up_entry i"
      using other [OF g] peers_okD [OF ok] by metis
  next
    fix k p k' p' assume "hm_get ps' k = Some p" "hm_get ps' k' = Some p'"
      and "ps_ingress_id p = ps_ingress_id p'"
    then show "k = k'" using keep peers_ok_inj [OF ok, of k p k' p'] by (auto split: if_splits)
  qed
  have "reg_wf ?r" using wf rem peers_okD [OF ok] by (intro disconnect_peers_wf) (metis option.distinct(1))+
  moreover have "ps_ingress_id ` set removed \<subseteq> peer_ids ps" using rem by (auto intro: peer_idsI)
  ultimately show "reg_guar (peer_ids ps) r (peer_ids ps') ?r"
    using sub by (auto simp: reg_guar_def disconnect_peers_get)
qed

lemma fold_on_metrics_reg [simp]: "w_reg (on_metrics (fold f xs) w) = w_reg w"
  by simp

lemma peer_down_eq:
  assumes "remove_peer_identity_siblings env h (peers_of d) = (removed, ps)"
    and "peer_down env into h raw d w = ((mt, st), w')"
  shows "mt =
      (if removed = [] then InvalidMessage (Some False) (Some raw) PeerDownNotUp
       else if length removed = 1 \<and> \<not> ps_synthesized (hd removed)
            then RoutingUpdate (Withdraw (ps_ingress_id (hd removed)) None)
            else RoutingUpdate (WithdrawBulk (map (\<lambda>p. (ps_ingress_id p, None)) removed)))"
    and "st = into (with_peers ps d)"
    and "w_reg w' = fold disconnect_peer removed (w_reg w)"
  using assms by (auto simp: peer_down_def Let_def split: list.splits if_splits)

lemma removed_mem:
  assumes "hm_wf ps"
  shows "p \<in> set (map snd (filter (\<lambda>(k, _). P k) (iterate it ps))) \<longleftrightarrow> (\<exists>k. P k \<and> hm_get ps k = Some p)"
  using hm.iterate_entries [OF assms, of _ _ it] by (auto simp: image_iff)

subsection \<open>Termination\<close>

lemma disconnect_into_register_all:
  assumes ok: "peers_ok ps r" and wf: "reg_wf r"
    and s: "disconnect_into_register env ps r = (entries, r')"
  shows "reg_guar (peer_ids ps) r {} r'" and "fst ` set entries = peer_ids ps"
    and "\<And>j. j \<in> peer_ids ps \<Longrightarrow> \<exists>i. reg_get r j = Some i \<and> reg_get r' j = Some (with_state Disconnected i)"
    and "\<And>j. j \<notin> peer_ids ps \<Longrightarrow> reg_get r' j = reg_get r j"
    and "entries = [] \<longleftrightarrow> ps = []"
proof -
  let ?peers = "map snd (iterate (me_peers_it env) ps)"
  have r': "r' = fold disconnect_peer ?peers r" and e: "entries = map (\<lambda>p. (ps_ingress_id p, None)) ?peers"
    using s by (simp_all add: disconnect_into_register_def Let_def)
  have mem: "p \<in> set ?peers \<longleftrightarrow> (\<exists>k. hm_get ps k = Some p)" for p
    using removed_mem [OF peers_ok_wf [OF ok], of p "\<lambda>_. True" "me_peers_it env"]
    by (simp add: split_beta)
  have ids: "ps_ingress_id ` set ?peers = peer_ids ps" unfolding peer_ids_def using mem by blast
  show "fst ` set entries = peer_ids ps" using ids e by (simp add: image_image)
  show "reg_guar (peer_ids ps) r {} r'"
    using disconnect_some(2) [OF ok wf hm_wf_Nil, where P = "\<lambda>_. True" and removed = ?peers] mem r'
    by simp
  show "\<exists>i. reg_get r j = Some i \<and> reg_get r' j = Some (with_state Disconnected i)"
    if "j \<in> peer_ids ps" for j
    using that ids r' disconnect_peers_get [of ?peers r j] peers_okD [OF ok]
    by (metis (no_types, lifting) option.simps(5) peer_idsE)
  show "reg_get r' j = reg_get r j" if "j \<notin> peer_ids ps" for j
    using that ids r' by (simp add: disconnect_peers_get)
  have "length entries = length ps" using e by simp
  then show "entries = [] \<longleftrightarrow> ps = []" by (cases entries; cases ps) simp_all
qed

lemma terminate_eq:
  assumes "disconnect_into_register env (peers_of d) (w_reg w) = (entries, r)"
    and "terminate env d w = ((mt, st), w')"
  shows "mt = (if entries = [] then StateTransition else RoutingUpdate (WithdrawBulk entries))"
    and "st = SM_Terminated
      \<lparr>sd_ingress_id = sd_ingress_id d, sd_router_id = sd_router_id d, sd_details = ()\<rparr>"
    and "w_reg w' = r"
  using assms by (auto simp: terminate_def mk_state_transition_result_def Let_def split: if_splits)

subsection \<open>Bookkeeping that leaves the peers in place\<close>

definition peer_key :: "'c peer_state \<Rightarrow> ingress_id \<times> bool \<times> bool" where
  "peer_key p = (ps_ingress_id p, ps_synthesized p, ps_eor_capable p)"

definition same_peers :: "'c peer_states \<Rightarrow> 'c peer_states \<Rightarrow> bool" where
  "same_peers ps ps' =
    ((hm_wf ps \<longrightarrow> hm_wf ps') \<and>
     (\<forall>k. map_option peer_key (hm_get ps' k) = map_option peer_key (hm_get ps k)))"

definition touched :: "'c peering_details \<Rightarrow> 'c peering_details \<Rightarrow> bool" where
  "touched d d' =
    (sd_ingress_id d' = sd_ingress_id d \<and> sd_router_id d' = sd_router_id d \<and>
     same_peers (peers_of d) (peers_of d'))"

lemma same_peers_refl [simp]: "same_peers ps ps"
  by (simp add: same_peers_def)

lemma same_peers_trans: "same_peers ps ps' \<Longrightarrow> same_peers ps' ps'' \<Longrightarrow> same_peers ps ps''"
  by (simp add: same_peers_def)

lemma touched_refl [simp]: "touched d d"
  by (simp add: touched_def)

lemma touched_trans: "touched d d' \<Longrightarrow> touched d' d'' \<Longrightarrow> touched d d''"
  by (auto simp: touched_def intro: same_peers_trans)

lemma same_peers_get:
  assumes "same_peers ps ps'" and "hm_get ps' k = Some p'"
  obtains p where "hm_get ps k = Some p" and "peer_key p = peer_key p'"
proof -
  have "map_option peer_key (hm_get ps k) = map_option peer_key (hm_get ps' k)"
    using assms(1) by (simp add: same_peers_def)
  then show thesis using assms(2) that by (cases "hm_get ps k") auto
qed

lemma same_peers_sym_get:
  assumes "same_peers ps ps'" and "hm_get ps k = Some p"
  obtains p' where "hm_get ps' k = Some p'" and "peer_key p' = peer_key p"
proof -
  have "map_option peer_key (hm_get ps' k) = map_option peer_key (hm_get ps k)"
    using assms(1) by (simp add: same_peers_def)
  then show thesis using assms(2) that by (cases "hm_get ps' k") auto
qed

lemma same_peers_ids: "same_peers ps ps' \<Longrightarrow> peer_ids ps' = peer_ids ps"
proof (intro set_eqI iffI)
  fix j assume s: "same_peers ps ps'"
  { assume "j \<in> peer_ids ps'"
    then obtain k p where "hm_get ps' k = Some p" and "j = ps_ingress_id p" by (rule peer_idsE)
    then show "j \<in> peer_ids ps"
      using same_peers_get [OF s] by (metis Pair_inject peer_idsI peer_key_def) }
  { assume "j \<in> peer_ids ps"
    then obtain k p where "hm_get ps k = Some p" and "j = ps_ingress_id p" by (rule peer_idsE)
    then show "j \<in> peer_ids ps'"
      using same_peers_sym_get [OF s] by (metis Pair_inject peer_idsI peer_key_def) }
qed

lemma same_peers_ok:
  assumes s: "same_peers ps ps'" and ok: "peers_ok ps r"
  shows "peers_ok ps' r"
proof (rule peers_okI)
  show "hm_wf ps'" using s peers_ok_wf [OF ok] by (simp add: same_peers_def)
next
  fix k p assume "hm_get ps' k = Some p"
  then obtain q where "hm_get ps k = Some q" and "peer_key q = peer_key p" by (rule same_peers_get [OF s])
  then show "\<exists>i. reg_get r (ps_ingress_id p) = Some i \<and> up_entry i"
    using peers_okD [OF ok] by (metis Pair_inject peer_key_def)
next
  fix k p k' p' assume g: "hm_get ps' k = Some p" "hm_get ps' k' = Some p'"
    and eq: "ps_ingress_id p = ps_ingress_id p'"
  obtain q where q: "hm_get ps k = Some q" "peer_key q = peer_key p" by (rule same_peers_get [OF s g(1)])
  obtain q' where q': "hm_get ps k' = Some q'" "peer_key q' = peer_key p'" by (rule same_peers_get [OF s g(2)])
  show "k = k'" using peers_ok_inj [OF ok q(1) q'(1)] q(2) q'(2) eq by (simp add: peer_key_def)
qed

lemma touched_step:
  assumes "touched d d'" and "peers_ok (peers_of d) (w_reg w)" and "reg_wf (w_reg w)"
    and "w_reg w' = w_reg w"
  shows "peers_step d w d' w'"
  using assms same_peers_ok [of "peers_of d" "peers_of d'"] same_peers_ids [of "peers_of d" "peers_of d'"]
  by (auto simp: peers_step_def touched_def intro!: reg_guar_refl)

lemma peers_step_trans:
  "peers_step d w d' w' \<Longrightarrow> peers_step d' w' d'' w'' \<Longrightarrow> peers_step d w d'' w''"
  by (auto simp: peers_step_def intro: reg_guar_trans)

lemma same_peers_insert:
  "hm_get ps k = Some p \<Longrightarrow> peer_key p' = peer_key p \<Longrightarrow> same_peers ps (hm_insert k p' ps)"
  by (simp add: same_peers_def)

lemma update_peer_config_same: "same_peers ps (snd (update_peer_config env h cfg ps))"
  by (auto simp: update_peer_config_def peer_key_def intro!: same_peers_insert split: option.splits)

lemma remove_pending_eor_same: "same_peers ps (snd (remove_pending_eor env h a ps))"
  by (auto simp: remove_pending_eor_def peer_key_def Let_def intro!: same_peers_insert split: option.splits)

lemma add_pending_eor_same: "same_peers ps (snd (add_pending_eor env h a ps))"
  by (auto simp: add_pending_eor_def peer_key_def Let_def intro!: same_peers_insert split: option.splits)

lemma touched_with_peers: "same_peers (peers_of d) ps \<Longrightarrow> touched d (with_peers ps d)"
  by (simp add: touched_def)

subsection \<open>Synthesized peers\<close>

definition adapted_info :: "'c machine_env \<Rightarrow> pph \<Rightarrow> ingress_info \<Rightarrow> ingress_info" where
  "adapted_info env h info =
    info\<lparr>ii_rib_type := Some (me_rib_type env h),
         ii_peer_rib_type := Some (peer_rib_type_from (me_is_post_policy env h) (me_rib_type env h)),
         ii_state := Some Connected\<rparr>"

lemma adapted_info_simps [simp]:
  "ii_state (adapted_info env h i) = Some Connected"
  "ii_ingress_type (adapted_info env h i) = ii_ingress_type i"
  by (simp_all add: adapted_info_def)

lemma synthesize_eq:
  assumes "hm_get ps src = Some p" and "reg_get r (ps_ingress_id p) = Some info"
    and "hm_get ps h = None"
    and "reg.bind (me_reg_it env) r (adapted_info env h info) = (ident, r')"
  shows "synthesize env src h ps r =
    Some (True, hm_insert h (p\<lparr>ps_ingress_id := ident, ps_synthesized := True\<rparr>) ps, r')"
proof -
  let ?c = "case find_existing_peer_and_claim (me_reg_it env) r (adapted_info env h info) of
    (Some (ident, _), r) \<Rightarrow> (ident, r) | (None, r) \<Rightarrow> register_id r"
  obtain i1 r1 where c: "?c = (i1, r1)" by (cases ?c)
  have "i1 = ident \<and> r' = snd (update_info r1 ident (adapted_info env h info))"
    using assms(4) c by (auto simp: reg.bind_def split: prod.splits option.splits)
  then show ?thesis
    using assms(1-3) c
    by (simp add: synthesize_def adapted_info_def [symmetric] get_peer_ingress_id_def
        add_cloned_peer_config_def hm_put_def Let_def)
qed

text \<open>The header a configuration is copied from, when the header itself is not known.\<close>

definition sibling_source :: "'c machine_env \<Rightarrow> 'c peer_states \<Rightarrow> pph \<Rightarrow> pph option" where
  "sibling_source env ps h =
    (if hm_get ps (nulled_flags h) \<noteq> None then Some (nulled_flags h) else find_sibling_pph env ps h)"

lemma hm_get_keys: "hm_get ps k \<noteq> None \<longleftrightarrow> k \<in> fst ` set ps"
  by (simp add: hm_get_def map_of_eq_None_iff)

lemma sibling_source_known:
  assumes "hm_wf ps" and "sibling_source env ps h = Some src"
  shows "hm_get ps src \<noteq> None" and "same_identity src h"
proof -
  have "hm_get ps src \<noteq> None \<and> same_identity src h"
  proof (cases "hm_get ps (nulled_flags h) = None")
    case True
    then have "src \<in> fst ` set ps \<and> same_identity src h"
      using assms(2) by (auto simp: sibling_source_def find_sibling_pph_def dest!: find_SomeD)
    then show ?thesis unfolding hm_get_keys .
  next
    case False
    then show ?thesis using assms(2) by (auto simp: sibling_source_def same_identity_def nulled_flags_def)
  qed
  then show "hm_get ps src \<noteq> None" and "same_identity src h" by blast+
qed

lemma sibling_source_None:
  assumes "hm_wf ps" and "hm_get ps h = None"
  shows "sibling_source env ps h = None \<longleftrightarrow> (\<forall>k. same_identity k h \<longrightarrow> hm_get ps k = None)"
proof
  assume s: "sibling_source env ps h = None"
  then have "\<not> same_identity k h" if "k \<in> fst ` set ps" "k \<noteq> h" for k
    using that by (auto simp: sibling_source_def find_sibling_pph_def find_None_iff split: if_splits)
  then show "\<forall>k. same_identity k h \<longrightarrow> hm_get ps k = None" unfolding hm_get_keys [symmetric]
    using assms(2) by metis
next
  assume "\<forall>k. same_identity k h \<longrightarrow> hm_get ps k = None"
  then show "sibling_source env ps h = None"
    using sibling_source_known [OF assms(1), of env h] by (cases "sibling_source env ps h") auto
qed

lemma resolve_known:
  "get_peer_config (peers_of d) (rmo_pph m) = Some cfg \<Longrightarrow> resolve_peer_config env m d w = Some (Inr cfg, d, w)"
  by (simp add: resolve_peer_config_def Let_def)

lemma resolve_unknown:
  assumes "hm_get (peers_of d) (rmo_pph m) = None" and "sibling_source env (peers_of d) (rmo_pph m) = None"
  shows "resolve_peer_config env m d w =
    Some (Inl (InvalidMessage (Some False) (Some (rmo_raw m)) (RouteMonitoringNotUp (rmo_pph m))), d,
      on_metrics (sr_peer_unknown (sd_router_id d)) w)"
  using assms by (auto simp: resolve_peer_config_def get_peer_config_def sibling_source_def Let_def split: if_splits)

lemma resolve_synthesized:
  assumes "hm_get (peers_of d) (rmo_pph m) = None" and "sibling_source env (peers_of d) (rmo_pph m) = Some src"
    and "synthesize env src (rmo_pph m) (peers_of d) (w_reg w) = Some (True, ps, r)"
    and "hm_get ps (rmo_pph m) = Some p"
  shows "resolve_peer_config env m d w = Some (Inr (ps_session_config p), with_peers ps d, w\<lparr>w_reg := r\<rparr>)"
  using assms by (auto simp: resolve_peer_config_def get_peer_config_def sibling_source_def Let_def split: if_splits)

text \<open>
  The configuration is always found without a panic: the peer is known, or a new view is
  synthesized from a sibling under an id of its own, or the peer is unknown and nothing
  changes but a counter.
\<close>

lemma resolve_cases:
  assumes ok: "peers_ok (peers_of d) (w_reg w)" and wf: "reg_wf (w_reg w)" and room: "reg_room (w_reg w)"
    and res: "resolve_peer_config env m d w = res"
  obtains (known) cfg p where "res = Some (Inr cfg, d, w)"
      and "hm_get (peers_of d) (rmo_pph m) = Some p" and "cfg = ps_session_config p"
  | (synthesized) src p ident r' where "hm_get (peers_of d) (rmo_pph m) = None"
      and "sibling_source env (peers_of d) (rmo_pph m) = Some src" and "hm_get (peers_of d) src = Some p"
      and "res = Some (Inr (ps_session_config p),
        with_peers (hm_insert (rmo_pph m) (p\<lparr>ps_ingress_id := ident, ps_synthesized := True\<rparr>) (peers_of d)) d,
        w\<lparr>w_reg := r'\<rparr>)"
      and "peers_step d w
        (with_peers (hm_insert (rmo_pph m) (p\<lparr>ps_ingress_id := ident, ps_synthesized := True\<rparr>) (peers_of d)) d)
        (w\<lparr>w_reg := r'\<rparr>)"
  | (unknown) "hm_get (peers_of d) (rmo_pph m) = None"
      and "sibling_source env (peers_of d) (rmo_pph m) = None"
      and "res =
        Some (Inl (InvalidMessage (Some False) (Some (rmo_raw m)) (RouteMonitoringNotUp (rmo_pph m))), d,
          on_metrics (sr_peer_unknown (sd_router_id d)) w)"
proof (cases "hm_get (peers_of d) (rmo_pph m)")
  case (Some p)
  then have cfg: "get_peer_config (peers_of d) (rmo_pph m) = Some (ps_session_config p)"
    by (simp add: get_peer_config_def)
  show thesis by (rule known [OF trans [OF res [symmetric] resolve_known [OF cfg]] Some refl])
next
  case None
  show thesis
  proof (cases "sibling_source env (peers_of d) (rmo_pph m)")
    case none: None
    show thesis by (rule unknown [OF None none trans [OF res [symmetric] resolve_unknown [OF None none]]])
  next
    case (Some src)
    obtain p where p: "hm_get (peers_of d) src = Some p"
      using sibling_source_known(1) [OF peers_ok_wf [OF ok] Some] by auto
    obtain info where i: "reg_get (w_reg w) (ps_ingress_id p) = Some info" and up: "up_entry info"
      by (rule peers_okD [OF ok p])
    obtain ident r' where b: "reg.bind (me_reg_it env) (w_reg w) (adapted_info env (rmo_pph m) info) = (ident, r')"
      using prod.exhaust by blast
    note s = synthesize_eq [OF p i None b]
    let ?q = "p\<lparr>ps_ingress_id := ident, ps_synthesized := True\<rparr>"
    have ty: "ii_ingress_type (adapted_info env (rmo_pph m) info) = Some IT_BgpViaBmp"
      using up by (simp add: up_entry_def)
    have id: "ps_ingress_id ?q = ident" by simp
    note k = bind_peer_ok [OF wf room adapted_info_simps(1) ty b ok None id]
    have q: "hm_get (hm_insert (rmo_pph m) ?q (peers_of d)) (rmo_pph m) = Some ?q" by simp
    have cfg: "ps_session_config ?q = ps_session_config p" by simp
    show thesis
      by (rule synthesized [OF None Some p trans [OF res [symmetric] resolve_synthesized [OF None Some s q, unfolded cfg]]])
        (use k in \<open>simp add: peers_step_def\<close>)
  qed
qed

subsection \<open>Route Monitoring\<close>

lemma parse_loop_eq:
  "parse_loop parse cfg [] None =
    (case parse cfg of
      Inr u \<Rightarrow> Inr (cfg, u, None)
    | Inl err \<Rightarrow>
        (case parse (alternate cfg) of
          Inr u \<Rightarrow> Inr (alternate cfg, u, Some err)
        | Inl err' \<Rightarrow> Inl err'))"
  by (auto simp: parse_loop.simps [of parse cfg] parse_loop.simps [of parse "alternate cfg"]
      simp del: parse_loop.simps split: sum.splits)

definition quiet :: "world \<Rightarrow> world \<Rightarrow> bool" where
  "quiet w w' =
    (w_reg w' = w_reg w \<and> (\<forall>r. gauges r (w_metrics w') = gauges r (w_metrics w)))"

lemma quiet_refl [simp]: "quiet w w"
  by (simp add: quiet_def)

lemma quiet_trans: "quiet w w' \<Longrightarrow> quiet w' w'' \<Longrightarrow> quiet w w''"
  by (simp add: quiet_def)

lemma quiet_metrics [simp]:
  "quiet w (on_metrics (sr_change_state q i) w)" "quiet w (on_metrics (sr_peer_unknown q) w)"
  "quiet w (on_metrics (sr_parse_soft_fail q e bs) w)"
  "quiet w (on_metrics (sr_parse_hard_fail q e bs) w)"
  "quiet w (on_metrics (sr_pending_eors_update q n) w)" "quiet w (on_metrics (sr_routing_update u) w)"
  by (simp_all add: quiet_def)

definition mild ::
  "(pph \<Rightarrow> bgp_update \<Rightarrow> 'c peering_details \<Rightarrow> world \<Rightarrow>
     (('c, 'osm, 'rtr) processing_result + 'c peering_details) \<times> world) \<Rightarrow> bool" where
  "mild pre =
    (\<forall>h u d w res w'. pre h u d w = (res, w') \<longrightarrow> quiet w w' \<and>
      (case res of
        Inr d' \<Rightarrow> touched d d'
      | Inl (mt, st) \<Rightarrow> mt = StateTransition \<and> (\<exists>d'. st = SM_Updating d' \<and> touched d d')))"

lemma mildD:
  assumes "mild pre" and "pre h u d w = (res, w')"
  shows "quiet w w'" and "res = Inr d' \<Longrightarrow> touched d d'"
    and "res = Inl (mt, st) \<Longrightarrow> mt = StateTransition \<and> (\<exists>d'. st = SM_Updating d' \<and> touched d d')"
  using assms unfolding mild_def by (fastforce split: sum.splits)+

lemma dumping_mild: "mild (dumping_preprocessing env)"
  unfolding mild_def dumping_preprocessing_def mk_state_transition_result_def Let_def
  by (auto split: option.splits prod.splits if_splits
      intro!: touched_with_peers intro: quiet_trans [OF quiet_metrics(5) quiet_metrics(1)])
    (metis remove_pending_eor_same snd_conv)+

lemma updating_mild: "mild (updating_preprocessing env)"
  unfolding mild_def updating_preprocessing_def Let_def
  by (auto split: option.splits prod.splits if_splits intro!: touched_with_peers)
    (metis remove_pending_eor_same snd_conv)+

lemma touched_id: "touched d d' \<Longrightarrow> get_peer_ingress_id (peers_of d') h = get_peer_ingress_id (peers_of d) h"
proof -
  assume "touched d d'"
  then have "map_option peer_key (hm_get (peers_of d') h) = map_option peer_key (hm_get (peers_of d) h)"
    by (simp add: touched_def same_peers_def)
  then show ?thesis
    by (cases "hm_get (peers_of d') h"; cases "hm_get (peers_of d) h")
      (auto simp: get_peer_ingress_id_def peer_key_def)
qed

text \<open>What the handler emits for a parsed UPDATE.\<close>

definition route_result ::
  "nat \<Rightarrow> ingress_id option \<Rightarrow> bytes \<Rightarrow> bgp_update \<Rightarrow> ('osm, 'rtr) message_type" where
  "route_result received ident raw u =
    (case (explode_announcements u, explode_withdrawals u, ident, bu_announcements_vec u) of
      (Some reach, Some unreach, Some i, Some _) \<Rightarrow>
        RoutingUpdate (Bulk (map (mk_payload received i Active) reach @
          map (mk_payload received i Withdrawn) unreach))
    | (Some _, Some _, Some _, None) \<Rightarrow> InvalidMessage (Some True) (Some raw) NlriUnparsable
    | _ \<Rightarrow> InvalidMessage (Some True) (Some raw) UpdateUnparsable)"

lemma emit_routes_spec:
  assumes "emit_routes env into received m u d w = ((mt, st), w')"
  shows "mt = route_result received (get_peer_ingress_id (peers_of d) (rmo_pph m)) (rmo_raw m) u"
    and "\<exists>d'. st = into d' \<and> touched d d'" and "quiet w w'"
proof -
  have "mt = route_result received (get_peer_ingress_id (peers_of d) (rmo_pph m)) (rmo_raw m) u \<and>
      (\<exists>d'. st = into d' \<and> touched d d') \<and> quiet w w'"
  proof (cases "extract_route_monitoring_routes received (rmo_pph m) u d")
    case None
    then show ?thesis using assms
      by (auto simp: emit_routes_def extract_route_monitoring_routes_def route_result_def
          split: option.splits)
  next
    case (Some pr)
    obtain payloads report where pr: "pr = (payloads, report)" by force
    obtain reach unreach i where x: "explode_announcements u = Some reach" "explode_withdrawals u = Some unreach"
      "get_peer_ingress_id (peers_of d) (rmo_pph m) = Some i"
      "payloads = map (mk_payload received i Active) reach @ map (mk_payload received i Withdrawn) unreach"
      using Some pr by (auto simp: extract_route_monitoring_routes_def split: option.splits)
    show ?thesis
    proof (cases "bu_announcements_vec u")
      case None
      then show ?thesis using assms Some pr x by (auto simp: emit_routes_def route_result_def)
    next
      case (Some anns)
      have t: "touched d (with_peers (snd (add_pending_eor env h a (peers_of d))) d)" for h a
        by (intro touched_with_peers add_pending_eor_same)
      show ?thesis
        using assms Some \<open>extract_route_monitoring_routes _ _ _ _ = _\<close> pr x t
          quiet_trans [OF quiet_metrics(5) quiet_metrics(6)]
        by (auto simp: emit_routes_def route_result_def Let_def split: list.splits if_splits prod.splits)
          (metis snd_conv)+
    qed
  qed
  then show "mt = route_result received (get_peer_ingress_id (peers_of d) (rmo_pph m)) (rmo_raw m) u"
    and "\<exists>d'. st = into d' \<and> touched d d'" and "quiet w w'" by blast+
qed

end
