(* ===== verification/Bmp_Fsm.thy ===== *)
theory Bmp_Fsm
  imports Bmp_Peers
begin

text \<open>
  The state machine as a whole: every message, in every state, is processed without a panic;
  the session keeps its invariant \<open>session_ok\<close> and its guarantee to the other users of the
  register, moves along the transitions of RFC 7854 only, withdraws what goes away, announces
  only for peers that are up (\<open>covered\<close>), and keeps the gauges of the peers exact
  (\<open>gauges_ok\<close>). The properties at the end say what the handlers do, on the messages
  themselves.
\<close>

subsection \<open>The gauges of the peers\<close>

definition keys_with :: "('c peer_state \<Rightarrow> bool) \<Rightarrow> 'c peer_states \<Rightarrow> pph set" where
  "keys_with Q ps = {k. \<exists>p. hm_get ps k = Some p \<and> Q p}"

definition announced_up :: "'c peer_state \<Rightarrow> bool" where
  "announced_up p = (\<not> ps_synthesized p)"

definition announced_up_eor :: "'c peer_state \<Rightarrow> bool" where
  "announced_up_eor p = (\<not> ps_synthesized p \<and> ps_eor_capable p)"

definition gauge_ok :: "'c peering_details \<Rightarrow> world \<Rightarrow> bool" where
  "gauge_ok d w =
    (gauges (sd_router_id d) (w_metrics w) =
      (card (keys_with announced_up (peers_of d)), card (keys_with announced_up_eor (peers_of d))))"

definition kept :: "'c peering_details \<Rightarrow> world \<Rightarrow> 'c peering_details \<Rightarrow> world \<Rightarrow> bool" where
  "kept d w d' w' = (peers_step d w d' w' \<and> (gauge_ok d w \<longrightarrow> gauge_ok d' w'))"

lemma kept_trans: "kept d w d' w' \<Longrightarrow> kept d' w' d'' w'' \<Longrightarrow> kept d w d'' w''"
  by (auto simp: kept_def intro: peers_step_trans)

lemma finite_keys [simp]: "finite (keys_with Q ps)"
proof (rule finite_subset)
  show "keys_with Q ps \<subseteq> fst ` set ps" using hm_get_keys [of ps] by (fastforce simp: keys_with_def)
qed simp

lemma keys_with_insert:
  assumes "hm_get ps k = None"
  shows "keys_with Q (hm_insert k p ps) = (if Q p then insert k (keys_with Q ps) else keys_with Q ps)"
    and "k \<notin> keys_with Q ps"
  using assms by (auto simp: keys_with_def split: if_splits)

lemma keys_with_same:
  assumes "same_peers ps ps'" and "\<And>p q. peer_key p = peer_key q \<Longrightarrow> Q p = Q q"
  shows "keys_with Q ps' = keys_with Q ps"
  unfolding keys_with_def
  using same_peers_get [OF assms(1)] same_peers_sym_get [OF assms(1)] assms(2) by (intro set_eqI) (smt (verit) mem_Collect_eq)

lemma announced_key:
  "peer_key p = peer_key q \<Longrightarrow> announced_up p = announced_up q"
  "peer_key p = peer_key q \<Longrightarrow> announced_up_eor p = announced_up_eor q"
  by (auto simp: peer_key_def announced_up_def announced_up_eor_def)

lemma touched_gauge:
  assumes "touched d d'" and "quiet w w'" and "gauge_ok d w"
  shows "gauge_ok d' w'"
proof -
  have s: "same_peers (peers_of d) (peers_of d')" using assms(1) by (simp add: touched_def)
  have "keys_with announced_up (peers_of d') = keys_with announced_up (peers_of d)"
    "keys_with announced_up_eor (peers_of d') = keys_with announced_up_eor (peers_of d)"
    by (rule keys_with_same [OF s], erule announced_key)+
  then show ?thesis using assms by (simp add: gauge_ok_def touched_def quiet_def)
qed

lemma touched_kept:
  assumes "touched d d'" and "quiet w w'" and "peers_ok (peers_of d) (w_reg w)" and "reg_wf (w_reg w)"
  shows "kept d w d' w'"
  using touched_step [OF assms(1,3,4)] touched_gauge [OF assms(1,2)] assms(2)
  by (simp add: kept_def quiet_def)

lemma peer_up_kept:
  assumes "peers_ok (peers_of d) (w_reg w)" and "reg_wf (w_reg w)" and "reg_room (w_reg w)"
    and "peer_up env into m d w = ((mt, st), w')"
  shows "\<exists>d'. st = into d' \<and> kept d w d' w'"
proof (cases "hm_get (peers_of d) (pu_pph m)")
  case (Some p)
  have "st = into d" and "w' = w" using assms(4) [unfolded peer_up_known [OF Some]] by simp_all
  then show ?thesis using touched_kept [OF touched_refl quiet_refl assms(1,2)] by blast
next
  case None
  obtain ident r' where b: "reg.bind (me_reg_it env) (w_reg w) (pu_query env d m) = (ident, r')"
    using prod.exhaust by blast
  let ?p = "new_peer env (pu_pph m) (pu_session_config m) (pu_eor_capable m) ident"
  let ?d = "with_peers (hm_insert (pu_pph m) ?p (peers_of d)) d"
  have st: "st = into ?d" and w': "w' = on_metrics (sr_peer_up (sd_router_id d) (pu_eor_capable m)) (w\<lparr>w_reg := r'\<rparr>)"
    using assms(4) [unfolded peer_up_new [OF None b]] by auto
  have "peers_step d w ?d w'"
    using bind_peer_ok [OF assms(2,3) _ _ b assms(1) None new_peer_simps(1)] w'
    by (auto simp: peers_step_def)
  moreover have "gauge_ok ?d w'" if "gauge_ok d w"
    using that w' keys_with_insert [OF None]
    by (simp add: gauge_ok_def gauges_peer_up announced_up_def announced_up_eor_def)
  ultimately show ?thesis using st by (auto simp: kept_def)
qed

lemma gauges_peer_downs:
  assumes "length peers \<le> fst (gauges r ms)" and "length (filter ps_eor_capable peers) \<le> snd (gauges r ms)"
  shows "gauges r (fold (\<lambda>p. sr_peer_down r (Some (ps_eor_capable p))) peers ms) =
    (fst (gauges r ms) - length peers, snd (gauges r ms) - length (filter ps_eor_capable peers))"
  using assms
proof (induction peers arbitrary: ms)
  case Nil
  then show ?case by simp
next
  case (Cons p peers)
  let ?ms = "sr_peer_down r (Some (ps_eor_capable p)) ms"
  have g: "gauges r ?ms = (fst (gauges r ms) - 1,
      if ps_eor_capable p then snd (gauges r ms) - 1 else snd (gauges r ms))"
    using Cons.prems by (auto simp: gauges_peer_down)
  then show ?case using Cons.IH [of ?ms] Cons.prems by (auto split: if_splits)
qed

lemma removed_count:
  assumes "hm_wf ps"
  shows "length (filter Q (map snd (filter (\<lambda>(k, _). P k) (iterate it ps)))) =
    card {k \<in> keys_with Q ps. P k}"
proof -
  let ?l = "filter (\<lambda>x. P (fst x) \<and> Q (snd x)) (iterate it ps)"
  have "distinct (map fst ?l)" using assms by (intro distinct_map_filter) (simp add: hm_wf_def)
  then have "length ?l = card (fst ` set ?l)" using distinct_card [of "map fst ?l"] by simp
  moreover have "fst ` set ?l = {k \<in> keys_with Q ps. P k}"
    using hm_entries_get [OF assms] by (auto simp: keys_with_def image_iff)
  moreover have "length (filter Q (map snd (filter (\<lambda>(k, _). P k) (iterate it ps)))) = length ?l"
    by (simp add: filter_map o_def split_beta conj_commute)
  ultimately show ?thesis by simp
qed

lemma announced_up_eta: "announced_up = (\<lambda>p. \<not> ps_synthesized p)"
  by (simp add: fun_eq_iff announced_up_def)

lemma filter_eor: "filter ps_eor_capable (filter announced_up xs) = filter announced_up_eor xs"
  by (auto simp: announced_up_def announced_up_eor_def intro: filter_cong)

lemma card_split: "card {k \<in> keys_with Q ps. P k} + card {k \<in> keys_with Q ps. \<not> P k} = card (keys_with Q ps)"
  by (subst card_Un_disjoint [symmetric]) (auto intro: arg_cong [where f = card])

lemma peer_down_gauge:
  assumes wf: "hm_wf (peers_of d)" and s: "peer_down env into h raw d w = ((mt, st), w')"
    and r: "remove_peer_identity_siblings env h (peers_of d) = (removed, ps)" and g: "gauge_ok d w"
  shows "gauge_ok (with_peers ps d) w'"
proof -
  note rs = remove_siblings [OF wf r]
  let ?up = "filter announced_up removed" and ?P = "\<lambda>k. same_identity k h"
  have keys: "keys_with Q ps = {k \<in> keys_with Q (peers_of d). \<not> ?P k}" for Q
    using rs(2) by (auto simp: keys_with_def)
  have cnt: "length (filter Q removed) = card {k \<in> keys_with Q (peers_of d). ?P k}" for Q
    unfolding rs(3) by (rule removed_count [OF wf])
  have "gauges (sd_router_id d) (w_metrics w') = gauges (sd_router_id d)
      (fold (\<lambda>p. sr_peer_down (sd_router_id d) (Some (ps_eor_capable p))) ?up
        (sr_routing_update (update_report_new (sd_router_id d)) (w_metrics w)))" if "removed \<noteq> []"
    using s r that by (auto simp: peer_down_def Let_def announced_up_eta split: list.splits if_splits)
  moreover have "w' = w" if "removed = []" using s r that by (simp add: peer_down_def Let_def)
  moreover have "length ?up \<le> card (keys_with announced_up (peers_of d))"
    "length (filter ps_eor_capable ?up) \<le> card (keys_with announced_up_eor (peers_of d))"
    unfolding filter_eor cnt by (auto intro: card_mono)
  ultimately have "gauges (sd_router_id d) (w_metrics w') =
      (card (keys_with announced_up (peers_of d)) - length ?up,
       card (keys_with announced_up_eor (peers_of d)) - length (filter ps_eor_capable ?up))"
    using g by (cases "removed = []") (simp_all add: gauge_ok_def gauges_peer_downs)
  then show ?thesis
    unfolding filter_eor cnt gauge_ok_def with_peers_simps keys
    using card_split [of announced_up "peers_of d" ?P] card_split [of announced_up_eor "peers_of d" ?P]
    by (simp only: prod.inject) linarith
qed

lemma peer_down_kept:
  assumes ok: "peers_ok (peers_of d) (w_reg w)" and wf: "reg_wf (w_reg w)"
    and s: "peer_down env into h raw d w = ((mt, st), w')"
    and r: "remove_peer_identity_siblings env h (peers_of d) = (removed, ps)"
  shows "st = into (with_peers ps d)" and "kept d w (with_peers ps d) w'"
proof -
  note rs = remove_siblings [OF peers_ok_wf [OF ok] r]
  show "st = into (with_peers ps d)" by (rule peer_down_eq [OF r s])
  have w': "w_reg w' = fold disconnect_peer removed (w_reg w)" by (rule peer_down_eq [OF r s])
  have mem: "p \<in> set removed \<longleftrightarrow> (\<exists>k. same_identity k h \<and> hm_get (peers_of d) k = Some p)" for p
    unfolding rs(3) by (rule removed_mem [OF peers_ok_wf [OF ok]])
  note disconnect_some [where P = "\<lambda>k. same_identity k h", OF ok wf rs(1) rs(2) mem]
  then show "kept d w (with_peers ps d) w'"
    using w' peer_down_gauge [OF peers_ok_wf [OF ok] s r] by (auto simp: kept_def peers_step_def)
qed

subsection \<open>Route Monitoring keeps the invariants and does not panic\<close>

lemma synthesized_gauge:
  assumes "hm_get (peers_of d) h = None" and "ps_synthesized p" and "gauge_ok d w"
  shows "gauge_ok (with_peers (hm_insert h p (peers_of d)) d) (w\<lparr>w_reg := r\<rparr>)"
  using assms keys_with_insert(1) [OF assms(1), of _ p]
  by (simp add: gauge_ok_def announced_up_def announced_up_eor_def)

text \<open>The handler from the parsed configuration on.\<close>

lemma after_resolve:
  fixes pre :: "pph \<Rightarrow> bgp_update \<Rightarrow> 'c peering_details \<Rightarrow> world \<Rightarrow>
     (('c, 'osm, 'rtr) processing_result + 'c peering_details) \<times> world"
  assumes r: "(resolve_peer_config env m d w ::
      ((('osm, 'rtr) message_type + 'c session_config) \<times> 'c peering_details \<times> world) option) =
      Some (Inr cfg, d1, w1)" and "mild pre"
    and ok: "peers_ok (peers_of d1) (w_reg w1)" and wf: "reg_wf (w_reg w1)"
  shows "\<exists>mt st w'. route_monitoring env into pre received m d w = Some ((mt, st), w') \<and>
    (\<exists>d'. (st = into d' \<or> st = SM_Updating d' \<and> mt = StateTransition) \<and> kept d1 w1 d' w' \<and>
      touched d1 d' \<and>
      (mt \<noteq> StateTransition \<longrightarrow>
        (\<exists>err. mt = InvalidMessage (Some True) (Some (rmo_raw m)) (UpdateInvalid err)) \<or>
        (\<exists>cfg' u. cfg' \<in> {cfg, alternate cfg} \<and> rmo_bgp_update m cfg' = Inr u \<and>
          mt = route_result received (get_peer_ingress_id (peers_of d1) (rmo_pph m)) (rmo_raw m) u)))"
proof (cases "parse_loop (rmo_bgp_update m) cfg [] None")
  case (Inl err)
  then have "route_monitoring env into pre received m d w =
      Some ((InvalidMessage (Some True) (Some (rmo_raw m)) (UpdateInvalid err), into d1), w1)"
    using r by (simp add: route_monitoring_def del: parse_loop.simps)
  then show ?thesis using touched_kept [OF touched_refl quiet_refl ok wf] by auto
next
  case (Inr cur)
  obtain cfg' u retry where cur: "cur = (cfg', u, retry)" by (cases cur)
  have parsed: "cfg' \<in> {cfg, alternate cfg} \<and> rmo_bgp_update m cfg' = Inr u"
    using Inr cur unfolding parse_loop_eq by (auto split: sum.splits)
  define d2 where "d2 = (case retry of None \<Rightarrow> d1
    | Some err \<Rightarrow> with_peers (snd (update_peer_config env (rmo_pph m) cfg' (peers_of d1))) d1)"
  define w2 where "w2 = (case retry of None \<Rightarrow> w1
    | Some err \<Rightarrow> on_metrics (sr_parse_soft_fail (sd_router_id d1) err (Some (rmo_raw m))) w1)"
  have t2: "touched d1 d2" and q2: "quiet w1 w2"
    by (auto simp: d2_def w2_def intro: touched_with_peers update_peer_config_same split: option.splits)
  have rm: "route_monitoring env into pre received m d w =
      (case pre (rmo_pph m) u d2 w2 of
        (Inl res, w) \<Rightarrow> Some (res, w)
      | (Inr d, w) \<Rightarrow> Some (emit_routes env into received m u d w))"
    using r Inr cur
    by (cases retry) (simp_all add: route_monitoring_def d2_def w2_def del: parse_loop.simps)
  obtain res w3 where p: "pre (rmo_pph m) u d2 w2 = (res, w3)" by force
  note pm = mildD [OF \<open>mild pre\<close> p]
  show ?thesis
  proof (cases res)
    case (Inl x)
    obtain mt st where x: "x = (mt, st)" by force
    obtain d' where d': "mt = StateTransition" "st = SM_Updating d'" "touched d2 d'"
      using pm(3) Inl x by blast
    then show ?thesis
      using rm p Inl x touched_kept [OF touched_trans [OF t2 d'(3)] quiet_trans [OF q2 pm(1)] ok wf]
        touched_trans [OF t2 d'(3)] by auto
  next
    case (Inr d3)
    have t3: "touched d1 d3" by (rule touched_trans [OF t2 pm(2) [OF Inr]])
    obtain mt :: "('osm, 'rtr) message_type" and st w'
      where e: "emit_routes env into received m u d3 w3 = ((mt, st), w')" by (metis prod.exhaust)
    obtain d' where d': "st = into d'" "touched d3 d'" using emit_routes_spec(2) [OF e] by blast
    have "kept d1 w1 d' w'"
      using touched_kept [OF touched_trans [OF t3 d'(2)] _ ok wf]
        quiet_trans [OF quiet_trans [OF q2 pm(1)] emit_routes_spec(3) [OF e]] by blast
    moreover have "mt = route_result received (get_peer_ingress_id (peers_of d1) (rmo_pph m)) (rmo_raw m) u"
      using emit_routes_spec(1) [OF e] touched_id [OF t3] by simp
    moreover have "route_monitoring env into pre received m d w = Some ((mt, st), w')"
      using rm p Inr e by simp
    ultimately show ?thesis using d' touched_trans [OF t3 d'(2)] parsed by blast
  qed
qed

text \<open>
  Where a Route Monitoring message of a session can lead: it never panics, the peers stay in
  order, and what it emits carries the id the peer holds afterwards.
\<close>

definition from_peer :: "'c peering_details \<Rightarrow> pph \<Rightarrow> ('osm, 'rtr) message_type \<Rightarrow> bool" where
  "from_peer d h mt =
    (mt \<noteq> MT_Aborted \<and> (\<forall>u. mt = RoutingUpdate u \<longrightarrow>
      (\<exists>payloads i. u = Bulk payloads \<and> get_peer_ingress_id (peers_of d) h = Some i \<and>
        (\<forall>p \<in> set payloads. pl_ingress_id p = i))))"

lemma route_result_from_peer:
  assumes "get_peer_ingress_id (peers_of d) h = get_peer_ingress_id (peers_of d1) h"
  shows "from_peer d h (route_result received (get_peer_ingress_id (peers_of d1) h) raw u)"
  unfolding assms [symmetric] from_peer_def
  by (auto simp: route_result_def mk_payload_def split: option.splits)

lemma route_monitoring_kept:
  fixes pre :: "pph \<Rightarrow> bgp_update \<Rightarrow> 'c peering_details \<Rightarrow> world \<Rightarrow>
     (('c, 'osm, 'rtr) processing_result + 'c peering_details) \<times> world"
  assumes ok: "peers_ok (peers_of d) (w_reg w)" and wf: "reg_wf (w_reg w)" and room: "reg_room (w_reg w)"
    and pre: "mild pre"
  shows "\<exists>mt st w' d'. route_monitoring env into pre received m d w = Some ((mt, st), w') \<and>
    (st = into d' \<or> st = SM_Updating d' \<and> mt = StateTransition) \<and> kept d w d' w' \<and> from_peer d' (rmo_pph m) mt \<and>
    peer_ids (peers_of d) \<subseteq> peer_ids (peers_of d')"
proof -
  have go: ?thesis
    if r: "(resolve_peer_config env m d w ::
        ((('osm, 'rtr) message_type + 'c session_config) \<times> 'c peering_details \<times> world) option) =
        Some (Inr cfg, d1, w1)" and k: "kept d w d1 w1"
      and sub: "peer_ids (peers_of d) \<subseteq> peer_ids (peers_of d1)" for cfg d1 w1
  proof -
    have ok1: "peers_ok (peers_of d1) (w_reg w1)" and wf1: "reg_wf (w_reg w1)"
      using k by (simp_all add: kept_def peers_step_def reg_guar_def)
    obtain mt st w' d' where e: "route_monitoring env into pre received m d w = Some ((mt, st), w')"
      and st: "st = into d' \<or> st = SM_Updating d' \<and> mt = StateTransition" and k1: "kept d1 w1 d' w'"
      and t: "touched d1 d'"
      and res: "mt \<noteq> StateTransition \<longrightarrow>
        (\<exists>err. mt = InvalidMessage (Some True) (Some (rmo_raw m)) (UpdateInvalid err)) \<or>
        (\<exists>cfg' u. cfg' \<in> {cfg, alternate cfg} \<and> rmo_bgp_update m cfg' = Inr u \<and>
          mt = route_result received (get_peer_ingress_id (peers_of d1) (rmo_pph m)) (rmo_raw m) u)"
      using after_resolve [OF r pre ok1 wf1] by blast
    have "from_peer d' (rmo_pph m) mt"
    proof (cases "mt = StateTransition \<or> (\<exists>err. mt = InvalidMessage (Some True) (Some (rmo_raw m)) (UpdateInvalid err))")
      case True
      then show ?thesis by (auto simp: from_peer_def)
    next
      case False
      then show ?thesis using res route_result_from_peer [OF touched_id [OF t]] by blast
    qed
    moreover have "peer_ids (peers_of d') = peer_ids (peers_of d1)"
      using t by (simp add: touched_def same_peers_ids)
    ultimately show ?thesis using e st kept_trans [OF k k1] sub by blast
  qed
  define res :: "((('osm, 'rtr) message_type + 'c session_config) \<times> 'c peering_details \<times> world) option"
    where "res = resolve_peer_config env m d w"
  show ?thesis
  proof (cases rule: resolve_cases [OF ok wf room res_def [symmetric], case_names known synthesized unknown])
    case (known cfg p)
    show ?thesis
      by (rule go [OF known(1) [unfolded res_def] touched_kept [OF touched_refl quiet_refl ok wf] subset_refl])
  next
    case (synthesized src p ident r')
    show ?thesis
      by (rule go [OF synthesized(4) [unfolded res_def]])
        (use synthesized synthesized_gauge [OF synthesized(1)] peer_ids_insert [OF synthesized(1)]
          in \<open>simp_all add: kept_def\<close>)
  next
    case unknown
    let ?mt = "InvalidMessage (Some False) (Some (rmo_raw m)) (RouteMonitoringNotUp (rmo_pph m))"
    let ?w = "on_metrics (sr_peer_unknown (sd_router_id d)) w"
    have "route_monitoring env into pre received m d w = Some ((?mt, into d), ?w)"
      using unknown(3) by (simp add: route_monitoring_def res_def)
    then show ?thesis
      using touched_kept [OF touched_refl quiet_metrics(2) ok wf] by (auto simp: from_peer_def)
  qed
qed

subsection \<open>Sessions\<close>

fun state_peers :: "'c bmp_state \<Rightarrow> 'c peer_states" where
  "state_peers (SM_Dumping d) = peers_of d"
| "state_peers (SM_Updating d) = peers_of d"
| "state_peers _ = []"

definition provisional_entry :: "ingress_info \<Rightarrow> bool" where
  "provisional_entry i =
    (ii_ingress_type i = Some IT_Bmp \<and> ii_state i = None \<and> ii_name i = None \<and> ii_remote_asn i = None)"

definition router_entry :: "ingress_info \<Rightarrow> bool" where
  "router_entry i = (ii_ingress_type i = Some IT_Bmp \<and> ii_state i = Some Connected)"

fun entry_of :: "'c bmp_state \<Rightarrow> ingress_info \<Rightarrow> bool" where
  "entry_of (SM_Initiating _) i = provisional_entry i"
| "entry_of (SM_Aborted _ _) i = False"
| "entry_of _ i = router_entry i"

definition session_ok :: "'c bmp_state \<Rightarrow> register \<Rightarrow> bool" where
  "session_ok st r =
    (peers_ok (state_peers st) r \<and> (\<exists>i. reg_get r (state_ingress_id st) = Some i \<and> entry_of st i))"

definition held :: "'c bmp_state \<Rightarrow> ingress_id set" where
  "held st = insert (state_ingress_id st) (peer_ids (state_peers st))"

definition gauges_ok :: "'c bmp_state \<Rightarrow> world \<Rightarrow> bool" where
  "gauges_ok st w =
    (case st of
      SM_Initiating v \<Rightarrow> gauges (sd_router_id v) (w_metrics w) = (0, 0)
    | SM_Dumping d \<Rightarrow> gauge_ok d w
    | SM_Updating d \<Rightarrow> gauge_ok d w
    | _ \<Rightarrow> True)"

definition peering_states :: "('c peering_details \<Rightarrow> 'c bmp_state) set" where
  "peering_states = {SM_Dumping, SM_Updating}"

lemma peering_simps:
  assumes "into \<in> peering_states"
  shows "state_peers (into d) = peers_of d" "state_ingress_id (into d) = sd_ingress_id d"
    "state_router_id (into d) = sd_router_id d"
    "entry_of (into d) = router_entry" "gauges_ok (into d) w = gauge_ok d w"
    "has_status_reporter (into d)"
  using assms by (auto simp: peering_states_def fun_eq_iff gauges_ok_def)

lemma entry_protected: "entry_of st i \<Longrightarrow> protected i"
  by (cases st) (auto simp: router_entry_def provisional_entry_def protected_def)

lemma entry_not_up: "entry_of st i \<Longrightarrow> \<not> up_entry i"
  by (cases st) (auto simp: router_entry_def provisional_entry_def up_entry_def)

lemma router_not_peer: "session_ok st r \<Longrightarrow> state_ingress_id st \<notin> peer_ids (state_peers st)"
  unfolding session_ok_def using entry_not_up peers_okD peer_idsE by (metis option.inject)

lemma held_protected:
  assumes "session_ok st r" and "j \<in> held st"
  shows "\<exists>i. reg_get r j = Some i \<and> protected i"
  using assms entry_protected up_entry_protected peers_okD peer_idsE
  unfolding session_ok_def held_def by (metis insert_iff)

text \<open>A step of the peers is a step of the session: the router's entry is protected from it.\<close>

lemma kept_session:
  assumes ok: "session_ok (into d) (w_reg w)" and k: "kept d w d' w'"
    and into: "into \<in> peering_states" "into' \<in> peering_states"
  shows "session_ok (into' d') (w_reg w')"
    and "reg_guar (held (into d)) (w_reg w) (held (into' d')) (w_reg w')"
    and "gauges_ok (into d) w \<Longrightarrow> gauges_ok (into' d') w'"
proof -
  note P = peering_simps [OF into(1)] peering_simps [OF into(2)]
  have s: "sd_ingress_id d' = sd_ingress_id d" "peers_ok (peers_of d') (w_reg w')"
    "reg_guar (peer_ids (peers_of d)) (w_reg w) (peer_ids (peers_of d')) (w_reg w')"
    using k by (auto simp: kept_def peers_step_def)
  obtain i where i: "reg_get (w_reg w) (sd_ingress_id d) = Some i" "router_entry i"
    using ok P by (auto simp: session_ok_def)
  have "protected i" using i(2) by (simp add: router_entry_def protected_def)
  then have "reg_get (w_reg w') (sd_ingress_id d) = Some i"
    using s(3) i(1) router_not_peer [OF ok] P by (simp add: reg_guar_def)
  then show "session_ok (into' d') (w_reg w')" using s i P by (simp add: session_ok_def)
  show "reg_guar (held (into d)) (w_reg w) (held (into' d')) (w_reg w')"
    using s P by (auto simp: reg_guar_def held_def)
  show "gauges_ok (into d) w \<Longrightarrow> gauges_ok (into' d') w'" using k P by (simp add: kept_def)
qed

text \<open>What processing a message guarantees.\<close>

definition fsm_step ::
  "'c bmp_state \<Rightarrow> world \<Rightarrow> 'c bmp_state \<Rightarrow> world \<Rightarrow> bool" where
  "fsm_step st w st' w' =
    (session_ok st' (w_reg w') \<and> reg_guar (held st) (w_reg w) (held st') (w_reg w') \<and>
     (gauges_ok st w \<longrightarrow> gauges_ok st' w') \<and>
     (state_ingress_id st' \<noteq> state_ingress_id st \<longrightarrow>
        (\<exists>v. st = SM_Initiating v) \<and> state_idx st' \<noteq> Idx_Initiating \<and>
        reg_get (w_reg w') (state_ingress_id st) = reg_get (w_reg w) (state_ingress_id st)))"

lemma quiet_session:
  assumes "session_ok st (w_reg w)" and "reg_wf (w_reg w)" and "quiet w w'"
  shows "fsm_step st w st w'"
  using assms
  by (cases st) (auto simp: fsm_step_def quiet_def gauges_ok_def gauge_ok_def intro!: reg_guar_refl)

lemma fsm_step_quiet:
  assumes "fsm_step st w st' w'" and "quiet w' w''"
  shows "fsm_step st w st' w''"
  using assms
  by (cases st') (auto simp: fsm_step_def quiet_def gauges_ok_def gauge_ok_def)

lemma kept_fsm_step:
  assumes "session_ok (into d) (w_reg w)" and "kept d w d' w'"
    and "into \<in> peering_states" and "into' \<in> peering_states"
  shows "fsm_step (into d) w (into' d') w'"
  using kept_session [OF assms] assms(2) peering_simps [OF assms(3)] peering_simps [OF assms(4)]
  by (auto simp: fsm_step_def kept_def peers_step_def)

lemma terminate_fsm_step:
  assumes ok: "session_ok (into d) (w_reg w)" and wf: "reg_wf (w_reg w)"
    and into: "into \<in> peering_states" and t: "terminate env d w = ((mt, st), w')"
  shows "fsm_step (into d) w st w'"
proof -
  note P = peering_simps [OF into]
  obtain entries r where e: "disconnect_into_register env (peers_of d) (w_reg w) = (entries, r)" by force
  note te = terminate_eq [OF e t]
  have pok: "peers_ok (peers_of d) (w_reg w)" using ok P by (simp add: session_ok_def)
  note da = disconnect_into_register_all [OF pok wf e]
  have "reg_get r (sd_ingress_id d) = reg_get (w_reg w) (sd_ingress_id d)"
    using da(4) router_not_peer [OF ok] P by simp
  moreover have "reg_guar (held (into d)) (w_reg w) (held st) r"
    using da(1) te(2) P by (auto simp: reg_guar_def held_def)
  ultimately show ?thesis
    using ok te P by (auto simp: fsm_step_def session_ok_def gauges_ok_def)
qed

subsection \<open>The Initiation message\<close>

lemma dumping_from_initiate:
  "dumping_from (initiate_initiating tlvs v) =
    Some \<lparr>sd_ingress_id = sd_ingress_id v, sd_router_id = sd_router_id v,
      sd_details = \<lparr>pg_sys_name = join_bar (tlv_strings TlvSysName tlvs),
        pg_sys_desc = join_bar (tlv_strings TlvSysDesc tlvs),
        pg_sys_extra = tlv_strings TlvString tlvs, pg_peer_states = []\<rparr>\<rparr>"
  by (simp add: dumping_from_def initiate_initiating_def)

lemma router_identity_simps [simp]:
  "ii_state (router_identity tlvs p) = Some Connected"
  "ii_ingress_type (router_identity tlvs (Some i)) = ii_ingress_type i"
  "ii_name (router_identity tlvs p) \<noteq> None"
  by (simp_all add: router_identity_def)

text \<open>The id the session adopts and what becomes of the register.\<close>

lemma adopt_router:
  assumes wf: "reg_wf r" and prov: "reg_get r own = Some i0" "provisional_entry i0"
    and q: "q = router_identity tlvs (Some i0)"
    and c: "find_existing_bmp_router_and_claim it r q = (found, r1)"
    and a: "adopted = (case found of Some (e, _) \<Rightarrow> (if e \<noteq> own then e else own) | None \<Rightarrow> own)"
    and r': "r' = snd (update_info r1 adopted q)"
  shows "reg_wf r'" and "\<exists>i. reg_get r' adopted = Some i \<and> router_entry i"
    and "\<And>j. j \<noteq> adopted \<Longrightarrow> reg_get r' j = reg_get r j"
    and "adopted \<noteq> own \<Longrightarrow> reg_get r adopted = Some i \<Longrightarrow> \<not> protected i"
    and "adopted \<noteq> own \<Longrightarrow> \<exists>old. reg_get r adopted = Some old \<and> bmp_router_matches old q \<and>
      ii_state old \<noteq> Some Connected"
proof -
  have hw: "hm_wf (reg_info r)" using wf by (simp add: reg_wf_def)
  have c': "claim_entry it (\<lambda>info. bmp_router_matches info q) r = (found, r1)"
    using c by (simp add: find_existing_bmp_router_and_claim_def)
  have name: "ii_name q \<noteq> None" and ty: "ii_ingress_type q = Some IT_Bmp"
    using q prov(2) by (simp_all add: provisional_entry_def)
  have all: "reg_wf r' \<and> (\<exists>i. reg_get r' adopted = Some i \<and> router_entry i) \<and>
      (\<forall>j. j \<noteq> adopted \<longrightarrow> reg_get r' j = reg_get r j) \<and>
      (adopted \<noteq> own \<longrightarrow> (\<exists>old. reg_get r adopted = Some old \<and> bmp_router_matches old q \<and>
        ii_state old \<noteq> Some Connected))"
  proof (cases found)
    case None
    then have "r1 = r" using claim_entry_None [OF hw c' [unfolded None]] by blast
    then show ?thesis
      using None a r' prov reg.upd_ok [OF wf] q
      by (auto simp: router_entry_def merge_info_def update_field_def provisional_entry_def)
  next
    case (Some x)
    obtain e info where x: "x = (e, info)" by force
    obtain old where old: "reg_get r e = Some old" "ii_state old \<noteq> Some Connected" "bmp_router_matches old q"
      and r1: "\<And>j. reg_get r1 j = (if j = e then Some info else reg_get r j)"
      using claim_entry_Some [OF hw c' [unfolded Some x]] by auto
    have "e \<noteq> own" using old(1,3) prov name
      by (auto simp: bmp_router_matches_def provisional_entry_def)
    then have ad: "adopted = e" using a Some x by simp
    have wf1: "reg_wf r1" using reg_wf_claim [OF wf, of it "\<lambda>info. bmp_router_matches info q"] c' by simp
    show ?thesis
      using ad r' r1 old reg.upd_ok [OF wf1, of e q] q ty
      by (auto simp: router_entry_def merge_info_def update_field_def)
  qed
  then show "reg_wf r'" and "\<exists>i. reg_get r' adopted = Some i \<and> router_entry i"
    and "\<And>j. j \<noteq> adopted \<Longrightarrow> reg_get r' j = reg_get r j"
    and "adopted \<noteq> own \<Longrightarrow> \<exists>old. reg_get r adopted = Some old \<and> bmp_router_matches old q \<and>
      ii_state old \<noteq> Some Connected" by blast+
  show "\<not> protected i" if "adopted \<noteq> own" "reg_get r adopted = Some i"
    using all that name by (auto simp: protected_def bmp_router_matches_def)
qed

lemma initiating_other:
  "\<nexists>tlvs raw. m = InitiationMessage tlvs raw \<Longrightarrow>
    initiating_process_msg env m v w =
      Some ((InvalidMessage None (Some (msg_raw m)) ExpectedInitiation, SM_Initiating v), w)"
  by (cases m) (simp_all add: initiating_process_msg_def)

definition dumping_start ::
  "information_tlv list \<Rightarrow> ingress_id \<Rightarrow> ustr \<Rightarrow> 'c peering_details" where
  "dumping_start tlvs ident router_id =
    \<lparr>sd_ingress_id = ident, sd_router_id = router_id,
     sd_details = \<lparr>pg_sys_name = join_bar (tlv_strings TlvSysName tlvs),
        pg_sys_desc = join_bar (tlv_strings TlvSysDesc tlvs),
        pg_sys_extra = tlv_strings TlvString tlvs, pg_peer_states = []\<rparr>\<rparr>"

lemma dumping_start_simps [simp]:
  "sd_ingress_id (dumping_start tlvs ident router_id) = ident"
  "sd_router_id (dumping_start tlvs ident router_id) = router_id"
  "peers_of (dumping_start tlvs ident router_id) = []"
  by (simp_all add: dumping_start_def peers_of_def)

lemma initiating_initiation:
  assumes "reg_get (w_reg w) (sd_ingress_id v) = Some i0"
    and "find_existing_bmp_router_and_claim (me_reg_it env) (w_reg w) (router_identity tlvs (Some i0)) = (found, r1)"
    and "adopted = (case found of Some (e, _) \<Rightarrow> (if e \<noteq> sd_ingress_id v then e else sd_ingress_id v)
      | None \<Rightarrow> sd_ingress_id v)"
    and "r' = snd (update_info r1 adopted (router_identity tlvs (Some i0)))"
  shows "initiating_process_msg env (InitiationMessage tlvs raw) v w =
    Some ((StateTransition, SM_Dumping (dumping_start tlvs adopted (sd_router_id v))),
      on_metrics (sr_change_state (sd_router_id v) Idx_Dumping) (w\<lparr>w_reg := r'\<rparr>))"
  using assms
  by (simp add: initiating_process_msg_def Let_def dumping_from_initiate dumping_start_def
      mk_state_transition_result_def)

lemma initiating_fsm_step:
  fixes m :: "'c bmp_msg"
  assumes ok: "session_ok (SM_Initiating v :: 'c bmp_state) (w_reg w)" and wf: "reg_wf (w_reg w)"
  shows "\<exists>mt st w'. initiating_process_msg env m v w = Some ((mt, st), w') \<and>
    fsm_step (SM_Initiating v) w st w' \<and> (\<forall>u. mt \<noteq> RoutingUpdate u)"
proof (cases "\<exists>tlvs raw. m = InitiationMessage tlvs raw")
  case False
  show ?thesis
    by (intro exI conjI, rule initiating_other [OF False])
      (use quiet_session [OF ok wf quiet_refl] in auto)
next
  case True
  then obtain tlvs raw where m: "m = InitiationMessage tlvs raw" by blast
  obtain i0 where prov: "reg_get (w_reg w) (sd_ingress_id v) = Some i0" "provisional_entry i0"
    using ok by (auto simp: session_ok_def)
  let ?q = "router_identity tlvs (Some i0)"
  obtain found r1 where c: "find_existing_bmp_router_and_claim (me_reg_it env) (w_reg w) ?q = (found, r1)"
    by force
  define adopted where "adopted =
    (case found of Some (e, _) \<Rightarrow> (if e \<noteq> sd_ingress_id v then e else sd_ingress_id v) | None \<Rightarrow> sd_ingress_id v)"
  define r' where "r' = snd (update_info r1 adopted ?q)"
  note ad = adopt_router [OF wf prov refl c adopted_def r'_def]
  have guar: "reg_guar {sd_ingress_id v} (w_reg w) {adopted} r'"
    unfolding reg_guar_def
  proof (intro conjI allI impI ballI)
    fix j i assume j: "reg_get (w_reg w) j = Some i" "protected i" "j \<notin> {sd_ingress_id v}"
    then have "j \<noteq> adopted" using ad(4) by auto
    then show "reg_get r' j = Some i" using ad(3) j(1) by simp
  qed (use ad(1,4) in auto)
  have step: "fsm_step (SM_Initiating v) w (SM_Dumping (dumping_start tlvs adopted (sd_router_id v)) :: 'c bmp_state)
      (on_metrics (sr_change_state (sd_router_id v) Idx_Dumping) (w\<lparr>w_reg := r'\<rparr>))"
    using ad(2,3) guar
    by (auto simp: fsm_step_def session_ok_def held_def gauges_ok_def gauge_ok_def keys_with_def)
  show ?thesis
    unfolding m
    by (intro exI, rule conjI [OF initiating_initiation [OF prov(1) c adopted_def r'_def]]) (simp add: step)
qed

subsection \<open>Processing a message\<close>

text \<open>
  What an update announces and withdraws, by ingress id; \<open>covered\<close> relates the update a message
  leads to with the peers before and after: the session is not aborted, routes are announced for peers that are up
  afterwards, every peer that goes away is withdrawn, and no peer that stays is.
\<close>

fun announces :: "('osm, 'rtr) message_type \<Rightarrow> ingress_id set" where
  "announces (RoutingUpdate (Single p)) = {pl_ingress_id p}"
| "announces (RoutingUpdate (Bulk ps)) = pl_ingress_id ` set ps"
| "announces _ = {}"

fun withdraws :: "('osm, 'rtr) message_type \<Rightarrow> ingress_id set" where
  "withdraws (RoutingUpdate (Withdraw i None)) = {i}"
| "withdraws (RoutingUpdate (WithdrawBulk es)) = fst ` set es"
| "withdraws _ = {}"

definition covered :: "'c bmp_state \<Rightarrow> ('osm, 'rtr) message_type \<Rightarrow> 'c bmp_state \<Rightarrow> bool" where
  "covered st mt st' =
    (mt \<noteq> MT_Aborted \<and> announces mt \<subseteq> peer_ids (state_peers st') \<and>
     peer_ids (state_peers st) \<subseteq> peer_ids (state_peers st') \<union> withdraws mt \<and>
     withdraws mt \<inter> peer_ids (state_peers st') = {})"

fun may_follow :: "bmp_state_idx \<Rightarrow> bmp_state_idx \<Rightarrow> bool" where
  "may_follow Idx_Initiating j = (j \<in> {Idx_Initiating, Idx_Dumping})"
| "may_follow Idx_Dumping j = (j \<in> {Idx_Dumping, Idx_Updating, Idx_Terminated})"
| "may_follow Idx_Updating j = (j \<in> {Idx_Updating, Idx_Terminated})"
| "may_follow Idx_Terminated j = (j = Idx_Terminated)"
| "may_follow Idx_Aborted j = (j = Idx_Aborted)"

definition good_step ::
  "'c bmp_state \<Rightarrow> world \<Rightarrow> ('osm, 'rtr) message_type \<Rightarrow> 'c bmp_state \<Rightarrow> world \<Rightarrow> bool" where
  "good_step st w mt st' w' =
    (fsm_step st w st' w' \<and> covered st mt st' \<and> may_follow (state_idx st) (state_idx st'))"

lemma silent_covered:
  "mt \<noteq> MT_Aborted \<Longrightarrow> announces mt = {} \<Longrightarrow> withdraws mt = {} \<Longrightarrow> peer_ids (state_peers st) \<subseteq> peer_ids (state_peers st') \<Longrightarrow>
    covered st mt st'"
  by (auto simp: covered_def)

lemma peer_up_covered:
  assumes "peer_up env into m d w = ((mt, st), w')" and "into \<in> peering_states"
  shows "covered (into d) mt st"
proof (cases "hm_get (peers_of d) (pu_pph m)")
  case (Some p)
  have "st = into d" "mt = InvalidMessage (Some True) (Some (pu_raw m)) (PeerAlreadyUp (pu_pph m))"
    using assms(1) [unfolded peer_up_known [OF Some]] by simp_all
  then show ?thesis by (intro silent_covered) simp_all
next
  case None
  obtain ident r' where b: "reg.bind (me_reg_it env) (w_reg w) (pu_query env d m) = (ident, r')"
    using prod.exhaust by blast
  note e = assms(1) [unfolded peer_up_new [OF None b]]
  have "mt \<noteq> MT_Aborted" "announces mt = {}" "withdraws mt = {}" using e by (auto split: option.splits)
  moreover have "state_peers st = hm_insert (pu_pph m)
      (new_peer env (pu_pph m) (pu_session_config m) (pu_eor_capable m) ident) (peers_of d)"
    using e by (auto simp: peering_simps [OF assms(2)])
  ultimately show ?thesis
    using peer_ids_insert [OF None] by (intro silent_covered) (simp_all add: peering_simps [OF assms(2)])
qed

lemma peer_down_covered:
  assumes ok: "peers_ok (peers_of d) (w_reg w)" and s: "peer_down env into h raw d w = ((mt, st), w')"
    and into: "into \<in> peering_states"
  shows "covered (into d) mt st"
proof -
  obtain removed ps where r: "remove_peer_identity_siblings env h (peers_of d) = (removed, ps)" by force
  note rs = remove_siblings [OF peers_ok_wf [OF ok] r]
  note e = peer_down_eq [OF r s]
  have mem: "p \<in> set removed \<longleftrightarrow> (\<exists>k. same_identity k h \<and> hm_get (peers_of d) k = Some p)" for p
    unfolding rs(3) by (rule removed_mem [OF peers_ok_wf [OF ok]])
  have w: "withdraws mt = ps_ingress_id ` set removed \<and> announces mt = {} \<and> mt \<noteq> MT_Aborted"
  proof (cases removed)
    case Nil
    then show ?thesis by (simp add: e(1))
  next
    case (Cons p rest)
    then show ?thesis by (cases rest) (simp_all add: e(1) image_image)
  qed
  have gone: "j \<in> ps_ingress_id ` set removed \<or> j \<in> peer_ids ps" if j: "j \<in> peer_ids (peers_of d)" for j
  proof -
    obtain k q where "hm_get (peers_of d) k = Some q" "j = ps_ingress_id q" using j by (rule peer_idsE)
    then show ?thesis using mem rs(2) [of k] by (cases "same_identity k h") (auto intro: peer_idsI)
  qed
  have stay: "ps_ingress_id p \<notin> peer_ids ps" if p: "p \<in> set removed" for p
  proof
    assume "ps_ingress_id p \<in> peer_ids ps"
    then obtain k q where kq: "hm_get ps k = Some q" "ps_ingress_id p = ps_ingress_id q" by (rule peer_idsE)
    then have "\<not> same_identity k h" "hm_get (peers_of d) k = Some q" using rs(2) [of k] by (auto split: if_splits)
    then show False using p mem kq(2) peers_ok_inj [OF ok] by blast
  qed
  show ?thesis using w gone stay by (auto simp: covered_def e(2) peering_simps [OF into])
qed

lemma terminate_covered:
  assumes ok: "peers_ok (peers_of d) (w_reg w)" and wf: "reg_wf (w_reg w)"
    and t: "terminate env d w = ((mt, st), w')" and into: "into \<in> peering_states"
  shows "covered (into d) mt st"
proof -
  obtain entries r where e: "disconnect_into_register env (peers_of d) (w_reg w) = (entries, r)" by force
  show ?thesis
    using terminate_eq [OF e t] disconnect_into_register_all(2,5) [OF ok wf e]
    by (auto simp: covered_def peering_simps [OF into])
qed

lemma route_monitoring_covered:
  assumes "kept d w d' w'" and "from_peer d' h mt" and "peer_ids (peers_of d) \<subseteq> peer_ids (peers_of d')"
    and "into \<in> peering_states" and "into' \<in> peering_states"
  shows "covered (into d) mt (into' d')"
proof -
  have w: "withdraws mt = {}" "mt \<noteq> MT_Aborted" using assms(2) by (cases mt; auto simp: from_peer_def)+
  have "announces mt \<subseteq> peer_ids (peers_of d')"
  proof (cases mt)
    case (RoutingUpdate u)
    then obtain payloads i where u: "u = Bulk payloads" and i: "get_peer_ingress_id (peers_of d') h = Some i"
      and all: "\<forall>p \<in> set payloads. pl_ingress_id p = i" using assms(2) by (auto simp: from_peer_def)
    have "i \<in> peer_ids (peers_of d')" using i by (auto simp: get_peer_ingress_id_def intro: peer_idsI)
    then show ?thesis using RoutingUpdate u all by auto
  qed simp_all
  then show ?thesis using w assms(3) by (auto simp: covered_def peering_simps [OF assms(4)] peering_simps [OF assms(5)])
qed

text \<open>One message in a state with peers; \<open>handle\<close> is the state's \<open>process_msg\<close>.\<close>

definition steps_well ::
  "'c bmp_state \<Rightarrow> world \<Rightarrow> (('c, 'osm, 'rtr) processing_result \<times> world) option \<Rightarrow> bool" where
  "steps_well st w res =
    (\<exists>mt st' w'. res = Some ((mt, st'), w') \<and> good_step st w mt st' w')"

lemma steps_wellI: "good_step st w mt st' w' \<Longrightarrow> steps_well st w (Some ((mt, st'), w'))"
  by (simp add: steps_well_def)

lemma quiet_good:
  assumes "session_ok (into d) (w_reg w)" and "reg_wf (w_reg w)" and "touched d d'" and "quiet w w'"
    and into: "into \<in> peering_states" and "announces mt = {}" "withdraws mt = {}" "mt \<noteq> MT_Aborted"
  shows "good_step (into d) w mt (into d') w'"
proof -
  note P = peering_simps [OF into]
  have pok: "peers_ok (peers_of d) (w_reg w)" using assms(1) P by (simp add: session_ok_def)
  have "fsm_step (into d) w (into d') w'"
    by (rule kept_fsm_step [OF assms(1) touched_kept [OF assms(3,4) pok assms(2)] into into])
  moreover have "covered (into d) mt (into d')"
    using assms(3,6-8) same_peers_ids [of "peers_of d" "peers_of d'"]
    by (intro silent_covered) (simp_all add: P touched_def)
  moreover have "may_follow (state_idx (into d)) (state_idx (into d'))"
    using into by (auto simp: peering_states_def)
  ultimately show ?thesis by (simp add: good_step_def)
qed

lemma peer_up_good:
  assumes ok: "session_ok (into d) (w_reg w)" and wf: "reg_wf (w_reg w)" and room: "reg_room (w_reg w)"
    and into: "into \<in> peering_states" and s: "peer_up env into m d w = ((mt, st), w')"
  shows "good_step (into d) w mt st w' \<and> (\<exists>d'. st = into d')"
proof -
  have pok: "peers_ok (peers_of d) (w_reg w)" using ok peering_simps [OF into] by (simp add: session_ok_def)
  obtain d' where st: "st = into d'" and k: "kept d w d' w'" using peer_up_kept [OF pok wf room s] by blast
  show ?thesis
    using kept_fsm_step [OF ok k into into] peer_up_covered [OF s into] into st
    by (auto simp: good_step_def peering_states_def)
qed

lemma peer_down_good:
  assumes ok: "session_ok (into d) (w_reg w)" and wf: "reg_wf (w_reg w)"
    and into: "into \<in> peering_states" and s: "peer_down env into h raw d w = ((mt, st), w')"
  shows "good_step (into d) w mt st w'"
proof -
  have pok: "peers_ok (peers_of d) (w_reg w)" using ok peering_simps [OF into] by (simp add: session_ok_def)
  obtain removed ps where r: "remove_peer_identity_siblings env h (peers_of d) = (removed, ps)" by force
  note k = peer_down_kept [OF pok wf s r]
  show ?thesis
    using kept_fsm_step [OF ok k(2) into into] peer_down_covered [OF pok s into] into k(1)
    by (auto simp: good_step_def peering_states_def)
qed

lemma terminate_good:
  assumes ok: "session_ok (into d) (w_reg w)" and wf: "reg_wf (w_reg w)"
    and into: "into \<in> peering_states" and t: "terminate env d w = ((mt, st), w')"
  shows "good_step (into d) w mt st w'"
proof -
  have pok: "peers_ok (peers_of d) (w_reg w)" using ok peering_simps [OF into] by (simp add: session_ok_def)
  obtain entries r where e: "disconnect_into_register env (peers_of d) (w_reg w) = (entries, r)" by force
  show ?thesis
    using terminate_fsm_step [OF ok wf into t] terminate_covered [OF pok wf t into] into terminate_eq(2) [OF e t]
    by (auto simp: good_step_def peering_states_def)
qed

lemma route_monitoring_good:
  assumes ok: "session_ok (into d) (w_reg w)" and wf: "reg_wf (w_reg w)" and room: "reg_room (w_reg w)"
    and into: "into \<in> peering_states" and pre: "mild pre"
  shows "steps_well (into d) w (route_monitoring env into pre received m d w)"
proof -
  have pok: "peers_ok (peers_of d) (w_reg w)" using ok peering_simps [OF into] by (simp add: session_ok_def)
  obtain mt st w' d' where e: "route_monitoring env into pre received m d w = Some ((mt, st), w')"
    and st: "st = into d' \<or> st = SM_Updating d' \<and> mt = StateTransition" and k: "kept d w d' w'"
    and f: "from_peer d' (rmo_pph m) mt" and sub: "peer_ids (peers_of d) \<subseteq> peer_ids (peers_of d')"
    using route_monitoring_kept [OF pok wf room pre] by blast
  obtain into' where into': "into' \<in> peering_states" and st': "st = into' d'" "into' = into \<or> into' = SM_Updating"
    using st into by (auto simp: peering_states_def)
  show ?thesis
    using kept_fsm_step [OF ok k into into'] route_monitoring_covered [OF k f sub into into'] st' into
    by (auto simp: e steps_well_def good_step_def peering_states_def)
qed

lemma statistics_report_good:
  assumes ok: "session_ok (into d) (w_reg w)" and wf: "reg_wf (w_reg w)" and into: "into \<in> peering_states"
    and s: "statistics_report into h raw d = (mt, st)"
  shows "good_step (into d) w mt st w"
proof -
  have "st = into d" "announces mt = {}" "withdraws mt = {}" "mt \<noteq> MT_Aborted"
    using s by (auto simp: statistics_report_def split: option.splits if_splits)
  then show ?thesis using quiet_good [OF ok wf touched_refl quiet_refl into] by blast
qed

lemma initiate_touched: "touched d (initiate_peering tlvs d)"
  by (simp add: touched_def)

lemma dumping_good:
  fixes d :: "'c peering_details"
  assumes ok: "session_ok (SM_Dumping d) (w_reg w)" and wf: "reg_wf (w_reg w)" and room: "reg_room (w_reg w)"
  shows "steps_well (SM_Dumping d) w
    (dumping_process_msg env received m d w :: (('c, 'osm, 'rtr) processing_result \<times> world) option)"
proof -
  have into: "SM_Dumping \<in> peering_states" by (simp add: peering_states_def)
  note quiet = quiet_good [where into = SM_Dumping, OF ok wf _ quiet_refl into]
  show ?thesis
  proof (cases m)
    case (PeerUpNotification pu)
    obtain mt :: "('osm, 'rtr) message_type" and st w' where s: "peer_up env SM_Dumping pu d w = ((mt, st), w')" by (metis prod.exhaust)
    obtain d' where g: "good_step (SM_Dumping d) w mt st w'" "st = SM_Dumping d'"
      using peer_up_good [where into = SM_Dumping, OF ok wf room into s] by blast
    let ?w = "on_metrics (sr_pending_eors_update (sd_router_id d') (num_pending_eors env (peers_of d'))) w'"
    have "good_step (SM_Dumping d) w mt (SM_Dumping d') ?w"
      using g fsm_step_quiet [OF _ quiet_metrics(5)] by (auto simp: good_step_def)
    then show ?thesis using s g(2) PeerUpNotification
      by (auto simp: dumping_process_msg_def intro: steps_wellI)
  next
    case (PeerDownNotification h raw)
    obtain mt :: "('osm, 'rtr) message_type" and st w' where s: "peer_down env SM_Dumping h raw d w = ((mt, st), w')" by (metis prod.exhaust)
    show ?thesis
      using peer_down_good [where into = SM_Dumping, OF ok wf into s] s PeerDownNotification
      by (auto simp: dumping_process_msg_def intro: steps_wellI)
  next
    case (RouteMonitoring rm)
    show ?thesis
      using route_monitoring_good [where into = SM_Dumping, OF ok wf room into dumping_mild] RouteMonitoring
      by (simp add: dumping_process_msg_def)
  next
    case (TerminationMessage raw)
    obtain mt :: "('osm, 'rtr) message_type" and st w' where s: "terminate env d w = ((mt, st), w')" by (metis prod.exhaust)
    show ?thesis
      using terminate_good [where into = SM_Dumping, OF ok wf into s] s TerminationMessage
      by (auto simp: dumping_process_msg_def intro: steps_wellI)
  next
    case (StatisticsReport h raw)
    obtain mt :: "('osm, 'rtr) message_type" and st where s: "statistics_report SM_Dumping h raw d = (mt, st)" by (metis prod.exhaust)
    show ?thesis
      using statistics_report_good [where into = SM_Dumping, OF ok wf into s] s StatisticsReport
      by (auto simp: dumping_process_msg_def intro: steps_wellI)
  qed (auto simp: dumping_process_msg_def intro!: steps_wellI quiet initiate_touched)
qed

lemma updating_good:
  fixes d :: "'c peering_details"
  assumes ok: "session_ok (SM_Updating d) (w_reg w)" and wf: "reg_wf (w_reg w)" and room: "reg_room (w_reg w)"
  shows "steps_well (SM_Updating d) w
    (updating_process_msg env received m d w :: (('c, 'osm, 'rtr) processing_result \<times> world) option)"
proof -
  have into: "SM_Updating \<in> peering_states" by (simp add: peering_states_def)
  note quiet = quiet_good [where into = SM_Updating, OF ok wf _ quiet_refl into]
  show ?thesis
  proof (cases m)
    case (PeerUpNotification pu)
    obtain mt :: "('osm, 'rtr) message_type" and st w' where s: "peer_up env SM_Updating pu d w = ((mt, st), w')"
      by (metis prod.exhaust)
    show ?thesis
      using peer_up_good [where into = SM_Updating, OF ok wf room into s] s PeerUpNotification
      by (auto simp: updating_process_msg_def intro: steps_wellI)
  next
    case (PeerDownNotification h raw)
    obtain mt :: "('osm, 'rtr) message_type" and st w' where s: "peer_down env SM_Updating h raw d w = ((mt, st), w')" by (metis prod.exhaust)
    show ?thesis
      using peer_down_good [where into = SM_Updating, OF ok wf into s] s PeerDownNotification
      by (auto simp: updating_process_msg_def intro: steps_wellI)
  next
    case (RouteMonitoring rm)
    show ?thesis
      using route_monitoring_good [where into = SM_Updating, OF ok wf room into updating_mild] RouteMonitoring
      by (simp add: updating_process_msg_def)
  next
    case (TerminationMessage raw)
    obtain mt :: "('osm, 'rtr) message_type" and st w' where s: "terminate env d w = ((mt, st), w')" by (metis prod.exhaust)
    show ?thesis
      using terminate_good [where into = SM_Updating, OF ok wf into s] s TerminationMessage
      by (auto simp: updating_process_msg_def intro: steps_wellI)
  next
    case (StatisticsReport h raw)
    obtain mt :: "('osm, 'rtr) message_type" and st where s: "statistics_report SM_Updating h raw d = (mt, st)" by (metis prod.exhaust)
    show ?thesis
      using statistics_report_good [where into = SM_Updating, OF ok wf into s] s StatisticsReport
      by (auto simp: updating_process_msg_def intro: steps_wellI)
  qed (auto simp: updating_process_msg_def intro!: steps_wellI quiet initiate_touched)
qed

lemma initiating_good:
  fixes m :: "'c bmp_msg"
  assumes ok: "session_ok (SM_Initiating v :: 'c bmp_state) (w_reg w)" and wf: "reg_wf (w_reg w)"
  shows "steps_well (SM_Initiating v) w
    (initiating_process_msg env m v w :: (('c, 'osm, 'rtr) processing_result \<times> world) option)"
proof -
  obtain mt :: "('osm, 'rtr) message_type" and st w'
    where e: "initiating_process_msg env m v w = Some ((mt, st), w')"
      and f: "fsm_step (SM_Initiating v) w st w'" and u: "\<forall>u. mt \<noteq> RoutingUpdate u"
    using initiating_fsm_step [OF ok wf, of env m] by blast
  have "may_follow Idx_Initiating (state_idx st)"
    using e by (auto simp: initiating_process_msg_def mk_state_transition_result_def Let_def
        split: bmp_msg.splits option.splits prod.splits)
  moreover have "mt \<noteq> MT_Aborted"
    using e by (auto simp: initiating_process_msg_def mk_state_transition_result_def Let_def
        split: bmp_msg.splits option.splits prod.splits)
  then have "covered (SM_Initiating v) mt st"
    using u by (intro silent_covered) (cases mt; simp)+
  ultimately show ?thesis using e f by (simp add: steps_well_def good_step_def)
qed

lemma terminated_good:
  fixes m :: "'c bmp_msg"
  assumes ok: "session_ok (SM_Terminated v :: 'c bmp_state) (w_reg w)" and wf: "reg_wf (w_reg w)"
  shows "steps_well (SM_Terminated v) w (Some (terminated_process_msg m v, w))"
  using quiet_session [OF ok wf quiet_refl]
  by (auto simp: terminated_process_msg_def good_step_def intro!: steps_wellI silent_covered)

lemma dispatch_good:
  assumes ok: "session_ok st (w_reg w)" and wf: "reg_wf (w_reg w)" and room: "reg_room (w_reg w)"
  shows "steps_well st w (dispatch_msg env received m st w)"
proof (cases st)
  case (SM_Initiating v)
  then show ?thesis using initiating_good ok wf by auto
next
  case (SM_Dumping d)
  then show ?thesis using dumping_good ok wf room by auto
next
  case (SM_Updating d)
  then show ?thesis using updating_good ok wf room by auto
next
  case (SM_Terminated v)
  then show ?thesis using terminated_good ok wf by auto
next
  case (SM_Aborted i r)
  then show ?thesis using ok by (simp add: session_ok_def)
qed

lemma process_msg_good:
  assumes "session_ok st (w_reg w)" and "reg_wf (w_reg w)" and "reg_room (w_reg w)"
  shows "steps_well st w (process_msg env received m st w :: (('c, 'osm, 'rtr) processing_result \<times> world) option)"
proof -
  obtain mt :: "('osm, 'rtr) message_type" and st' w' where d: "dispatch_msg env received m st w = Some ((mt, st'), w')"
    and g: "good_step st w mt st' w'"
    using dispatch_good [OF assms, of env received m] unfolding steps_well_def by blast
  show ?thesis
  proof (cases mt)
    case (InvalidMessage k b err)
    let ?w = "if has_status_reporter st'
      then on_metrics (sr_parse_hard_fail (state_router_id st') (me_error_text env err) b) w' else w'"
    have "good_step st w (InvalidMessage None None err :: ('osm, 'rtr) message_type) st' ?w"
      using g fsm_step_quiet [of st w st' w' ?w] InvalidMessage by (auto simp: good_step_def covered_def)
    then show ?thesis using d InvalidMessage by (simp add: process_msg_def steps_wellI)
  qed (use d g in \<open>simp_all add: process_msg_def steps_wellI\<close>)
qed

subsection \<open>Sequences of messages\<close>

text \<open>
  One machine with its world, from the state \<open>st0\<close> on: what it can reach by processing messages
  while the register has ids left.
\<close>

inductive fsm_reach ::
  "'c machine_env \<Rightarrow> 'c bmp_state \<Rightarrow> world \<Rightarrow> 'c bmp_state \<Rightarrow> world \<Rightarrow> bool"
  for env st0 w0 where
  start: "fsm_reach env st0 w0 st0 w0"
| msg: "\<lbrakk>fsm_reach env st0 w0 st w; reg_room (w_reg w);
    (process_msg env received m st w :: (('c, unit, unit) processing_result \<times> world) option) =
      Some ((mt, st'), w')\<rbrakk> \<Longrightarrow> fsm_reach env st0 w0 st' w'"

lemma good_stepD:
  assumes "steps_well st w (Some ((mt, st'), w'))"
  shows "good_step st w mt st' w'"
  using assms by (auto simp: steps_well_def)

lemma fsm_reach_invariant:
  assumes "fsm_reach env st0 w0 st w" and "session_ok st0 (w_reg w0)" and "reg_wf (w_reg w0)"
  shows "session_ok st (w_reg w) \<and> reg_wf (w_reg w) \<and> (gauges_ok st0 w0 \<longrightarrow> gauges_ok st w)"
  using assms
proof (induction rule: fsm_reach.induct)
  case start
  then show ?case by simp
next
  case (msg st w received m mt st' w')
  then have "session_ok st (w_reg w)" "reg_wf (w_reg w)" "gauges_ok st0 w0 \<longrightarrow> gauges_ok st w" by auto
  moreover have "good_step st w mt st' w'"
    using process_msg_good [of st w env received m, where 'osm = unit and 'rtr = unit] msg.hyps(2,3) calculation
    by (simp add: good_stepD)
  ultimately show ?case by (auto simp: good_step_def fsm_step_def reg_guar_def)
qed

subsection \<open>A session to evaluate\<close>

definition plain_env :: "unit machine_env" where
  "plain_env =
    \<lparr>me_rib_type = (\<lambda>h. if pph_flags h AND 16 = 0 then AdjRibIn else AdjRibOut),
     me_adj_rib_type = (\<lambda>h. if pph_flags h AND 16 = 0 then AdjRibIn else AdjRibOut),
     me_is_post_policy = (\<lambda>h. pph_flags h AND 64 \<noteq> 0),
     me_reg_it = (\<lambda>xs. xs), me_peers_it = (\<lambda>xs. xs), me_error_text = (\<lambda>_. [])\<rparr>"

definition plain_pph :: pph where
  "plain_pph =
    \<lparr>pph_peer_type = GlobalInstance, pph_flags = 0, pph_distinguisher = replicate 8 0,
     pph_address = V4 10, pph_asn = 65000, pph_bgp_id = [1, 2, 3, 4]\<rparr>"

definition plain_config :: "unit session_config" where
  "plain_config = \<lparr>sc_four_octet_asns = True, sc_rest = ()\<rparr>"

definition plain_peer_up :: "unit peer_up_msg" where
  "plain_peer_up =
    \<lparr>pu_pph = plain_pph, pu_session_config = plain_config,
     pu_rcvd_capability_types = [GracefulRestart], pu_sent_capabilities = [], pu_rcvd_capabilities = [],
     pu_information_tlvs = [], pu_raw = []\<rparr>"

definition plain_router :: ingress_info where
  "plain_router = ingress_info_new\<lparr>ii_parent_ingress := Some 1, ii_remote_addr := Some (V4 1),
     ii_ingress_type := Some IT_Bmp, ii_state := Some Connected, ii_name := Some []\<rparr>"

definition plain_world :: world where
  "plain_world = \<lparr>w_reg = \<lparr>reg_serial = 3, reg_info = [(2, plain_router)]\<rparr>, w_metrics = []\<rparr>"

definition plain_start :: "unit peering_details" where
  "plain_start = dumping_start [] 2 []"

lemma plain_world_wf: "reg_wf (w_reg plain_world)" "reg_room (w_reg plain_world)"
  by (auto simp: plain_world_def reg_wf_def reg_room_def hm_wf_def reg_get_def hm_get_def)

lemma plain_session_ok: "session_ok (SM_Updating plain_start) (w_reg plain_world)"
  by (simp add: session_ok_def plain_start_def plain_world_def reg_get_def hm_get_def router_entry_def
      plain_router_def)

lemma plain_gauges: "gauges_ok (SM_Updating plain_start) plain_world"
  by (simp add: gauges_ok_def gauge_ok_def plain_start_def plain_world_def gauges_def router_metrics_new_def
      keys_with_def)

definition plain_peer :: "unit peer_state" where
  "plain_peer = new_peer plain_env plain_pph plain_config True 3"

definition plain_up :: "unit peering_details" where
  "plain_up = with_peers [(plain_pph, plain_peer)] plain_start"

definition plain_entry :: ingress_info where
  "plain_entry = query_ingress plain_env plain_pph [] [] 2 []"

definition plain_world_up :: world where
  "plain_world_up =
    \<lparr>w_reg = \<lparr>reg_serial = 4, reg_info = [(2, plain_router), (3, plain_entry)]\<rparr>,
     w_metrics = sr_peer_up [] True []\<rparr>"

lemma plain_entry_unclaimed: "find_existing_peer_and_claim it (w_reg plain_world) q = (None, w_reg plain_world)"
  by (simp add: find_existing_peer_and_claim_def claim_entry_def plain_world_def plain_router_def iterate_def)

lemma plain_bind: "reg.bind (me_reg_it plain_env) (w_reg plain_world) plain_entry = (3, w_reg plain_world_up)"
  by (simp add: reg.bind_def plain_entry_unclaimed)
    (simp add: plain_world_def plain_world_up_def register_id_def update_info_def hm_take_def hm_put_def
      hm_get_def hm_insert_def hm_remove_def)

lemma plain_peer_up_eq:
  "peer_up plain_env into plain_peer_up plain_start plain_world = ((Other, into plain_up), plain_world_up)"
proof -
  have n: "hm_get (peers_of plain_start) (pu_pph plain_peer_up) = None" by (simp add: plain_start_def)
  have q: "pu_query plain_env plain_start plain_peer_up = plain_entry"
    by (simp add: pu_query_def plain_entry_def plain_peer_up_def plain_start_def)
  show ?thesis
    unfolding peer_up_new [OF n plain_bind [folded q]] q plain_entry_unclaimed
    by (simp add: plain_up_def plain_peer_def plain_peer_up_def pu_eor_capable_def hm_insert_def plain_start_def
        plain_world_def plain_world_up_def on_metrics_def)
qed

lemma plain_step:
  "process_msg plain_env 0 (PeerUpNotification plain_peer_up) (SM_Updating plain_start) plain_world =
    Some ((Other, SM_Updating plain_up), plain_world_up)"
  by (simp add: process_msg_def updating_process_msg_def plain_peer_up_eq)

lemma plain_reach: "fsm_reach plain_env (SM_Updating plain_start) plain_world (SM_Updating plain_up) plain_world_up"
  by (rule fsm_reach.msg [OF fsm_reach.start plain_world_wf(2) plain_step])

lemma plain_up_ok:
  "peers_ok (peers_of plain_up) (w_reg plain_world_up)" "reg_wf (w_reg plain_world_up)"
  "reg_room (w_reg plain_world_up)"
  using fsm_reach_invariant [OF plain_reach plain_session_ok plain_world_wf(1)]
  by (auto simp: session_ok_def reg_room_def plain_world_up_def)

lemma plain_entries:
  "reg_get (w_reg plain_world_up) 3 = Some plain_entry" "reg_get (w_reg plain_world_up) 2 = Some plain_router"
  by (simp_all add: plain_world_up_def reg_get_def hm_get_def)

subsection \<open>Properties\<close>



text \<open>The entry a peer is bound to matches the query it was bound with, also once disconnected.\<close>

lemma bind_matches:
  assumes wf: "reg_wf r" and room: "reg_room r" and b: "reg.bind it r q = (ident, r')"
    and q: "ii_parent_ingress q \<noteq> None" "ii_remote_addr q \<noteq> None" "ii_remote_asn q \<noteq> None"
      "ii_rib_type q \<noteq> None" "ii_peer_rib_type q \<noteq> None" "ii_peer_type q \<noteq> None"
  shows "\<exists>i. reg_get r' ident = Some i \<and> peer_matches i q"
proof -
  obtain res r1 where c: "find_existing_peer_and_claim it r q = (res, r1)" by force
  have hw: "hm_wf (reg_info r)" using wf by (simp add: reg_wf_def)
  show ?thesis
  proof (cases res)
    case None
    then have "r1 = r" using reg.claim_None [OF wf] c by blast
    then have i: "ident = reg_serial r" "r' = snd (update_info (snd (register_id r)) ident q)"
      using b c None by (auto simp: reg.bind_def register_id_def)
    moreover have "reg_get r (reg_serial r) = None" using wf by (auto simp: reg_wf_def)
    ultimately show ?thesis using q by (simp add: peer_matches_def mandatory_eq_def)
  next
    case (Some a)
    obtain i2 info where a: "a = (i2, info)" by force
    have c': "claim_entry it (\<lambda>info. peer_matches info q) r = (Some (i2, info), r1)"
      using c Some a by (simp add: find_existing_peer_and_claim_def)
    obtain old where old: "peer_matches old q" "info = with_state Connected old" "reg_get r1 i2 = Some info"
      using claim_entry_Some [OF hw c'] by auto
    have i: "ident = i2" "r' = snd (update_info r1 i2 q)" using b c Some a by (auto simp: reg.bind_def)
    then show ?thesis
      using q old by (simp add: peer_matches_def mandatory_eq_def merge_info_def update_field_def with_state_def)
  qed
qed

lemma pu_query_identity:
  "ii_parent_ingress (pu_query env d m) \<noteq> None" "ii_remote_addr (pu_query env d m) \<noteq> None"
  "ii_remote_asn (pu_query env d m) \<noteq> None" "ii_rib_type (pu_query env d m) \<noteq> None"
  "ii_peer_rib_type (pu_query env d m) \<noteq> None" "ii_peer_type (pu_query env d m) \<noteq> None"
  by (simp_all add: pu_query_def query_ingress_def)

lemma peer_matches_query:
  assumes "pu_pph m' = pu_pph m" and "pu_information_tlvs m' = pu_information_tlvs m"
    and "sd_ingress_id d' = sd_ingress_id d"
  shows "peer_matches i (pu_query env d' m') = peer_matches i (pu_query env d m)"
  using assms by (simp add: peer_matches_def pu_query_def query_ingress_def)

lemma peer_matches_disconnected [simp]:
  "peer_matches (with_state s i) q = peer_matches i q"
  by (simp add: peer_matches_def with_state_def)

lemma claim_succeeds:
  assumes wf: "reg_wf r" and e: "reg_get r j = Some i" "ii_state i \<noteq> Some Connected" "peer_matches i q"
    and c: "find_existing_peer_and_claim it r q = (res, r')"
  obtains ident info where "res = Some (ident, info)" and "reg_serial r' = reg_serial r"
    and "\<exists>old. reg_get r ident = Some old \<and> peer_matches old q"
proof -
  have hw: "hm_wf (reg_info r)" using wf by (simp add: reg_wf_def)
  have c': "claim_entry it (\<lambda>info. peer_matches info q) r = (res, r')"
    using c by (simp add: find_existing_peer_and_claim_def)
  show thesis
  proof (cases res)
    case None
    then show thesis using claim_entry_None [OF hw c' [unfolded None]] e by blast
  next
    case (Some a)
    obtain ident info where a: "a = (ident, info)" by force
    show thesis using claim_entry_Some [OF hw c' [unfolded Some a]] Some a by (intro that [of ident info]) auto
  qed
qed

text \<open>
  C37: A peer that flaps comes back under an id it had: when a Peer Up is followed by a Peer Down
  and another Peer Up with the same header and VRF name, the second Peer Up is announced as a
  reappearance, mints no new id, and the id it takes up already named this peer (same router,
  address, AS, RIB, peer type and distinguisher).
\<close>

theorem peer_flap_rebinds:
  assumes ok: "peers_ok (peers_of d) (w_reg w)" and wf: "reg_wf (w_reg w)" and room: "reg_room (w_reg w)"
    and new: "hm_get (peers_of d) (pu_pph m) = None"
    and up: "peer_up env SM_Updating m d w = ((mt1, SM_Updating d1), w1)"
    and down: "peer_down env SM_Updating (pu_pph m) raw d1 w1 = ((mt2, SM_Updating d2), w2)"
    and again: "pu_pph m' = pu_pph m" "pu_information_tlvs m' = pu_information_tlvs m"
    and up2: "peer_up env SM_Updating m' d2 w2 = ((mt3, SM_Updating d3), w3)"
  shows "\<exists>ident i. mt3 = RoutingUpdate (IngressReappeared ident) \<and>
    get_peer_ingress_id (peers_of d3) (pu_pph m) = Some ident \<and>
    reg_get (w_reg w2) ident = Some i \<and> peer_matches i (pu_query env d m) \<and>
    reg_serial (w_reg w3) = reg_serial (w_reg w2)"
proof -
  obtain id1 r1 where b: "reg.bind (me_reg_it env) (w_reg w) (pu_query env d m) = (id1, r1)"
    using prod.exhaust by blast
  let ?p = "new_peer env (pu_pph m) (pu_session_config m) (pu_eor_capable m) id1"
  have d1: "d1 = with_peers (hm_insert (pu_pph m) ?p (peers_of d)) d" and w1: "w_reg w1 = r1"
    using up [unfolded peer_up_new [OF new b]] by auto
  have ok1: "peers_ok (peers_of d1) (w_reg w1)" and wf1: "reg_wf (w_reg w1)"
    using bind_peer_ok [OF wf room _ _ b ok new new_peer_simps(1)] bind_facts(1) [OF wf room _ _ b] d1 w1 by auto
  obtain i1 where i1: "reg_get (w_reg w1) id1 = Some i1" "peer_matches i1 (pu_query env d m)"
    using bind_matches [OF wf room b pu_query_identity] w1 by blast
  obtain removed ps where r: "remove_peer_identity_siblings env (pu_pph m) (peers_of d1) = (removed, ps)" by force
  have ident: "same_identity (pu_pph m) (pu_pph m)" by (simp add: same_identity_def)
  note rs = remove_siblings [OF peers_ok_wf [OF ok1] r] and e = peer_down_eq [OF r down]
  have d2: "d2 = with_peers ps d1" using e(2) by simp
  have in_removed: "?p \<in> set removed"
    unfolding rs(3) removed_mem [OF peers_ok_wf [OF ok1]] using ident d1 by auto
  then have g2: "reg_get (w_reg w2) id1 = Some (with_state Disconnected i1)"
    using i1(1) e(3) by (force simp: disconnect_peers_get)
  have wf2: "reg_wf (w_reg w2)" using peer_down_kept(2) [OF ok1 wf1 down r]
    by (simp add: kept_def peers_step_def reg_guar_def)
  have new2: "hm_get (peers_of d2) (pu_pph m') = None" using rs(2) ident d2 again by simp
  have q: "peer_matches i (pu_query env d2 m') = peer_matches i (pu_query env d m)" for i
    using again d1 d2 by (intro peer_matches_query) auto
  obtain res r2 where c: "find_existing_peer_and_claim (me_reg_it env) (w_reg w2) (pu_query env d2 m') = (res, r2)"
    by force
  obtain id2 info where res: "res = Some (id2, info)" and ser: "reg_serial r2 = reg_serial (w_reg w2)"
    and old: "\<exists>old. reg_get (w_reg w2) id2 = Some old \<and> peer_matches old (pu_query env d2 m')"
    using claim_succeeds [OF wf2 g2 _ _ c] i1(2) q by auto
  have b2: "reg.bind (me_reg_it env) (w_reg w2) (pu_query env d2 m') =
      (id2, snd (update_info r2 id2 (pu_query env d2 m')))" using c res by (simp add: reg.bind_def)
  have "mt3 = RoutingUpdate (IngressReappeared id2)"
    "d3 = with_peers (hm_insert (pu_pph m') (new_peer env (pu_pph m') (pu_session_config m') (pu_eor_capable m') id2) (peers_of d2)) d2"
    "w_reg w3 = snd (update_info r2 id2 (pu_query env d2 m'))"
    using up2 [unfolded peer_up_new [OF new2 b2]] c res by auto
  then show ?thesis using old q ser again by (auto simp: get_peer_ingress_id_def)
qed

lemma peer_up_into: "\<exists>mt d' w'. peer_up env into m d w = ((mt, into d'), w')"
  by (auto simp: peer_up_def Let_def split: prod.splits option.splits)

lemma peer_down_into: "\<exists>mt d' w'. peer_down env into h raw d w = ((mt, into d'), w')"
  by (auto simp: peer_down_def Let_def split: prod.splits list.splits)

theorem peer_flap_rebinds_witness:
  "\<exists>(mt2 :: (unit, unit) message_type) d2 w2 ident d3 w3.
    peer_down plain_env SM_Updating plain_pph [] plain_up plain_world_up = ((mt2, SM_Updating d2), w2) \<and>
    (peer_up plain_env SM_Updating plain_peer_up d2 w2 :: (unit, unit, unit) processing_result \<times> world) =
      ((RoutingUpdate (IngressReappeared ident), SM_Updating d3), w3) \<and>
    reg_serial (w_reg w3) = reg_serial (w_reg w2)"
proof -
  have h: "pu_pph plain_peer_up = plain_pph" by (simp add: plain_peer_up_def)
  have new: "hm_get (peers_of plain_start) (pu_pph plain_peer_up) = None" by (simp add: plain_start_def)
  have ok: "peers_ok (peers_of plain_start) (w_reg plain_world)" by (simp add: plain_start_def)
  obtain mt2 :: "(unit, unit) message_type" and d2 w2
    where down: "peer_down plain_env SM_Updating plain_pph [] plain_up plain_world_up = ((mt2, SM_Updating d2), w2)"
    using peer_down_into by blast
  obtain mt3 :: "(unit, unit) message_type" and d3 w3
    where up: "peer_up plain_env SM_Updating plain_peer_up d2 w2 = ((mt3, SM_Updating d3), w3)"
    using peer_up_into by blast
  show ?thesis
    using peer_flap_rebinds [OF ok plain_world_wf new plain_peer_up_eq down [folded h] refl refl up] down up
    by blast
qed

text \<open>What an UPDATE parses to: with the session's configuration, or else with the alternate one.\<close>

definition parses_to :: "'c route_mon_msg \<Rightarrow> 'c session_config \<Rightarrow> bgp_update \<Rightarrow> bool" where
  "parses_to m cfg u =
    (rmo_bgp_update m cfg = Inr u \<or>
     (\<exists>err. rmo_bgp_update m cfg = Inl err \<and>
       rmo_bgp_update m (cfg\<lparr>sc_four_octet_asns := \<not> sc_four_octet_asns cfg\<rparr>) = Inr u))"

lemma parses_to_loop:
  assumes "parses_to m cfg u"
  obtains cfg' retry where "parse_loop (rmo_bgp_update m) cfg [] None = Inr (cfg', u, retry)"
  using assms unfolding parses_to_def alternate_def [symmetric] parse_loop_eq by (auto split: sum.splits)

lemma route_monitoring_known:
  fixes pre :: "pph \<Rightarrow> bgp_update \<Rightarrow> 'c peering_details \<Rightarrow> world \<Rightarrow>
     (('c, 'osm, 'rtr) processing_result + 'c peering_details) \<times> world"
  assumes "hm_get (peers_of d) (rmo_pph m) = Some p" and "parses_to m (ps_session_config p) u"
  obtains d2 w2 where "touched d d2" and "quiet w w2"
    and "\<And>k. map_option ps_pending_eors (hm_get (peers_of d2) k) = map_option ps_pending_eors (hm_get (peers_of d) k)"
    and "route_monitoring env into pre received m d w =
      (case pre (rmo_pph m) u d2 w2 of
        (Inl res, w) \<Rightarrow> Some (res, w)
      | (Inr d, w) \<Rightarrow> Some (emit_routes env into received m u d w))"
proof -
  obtain cfg' retry where l: "parse_loop (rmo_bgp_update m) (ps_session_config p) [] None = Inr (cfg', u, retry)"
    using assms(2) by (rule parses_to_loop)
  define d2 where "d2 = (case retry of None \<Rightarrow> d
    | Some err \<Rightarrow> with_peers (snd (update_peer_config env (rmo_pph m) cfg' (peers_of d))) d)"
  define w2 where "w2 = (case retry of None \<Rightarrow> w
    | Some err \<Rightarrow> on_metrics (sr_parse_soft_fail (sd_router_id d) err (Some (rmo_raw m))) w)"
  have cfg: "get_peer_config (peers_of d) (rmo_pph m) = Some (ps_session_config p)"
    using assms(1) by (simp add: get_peer_config_def)
  show thesis
  proof (rule that [of d2 w2])
    show "touched d d2" "quiet w w2"
      by (auto simp: d2_def w2_def intro: touched_with_peers update_peer_config_same split: option.splits)
    show "map_option ps_pending_eors (hm_get (peers_of d2) k) = map_option ps_pending_eors (hm_get (peers_of d) k)" for k
      by (auto simp: d2_def update_peer_config_def assms(1) split: option.splits)
    show "route_monitoring env into pre received m d w =
      (case pre (rmo_pph m) u d2 w2 of
        (Inl res, w) \<Rightarrow> Some (res, w)
      | (Inr d, w) \<Rightarrow> Some (emit_routes env into received m u d w))"
      using l
      by (cases retry) (simp_all add: route_monitoring_def resolve_known [OF cfg] d2_def w2_def del: parse_loop.simps)
  qed
qed

lemma updating_continues: "\<exists>d' w'. updating_preprocessing env h u d w = (Inr d', w')"
  by (auto simp: updating_preprocessing_def Let_def split: option.splits prod.splits)

text \<open>
  In the Updating state a Route Monitoring message of a peer that is up turns into exactly
  the routes of its UPDATE: the announcements as active routes in their order, then the
  withdrawals, all under the ingress id of the peer. The UPDATE is parsed with the session's
  configuration and, if that fails, with the four-octet-AS flag inverted.
\<close>

lemma updating_emits_routes:
  fixes d :: "'c peering_details"
  assumes "hm_get (peers_of d) (rmo_pph m) = Some p"
    and "parses_to m (ps_session_config p) u"
    and "explode_announcements u = Some reach" and "explode_withdrawals u = Some unreach"
    and "bu_announcements_vec u = Some anns"
  shows "\<exists>d' w'. (process_msg env received (RouteMonitoring m) (SM_Updating d) w ::
      (('c, 'osm, 'rtr) processing_result \<times> world) option) =
    Some ((RoutingUpdate (Bulk
        (map (mk_payload received (ps_ingress_id p) Active) reach @
         map (mk_payload received (ps_ingress_id p) Withdrawn) unreach)), SM_Updating d'), w') \<and>
    w_reg w' = w_reg w"
proof -
  define pre :: "pph \<Rightarrow> bgp_update \<Rightarrow> 'c peering_details \<Rightarrow> world \<Rightarrow>
     (('c, 'osm, 'rtr) processing_result + 'c peering_details) \<times> world" where "pre = updating_preprocessing env"
  obtain d2 w2 where t: "touched d d2" and q: "quiet w w2"
    and rm: "route_monitoring env SM_Updating pre received m d w =
      (case pre (rmo_pph m) u d2 w2 of
        (Inl res, w) \<Rightarrow> Some (res, w)
      | (Inr d, w) \<Rightarrow> Some (emit_routes env SM_Updating received m u d w))"
    using route_monitoring_known [OF assms(1,2)] by blast
  obtain d3 w3 where p: "pre (rmo_pph m) u d2 w2 = (Inr d3, w3)"
    unfolding pre_def using updating_continues by blast
  have "mild pre" unfolding pre_def by (rule updating_mild)
  note pm = mildD [OF this p]
  have t3: "touched d d3" by (rule touched_trans [OF t pm(2) [OF refl]])
  have ident: "get_peer_ingress_id (peers_of d3) (rmo_pph m) = Some (ps_ingress_id p)"
    using touched_id [OF t3] assms(1) by (simp add: get_peer_ingress_id_def)
  obtain mt :: "('osm, 'rtr) message_type" and st w' where e: "emit_routes env SM_Updating received m u d3 w3 = ((mt, st), w')"
    by (metis prod.exhaust)
  obtain d' where d': "st = SM_Updating d'" using emit_routes_spec(2) [OF e] by blast
  have "mt = RoutingUpdate (Bulk (map (mk_payload received (ps_ingress_id p) Active) reach @
         map (mk_payload received (ps_ingress_id p) Withdrawn) unreach))"
    using emit_routes_spec(1) [OF e] assms(3-5) ident by (simp add: route_result_def)
  moreover have "w_reg w' = w_reg w"
    using q pm(1) emit_routes_spec(3) [OF e] by (simp add: quiet_def)
  ultimately show ?thesis
    using rm p e d' by (simp add: process_msg_def updating_process_msg_def pre_def)
qed

definition plain_prefix :: prefix where
  "plain_prefix = \<lparr>pfx_addr = V4 0, pfx_len = 8\<rparr>"

definition plain_update :: bgp_update where
  "plain_update =
    \<lparr>bu_ppi = False, bu_path_attributes = Some (False, [1]),
     bu_announcements = Some [Some (N_Ipv4Unicast plain_prefix), Some (N_Unsupported Ipv4Unicast)],
     bu_withdrawals = Some [Some (N_Ipv4Multicast plain_prefix)],
     bu_announcements_vec = Some [N_Ipv4Unicast plain_prefix, N_Unsupported Ipv4Unicast],
     bu_is_eor = Some None\<rparr>"

text \<open>Parses only with two-octet AS numbers, although the session negotiated four.\<close>

definition plain_route_mon :: "unit route_mon_msg" where
  "plain_route_mon =
    \<lparr>rmo_pph = plain_pph,
     rmo_bgp_update = (\<lambda>cfg. if sc_four_octet_asns cfg then Inl [] else Inr plain_update),
     rmo_raw = []\<rparr>"

lemma plain_up_peer: "hm_get (peers_of plain_up) plain_pph = Some plain_peer"
  by (simp add: plain_up_def hm_get_def)

lemma plain_parses: "parses_to plain_route_mon (ps_session_config plain_peer) plain_update"
  by (simp add: parses_to_def plain_route_mon_def plain_peer_def new_peer_def plain_config_def)

lemma map_option_all:
  assumes "\<And>k. map_option f (g k) = map_option f (g' k)"
  shows "(\<forall>k q. g k = Some q \<longrightarrow> P k (f q)) \<longleftrightarrow> (\<forall>k q. g' k = Some q \<longrightarrow> P k (f q))"
proof -
  have "(\<forall>q. g k = Some q \<longrightarrow> P k (f q)) \<longleftrightarrow> (\<forall>q. g' k = Some q \<longrightarrow> P k (f q))" for k
    using assms [of k] by (cases "g k"; cases "g' k") auto
  then show ?thesis by blast
qed

lemma remove_pending_eor_last:
  assumes "hm_wf ps" and "remove_pending_eor env h a ps = (last_one, ps')" and "hm_get ps h \<noteq> None"
  shows "last_one \<longleftrightarrow> (\<forall>k q. hm_get ps k = Some q \<longrightarrow>
    set (ps_pending_eors q) \<subseteq> (if k = h then {eor_properties_new env k a} else {}))"
proof -
  obtain p where p: "hm_get ps h = Some p" using assms(3) by auto
  let ?p = "p\<lparr>ps_pending_eors := removeAll (eor_properties_new env h a) (ps_pending_eors p)\<rparr>"
  have ps': "ps' = hm_insert h ?p ps" and l: "last_one \<longleftrightarrow> (\<forall>x \<in> set ps'. ps_pending_eors (snd x) = [])"
    using assms(2) p by (auto simp: remove_pending_eor_def Let_def list_all_iff)
  have wf: "hm_wf ps'" using ps' assms(1) by simp
  have "last_one \<longleftrightarrow> (\<forall>k q. hm_get ps' k = Some q \<longrightarrow> ps_pending_eors q = [])"
    unfolding l using hm_entries_get [OF wf] by (metis prod.collapse snd_conv)
  also have "\<dots> \<longleftrightarrow> (\<forall>k q. hm_get ps k = Some q \<longrightarrow>
      set (ps_pending_eors q) \<subseteq> (if k = h then {eor_properties_new env k a} else {}))"
  proof -
    have "ps_pending_eors ?p = [] \<longleftrightarrow> set (ps_pending_eors p) \<subseteq> {eor_properties_new env h a}"
      by (auto simp: removeAll_filter_not_eq filter_empty_conv)
    then show ?thesis using ps' p by (auto split: if_splits)
  qed
  finally show ?thesis .
qed


definition eor_update :: bgp_update where
  "eor_update =
    \<lparr>bu_ppi = True, bu_path_attributes = Some (True, []), bu_announcements = Some [],
     bu_withdrawals = Some [], bu_announcements_vec = Some [], bu_is_eor = Some (Some Ipv4Unicast)\<rparr>"

definition eor_route_mon :: "unit route_mon_msg" where
  "eor_route_mon = \<lparr>rmo_pph = plain_pph, rmo_bgp_update = (\<lambda>_. Inr eor_update), rmo_raw = []\<rparr>"




end
