(* ===== verification/Bmp_Station.thy ===== *)
theory Bmp_Station
  imports Bmp_Fsm
begin

text \<open>
  The BMP input unit (src/units/bmp_tcp_in): the connection handler of router_handler.rs, the
  accept loop of unit.rs, and the unit's metrics (metrics.rs, status_reporter.rs).

  A station is the unit with all its connections: the shared world, the connection tasks, the
  maps from ingress ids to the tasks' states, and the log of the updates sent through the
  gate. Its steps are those of the tasks, interleaved in any order with each other and with the
  other users of the ingress register: accept a connection, process one message, settle the
  ingress id after the Initiation message, end a connection, a garbage collection of the RIB
  unit, any other change of the register. A message and the updates it causes are one step, as
  is the end of a connection.

  The roto filter is a parameter: its verdict on a message and the output it queues.
\<close>

subsection \<open>Metrics of the unit\<close>

record router_in_metrics =
  ri_receive_io_errors :: nat
  ri_received :: "nat list"
  ri_processed :: nat
  ri_invalid :: nat

record in_metrics =
  im_accepted :: nat
  im_lost :: nat
  im_routers :: "(ustr, router_in_metrics) hmap"

definition router_in_new :: router_in_metrics where
  "router_in_new =
    \<lparr>ri_receive_io_errors = 0, ri_received = replicate 7 0, ri_processed = 0, ri_invalid = 0\<rparr>"

definition on_in_router ::
  "ustr \<Rightarrow> (router_in_metrics \<Rightarrow> router_in_metrics) \<Rightarrow> in_metrics \<Rightarrow> in_metrics" where
  "on_in_router router_id f im =
    im\<lparr>im_routers := hm_insert router_id
      (f (case hm_get (im_routers im) router_id of None \<Rightarrow> router_in_new | Some m \<Rightarrow> m)) (im_routers im)\<rparr>"

definition listener_connection_accepted :: "in_metrics \<Rightarrow> in_metrics" where
  "listener_connection_accepted im = im\<lparr>im_accepted := im_accepted im + 1\<rparr>"

definition router_connection_lost :: "ustr \<Rightarrow> in_metrics \<Rightarrow> in_metrics" where
  "router_connection_lost router_id im =
    im\<lparr>im_lost := im_lost im + 1, im_routers := hm_remove router_id (im_routers im)\<rparr>"

definition receive_io_error :: "ustr \<Rightarrow> in_metrics \<Rightarrow> in_metrics" where
  "receive_io_error router_id =
    on_in_router router_id (\<lambda>m. m\<lparr>ri_receive_io_errors := ri_receive_io_errors m + 1\<rparr>)"

definition message_received :: "ustr \<Rightarrow> nat \<Rightarrow> in_metrics \<Rightarrow> in_metrics" where
  "message_received router_id code =
    on_in_router router_id (\<lambda>m. m\<lparr>ri_received := (ri_received m)[code := ri_received m ! code + 1]\<rparr>)"

definition message_processed :: "ustr \<Rightarrow> in_metrics \<Rightarrow> in_metrics" where
  "message_processed router_id =
    on_in_router router_id (\<lambda>m. m\<lparr>ri_processed := ri_processed m + 1\<rparr>)"

definition message_processing_failure :: "ustr \<Rightarrow> in_metrics \<Rightarrow> in_metrics" where
  "message_processing_failure router_id =
    on_in_router router_id (\<lambda>m. m\<lparr>ri_invalid := ri_invalid m + 1\<rparr>)"

fun msg_type_code :: "'c bmp_msg \<Rightarrow> nat" where
  "msg_type_code (RouteMonitoring _) = 0"
| "msg_type_code (StatisticsReport _ _) = 1"
| "msg_type_code (PeerDownNotification _ _) = 2"
| "msg_type_code (PeerUpNotification _) = 3"
| "msg_type_code (InitiationMessage _ _) = 4"
| "msg_type_code (TerminationMessage _) = 5"
| "msg_type_code (RouteMirroring _ _) = 6"

subsection \<open>Names of routers\<close>

fun decimal :: "nat \<Rightarrow> ustr" where
  "decimal n = (if n < 10 then [of_nat (48 + n)] else decimal (n div 10) @ [of_nat (48 + n mod 10)])"

declare decimal.simps [simp del]

text \<open>\<open>str::replace\<close> for a pattern that is not empty.\<close>

function str_replace :: "ustr \<Rightarrow> ustr \<Rightarrow> ustr \<Rightarrow> ustr" where
  "str_replace pat rep [] = []"
| "str_replace pat rep (c # cs) =
    (if pat \<noteq> [] \<and> take (length pat) (c # cs) = pat
     then rep @ str_replace pat rep (drop (length pat) (c # cs))
     else c # str_replace pat rep cs)"
  by pat_completeness auto

termination
  by (relation "measure (\<lambda>(_, _, s). length s)") (auto simp: Suc_le_eq)

definition format_source_id :: "ustr \<Rightarrow> ingress_id \<Rightarrow> ustr" where
  "format_source_id template ident =
    str_replace (str ''{router_port}'') (str ''PORT'')
      (str_replace (str ''{router_ip}'') (str ''IP'')
        (str_replace (str ''{sys_name}'') (decimal (unat ident)) template))"

subsection \<open>Connections\<close>

record 'c conn =
  cn_ingress_id :: ingress_id
  cn_state :: "'c bmp_state"
  cn_rebind_resolved :: bool
  cn_checking :: bool
  cn_ignore_post_policy_routes :: bool

record ('c, 'osm, 'rtr) station =
  sn_world :: world
  sn_in_metrics :: in_metrics
  sn_conns :: "(nat, 'c conn) hmap"
  sn_router_states :: "(ingress_id, nat) hmap"
  sn_router_info :: "(ingress_id, nat) hmap"
  sn_out :: "('osm, 'rtr) update list"

record ('c, 'osm) station_env =
  se_machine :: "'c machine_env"
  se_filter :: "'c bmp_msg \<Rightarrow> ingress_id \<Rightarrow> bool \<times> 'osm list"
  se_template :: ustr
  se_unit_ingress_id :: ingress_id

definition check_update_router_id :: "ustr \<Rightarrow> ingress_id \<Rightarrow> 'c bmp_state \<Rightarrow> 'c bmp_state" where
  "check_update_router_id template ident st =
    (case st of
      SM_Dumping v \<Rightarrow>
        (let new_router_id = format_source_id template ident
         in if new_router_id \<noteq> sd_router_id v then SM_Dumping (v\<lparr>sd_router_id := new_router_id\<rparr>) else st)
    | SM_Updating v \<Rightarrow>
        (let new_router_id = format_source_id template ident
         in if new_router_id \<noteq> sd_router_id v then SM_Updating (v\<lparr>sd_router_id := new_router_id\<rparr>) else st)
    | _ \<Rightarrow> st)"

text \<open>
  \<open>RouterHandler::process_msg\<close>: the connection after the message, the world, the metrics and
  the updates sent, or \<open>None\<close> for a panic of the state machine or an aborted one, whose handler
  panics at its next use of the state.
\<close>

definition handle_msg ::
  "('c, 'osm) station_env \<Rightarrow> nat \<Rightarrow> 'c bmp_msg \<Rightarrow> 'c conn \<Rightarrow> world \<Rightarrow> in_metrics \<Rightarrow>
   ('c conn \<times> world \<times> in_metrics \<times> ('osm, 'rtr) update list) option" where
  "handle_msg env received m c w im =
    (let st = cn_state c;
         im = message_received (state_router_id st) (msg_type_code m) im;
         post_policy = (case m of
             RouteMonitoring rm \<Rightarrow> me_is_post_policy (se_machine env) (rmo_pph rm)
           | _ \<Rightarrow> False)
     in if cn_ignore_post_policy_routes c \<and> post_policy then Some (c, w, im, [])
        else
          (case se_filter env m (cn_ingress_id c) of
            (False, osms) \<Rightarrow> Some (c, w, im, [OutputStream osms])
          | (True, osms) \<Rightarrow>
              (let im = message_processed (state_router_id st) im
               in (case process_msg (se_machine env) received m st w of
                    None \<Rightarrow> None
                  | Some ((mt, st'), w') \<Rightarrow>
                      (case mt of
                        InvalidMessage _ _ _ \<Rightarrow>
                          Some (c\<lparr>cn_state := st'\<rparr>, w',
                            message_processing_failure (state_router_id st') im, [OutputStream osms])
                      | StateTransition \<Rightarrow>
                          Some (c\<lparr>cn_state := check_update_router_id (se_template env) (cn_ingress_id c) st'\<rparr>,
                            w', im, [OutputStream osms])
                      | RoutingUpdate u \<Rightarrow>
                          Some (c\<lparr>cn_state := st'\<rparr>, w', im, [OutputStream osms, u])
                      | Other \<Rightarrow>
                          Some (c\<lparr>cn_state := check_update_router_id (se_template env) (cn_ingress_id c) st'\<rparr>,
                            w', im, [OutputStream osms])
                      | MT_Aborted \<Rightarrow> None)))))"

definition router_connected ::
  "('c, 'osm) station_env \<Rightarrow> nat \<Rightarrow> ingress_id \<Rightarrow> ('c, 'osm, 'rtr) station \<Rightarrow>
   'c bmp_state \<times> ('c, 'osm, 'rtr) station" where
  "router_connected env n ident s =
    (bmp_state_new ident (format_source_id (se_template env) ident),
     s\<lparr>sn_router_info := hm_insert ident n (sn_router_info s)\<rparr>)"

definition accept_conn ::
  "('c, 'osm) station_env \<Rightarrow> nat \<Rightarrow> ip_addr \<Rightarrow> bool \<Rightarrow> ('c, 'osm, 'rtr) station \<Rightarrow> ('c, 'osm, 'rtr) station" where
  "accept_conn env n addr ignore_post_policy s =
    (let query = ingress_info_new
           \<lparr>ii_parent_ingress := Some (se_unit_ingress_id env), ii_remote_addr := Some addr,
            ii_ingress_type := Some IT_Bmp\<rparr>;
         (ident, r) = register_id (w_reg (sn_world s));
         s = s\<lparr>sn_world := (sn_world s)\<lparr>w_reg := snd (update_info r ident query)\<rparr>\<rparr>;
         (state_machine, s) = router_connected env n ident s
     in s\<lparr>sn_router_states := hm_insert ident n (sn_router_states s),
          sn_in_metrics := listener_connection_accepted (sn_in_metrics s),
          sn_conns := hm_insert n
            \<lparr>cn_ingress_id = ident, cn_state = state_machine,
             cn_rebind_resolved = False, cn_checking = False,
             cn_ignore_post_policy_routes = ignore_post_policy\<rparr> (sn_conns s)\<rparr>)"

definition deliver_msg ::
  "('c, 'osm) station_env \<Rightarrow> nat \<Rightarrow> 'c bmp_msg \<Rightarrow> nat \<Rightarrow> 'c conn \<Rightarrow> ('c, 'osm, 'rtr) station \<Rightarrow>
   ('c, 'osm, 'rtr) station option" where
  "deliver_msg env received m n c s =
    (case handle_msg env received m c (sn_world s) (sn_in_metrics s) of
      None \<Rightarrow> None
    | Some (c', w, im, us) \<Rightarrow>
        Some (s\<lparr>sn_world := w, sn_in_metrics := im, sn_out := sn_out s @ us,
          sn_conns := hm_insert n (c'\<lparr>cn_checking := True\<rparr>) (sn_conns s)\<rparr>))"

text \<open>The check after each message whether the Initiation message rebound the connection.\<close>

definition check_rebind :: "nat \<Rightarrow> 'c conn \<Rightarrow> ('c, 'osm, 'rtr) station \<Rightarrow> ('c, 'osm, 'rtr) station" where
  "check_rebind n c s =
    (let c = c\<lparr>cn_checking := False\<rparr>;
         resolved_id = state_ingress_id (cn_state c)
     in if cn_rebind_resolved c then s\<lparr>sn_conns := hm_insert n c (sn_conns s)\<rparr>
        else if resolved_id \<noteq> cn_ingress_id c
        then
          let info = hm_take (cn_ingress_id c) (sn_router_info s)
          in s\<lparr>sn_router_states := hm_insert resolved_id n (hm_remove (cn_ingress_id c) (sn_router_states s)),
               sn_router_info :=
                 (case info of (Some ri, m) \<Rightarrow> hm_insert resolved_id ri m | (None, m) \<Rightarrow> m),
               sn_world := (sn_world s)\<lparr>w_reg := snd (reg_remove (w_reg (sn_world s)) (cn_ingress_id c))\<rparr>,
               sn_out := sn_out s @ [IngressReappeared resolved_id],
               sn_conns := hm_insert n (c\<lparr>cn_ingress_id := resolved_id, cn_rebind_resolved := True\<rparr>) (sn_conns s)\<rparr>
        else if state_idx (cn_state c) \<noteq> Idx_Initiating
        then s\<lparr>sn_conns := hm_insert n (c\<lparr>cn_rebind_resolved := True\<rparr>) (sn_conns s)\<rparr>
        else s\<lparr>sn_conns := hm_insert n c (sn_conns s)\<rparr>)"

definition end_conn ::
  "('c, 'osm) station_env \<Rightarrow> nat \<Rightarrow> 'c conn \<Rightarrow> ('c, 'osm, 'rtr) station \<Rightarrow> ('c, 'osm, 'rtr) station" where
  "end_conn env n c s =
    (let r = snd (update_info (w_reg (sn_world s)) (cn_ingress_id c)
               (with_state Disconnected ingress_info_new));
         (entries, r) = state_disconnect (se_machine env) (cn_state c) r
     in s\<lparr>sn_in_metrics := router_connection_lost (state_router_id (cn_state c)) (sn_in_metrics s),
          sn_world := (sn_world s)\<lparr>w_reg := r\<rparr>,
          sn_out := sn_out s @ [WithdrawBulk entries, UpstreamStatusChange (cn_ingress_id c)],
          sn_router_states := hm_remove (cn_ingress_id c) (sn_router_states s),
          sn_router_info := hm_remove (cn_ingress_id c) (sn_router_info s),
          sn_conns := hm_remove n (sn_conns s)\<rparr>)"

subsection \<open>The unit as a transition system\<close>

definition conn_held :: "'c conn \<Rightarrow> ingress_id set" where
  "conn_held c = insert (cn_ingress_id c) (held (cn_state c))"

definition conn_peers :: "'c conn \<Rightarrow> ingress_id set" where
  "conn_peers c = peer_ids (state_peers (cn_state c))"

text \<open>
  \<open>others\<close>: the other users of the register change it as they like, except for entries that a
  connection of this unit holds.
\<close>

inductive station_step ::
  "('c, 'osm) station_env \<Rightarrow> ('c, 'osm, 'rtr) station \<Rightarrow> ('c, 'osm, 'rtr) station \<Rightarrow> bool"
  for env where
  accept: "\<lbrakk>hm_get (sn_conns s) n = None; reg_room (w_reg (sn_world s))\<rbrakk> \<Longrightarrow>
    station_step env s (accept_conn env n addr ign s)"
| deliver: "\<lbrakk>hm_get (sn_conns s) n = Some c; \<not> cn_checking c; reg_room (w_reg (sn_world s));
    deliver_msg env received m n c s = Some s'\<rbrakk> \<Longrightarrow> station_step env s s'"
| rebind: "\<lbrakk>hm_get (sn_conns s) n = Some c; cn_checking c\<rbrakk> \<Longrightarrow>
    station_step env s (check_rebind n c s)"
| io_error: "hm_get (sn_conns s) n = Some c \<Longrightarrow>
    station_step env s (s\<lparr>sn_in_metrics := receive_io_error (state_router_id (cn_state c)) (sn_in_metrics s)\<rparr>)"
| closed: "\<lbrakk>hm_get (sn_conns s) n = Some c; \<not> cn_checking c\<rbrakk> \<Longrightarrow>
    station_step env s (end_conn env n c s)"
| gc: "station_step env s
    (s\<lparr>sn_world := (sn_world s)\<lparr>w_reg := snd (remove_if_disconnected (w_reg (sn_world s)) ident)\<rparr>\<rparr>)"
| others: "\<lbrakk>reg_wf r; \<And>n c j. hm_get (sn_conns s) n = Some c \<Longrightarrow> j \<in> conn_held c \<Longrightarrow>
      reg_get r j = reg_get (w_reg (sn_world s)) j\<rbrakk> \<Longrightarrow>
    station_step env s (s\<lparr>sn_world := (sn_world s)\<lparr>w_reg := r\<rparr>\<rparr>)"

definition station_start :: "register \<Rightarrow> bmp_metrics \<Rightarrow> ('c, 'osm, 'rtr) station" where
  "station_start r ms =
    \<lparr>sn_world = \<lparr>w_reg = r, w_metrics = ms\<rparr>,
     sn_in_metrics = \<lparr>im_accepted = 0, im_lost = 0, im_routers = []\<rparr>,
     sn_conns = [], sn_router_states = [], sn_router_info = [], sn_out = []\<rparr>"

inductive station_reach ::
  "('c, 'osm) station_env \<Rightarrow> ('c, 'osm, 'rtr) station \<Rightarrow> bool" for env where
  start: "reg_wf r \<Longrightarrow> station_reach env (station_start r ms)"
| step: "station_reach env s \<Longrightarrow> station_step env s s' \<Longrightarrow> station_reach env s'"

text \<open>
  The ids under which routes are exposed downstream: announced and not withdrawn since.
\<close>

definition live_after :: "ingress_id set \<Rightarrow> ('osm, 'rtr) update \<Rightarrow> ingress_id set" where
  "live_after L u = (L \<union> announces (RoutingUpdate u)) - withdraws (RoutingUpdate u)"

definition live :: "('osm, 'rtr) update list \<Rightarrow> ingress_id set" where
  "live us = foldl live_after {} us"

lemma live_append: "live (us @ vs) = foldl live_after (live us) vs"
  by (simp add: live_def)

subsection \<open>Invariant\<close>

definition conn_ok :: "'c conn \<Rightarrow> register \<Rightarrow> bool" where
  "conn_ok c r =
    (session_ok (cn_state c) r \<and>
     (cn_ingress_id c = state_ingress_id (cn_state c) \<or>
      (cn_checking c \<and> \<not> cn_rebind_resolved c \<and> state_idx (cn_state c) \<noteq> Idx_Initiating \<and>
       (\<exists>i. reg_get r (cn_ingress_id c) = Some i \<and> provisional_entry i))) \<and>
     (state_idx (cn_state c) = Idx_Initiating \<longrightarrow> \<not> cn_rebind_resolved c))"

definition conns_ok :: "(nat, 'c conn) hmap \<Rightarrow> register \<Rightarrow> bool" where
  "conns_ok cs r =
    (reg_wf r \<and>
     (\<forall>n c. hm_get cs n = Some c \<longrightarrow> conn_ok c r) \<and>
     (\<forall>n c n' c'. hm_get cs n = Some c \<longrightarrow> hm_get cs n' = Some c' \<longrightarrow> n \<noteq> n' \<longrightarrow>
        conn_held c \<inter> conn_held c' = {}))"

definition keyed_ok :: "(ingress_id, nat) hmap \<Rightarrow> (nat, 'c conn) hmap \<Rightarrow> bool" where
  "keyed_ok m cs = (\<forall>i n. hm_get m i = Some n \<longleftrightarrow> (\<exists>c. hm_get cs n = Some c \<and> cn_ingress_id c = i))"

definition up_ids :: "(nat, 'c conn) hmap \<Rightarrow> ingress_id set" where
  "up_ids cs = {j. \<exists>n c. hm_get cs n = Some c \<and> j \<in> conn_peers c}"

definition station_ok :: "('c, 'osm, 'rtr) station \<Rightarrow> bool" where
  "station_ok s =
    (conns_ok (sn_conns s) (w_reg (sn_world s)) \<and>
     keyed_ok (sn_router_states s) (sn_conns s) \<and> keyed_ok (sn_router_info s) (sn_conns s) \<and>
     live (sn_out s) \<subseteq> up_ids (sn_conns s))"

lemma session_ok_cong:
  assumes ok: "session_ok st r" and same: "\<And>j. j \<in> held st \<Longrightarrow> reg_get r' j = reg_get r j"
  shows "session_ok st r'"
proof -
  have "peers_ok (state_peers st) r" using ok by (simp add: session_ok_def)
  then have "peers_ok (state_peers st) r'" by (rule peers_ok_cong) (simp add: same held_def)
  moreover have "reg_get r' (state_ingress_id st) = reg_get r (state_ingress_id st)"
    using same by (simp add: held_def)
  ultimately show ?thesis using ok by (simp add: session_ok_def)
qed

lemma conn_ok_cong:
  assumes "conn_ok c r" and "\<And>j. j \<in> conn_held c \<Longrightarrow> reg_get r' j = reg_get r j"
  shows "conn_ok c r'"
  using assms session_ok_cong [of "cn_state c" r r'] by (auto simp: conn_ok_def conn_held_def)

lemma conn_held_protected:
  assumes "conn_ok c r" and "j \<in> conn_held c"
  obtains i where "reg_get r j = Some i" and "protected i"
proof (cases "j \<in> held (cn_state c)")
  case True
  then show thesis using held_protected [of "cn_state c" r j] assms that by (auto simp: conn_ok_def)
next
  case False
  then have "j = cn_ingress_id c" "cn_ingress_id c \<noteq> state_ingress_id (cn_state c)"
    using assms(2) by (auto simp: conn_held_def held_def)
  then obtain i where "reg_get r j = Some i" "provisional_entry i" using assms(1) by (auto simp: conn_ok_def)
  then show thesis using that by (simp add: provisional_entry_def protected_def)
qed

text \<open>
  One connection's step, given its guarantee, keeps all connections in order; the same with the
  connection gone.
\<close>

lemma reg_guarD:
  "\<lbrakk>reg_guar H r H' r'; reg_get r j = Some i; protected i; j \<notin> H\<rbrakk> \<Longrightarrow> reg_get r' j = Some i \<and> j \<notin> H'"
  unfolding reg_guar_def by blast

lemma conn_unaffected:
  assumes ok2: "conn_ok c2 r" and disj: "conn_held c2 \<inter> H = {}" and g: "reg_guar H r H' r'"
  shows "conn_ok c2 r'" and "conn_held c2 \<inter> H' = {}"
proof -
  have keep: "reg_get r' j = reg_get r j \<and> j \<notin> H'" if j: "j \<in> conn_held c2" for j
  proof -
    obtain i where i: "reg_get r j = Some i" "protected i" by (rule conn_held_protected [OF ok2 j])
    have "j \<notin> H" using disj j by auto
    then show ?thesis using reg_guarD [OF g i] i(1) by simp
  qed
  show "conn_ok c2 r'" by (rule conn_ok_cong [OF ok2]) (simp add: keep)
  show "conn_held c2 \<inter> H' = {}" using keep by auto
qed

lemma conns_ok_update:
  assumes ok: "conns_ok cs r" and c: "hm_get cs n = Some c" and c': "conn_ok c' r'"
    and g: "reg_guar (conn_held c) r (conn_held c') r'"
  shows "conns_ok (hm_insert n c' cs) r'"
proof -
  have other: "conn_ok c2 r' \<and> conn_held c2 \<inter> conn_held c' = {}"
    if n: "n2 \<noteq> n" and c2: "hm_get cs n2 = Some c2" for n2 c2
  proof -
    have ok2: "conn_ok c2 r" and disj: "conn_held c2 \<inter> conn_held c = {}"
      using ok n c c2 by (auto simp: conns_ok_def)
    show ?thesis using conn_unaffected [OF ok2 disj g] by simp
  qed
  show ?thesis
    unfolding conns_ok_def
  proof (intro conjI allI impI)
    show "reg_wf r'" using g by (simp add: reg_guar_def)
    fix n1 c1 assume c1: "hm_get (hm_insert n c' cs) n1 = Some c1"
    then show "conn_ok c1 r'" using c' other by (auto split: if_splits)
    fix n2 c2 assume c2: "hm_get (hm_insert n c' cs) n2 = Some c2" and "n1 \<noteq> n2"
    show "conn_held c1 \<inter> conn_held c2 = {}"
    proof (cases "n1 = n \<or> n2 = n")
      case True
      then show ?thesis using c1 c2 \<open>n1 \<noteq> n2\<close> other [of n1 c1] other [of n2 c2]
        by (auto split: if_splits simp: Int_commute)
    next
      case False
      then show ?thesis using c1 c2 \<open>n1 \<noteq> n2\<close> ok unfolding conns_ok_def by (simp; blast)
    qed
  qed
qed

lemma conns_ok_remove:
  assumes ok: "conns_ok cs r" and c: "hm_get cs n = Some c" and g: "reg_guar (conn_held c) r {} r'"
  shows "conns_ok (hm_remove n cs) r'"
  unfolding conns_ok_def
proof (intro conjI allI impI)
  show "reg_wf r'" using g by (simp add: reg_guar_def)
  fix n1 c1 assume "hm_get (hm_remove n cs) n1 = Some c1"
  then have c1: "n1 \<noteq> n" "hm_get cs n1 = Some c1" by (auto split: if_splits)
  then have ok1: "conn_ok c1 r" and "conn_held c1 \<inter> conn_held c = {}" using ok c by (auto simp: conns_ok_def)
  then show "conn_ok c1 r'" using conn_unaffected(1) [OF _ _ g] by blast
  fix n2 c2 assume "hm_get (hm_remove n cs) n2 = Some c2" and "n1 \<noteq> n2"
  then have "hm_get cs n2 = Some c2" by (auto split: if_splits)
  then show "conn_held c1 \<inter> conn_held c2 = {}" using ok c1 \<open>n1 \<noteq> n2\<close> unfolding conns_ok_def by blast
qed

subsection \<open>One message\<close>

lemma check_update_simps [simp]:
  "state_peers (check_update_router_id t i st) = state_peers st"
  "state_ingress_id (check_update_router_id t i st) = state_ingress_id st"
  "state_idx (check_update_router_id t i st) = state_idx st"
  "entry_of (check_update_router_id t i st) = entry_of st"
  by (cases st; simp add: check_update_router_id_def peers_of_def Let_def fun_eq_iff)+

lemma session_ok_check_update [simp]: "session_ok (check_update_router_id t i st) r = session_ok st r"
  by (simp add: session_ok_def)

text \<open>
  The connection after a message, with its new state up to the router id, is in order while the
  check for a rebind is pending.
\<close>

lemma conn_ok_after:
  assumes ok: "conn_ok c (w_reg w)" and chk: "\<not> cn_checking c"
    and g: "good_step (cn_state c) w mt st' w'"
    and st: "state_peers st'' = state_peers st'" "state_ingress_id st'' = state_ingress_id st'"
      "state_idx st'' = state_idx st'" "entry_of st'' = entry_of st'"
  shows "conn_ok (c\<lparr>cn_state := st'', cn_checking := True\<rparr>) (w_reg w')"
    and "reg_guar (conn_held c) (w_reg w) (conn_held (c\<lparr>cn_state := st'', cn_checking := True\<rparr>)) (w_reg w')"
proof -
  have ident: "cn_ingress_id c = state_ingress_id (cn_state c)" using ok chk by (simp add: conn_ok_def)
  have fs: "fsm_step (cn_state c) w st' w'" and mf: "may_follow (state_idx (cn_state c)) (state_idx st')"
    using g by (simp_all add: good_step_def)
  have "session_ok st'' (w_reg w')" using fs st by (simp add: fsm_step_def session_ok_def)
  moreover have "\<not> cn_rebind_resolved c" if "state_idx st' = Idx_Initiating"
    using mf that ok by (cases "state_idx (cn_state c)") (simp_all add: conn_ok_def)
  moreover have "\<not> cn_rebind_resolved c \<and> state_idx st' \<noteq> Idx_Initiating \<and>
      (\<exists>i. reg_get (w_reg w') (cn_ingress_id c) = Some i \<and> provisional_entry i)"
    if ne: "state_ingress_id st' \<noteq> cn_ingress_id c"
  proof -
    obtain v where v: "cn_state c = SM_Initiating v" and idx: "state_idx st' \<noteq> Idx_Initiating"
      and same: "reg_get (w_reg w') (cn_ingress_id c) = reg_get (w_reg w) (cn_ingress_id c)"
      using fs ne ident by (auto simp: fsm_step_def)
    show ?thesis using ok v ident same idx by (simp add: conn_ok_def session_ok_def)
  qed
  ultimately show "conn_ok (c\<lparr>cn_state := st'', cn_checking := True\<rparr>) (w_reg w')"
    using st by (auto simp: conn_ok_def)
  have "held st'' = held st'" using st by (simp add: held_def)
  moreover have "conn_held c = held (cn_state c)" and "cn_ingress_id c \<in> held (cn_state c)"
    using ident by (auto simp: conn_held_def held_def)
  ultimately show "reg_guar (conn_held c) (w_reg w) (conn_held (c\<lparr>cn_state := st'', cn_checking := True\<rparr>)) (w_reg w')"
    using fs by (auto simp: fsm_step_def reg_guar_def conn_held_def)
qed

definition exposes :: "'c conn \<Rightarrow> ('osm, 'rtr) update list \<Rightarrow> 'c conn \<Rightarrow> bool" where
  "exposes c us c' = (\<forall>L. foldl live_after L us \<subseteq> (L - conn_peers c) \<union> conn_peers c')"

lemma covered_exposes:
  assumes "covered (cn_state c) (RoutingUpdate u) st'" and "state_peers (cn_state c') = state_peers st'"
  shows "exposes c [OutputStream osms, u] c'"
  using assms by (auto simp: exposes_def covered_def live_after_def conn_peers_def)

lemma silent_exposes:
  assumes "covered (cn_state c) mt st'" and "withdraws mt = {}" and "state_peers (cn_state c') = state_peers st'"
  shows "exposes c [OutputStream osms] c'"
  using assms by (auto simp: exposes_def covered_def live_after_def conn_peers_def)

lemma handle_msg_good:
  assumes ok: "conn_ok c (w_reg w)" and chk: "\<not> cn_checking c" and wf: "reg_wf (w_reg w)" and room: "reg_room (w_reg w)"
  obtains c' w' im' and us :: "('osm, 'rtr) update list"
  where "handle_msg env received m c w im = Some (c', w', im', us)"
    and "conn_ok (c'\<lparr>cn_checking := True\<rparr>) (w_reg w')"
    and "reg_guar (conn_held c) (w_reg w) (conn_held (c'\<lparr>cn_checking := True\<rparr>)) (w_reg w')"
    and "cn_ingress_id c' = cn_ingress_id c" and "exposes c us (c'\<lparr>cn_checking := True\<rparr>)"
proof -
  have idle: "good_step (cn_state c) w (Other :: ('osm, 'rtr) message_type) (cn_state c) w"
    using quiet_session [of "cn_state c" w w] ok wf
    by (cases "cn_state c") (auto simp: good_step_def covered_def conn_ok_def quiet_def)
  obtain pass osms where f: "se_filter env m (cn_ingress_id c) = (pass, osms)" by force
  obtain mt :: "('osm, 'rtr) message_type" and st' w'
    where p: "process_msg (se_machine env) received m (cn_state c) w = Some ((mt, st'), w')"
      and g: "good_step (cn_state c) w mt st' w'"
    using process_msg_good [of "cn_state c" w "se_machine env" received m, where 'osm = 'osm and 'rtr = 'rtr] ok wf room
    unfolding steps_well_def conn_ok_def by blast
  have cov: "covered (cn_state c) mt st'" using g by (simp add: good_step_def)
  note after = conn_ok_after [OF ok chk]
  note eqs = handle_msg_def Let_def f p
  show thesis
  proof (cases "(cn_ignore_post_policy_routes c \<and>
      (case m of RouteMonitoring rm \<Rightarrow> me_is_post_policy (se_machine env) (rmo_pph rm) | _ \<Rightarrow> False)) \<or> \<not> pass")
    case True
    then obtain im' and us :: "('osm, 'rtr) update list" where h: "handle_msg env received m c w im = Some (c, w, im', us)"
      and us: "us = [] \<or> us = [OutputStream osms]"
      by (cases "cn_ignore_post_policy_routes c \<and>
        (case m of RouteMonitoring rm \<Rightarrow> me_is_post_policy (se_machine env) (rmo_pph rm) | _ \<Rightarrow> False)") (auto simp: eqs)
    have "exposes c us (c\<lparr>cn_checking := True\<rparr>)"
      using us by (auto simp: exposes_def live_after_def conn_peers_def)
    then show thesis using h after [OF idle, of "cn_state c"] by (intro that [OF h]) simp_all
  next
    case False
    then have run: "\<not> (cn_ignore_post_policy_routes c \<and>
      (case m of RouteMonitoring rm \<Rightarrow> me_is_post_policy (se_machine env) (rmo_pph rm) | _ \<Rightarrow> False))" "pass" by auto
    let ?upd = "check_update_router_id (se_template env) (cn_ingress_id c) st'"
    note fin = after [OF g, of st'] after [OF g, of ?upd]
    let ?im = "message_processed (state_router_id (cn_state c))
      (message_received (state_router_id (cn_state c)) (msg_type_code m) im)"
    have h: "handle_msg env received m c w im =
      (case mt of
        InvalidMessage _ _ _ \<Rightarrow> Some (c\<lparr>cn_state := st'\<rparr>, w', message_processing_failure (state_router_id st') ?im, [OutputStream osms])
      | RoutingUpdate u \<Rightarrow> Some (c\<lparr>cn_state := st'\<rparr>, w', ?im, [OutputStream osms, u])
      | MT_Aborted \<Rightarrow> None
      | _ \<Rightarrow> Some (c\<lparr>cn_state := ?upd\<rparr>, w', ?im, [OutputStream osms]))"
      using run by (auto simp: eqs split: message_type.splits)
    have silent: "exposes c [OutputStream osms] (c\<lparr>cn_state := st'', cn_checking := True\<rparr>)"
      if "\<forall>u. mt \<noteq> RoutingUpdate u" "st'' = st' \<or> st'' = ?upd" for st''
      using that by (intro silent_exposes [OF cov]) (cases mt; auto)+
    show thesis
    proof (cases mt)
      case (RoutingUpdate u)
      then show thesis
        using h fin covered_exposes [of c u st' "c\<lparr>cn_state := st', cn_checking := True\<rparr>" osms] cov
        by (intro that [of "c\<lparr>cn_state := st'\<rparr>"]) simp_all
    next
      case MT_Aborted
      then show thesis using cov by (simp add: covered_def)
    next
      case (InvalidMessage k b err)
      then show thesis using h fin silent [of st'] by (intro that [of "c\<lparr>cn_state := st'\<rparr>"]) simp_all
    qed (use h fin silent [of ?upd] in \<open>intro that [of "c\<lparr>cn_state := ?upd\<rparr>"]; simp\<close>)+
  qed
qed

subsection \<open>The invariant is kept\<close>

lemma conns_okD:
  assumes "conns_ok cs r" and "hm_get cs n = Some c"
  shows "conn_ok c r"
  using assms by (auto simp: conns_ok_def)

lemma conns_ok_disjoint:
  assumes "conns_ok cs r" and "hm_get cs n = Some c" and "hm_get cs n' = Some c'" and "n \<noteq> n'"
  shows "conn_held c \<inter> conn_held c' = {}"
  using assms unfolding conns_ok_def by blast

lemma ids_distinct:
  assumes "conns_ok cs r" and "hm_get cs n = Some c" and "hm_get cs n' = Some c'" and "cn_ingress_id c' \<in> conn_held c"
  shows "n = n'"
  using conns_ok_disjoint [OF assms(1-3)] assms(4) by (auto simp: conn_held_def)

text \<open>The tables by ingress id, when one connection changes.\<close>

lemma keyed_ok_same:
  assumes "keyed_ok m cs" and "hm_get cs n = Some c" and "cn_ingress_id c' = cn_ingress_id c"
  shows "keyed_ok m (hm_insert n c' cs)"
  using assms by (auto simp: keyed_ok_def)

lemma keyed_ok_move:
  assumes k: "keyed_ok m cs" and c: "hm_get cs n = Some c"
    and fresh: "\<And>n' c'. hm_get cs n' = Some c' \<Longrightarrow> cn_ingress_id c' = cn_ingress_id d \<Longrightarrow> n' = n"
  shows "keyed_ok (hm_insert (cn_ingress_id d) n (hm_remove (cn_ingress_id c) m)) (hm_insert n d cs)"
  unfolding keyed_ok_def
proof (intro allI)
  fix i n'
  have m: "hm_get m i = Some n' \<longleftrightarrow> (\<exists>c. hm_get cs n' = Some c \<and> cn_ingress_id c = i)"
    using k by (simp add: keyed_ok_def)
  have own: "hm_get m (cn_ingress_id c) = Some n" using k c by (auto simp: keyed_ok_def)
  show "hm_get (hm_insert (cn_ingress_id d) n (hm_remove (cn_ingress_id c) m)) i = Some n' \<longleftrightarrow>
      (\<exists>c. hm_get (hm_insert n d cs) n' = Some c \<and> cn_ingress_id c = i)"
  proof (cases "i = cn_ingress_id d")
    case True
    then show ?thesis using fresh [of n'] by (cases "n' = n") auto
  next
    case False
    show ?thesis
    proof (cases "n' = n")
      case True
      then show ?thesis using False m own c by auto
    next
      case ne: False
      then show ?thesis using False m own by auto
    qed
  qed
qed

lemma keyed_ok_new:
  assumes "keyed_ok m cs" and "hm_get cs n = None"
    and "\<And>n' c'. hm_get cs n' = Some c' \<Longrightarrow> cn_ingress_id c' \<noteq> cn_ingress_id d"
  shows "keyed_ok (hm_insert (cn_ingress_id d) n m) (hm_insert n d cs)"
  using assms unfolding keyed_ok_def by (auto split: if_splits)

lemma keyed_ok_remove:
  assumes k: "keyed_ok m cs" and c: "hm_get cs n = Some c"
  shows "keyed_ok (hm_remove (cn_ingress_id c) m) (hm_remove n cs)"
  unfolding keyed_ok_def
proof (intro allI)
  fix i n'
  have m: "hm_get m i = Some n' \<longleftrightarrow> (\<exists>c. hm_get cs n' = Some c \<and> cn_ingress_id c = i)"
    using k by (simp add: keyed_ok_def)
  have own: "hm_get m (cn_ingress_id c) = Some n" using k c by (auto simp: keyed_ok_def)
  show "hm_get (hm_remove (cn_ingress_id c) m) i = Some n' \<longleftrightarrow>
      (\<exists>c'. hm_get (hm_remove n cs) n' = Some c' \<and> cn_ingress_id c' = i)"
    using m own c by (cases "n' = n"; cases "i = cn_ingress_id c") auto
qed

lemma up_idsI: "hm_get cs n = Some c \<Longrightarrow> j \<in> conn_peers c \<Longrightarrow> j \<in> up_ids cs"
  by (auto simp: up_ids_def)

lemma up_ids_update:
  assumes "hm_get cs n = Some c" and "exposes c us c'" and "L \<subseteq> up_ids cs"
  shows "foldl live_after L us \<subseteq> up_ids (hm_insert n c' cs)"
proof
  fix j assume "j \<in> foldl live_after L us"
  then have "j \<in> (L - conn_peers c) \<union> conn_peers c'" using assms(2) unfolding exposes_def by blast
  then show "j \<in> up_ids (hm_insert n c' cs)"
  proof
    assume j: "j \<in> L - conn_peers c"
    then obtain n2 c2 where "hm_get cs n2 = Some c2" "j \<in> conn_peers c2" using assms(3) by (auto simp: up_ids_def)
    moreover have "n2 \<noteq> n" using calculation j assms(1) by auto
    ultimately show ?thesis by (intro up_idsI [of _ n2]) simp_all
  qed (auto intro: up_idsI [of _ n])
qed

lemma up_ids_new:
  assumes "hm_get cs n = None"
  shows "up_ids cs \<subseteq> up_ids (hm_insert n d cs)"
proof
  fix j assume "j \<in> up_ids cs"
  then obtain n2 c2 where c2: "hm_get cs n2 = Some c2" "j \<in> conn_peers c2" by (auto simp: up_ids_def)
  then have "n2 \<noteq> n" using assms by auto
  then show "j \<in> up_ids (hm_insert n d cs)" using c2 by (intro up_idsI [of _ n2]) simp_all
qed

lemma up_ids_remove:
  assumes "hm_get cs n = Some c"
  shows "up_ids cs - conn_peers c \<subseteq> up_ids (hm_remove n cs)"
proof
  fix j assume j: "j \<in> up_ids cs - conn_peers c"
  then obtain n2 c2 where c2: "hm_get cs n2 = Some c2" "j \<in> conn_peers c2" by (auto simp: up_ids_def)
  then have "n2 \<noteq> n" using j assms by auto
  then show "j \<in> up_ids (hm_remove n cs)" using c2 by (intro up_idsI [of _ n2]) simp_all
qed

lemma station_ok_conn_step:
  assumes ok: "station_ok s" and c: "hm_get (sn_conns s) n = Some c"
    and c': "conn_ok c' (w_reg w')" "reg_guar (conn_held c) (w_reg (sn_world s)) (conn_held c') (w_reg w')"
    and us: "exposes c us c'"
    and keyed: "keyed_ok (sn_router_states s') (sn_conns s')" "keyed_ok (sn_router_info s') (sn_conns s')"
    and s': "sn_world s' = w'" "sn_conns s' = hm_insert n c' (sn_conns s)" "sn_out s' = sn_out s @ us"
  shows "station_ok s'"
  using ok conns_ok_update [OF _ c c'] up_ids_update [OF c us] keyed
  by (simp add: station_ok_def s' live_append)

lemma deliver_ok:
  fixes s :: "('c, 'osm, 'rtr) station"
  assumes ok: "station_ok s" and c: "hm_get (sn_conns s) n = Some c" and chk: "\<not> cn_checking c"
    and room: "reg_room (w_reg (sn_world s))"
  shows "\<exists>s'. deliver_msg env received m n c s = Some s' \<and> station_ok s'"
proof -
  have co: "conn_ok c (w_reg (sn_world s))" and wf: "reg_wf (w_reg (sn_world s))"
    using ok c by (auto simp: station_ok_def conns_ok_def)
  obtain c' w' im' and us :: "('osm, 'rtr) update list"
    where h: "handle_msg env received m c (sn_world s) (sn_in_metrics s) = Some (c', w', im', us)"
      and c': "conn_ok (c'\<lparr>cn_checking := True\<rparr>) (w_reg w')"
        "reg_guar (conn_held c) (w_reg (sn_world s)) (conn_held (c'\<lparr>cn_checking := True\<rparr>)) (w_reg w')"
      and ident: "cn_ingress_id c' = cn_ingress_id c" and us: "exposes c us (c'\<lparr>cn_checking := True\<rparr>)"
    by (rule handle_msg_good [OF co chk wf room])
  let ?s = "s\<lparr>sn_world := w', sn_in_metrics := im', sn_out := sn_out s @ us,
    sn_conns := hm_insert n (c'\<lparr>cn_checking := True\<rparr>) (sn_conns s)\<rparr>"
  have "deliver_msg env received m n c s = Some ?s" using h by (simp add: deliver_msg_def)
  moreover have "station_ok ?s"
    using ok keyed_ok_same [OF _ c, of _ "c'\<lparr>cn_checking := True\<rparr>"] ident
    by (intro station_ok_conn_step [OF ok c c' us]) (simp_all add: station_ok_def)
  ultimately show ?thesis by blast
qed

lemma check_rebind_same_ok:
  assumes ok: "station_ok s" and c: "hm_get (sn_conns s) n = Some c"
    and c': "conn_ok c' (w_reg (sn_world s))" "cn_ingress_id c' = cn_ingress_id c" "cn_state c' = cn_state c"
  shows "station_ok (s\<lparr>sn_conns := hm_insert n c' (sn_conns s)\<rparr>)"
proof (rule station_ok_conn_step [OF ok c c'(1), where us = "[]"])
  have "reg_wf (w_reg (sn_world s))" using ok by (simp add: station_ok_def conns_ok_def)
  then show "reg_guar (conn_held c) (w_reg (sn_world s)) (conn_held c') (w_reg (sn_world s))"
    using c' by (intro reg_guar_refl) (simp_all add: conn_held_def)
  show "exposes c [] c'" using c' by (auto simp: exposes_def conn_peers_def)
qed (use ok keyed_ok_same [OF _ c c'(2)] in \<open>simp_all add: station_ok_def\<close>)

lemma session_ok_remove_provisional:
  assumes "session_ok st r" and "reg_get r j = Some i" and "provisional_entry i" and "j \<noteq> state_ingress_id st"
  shows "session_ok st (snd (reg_remove r j))" and "j \<notin> held st"
proof -
  show "j \<notin> held st"
    using assms peers_okD peer_idsE unfolding session_ok_def held_def provisional_entry_def up_entry_def
    by (metis insertE option.discI option.inject)
  then show "session_ok st (snd (reg_remove r j))" by (intro session_ok_cong [OF assms(1)]) auto
qed

lemma rebind_move_ok:
  assumes ok: "station_ok s" and c: "hm_get (sn_conns s) n = Some c"
    and ne: "state_ingress_id (cn_state c) \<noteq> cn_ingress_id c"
  shows "station_ok (check_rebind n c s)"
proof -
  let ?r = "w_reg (sn_world s)"
  have co: "conn_ok c ?r" and wf: "reg_wf ?r" using ok c by (auto simp: station_ok_def conns_ok_def)
  obtain i where i: "reg_get ?r (cn_ingress_id c) = Some i" "provisional_entry i"
    and open': "\<not> cn_rebind_resolved c" and idx: "state_idx (cn_state c) \<noteq> Idx_Initiating" and sess: "session_ok (cn_state c) ?r"
    using co ne by (auto simp: conn_ok_def)
  define d where "d = c\<lparr>cn_checking := False, cn_ingress_id := state_ingress_id (cn_state c), cn_rebind_resolved := True\<rparr>"
  let ?r' = "snd (reg_remove ?r (cn_ingress_id c))"
  note rem = session_ok_remove_provisional [OF sess i] ne
  have d: "conn_ok d ?r'" using rem idx by (simp add: conn_ok_def d_def)
  have guar: "reg_guar (conn_held c) ?r (conn_held d) ?r'"
    using reg_wf_remove [OF wf] by (auto simp: reg_guar_def conn_held_def d_def held_def)
  have ex: "exposes c [IngressReappeared (state_ingress_id (cn_state c))] d"
    by (auto simp: exposes_def live_after_def conn_peers_def d_def)
  have keyed: "keyed_ok (hm_insert (cn_ingress_id d) n (hm_remove (cn_ingress_id c) m)) (hm_insert n d (sn_conns s))"
    if "keyed_ok m (sn_conns s)" for m
  proof (rule keyed_ok_move [OF that c])
    fix n' c' assume "hm_get (sn_conns s) n' = Some c'" and "cn_ingress_id c' = cn_ingress_id d"
    then show "n' = n"
      using ids_distinct [of "sn_conns s" ?r n c n' c'] ok c by (auto simp: station_ok_def conn_held_def d_def held_def)
  qed
  have info: "hm_get (sn_router_info s) (cn_ingress_id c) = Some n"
    using ok c by (auto simp: station_ok_def keyed_ok_def)
  show ?thesis
    using ok keyed ne open' info d guar ex
    by (intro station_ok_conn_step [OF ok c, where c' = d and w' = "(sn_world s)\<lparr>w_reg := ?r'\<rparr>"
          and us = "[IngressReappeared (state_ingress_id (cn_state c))]"])
      (simp_all add: check_rebind_def Let_def d_def hm_take_def station_ok_def)
qed

lemma rebind_ok:
  assumes ok: "station_ok s" and c: "hm_get (sn_conns s) n = Some c"
  shows "station_ok (check_rebind n c s)"
proof (cases "state_ingress_id (cn_state c) = cn_ingress_id c")
  case True
  have co: "conn_ok c (w_reg (sn_world s))" using ok c by (auto simp: station_ok_def conns_ok_def)
  let ?c = "c\<lparr>cn_checking := False\<rparr>"
  have "conn_ok ?c (w_reg (sn_world s))" and
    "state_idx (cn_state c) \<noteq> Idx_Initiating \<Longrightarrow> conn_ok (?c\<lparr>cn_rebind_resolved := True\<rparr>) (w_reg (sn_world s))"
    using co True by (auto simp: conn_ok_def)
  then show ?thesis
    using True check_rebind_same_ok [OF ok c, of ?c] check_rebind_same_ok [OF ok c, of "?c\<lparr>cn_rebind_resolved := True\<rparr>"]
    by (auto simp: check_rebind_def Let_def)
qed (rule rebind_move_ok [OF ok c])

subsubsection \<open>The end of a connection\<close>

lemma state_disconnect_all:
  assumes ok: "session_ok st r" and wf: "reg_wf r" and same: "\<And>j. j \<in> peer_ids (state_peers st) \<Longrightarrow> reg_get r' j = reg_get r j"
    and wf': "reg_wf r'" and d: "state_disconnect env st r' = (entries, r'')"
  shows "reg_guar (peer_ids (state_peers st)) r' {} r''" and "fst ` set entries = peer_ids (state_peers st)"
proof -
  have p: "peers_ok (state_peers st) r'"
    using ok peers_ok_cong [of "state_peers st" r r'] same by (simp add: session_ok_def)
  have "reg_guar (peer_ids (state_peers st)) r' {} r'' \<and> fst ` set entries = peer_ids (state_peers st)"
  proof (cases "state_peers st = []")
    case True
    then have "entries = [] \<and> r'' = r'"
      using d by (cases st) (auto simp: peers_of_def disconnect_into_register_def iterate_def)
    then show ?thesis using True wf' by (auto simp: reg_guar_def peer_ids_def)
  next
    case False
    then have "disconnect_into_register env (state_peers st) r' = (entries, r'')"
      using d by (cases st) (simp_all add: peers_of_def)
    then show ?thesis using disconnect_into_register_all(1,2) [OF p wf'] by blast
  qed
  then show "reg_guar (peer_ids (state_peers st)) r' {} r''" and "fst ` set entries = peer_ids (state_peers st)"
    by blast+
qed

lemma end_conn_ok:
  assumes ok: "station_ok s" and c: "hm_get (sn_conns s) n = Some c" and chk: "\<not> cn_checking c"
  shows "station_ok (end_conn env n c s)"
proof -
  let ?r = "w_reg (sn_world s)"
  let ?r1 = "snd (update_info ?r (cn_ingress_id c) (with_state Disconnected ingress_info_new))"
  have co: "conn_ok c ?r" and wf: "reg_wf ?r" and cs: "conns_ok (sn_conns s) ?r" using ok c by (auto simp: station_ok_def conns_ok_def)
  have ident: "cn_ingress_id c = state_ingress_id (cn_state c)" and sess: "session_ok (cn_state c) ?r"
    using co chk by (auto simp: conn_ok_def)
  obtain entries r2 where d: "state_disconnect (se_machine env) (cn_state c) ?r1 = (entries, r2)" by force
  have "reg_get ?r (cn_ingress_id c) \<noteq> None" using sess ident by (auto simp: session_ok_def)
  then have wf1: "reg_wf ?r1" by (rule reg.upd_ok [OF wf])
  have same: "reg_get ?r1 j = reg_get ?r j" if "j \<in> peer_ids (state_peers (cn_state c))" for j
    using that router_not_peer [OF sess] ident by auto
  note all = state_disconnect_all [OF sess wf same wf1 d]
  have "reg_guar (conn_held c) ?r (peer_ids (state_peers (cn_state c))) ?r1"
    using wf1 by (auto simp: reg_guar_def conn_held_def held_def)
  then have guar: "reg_guar (conn_held c) ?r {} r2" using all(1) by (rule reg_guar_trans)
  have "live (sn_out s @ [WithdrawBulk entries, UpstreamStatusChange (cn_ingress_id c)]) \<subseteq> up_ids (sn_conns s) - conn_peers c"
    using ok all(2) by (auto simp: live_append live_after_def conn_peers_def station_ok_def)
  also have "... \<subseteq> up_ids (hm_remove n (sn_conns s))" by (rule up_ids_remove [OF c])
  finally show ?thesis
    using ok d conns_ok_remove [OF cs c guar] keyed_ok_remove [OF _ c]
    by (simp add: end_conn_def Let_def station_ok_def)
qed

subsubsection \<open>The other steps\<close>

lemma conns_ok_cong:
  assumes ok: "conns_ok cs r" and wf: "reg_wf r'"
    and same: "\<And>n c j. hm_get cs n = Some c \<Longrightarrow> j \<in> conn_held c \<Longrightarrow> reg_get r' j = reg_get r j"
  shows "conns_ok cs r'"
proof -
  have "conn_ok c r'" if c: "hm_get cs n = Some c" for n c
    by (rule conn_ok_cong [OF conns_okD [OF ok c] same [OF c]])
  then show ?thesis using ok wf by (simp add: conns_ok_def)
qed

lemma conn_held_kept:
  assumes ok: "conn_ok c r" and j: "j \<in> conn_held c"
  shows "\<exists>i. reg_get r j = Some i \<and> ii_state i \<noteq> Some Disconnected"
proof (cases "j \<in> peer_ids (state_peers (cn_state c))")
  case True
  then show ?thesis
    using ok peers_okD peer_idsE unfolding conn_ok_def session_ok_def up_entry_def
    by (metis ingress_state.distinct(1) option.inject)
next
  case False
  obtain i where i: "reg_get r (state_ingress_id (cn_state c)) = Some i" "entry_of (cn_state c) i"
    using ok by (auto simp: conn_ok_def session_ok_def)
  then have "ii_state i \<noteq> Some Disconnected"
    by (cases "cn_state c") (simp_all add: router_entry_def provisional_entry_def)
  then show ?thesis
    using False j i(1) ok by (auto simp: conn_ok_def conn_held_def held_def provisional_entry_def)
qed

lemma station_ok_register:
  assumes ok: "station_ok s" and wf: "reg_wf r"
    and same: "\<And>n c j. hm_get (sn_conns s) n = Some c \<Longrightarrow> j \<in> conn_held c \<Longrightarrow>
      reg_get r j = reg_get (w_reg (sn_world s)) j"
  shows "station_ok (s\<lparr>sn_world := (sn_world s)\<lparr>w_reg := r\<rparr>\<rparr>)"
proof -
  have "conns_ok (sn_conns s) (w_reg (sn_world s))" using ok by (simp add: station_ok_def)
  then have "conns_ok (sn_conns s) r" by (rule conns_ok_cong [OF _ wf same])
  then show ?thesis using ok by (simp add: station_ok_def)
qed

lemma gc_ok:
  assumes ok: "station_ok s"
  shows "station_ok (s\<lparr>sn_world := (sn_world s)\<lparr>w_reg := snd (remove_if_disconnected (w_reg (sn_world s)) ident)\<rparr>\<rparr>)"
proof (rule station_ok_register [OF ok])
  let ?r = "w_reg (sn_world s)"
  show "reg_wf (snd (remove_if_disconnected ?r ident))"
    using ok by (intro reg_wf_remove_if_disconnected) (simp add: station_ok_def conns_ok_def)
  fix n c j assume c: "hm_get (sn_conns s) n = Some c" and j: "j \<in> conn_held c"
  have "conn_ok c ?r" using ok c conns_okD by (auto simp: station_ok_def)
  then have "\<exists>i. reg_get ?r j = Some i \<and> ii_state i \<noteq> Some Disconnected" using j by (rule conn_held_kept)
  then show "reg_get (snd (remove_if_disconnected ?r ident)) j = reg_get ?r j"
    by (auto simp: remove_if_disconnected_cases)
qed

lemma accept_ok:
  assumes ok: "station_ok s" and new: "hm_get (sn_conns s) n = None" and room: "reg_room (w_reg (sn_world s))"
  shows "station_ok (accept_conn env n addr ign s)"
proof -
  let ?r = "w_reg (sn_world s)"
  obtain ident r where f: "register_id ?r = (ident, r)" by force
  define q where "q = ingress_info_new\<lparr>ii_parent_ingress := Some (se_unit_ingress_id env),
    ii_remote_addr := Some addr, ii_ingress_type := Some IT_Bmp\<rparr>"
  define d :: "'a conn" where "d = \<lparr>cn_ingress_id = ident,
    cn_state = bmp_state_new ident (format_source_id (se_template env) ident),
    cn_rebind_resolved = False, cn_checking = False, cn_ignore_post_policy_routes = ign\<rparr>"
  let ?r' = "snd (update_info r ident q)"
  have wf: "reg_wf ?r" and cs: "conns_ok (sn_conns s) ?r" using ok by (auto simp: station_ok_def conns_ok_def)
  note fr = reg.fresh_unused [OF wf room f]
  have wf': "reg_wf ?r'" using fr by blast
  have held: "ident \<notin> conn_held c" if "hm_get (sn_conns s) n' = Some c" for n' c
    using conn_held_kept [OF conns_okD [OF cs that], of ident] fr by auto
  have cs': "conns_ok (sn_conns s) ?r'"
    using held fr by (intro conns_ok_cong [OF cs wf']) auto
  have d: "conn_ok d ?r'" "conn_held d = {ident}"
    using fr by (simp_all add: d_def q_def conn_ok_def session_ok_def peers_ok_def bmp_state_new_def
        provisional_entry_def ingress_info_new_def conn_held_def held_def peer_ids_def)
  have "conns_ok (hm_insert n d (sn_conns s)) ?r'"
    using cs' d held new unfolding conns_ok_def by (auto split: if_splits)
  moreover have "keyed_ok (hm_insert ident n m) (hm_insert n d (sn_conns s))" if "keyed_ok m (sn_conns s)" for m
    using keyed_ok_new [OF that new, of d] held by (auto simp: d_def conn_held_def)
  moreover have "up_ids (sn_conns s) \<subseteq> up_ids (hm_insert n d (sn_conns s))"
    by (rule up_ids_new [OF new])
  ultimately show ?thesis
    using ok f by (auto simp: station_ok_def accept_conn_def router_connected_def Let_def d_def q_def)
qed

lemma station_step_ok:
  assumes "station_step env s s'" and "station_ok s"
  shows "station_ok s'"
  using assms
proof cases
  case (deliver n c received m)
  then show ?thesis using deliver_ok [OF assms(2) deliver(1-3), of env received m] by auto
next
  case (io_error n c)
  then show ?thesis using assms(2) by (simp add: station_ok_def)
next
  case (others r)
  then show ?thesis using station_ok_register [OF assms(2)] by blast
qed (use assms(2) accept_ok rebind_ok end_conn_ok gc_ok in blast)+

lemma station_reach_ok:
  assumes "station_reach env s"
  shows "station_ok s"
  using assms
proof induction
  case (start r ms)
  then show ?case by (simp add: station_start_def station_ok_def conns_ok_def keyed_ok_def live_def)
next
  case (step s s')
  then show ?case by (blast intro: station_step_ok)
qed

lemma live_up:
  assumes "station_reach env s" and "j \<in> live (sn_out s)"
  shows "\<exists>n c h p i. hm_get (sn_conns s) n = Some c \<and> hm_get (state_peers (cn_state c)) h = Some p \<and>
    ps_ingress_id p = j \<and> reg_get (w_reg (sn_world s)) j = Some i \<and> ii_state i = Some Connected"
proof -
  have ok: "station_ok s" by (rule station_reach_ok [OF assms(1)])
  then obtain n c where c: "hm_get (sn_conns s) n = Some c" and "j \<in> conn_peers c"
    using assms(2) by (auto simp: station_ok_def up_ids_def)
  then obtain h p where p: "hm_get (state_peers (cn_state c)) h = Some p" "ps_ingress_id p = j"
    unfolding conn_peers_def by (metis peer_idsE)
  have "peers_ok (state_peers (cn_state c)) (w_reg (sn_world s))"
    using ok conns_okD [OF _ c] by (simp add: station_ok_def conn_ok_def session_ok_def)
  then obtain i where "reg_get (w_reg (sn_world s)) (ps_ingress_id p) = Some i" "up_entry i"
    using p(1) by (rule peers_okD)
  then show ?thesis using c p unfolding up_entry_def by blast
qed

subsection \<open>A station to evaluate\<close>

text \<open>A message of connection \<open>n\<close> with the check that follows it.\<close>

definition settled ::
  "('c, 'osm) station_env \<Rightarrow> nat \<Rightarrow> 'c bmp_msg \<Rightarrow> ('c, 'osm, 'rtr) station \<Rightarrow>
   ('c, 'osm, 'rtr) station option" where
  "settled env n m s =
    (case hm_get (sn_conns s) n of
      None \<Rightarrow> None
    | Some c \<Rightarrow>
        (if cn_checking c \<or> \<not> reg_room (w_reg (sn_world s)) then None
         else (case deliver_msg env 0 m n c s of
           None \<Rightarrow> None
         | Some s' \<Rightarrow> map_option (\<lambda>c'. check_rebind n c' s') (hm_get (sn_conns s') n))))"

lemma settled_reach:
  assumes s: "station_reach env s" and m: "settled env n m s = Some s'"
  shows "station_reach env s'"
proof -
  obtain c where c: "hm_get (sn_conns s) n = Some c" "\<not> cn_checking c" "reg_room (w_reg (sn_world s))"
    using m by (auto simp: settled_def split: option.splits if_splits)
  obtain s1 c1 where d: "deliver_msg env 0 m n c s = Some s1" and c1: "hm_get (sn_conns s1) n = Some c1"
    and s': "s' = check_rebind n c1 s1"
    using m c by (auto simp: settled_def split: option.splits if_splits)
  have "cn_checking c1" using d c1 by (auto simp: deliver_msg_def split: option.splits)
  then show ?thesis
    using station_reach.step [OF s station_step.deliver [OF c d]] station_step.rebind [OF c1] s'
    by (blast intro: station_reach.step)
qed

fun settled_all ::
  "('c, 'osm) station_env \<Rightarrow> (nat \<times> 'c bmp_msg) list \<Rightarrow> ('c, 'osm, 'rtr) station \<Rightarrow>
   ('c, 'osm, 'rtr) station option" where
  "settled_all env [] s = Some s"
| "settled_all env ((n, m) # ms) s = (case settled env n m s of None \<Rightarrow> None | Some s' \<Rightarrow> settled_all env ms s')"

lemma settled_all_reach:
  "station_reach env s \<Longrightarrow> settled_all env ms s = Some s' \<Longrightarrow> station_reach env s'"
  by (induction env ms s rule: settled_all.induct) (auto split: option.splits intro: settled_reach)

definition plain_station_env :: "(unit, 'osm) station_env" where
  "plain_station_env =
    \<lparr>se_machine = plain_env, se_filter = (\<lambda>_ _. (True, [])), se_template = str ''{sys_name}'',
     se_unit_ingress_id = 1\<rparr>"

text \<open>Two routers connect, and both announce the same peer and its routes.\<close>

definition plain_accepted :: "(unit, 'osm, 'rtr) station" where
  "plain_accepted =
    accept_conn plain_station_env 1 (V4 2) False
      (accept_conn plain_station_env 0 (V4 1) False (station_start \<lparr>reg_serial = 2, reg_info = []\<rparr> []))"

definition plain_feed :: "(nat \<times> unit bmp_msg) list" where
  "plain_feed =
    [(0, InitiationMessage [] []), (1, InitiationMessage [] []),
     (0, PeerUpNotification plain_peer_up), (1, PeerUpNotification plain_peer_up),
     (1, RouteMonitoring plain_route_mon), (0, RouteMonitoring plain_route_mon)]"

definition plain_station :: "(unit, unit, unit) station" where
  "plain_station = (case settled_all plain_station_env plain_feed plain_accepted of None \<Rightarrow> plain_accepted | Some s \<Rightarrow> s)"

lemma plain_accepted_reach: "station_reach plain_station_env (plain_accepted :: (unit, 'osm, 'rtr) station)"
proof -
  have "reg_wf \<lparr>reg_serial = 2, reg_info = []\<rparr>" by (simp add: reg_wf_def reg_get_def)
  then have "station_reach plain_station_env (station_start \<lparr>reg_serial = 2, reg_info = []\<rparr> [] :: (unit, 'osm, 'rtr) station)"
    by (rule station_reach.start)
  then have "station_reach plain_station_env
      (accept_conn plain_station_env 0 (V4 1) False (station_start \<lparr>reg_serial = 2, reg_info = []\<rparr> [] :: (unit, 'osm, 'rtr) station))"
    by (rule station_reach.step) (rule station_step.accept; code_simp)
  then show ?thesis
    unfolding plain_accepted_def by (rule station_reach.step) (rule station_step.accept; code_simp)
qed

lemma plain_station_reach: "station_reach plain_station_env plain_station"
  using settled_all_reach [OF plain_accepted_reach] plain_accepted_reach
  by (auto simp: plain_station_def split: option.splits)

lemma plain_station_conns:
  "map_option (\<lambda>c. (cn_checking c, map_option ps_ingress_id (hm_get (state_peers (cn_state c)) plain_pph)))
    (hm_get (sn_conns plain_station) n) =
    (if n = 0 then Some (False, Some 4) else if n = 1 then Some (False, Some 5) else None)"
proof -
  have "map (\<lambda>(n, c). (n, cn_checking c, map_option ps_ingress_id (hm_get (state_peers (cn_state c)) plain_pph)))
    (sn_conns plain_station) = [(0, False, Some 4), (1, False, Some 5)]" by code_simp
  then show ?thesis by (auto simp: hm_get_def)
qed

lemma plain_conns:
  obtains c0 c1 p0 p1 where "hm_get (sn_conns plain_station) 0 = Some c0" "\<not> cn_checking c0"
    "hm_get (state_peers (cn_state c0)) plain_pph = Some p0" "ps_ingress_id p0 = 4"
    "hm_get (sn_conns plain_station) 1 = Some c1" "\<not> cn_checking c1"
    "hm_get (state_peers (cn_state c1)) plain_pph = Some p1" "ps_ingress_id p1 = 5"
  using plain_station_conns [of 0] plain_station_conns [of 1] by auto

subsection \<open>Properties\<close>

text \<open>
  C10: No panic: in every station that any interleaving of connections, messages, garbage
  collection and other users of the register can reach, every message of every connection is
  processed to the end. None of the \<open>unwrap\<close> and \<open>unreachable!\<close> of the state machine is hit and
  no connection loses its state machine.
\<close>

theorem station_never_panics:
  assumes "station_reach env s" and "hm_get (sn_conns s) n = Some c" and "\<not> cn_checking c"
    and "reg_room (w_reg (sn_world s))"
  shows "\<exists>s'. deliver_msg env received m n c s = Some s' \<and> station_reach env s'"
  using deliver_ok [OF station_reach_ok [OF assms(1)] assms(2-4)] station_reach.step [OF assms(1)]
    station_step.deliver [OF assms(2-4)] by blast

theorem station_never_panics_witness:
  "\<exists>c. hm_get (sn_conns plain_station) 1 = Some c \<and> \<not> cn_checking c \<and>
    deliver_msg plain_station_env 7 (PeerDownNotification plain_pph []) 1 c plain_station \<noteq> None"
proof -
  have room: "reg_room (w_reg (sn_world plain_station))" by code_simp
  show ?thesis
    by (rule plain_conns) (use station_never_panics [OF plain_station_reach _ _ room] in fastforce)
qed

text \<open>
  C22: No two peers share an ingress id: over all connections of the unit, two peers that are up
  under the same ingress id are the same peer of the same connection, and the id is that of a
  connected entry of the register for a peer behind BMP.
\<close>

theorem station_ids_exclusive:
  assumes "station_reach env s"
    and c: "hm_get (sn_conns s) n = Some c" and p: "hm_get (state_peers (cn_state c)) h = Some p"
    and c': "hm_get (sn_conns s) n' = Some c'" and p': "hm_get (state_peers (cn_state c')) h' = Some p'"
    and eq: "ps_ingress_id p = ps_ingress_id p'"
  shows "n = n' \<and> h = h' \<and>
    (\<exists>i. reg_get (w_reg (sn_world s)) (ps_ingress_id p) = Some i \<and>
      ii_state i = Some Connected \<and> ii_ingress_type i = Some IT_BgpViaBmp)"
proof -
  have cs: "conns_ok (sn_conns s) (w_reg (sn_world s))"
    using station_reach_ok [OF assms(1)] by (simp add: station_ok_def)
  have ok: "peers_ok (state_peers (cn_state c)) (w_reg (sn_world s))"
    using conns_okD [OF cs c] by (simp add: conn_ok_def session_ok_def)
  have "ps_ingress_id p \<in> conn_held c" and "ps_ingress_id p \<in> conn_held c'"
    using peer_idsI [OF p] peer_idsI [OF p'] eq by (simp_all add: conn_held_def held_def)
  then have n: "n = n'" using conns_ok_disjoint [OF cs c c'] by auto
  moreover have "h = h'" using peers_ok_inj [OF ok p _ eq] n c c' p' by auto
  moreover obtain i where "reg_get (w_reg (sn_world s)) (ps_ingress_id p) = Some i" "up_entry i"
    using peers_okD [OF ok p] .
  ultimately show ?thesis by (simp add: up_entry_def)
qed

theorem station_ids_exclusive_witness:
  "\<exists>c p i. hm_get (sn_conns plain_station) 0 = Some c \<and>
    hm_get (state_peers (cn_state c)) plain_pph = Some p \<and> ps_ingress_id p = 4 \<and>
    reg_get (w_reg (sn_world plain_station)) 4 = Some i \<and> ii_state i = Some Connected"
  by (rule plain_conns) (use station_ids_exclusive [OF plain_station_reach] in fastforce)

text \<open>
  C1: No stale routes downstream: an ingress id that the updates sent through the gate announced
  routes for and did not withdraw since is the id of a peer that is up now, on a connection that
  still exists, with a connected entry in the register. So the routes of a peer that went down, of
  a session that was terminated and of a connection that was lost are all withdrawn.
\<close>

theorem station_no_stale_routes:
  assumes "station_reach env s" and "j \<in> live (sn_out s)"
  shows "\<exists>n c h p i. hm_get (sn_conns s) n = Some c \<and> hm_get (state_peers (cn_state c)) h = Some p \<and>
    ps_ingress_id p = j \<and> reg_get (w_reg (sn_world s)) j = Some i \<and> ii_state i = Some Connected"
  by (rule live_up [OF assms])

theorem station_no_stale_routes_witness:
  "(5 :: ingress_id) \<in> live (sn_out plain_station) \<and>
    (\<exists>n c h p. hm_get (sn_conns plain_station) n = Some c \<and> hm_get (state_peers (cn_state c)) h = Some p \<and>
      ps_ingress_id p = 5)"
proof -
  have l: "(5 :: ingress_id) \<in> live (sn_out plain_station)" by code_simp
  show ?thesis using station_no_stale_routes [OF plain_station_reach l] l by blast
qed

text \<open>
  The tables the unit keeps for its HTTP interface are exact: the state table and the info
  table each have exactly one entry per live connection, under the ingress id of the connection,
  whatever reconnects re-keyed them, and between messages that is the id of its state machine.
\<close>

lemma station_tables_exact:
  assumes "station_reach env s"
  shows "(hm_get (sn_router_states s) i = Some n \<longleftrightarrow>
      (\<exists>c. hm_get (sn_conns s) n = Some c \<and> cn_ingress_id c = i)) \<and>
    (hm_get (sn_router_info s) i = Some n \<longleftrightarrow>
      (\<exists>c. hm_get (sn_conns s) n = Some c \<and> cn_ingress_id c = i)) \<and>
    (\<forall>c. hm_get (sn_conns s) n = Some c \<longrightarrow> \<not> cn_checking c \<longrightarrow>
      cn_ingress_id c = state_ingress_id (cn_state c))"
  using station_reach_ok [OF assms] unfolding station_ok_def keyed_ok_def conns_ok_def conn_ok_def by blast

end
