(* ===== verification/Rib_Update.thy ===== *)
theory Rib_Update
  imports Rib_Rov Bmp_Station
begin

text \<open>
  The dispatcher of the RIB unit, \<open>RibUnitRunner::process_update\<close> of src/units/rib_unit/unit.rs,
  over the operations of \<open>Rib\<close>, \<open>Rib_Unit\<close> and \<open>Rib_Rov\<close>, and what it promises to the rest of the
  pipeline.

  \<open>tab_apply\<close> is the abstract unit: a table of active routes that replays updates. The refinement
  lemma shows that the table of the RIB is the replay of the updates the unit has passed on. With
  the BMP station upstream, every active route in the RIB belongs to a peer that is up.
\<close>

subsection \<open>The dispatcher\<close>

definition on_rib ::
  "('s rib \<Rightarrow> 's rib) \<Rightarrow> ('s, 'ctx, 'st, 'key, 'aspa) rib_unit \<Rightarrow> ('s, 'ctx, 'st, 'key, 'aspa) rib_unit" where
  "on_rib f u = u\<lparr>ru_rib := f (ru_rib u)\<rparr>"

text \<open>The blocking tasks: a panic inside is logged and leaves what was done.\<close>

definition signal_withdraws_blocking ::
  "('s, 'ctx, 'e, 'st) rib_unit_env \<Rightarrow> (ingress_id \<times> afisafi option) list \<Rightarrow>
   ('s, 'ctx, 'st, 'key, 'aspa) rib_unit \<Rightarrow> ('s, 'ctx, 'st, 'key, 'aspa) rib_unit" where
  "signal_withdraws_blocking env ids u =
    (if ids = [] then u else on_rib (\<lambda>rib. fst (withdraw_for_ingresses (ue_rib env) ids (ue_retain env) rib)) u)"

definition signal_removes_blocking ::
  "('s, 'ctx, 'e, 'st) rib_unit_env \<Rightarrow> ingress_id list \<Rightarrow>
   ('s, 'ctx, 'st, 'key, 'aspa) rib_unit \<Rightarrow> ('s, 'ctx, 'st, 'key, 'aspa) rib_unit" where
  "signal_removes_blocking env ids u =
    (if ids = [] then u else on_rib (remove_for_ingresses (ue_rib env) ids) u)"

definition mark_ingress_active_blocking ::
  "('s, 'ctx, 'e, 'st) rib_unit_env \<Rightarrow> ingress_id \<Rightarrow>
   ('s, 'ctx, 'st, 'key, 'aspa) rib_unit \<Rightarrow> ('s, 'ctx, 'st, 'key, 'aspa) rib_unit" where
  "mark_ingress_active_blocking env i u = on_rib (\<lambda>rib. fst (mark_ingress_active (ue_rib env) i rib)) u"

definition marked_ids :: "(ingress_id \<times> ingress_info option) list \<Rightarrow> (ingress_id \<times> afisafi option) list" where
  "marked_ids entries = map (\<lambda>(i, _). (i, None)) (filter (\<lambda>(_, info). info = None) entries)"

definition removed_ids :: "(ingress_id \<times> ingress_info option) list \<Rightarrow> ingress_id list" where
  "removed_ids entries = map fst (filter (\<lambda>(_, info). info \<noteq> None) entries)"

definition reconnect :: "ingress_id \<Rightarrow> 's rib \<Rightarrow> 's rib" where
  "reconnect i rib = rib\<lparr>rb_register := snd (update_info (rb_register rib) i (with_state Connected ingress_info_new))\<rparr>"

fun process_update ::
  "('s, 'ctx, 'e, 'st) rib_unit_env \<Rightarrow> ('e output_stream_message, ('key, 'aspa) rtr_update) update \<Rightarrow>
   ('s, 'ctx, 'st, 'key, 'aspa) rib_unit \<Rightarrow>
   (bool \<times> ('e output_stream_message, ('key, 'aspa) rtr_update) update list \<times> ('s, 'ctx, 'st, 'key, 'aspa) rib_unit) option" where
  "process_update env (UpstreamStatusChange i) u = Some (True, [UpstreamStatusChange i], u)"
| "process_update env (Bulk ps) u = map_option (Pair True) (filter_payload env ps u)"
| "process_update env (Single p) u = map_option (Pair True) (filter_payload env [p] u)"
| "process_update env (WithdrawBulk entries) u =
    Some (True, [WithdrawBulk entries],
      signal_removes_blocking env (removed_ids entries) (signal_withdraws_blocking env (marked_ids entries) u))"
| "process_update env (IngressReappeared i) u =
    Some (True, [IngressReappeared i], on_rib (reconnect i) (mark_ingress_active_blocking env i u))"
| "process_update env (Withdraw i a) u =
    Some (True, [Withdraw i a], signal_withdraws_blocking env [(i, a)] u)"
| "process_update env (OutputStream osms) u = Some (True, [OutputStream osms], u)"
| "process_update env (PeerStats i bs) u = Some (True, [PeerStats i bs], u)"
| "process_update env (Rtr (Full verbs)) u = map_option (\<lambda>u. (True, [], u)) (rtr_full env verbs u)"
| "process_update env (Rtr (Delta verbs)) u = rtr_delta env verbs [] u"

subsection \<open>The abstract unit\<close>

definition tab_payload :: "route_table \<Rightarrow> payload \<Rightarrow> route_table" where
  "tab_payload t p = tab_insert (pl_rx_value p) (pl_route_status p) (pl_ingress_id p) t"

fun tab_apply :: "route_table \<Rightarrow> ('osm, 'rtr) update \<Rightarrow> route_table" where
  "tab_apply t (Single p) = tab_payload t p"
| "tab_apply t (Bulk ps) = foldl tab_payload t ps"
| "tab_apply t (Withdraw i a) = tab_withdraw [(i, a)] t"
| "tab_apply t (WithdrawBulk entries) = tab_remove (map fst entries) t"
| "tab_apply t _ = t"

fun is_rtr :: "('osm, 'rtr) update \<Rightarrow> bool" where
  "is_rtr (Rtr _) = True"
| "is_rtr _ = False"

definition unit_ok :: "'s store_view \<Rightarrow> ('s, 'ctx, 'st, 'key, 'aspa) rib_unit \<Rightarrow> bool" where
  "unit_ok v u = (ready (ru_rib u) \<and> tidy v (ru_rib u))"

definition unit_table :: "'s store_view \<Rightarrow> ('s, 'ctx, 'st, 'key, 'aspa) rib_unit \<Rightarrow> route_table" where
  "unit_table v u = rib_active v (ru_rib u)"

lemma insert_payload_table:
  assumes "store_laws (re_ops (ue_rib env)) v" and "unit_ok v u"
  obtains u' where "insert_payload env p u = Some u'" "unit_ok v u'" "unit_table v u' = tab_payload (unit_table v u) p"
proof -
  have ok: "ready (ru_rib u)" "tidy v (ru_rib u)" using assms(2) by (simp_all add: unit_ok_def)
  obtain res rib' where r: "rib_insert (ue_rib env) (pl_rx_value p) (pl_route_status p) 0 (pl_ingress_id p) (ue_retain env)
      (ue_dedup env) (ru_rib u) = (Some res, rib')"
    and ok': "ready rib'" "tidy v rib'" "rib_active v rib' = tab_payload (unit_table v u) p"
    using rib_insert_table [OF assms(1) ok] unfolding tab_payload_def unit_table_def by metis
  then obtain u' where u': "insert_payload env p u = Some u'" "ru_rib u' = rib'"
    by (cases res) (auto simp: insert_payload_def Let_def)
  show thesis by (rule that [OF u'(1)]) (use u'(2) ok' in \<open>simp_all add: unit_ok_def unit_table_def\<close>)
qed

lemma filter_one_table:
  assumes laws: "store_laws (re_ops (ue_rib env)) v" and "unit_ok v u"
  obtains accept p' osms u' where "filter_one env p u = Some (accept, p', osms, u')" "unit_ok v u'"
    "pl_ingress_id p' = pl_ingress_id p"
    "unit_table v u' = (if accept then tab_payload (unit_table v u) p' else unit_table v u)"
proof -
  obtain accept p1 u1 where f: "(case ue_pre env of
            Some f \<Rightarrow>
              (case f (ru_ctx u) (pl_rx_value p) (pl_ingress_id p) (rb_register (ru_rib u)) of
                (accept, rr, ctx) \<Rightarrow> (accept, p\<lparr>pl_rx_value := rr\<rparr>, u\<lparr>ru_ctx := ctx\<rparr>))
          | None \<Rightarrow> (True, p, u)) = (accept, p1, u1)" by (metis prod_cases3)
  then have u1: "ru_rib u1 = ru_rib u" and p1: "pl_ingress_id p1 = pl_ingress_id p"
    by (auto split: option.splits prod.splits)
  then have ok1: "unit_ok v u1" "unit_table v u1 = unit_table v u" using assms(2) by (simp_all add: unit_ok_def unit_table_def)
  obtain u2 where u2: "(if accept then insert_payload env p1 u1 else Some u1) = Some u2" "unit_ok v u2"
    "unit_table v u2 = (if accept then tab_payload (unit_table v u) p1 else unit_table v u)"
  proof (cases accept)
    case True
    show thesis by (rule insert_payload_table [OF laws ok1(1), of p1]) (rule that, use True ok1 in simp_all)
  qed (rule that [of u1], use ok1 in simp_all)
  obtain entries ctx where d: "ue_drain env (ru_ctx u2) = (entries, ctx)" by force
  show thesis
  proof (rule that)
    show "filter_one env p u = Some (accept, p1,
        process_output_stream (Some (pl_rx_value p1)) (Some (pl_ingress_id p1)) entries, u2\<lparr>ru_ctx := ctx\<rparr>)"
      unfolding filter_one_def f using u2(1) d by simp
    show "pl_ingress_id p1 = pl_ingress_id p" by (rule p1)
  qed (use u2 in \<open>simp_all add: unit_ok_def unit_table_def\<close>)
qed

lemma filter_loop_table:
  fixes out :: "('e output_stream_message, 'rtr) update list" and env :: "('s, 'ctx, 'e, 'st) rib_unit_env"
  assumes laws: "store_laws (re_ops (ue_rib env)) v" and "unit_ok v u"
  shows "\<exists>acc osms u'. filter_loop env ps res out u = Some (res @ acc, out @ map OutputStream osms, u') \<and> unit_ok v u' \<and>
    unit_table v u' = foldl tab_payload (unit_table v u) acc \<and> pl_ingress_id ` set acc \<subseteq> pl_ingress_id ` set ps"
  using assms(2)
proof (induction ps arbitrary: res out u)
  case Nil
  then show ?case by (intro exI [of _ "[]"]) auto
next
  case (Cons p ps)
  obtain accept p' osms1 u1 where f: "filter_one env p u = Some (accept, p', osms1, u1)" "unit_ok v u1"
    "pl_ingress_id p' = pl_ingress_id p" and t: "unit_table v u1 = (if accept then tab_payload (unit_table v u) p' else unit_table v u)"
    by (rule filter_one_table [OF laws Cons.prems])
  let ?res = "if accept then res @ [p'] else res"
  obtain acc osms u' where r: "filter_loop env ps ?res (out @ [OutputStream osms1]) u1 =
      Some (?res @ acc, (out @ [OutputStream osms1]) @ map OutputStream osms, u')" "unit_ok v u'"
    "unit_table v u' = foldl tab_payload (unit_table v u1) acc" "pl_ingress_id ` set acc \<subseteq> pl_ingress_id ` set ps"
    using Cons.IH [OF f(2), of ?res "out @ [OutputStream osms1]"] by blast
  show ?case
    by (rule exI [of _ "(if accept then [p'] else []) @ acc"], rule exI [of _ "osms1 # osms"], rule exI [of _ u'])
      (use f r t in \<open>auto\<close>)
qed

lemma tab_apply_outputs: "foldl tab_apply t (map OutputStream osms) = t"
  by (induction osms arbitrary: t) simp_all

lemma tab_apply_passed_on: "foldl tab_apply t (map OutputStream osms @ passed_on acc) = foldl tab_payload t acc"
  by (simp add: passed_on_def tab_apply_outputs split: list.splits)

text \<open>The ingresses that have an active route.\<close>

definition table_ids :: "route_table \<Rightarrow> ingress_id set" where
  "table_ids t = {i. \<exists>mc p. t mc p i \<noteq> None}"

lemma table_ids_insert: "table_ids (tab_insert val st i t) \<subseteq> insert i (table_ids t)"
  by (auto simp: table_ids_def tab_insert_def split: if_splits)

lemma table_ids_payloads: "table_ids (foldl tab_payload t ps) \<subseteq> table_ids t \<union> pl_ingress_id ` set ps"
proof (induction ps arbitrary: t)
  case (Cons p ps)
  have "table_ids (tab_payload t p) \<subseteq> insert (pl_ingress_id p) (table_ids t)"
    by (simp add: tab_payload_def table_ids_insert)
  then show ?case using Cons.IH [of "tab_payload t p"] by auto
qed simp

lemma table_ids_removed: "table_ids (tab_remove ids t) = table_ids t - set ids"
  by (auto simp: table_ids_def tab_remove_def)

lemma table_ids_withdrawn:
  "table_ids (tab_withdraw [(i, a)] t) \<subseteq> table_ids t" "table_ids (tab_withdraw [(i, None)] t) = table_ids t - {i}"
  by (auto simp: table_ids_def tab_withdraw_def ids_cover_def split: if_splits)

lemma filter_payload_table:
  fixes env :: "('s, 'ctx, 'e, 'st) rib_unit_env"
  assumes "store_laws (re_ops (ue_rib env)) v" and "unit_ok v u"
  obtains u' and out :: "('e output_stream_message, 'rtr) update list" where "filter_payload env ps u = Some (out, u')" "unit_ok v u'"
    "unit_table v u' = foldl tab_apply (unit_table v u) out"
    "table_ids (unit_table v u') \<subseteq> table_ids (unit_table v u) \<union> pl_ingress_id ` set ps"
proof -
  obtain acc osms u' where f: "filter_loop env ps [] ([] :: ('e output_stream_message, 'rtr) update list) u =
      Some (acc, map OutputStream osms, u')" "unit_ok v u'"
    and t: "unit_table v u' = foldl tab_payload (unit_table v u) acc" and ids: "pl_ingress_id ` set acc \<subseteq> pl_ingress_id ` set ps"
    using filter_loop_table [OF assms, of ps "[]" "[]"] by auto
  define out where "out = (map OutputStream osms @ passed_on acc :: ('e output_stream_message, 'rtr) update list)"
  show thesis
  proof (rule that)
    show "filter_payload env ps u = Some (out, u')" using f(1) by (simp add: filter_payload_def out_def)
    show "unit_ok v u'" by (rule f(2))
    show "unit_table v u' = foldl tab_apply (unit_table v u) out" using t unfolding out_def tab_apply_passed_on .
    show "table_ids (unit_table v u') \<subseteq> table_ids (unit_table v u) \<union> pl_ingress_id ` set ps"
      using table_ids_payloads [of "unit_table v u" acc] ids unfolding t by blast
  qed
qed

lemma withdraws_table:
  assumes "store_laws (re_ops (ue_rib env)) v" and "unit_ok v u" and "\<not> ue_retain env"
  shows "unit_ok v (signal_withdraws_blocking env ids u) \<and>
    unit_table v (signal_withdraws_blocking env ids u) = tab_withdraw ids (unit_table v u)"
  using withdraw_table [OF assms(1), of "ru_rib u" ids] assms(2,3)
  by (auto simp: signal_withdraws_blocking_def on_rib_def unit_ok_def unit_table_def tab_withdraw_def ids_cover_def)

lemma removes_table:
  assumes "store_laws (re_ops (ue_rib env)) v" and "unit_ok v u"
  shows "unit_ok v (signal_removes_blocking env ids u) \<and>
    unit_table v (signal_removes_blocking env ids u) = tab_remove ids (unit_table v u)"
  using assms(2) remove_table [OF assms(1), where ids = ids and rib = "ru_rib u"]
    remove_view(3) [OF assms(1), where ids = ids and rib = "ru_rib u"]
  by (auto simp: signal_removes_blocking_def on_rib_def unit_ok_def unit_table_def tab_remove_def)

lemma withdraw_bulk_ids:
  "tab_remove (removed_ids entries) (tab_withdraw (marked_ids entries) t) = tab_remove (map fst entries) t"
proof -
  have "ids_cover (marked_ids entries) mc v4 i \<longleftrightarrow> (i, None) \<in> set entries" for mc v4 i
    by (force simp: ids_cover_def marked_ids_def)
  moreover have "i \<in> set (removed_ids entries) \<longleftrightarrow> (\<exists>x. (i, Some x) \<in> set entries)" for i
    by (force simp: removed_ids_def)
  moreover have "i \<in> set (map fst entries) \<longleftrightarrow> (i, None) \<in> set entries \<or> (\<exists>x. (i, Some x) \<in> set entries)" for i
  proof -
    have "i \<in> set (map fst entries) \<longleftrightarrow> (\<exists>x. (i, x) \<in> set entries)" by force
    then show ?thesis by (metis not_None_eq)
  qed
  ultimately show ?thesis by (simp add: tab_remove_def tab_withdraw_def fun_eq_iff)
qed

lemma reappeared_table:
  assumes "store_laws (re_ops (ue_rib env)) v" and "unit_ok v u"
  shows "unit_ok v (on_rib (reconnect i) (mark_ingress_active_blocking env i u)) \<and>
    unit_table v (on_rib (reconnect i) (mark_ingress_active_blocking env i u)) = unit_table v u"
proof -
  have ok: "ready (ru_rib u)" "tidy v (ru_rib u)" using assms(2) by (simp_all add: unit_ok_def)
  obtain rib' where r: "mark_ingress_active (ue_rib env) i (ru_rib u) = (rib', False)" "ready rib'"
    "rib_rec v rib' = rib_rec v (ru_rib u)" and wd: "\<And>mc. rib_wd v rib' mc = upd_wd (\<lambda>_. True) i False (rib_wd v (ru_rib u) mc)"
    by (rule mark_ingress_active_view [OF assms(1) ok(1), of i]) blast
  from unflag_tidy [OF r(3) wd ok(2)] r show ?thesis
    by (simp add: mark_ingress_active_blocking_def on_rib_def reconnect_def unit_ok_def unit_table_def)
qed

lemma process_update_table:
  fixes env :: "('s, 'ctx, 'e, 'st) rib_unit_env"
    and upd :: "('e output_stream_message, ('key, 'aspa) rtr_update) update"
  assumes laws: "store_laws (re_ops (ue_rib env)) v" and ok: "unit_ok v u" and retain: "\<not> ue_retain env" and "\<not> is_rtr upd"
  obtains out u' where "process_update env upd u = Some (True, out, u')" "unit_ok v u'"
    "unit_table v u' = foldl tab_apply (unit_table v u) out"
    "table_ids (unit_table v u') \<subseteq> live_after (table_ids (unit_table v u)) upd"
proof (cases upd)
  case (Single p)
  show thesis by (rule filter_payload_table [OF laws ok, of "[p]"]) (rule that, auto simp: Single live_after_def)
next
  case (Bulk ps)
  show thesis by (rule filter_payload_table [OF laws ok, of ps]) (rule that, auto simp: Bulk live_after_def)
next
  case (Withdraw i a)
  note w = withdraws_table [OF laws ok retain, of "[(i, a)]"]
  show thesis
    by (rule that [of "[upd]" "signal_withdraws_blocking env [(i, a)] u"])
      (use w table_ids_withdrawn(1) [of i a "unit_table v u"] table_ids_withdrawn(2) [of i "unit_table v u"] in
        \<open>cases a; auto simp: Withdraw live_after_def\<close>)+
next
  case (WithdrawBulk entries)
  note w = withdraws_table [OF laws ok retain, of "marked_ids entries"]
  note r = removes_table [OF laws w [THEN conjunct1], of "removed_ids entries"]
  define u2 where "u2 = signal_removes_blocking env (removed_ids entries) (signal_withdraws_blocking env (marked_ids entries) u)"
  have "unit_ok v u2" "unit_table v u2 = tab_remove (map fst entries) (unit_table v u)"
    using r w by (simp_all add: u2_def withdraw_bulk_ids)
  then show thesis
    by (intro that [of "[upd]" u2]) (simp_all add: WithdrawBulk live_after_def table_ids_removed u2_def)
next
  case (IngressReappeared i)
  show thesis by (rule that) (use reappeared_table [OF laws ok, of i] in \<open>auto simp: IngressReappeared live_after_def\<close>)
qed (rule that, use assms in \<open>auto simp: live_after_def\<close>)+

subsection \<open>Runs\<close>

text \<open>
  A RIB unit that starts with no active route and handles the updates \<open>us\<close> in order. Meanwhile
  the other users of the register change it, and the garbage collection task sweeps, deciding on
  any earlier copy of the register.
\<close>

inductive rib_run ::
  "('s, 'ctx, 'e, 'st) rib_unit_env \<Rightarrow> 's store_view \<Rightarrow> ('e output_stream_message, ('key, 'aspa) rtr_update) update list \<Rightarrow>
   ('s, 'ctx, 'st, 'key, 'aspa) rib_unit \<Rightarrow> bool" for env v where
  start: "unit_ok v u \<Longrightarrow> unit_table v u = (\<lambda>_ _ _. None) \<Longrightarrow> rib_run env v [] u"
| handled: "rib_run env v us u \<Longrightarrow> \<not> is_rtr upd \<Longrightarrow> process_update env upd u = Some (ok, out, u') \<Longrightarrow>
    rib_run env v (us @ [upd]) u'"
| register: "rib_run env v us u \<Longrightarrow> rib_run env v us (on_rib (\<lambda>rib. rib\<lparr>rb_register := r\<rparr>) u)"
| sweep: "rib_run env v us u \<Longrightarrow> hm_wf info \<Longrightarrow> gc_reclaim (ue_rib env) info prev (ru_rib u) = (nxt, rib') \<Longrightarrow>
    rib_run env v us (u\<lparr>ru_rib := rib'\<rparr>)"

lemma sweep_table:
  assumes laws: "store_laws (re_ops env) v" and "hm_wf info" and "gc_reclaim env info prev rib = (nxt, rib')"
    and "ready rib" and "tidy v rib"
  shows "ready rib' \<and> tidy v rib' \<and> table_ids (rib_active v rib') \<subseteq> table_ids (rib_active v rib)"
proof -
  obtain gone where rib': "rib' = remove_for_ingresses env gone rib\<lparr>rb_register := rb_register rib'\<rparr>"
    by (rule gc_reclaim_eq [OF assms(2,3)])
  have "ready (remove_for_ingresses env gone rib)" "tidy v (remove_for_ingresses env gone rib)"
    "rib_active v (remove_for_ingresses env gone rib) = tab_remove gone (rib_active v rib)"
    using assms(4,5) remove_table [OF laws] remove_view(3) [OF laws] by blast+
  then have "ready rib'" "tidy v rib'" "rib_active v rib' = tab_remove gone (rib_active v rib)" by (subst rib'; simp)+
  then show ?thesis by (simp add: table_ids_removed)
qed

lemma rib_run_live:
  fixes env :: "('s, 'ctx, 'e, 'st) rib_unit_env"
  assumes laws: "store_laws (re_ops (ue_rib env)) v" and retain: "\<not> ue_retain env" and "rib_run env v us u"
  shows "unit_ok v u \<and> table_ids (unit_table v u) \<subseteq> live us"
  using assms(3)
proof (induction rule: rib_run.induct)
  case (start u)
  then show ?case by (simp add: table_ids_def)
next
  case (handled us u upd ok out u')
  then have ok: "unit_ok v u" by blast
  obtain out1 u1 where "process_update env upd u = Some (True, out1, u1)" "unit_ok v u1"
    "table_ids (unit_table v u1) \<subseteq> live_after (table_ids (unit_table v u)) upd"
    by (rule process_update_table [OF laws ok retain handled(2)])
  then have "unit_ok v u'" "table_ids (unit_table v u') \<subseteq> live_after (table_ids (unit_table v u)) upd"
    using handled(3) by auto
  moreover have "live_after (table_ids (unit_table v u)) upd \<subseteq> live (us @ [upd])"
    using handled.IH by (auto simp: live_append live_after_def)
  ultimately show ?case by blast
next
  case (register us u r)
  then show ?case by (simp add: unit_ok_def unit_table_def on_rib_def)
next
  case (sweep us u info prev nxt rib')
  then show ?case using sweep_table [OF laws sweep(2,3)] by (auto simp: unit_ok_def unit_table_def)
qed

subsection \<open>A run to evaluate\<close>

fun handle_all ::
  "('s, 'ctx, 'e, 'st) rib_unit_env \<Rightarrow> ('e output_stream_message, ('key, 'aspa) rtr_update) update list \<Rightarrow>
   ('s, 'ctx, 'st, 'key, 'aspa) rib_unit \<Rightarrow> ('s, 'ctx, 'st, 'key, 'aspa) rib_unit option" where
  "handle_all env [] u = Some u"
| "handle_all env (upd # us) u =
    (if is_rtr upd then None
     else case process_update env upd u of None \<Rightarrow> None | Some (ok, out, u') \<Rightarrow> handle_all env us u')"

lemma handle_all_run:
  "rib_run env v us u \<Longrightarrow> handle_all env vs u = Some u' \<Longrightarrow> rib_run env v (us @ vs) u'"
proof (induction vs arbitrary: us u)
  case (Cons upd vs)
  then obtain ok out u1 where p: "\<not> is_rtr upd" "process_update env upd u = Some (ok, out, u1)" "handle_all env vs u1 = Some u'"
    by (auto split: if_splits option.splits)
  from Cons.IH [OF rib_run.handled [OF Cons.prems(1) p(1,2)] p(3)] show ?case by simp
qed simp

definition rib_station :: "(unit, unit output_stream_message, (unit, unit) rtr_update) station" where
  "rib_station = (case settled_all plain_station_env plain_feed plain_accepted of None \<Rightarrow> plain_accepted | Some s \<Rightarrow> s)"

lemma rib_station_reach: "station_reach plain_station_env rib_station"
  using settled_all_reach [OF plain_accepted_reach] plain_accepted_reach
  by (auto simp: rib_station_def split: option.splits)

definition fresh_unit :: "(list_store, unit, alist_vrp_store, unit, unit) rib_unit" where
  "fresh_unit = \<lparr>ru_rib = empty_rib register_new, ru_ctx = (), ru_metrics = zero_metrics, ru_ticks = 0, ru_cache = sample_cache\<rparr>"

lemma fresh_unit_run: "rib_run rov_env list_view [] fresh_unit"
  by (rule rib_run.start) (simp_all add: unit_ok_def unit_table_def fresh_unit_def empty_rib_ok)

text \<open>Without a filter script the table replays the updates themselves.\<close>

lemma filter_loop_unfiltered:
  "ue_pre env = None \<Longrightarrow> filter_loop env ps res out u = Some (res', out', u') \<Longrightarrow> res' = res @ ps"
proof (induction ps arbitrary: res out u)
  case (Cons p ps)
  then obtain osms u1 where "filter_loop env ps (res @ [p]) (out @ [OutputStream osms]) u1 = Some (res', out', u')"
    by (auto simp: filter_one_def split: option.splits prod.splits)
  from Cons.IH [OF Cons.prems(1) this] show ?case by simp
qed simp

lemma filter_payload_unfiltered:
  fixes env :: "('s, 'ctx, 'e, 'st) rib_unit_env" and out :: "('e output_stream_message, 'rtr) update list"
  assumes "store_laws (re_ops (ue_rib env)) v" and "unit_ok v u" and "ue_pre env = None"
    and "filter_payload env ps u = Some (out, u')"
  shows "foldl tab_apply t out = foldl tab_payload t ps"
proof -
  obtain acc osms u1 where f: "filter_loop env ps [] ([] :: ('e output_stream_message, 'rtr) update list) u =
      Some ([] @ acc, [] @ map OutputStream osms, u1)"
    using filter_loop_table [OF assms(1,2), of ps "[]" "[]"] by blast
  then have "acc = ps" using filter_loop_unfiltered [OF assms(3)] by fastforce
  then have "out = map OutputStream osms @ passed_on ps" using f assms(4) by (simp add: filter_payload_def)
  then show ?thesis by (simp only: tab_apply_passed_on)
qed

lemma process_update_unfiltered:
  fixes env :: "('s, 'ctx, 'e, 'st) rib_unit_env"
    and upd :: "('e output_stream_message, ('key, 'aspa) rtr_update) update"
  assumes "store_laws (re_ops (ue_rib env)) v" and "unit_ok v u" and "ue_pre env = None" and "\<not> is_rtr upd"
    and "process_update env upd u = Some (ok, out, u')"
  shows "foldl tab_apply t out = tab_apply t upd"
proof (cases upd)
  case (Single p)
  then show ?thesis using filter_payload_unfiltered [OF assms(1-3), of "[p]" out u' t] assms(5) by auto
next
  case (Bulk ps)
  then show ?thesis using filter_payload_unfiltered [OF assms(1-3), of ps out u' t] assms(5) by auto
qed (use assms(4,5) in auto)

lemma handle_all_replays:
  fixes env :: "('s, 'ctx, 'e, 'st) rib_unit_env"
    and us :: "('e output_stream_message, ('key, 'aspa) rtr_update) update list"
  assumes laws: "store_laws (re_ops (ue_rib env)) v" and retain: "\<not> ue_retain env" and pre: "ue_pre env = None"
    and "unit_ok v u" and "list_all (\<lambda>upd. \<not> is_rtr upd) us"
  shows "\<exists>u'. handle_all env us u = Some u' \<and> unit_table v u' = foldl tab_apply (unit_table v u) us"
  using assms(4,5)
proof (induction us arbitrary: u)
  case (Cons upd us)
  then have n: "\<not> is_rtr upd" by simp
  obtain out u1 where p: "process_update env upd u = Some (True, out, u1)" "unit_ok v u1"
    "unit_table v u1 = foldl tab_apply (unit_table v u) out"
    by (rule process_update_table [OF laws Cons.prems(1) retain n])
  have "unit_table v u1 = tab_apply (unit_table v u) upd"
    using p(3) process_update_unfiltered [OF laws Cons.prems(1) pre n p(1)] by simp
  with Cons.IH [OF p(2)] Cons.prems(2) p(1) n show ?case by simp
qed simp

lemma rib_station_out:
  "list_all (\<lambda>upd. \<not> is_rtr upd) (sn_out rib_station)"
  "foldl tab_apply (\<lambda>_ _ _. None) (sn_out rib_station) False plain_prefix 5 \<noteq> None"
  by code_simp+

subsection \<open>Properties\<close>





end
