(* ===== verification/Peer_Stats.thy ===== *)
theory Peer_Stats
  imports Payload Wire
begin

text \<open>
  Statistics of directly connected BGP peers: the counters (src/ingress/peer_stats.rs), their
  serialization as the body of a BMP Statistics Report (src/units/bgp_tcp_in/stats_builder.rs) and
  the periodic emitter of src/units/bgp_tcp_in/unit.rs.

  A peer's counters have one writer, the task of its session, so an operation is one step.
  Counters are 64-bit. \<open>dec_stats\<close> is the receiver of RFC 7854, section 4.8.
\<close>

subsection \<open>Counters\<close>

type_synonym afi_safi_key = "u16 \<times> u8"

record bgp_peer_stats =
  bs_prefixes_rejected :: u64
  bs_dup_prefix_advertisements :: u64
  bs_dup_withdraws :: u64
  bs_invalid_cluster_list_loops :: u64
  bs_invalid_as_path_loops :: u64
  bs_invalid_originator_id :: u64
  bs_invalid_as_confed_loops :: u64
  bs_adj_rib_in_routes :: u64
  bs_loc_rib_routes :: u64
  bs_adj_rib_in_per_afi_safi :: "(afi_safi_key, u64) hmap"
  bs_loc_rib_per_afi_safi :: "(afi_safi_key, u64) hmap"
  bs_updates_treat_as_withdraw :: u64
  bs_prefixes_treat_as_withdraw :: u64
  bs_dup_updates :: u64

definition peer_stats_new :: bgp_peer_stats where
  "peer_stats_new = \<lparr>bs_prefixes_rejected = 0, bs_dup_prefix_advertisements = 0, bs_dup_withdraws = 0,
     bs_invalid_cluster_list_loops = 0, bs_invalid_as_path_loops = 0, bs_invalid_originator_id = 0,
     bs_invalid_as_confed_loops = 0, bs_adj_rib_in_routes = 0, bs_loc_rib_routes = 0,
     bs_adj_rib_in_per_afi_safi = [], bs_loc_rib_per_afi_safi = [], bs_updates_treat_as_withdraw = 0,
     bs_prefixes_treat_as_withdraw = 0, bs_dup_updates = 0\<rparr>"

definition inc_prefixes_rejected :: "u64 \<Rightarrow> bgp_peer_stats \<Rightarrow> bgp_peer_stats" where
  "inc_prefixes_rejected n s = s\<lparr>bs_prefixes_rejected := bs_prefixes_rejected s + n\<rparr>"

text \<open>\<open>HashMap::entry(k).or_insert(0)\<close>\<close>

definition gauge :: "('k, u64) hmap \<Rightarrow> 'k \<Rightarrow> u64" where
  "gauge m k = (case hm_get m k of None \<Rightarrow> 0 | Some v \<Rightarrow> v)"

definition add_adj_rib_in :: "afi_safi_key \<Rightarrow> u64 \<Rightarrow> bgp_peer_stats \<Rightarrow> bgp_peer_stats" where
  "add_adj_rib_in k n s =
    (if n = 0 then s
     else s\<lparr>bs_adj_rib_in_routes := bs_adj_rib_in_routes s + n,
       bs_adj_rib_in_per_afi_safi :=
         hm_insert k (gauge (bs_adj_rib_in_per_afi_safi s) k + n) (bs_adj_rib_in_per_afi_safi s)\<rparr>)"

definition sub_adj_rib_in :: "afi_safi_key \<Rightarrow> u64 \<Rightarrow> bgp_peer_stats \<Rightarrow> bgp_peer_stats" where
  "sub_adj_rib_in k n s =
    (if n = 0 then s
     else
       (let cur = gauge (bs_adj_rib_in_per_afi_safi s) k;
            dec = min cur n
        in s\<lparr>bs_adj_rib_in_per_afi_safi := hm_insert k (saturating_sub cur dec) (bs_adj_rib_in_per_afi_safi s),
             bs_adj_rib_in_routes := saturating_sub (bs_adj_rib_in_routes s) dec\<rparr>))"

definition reset_adj_rib_in :: "bgp_peer_stats \<Rightarrow> bgp_peer_stats" where
  "reset_adj_rib_in s = s\<lparr>bs_adj_rib_in_routes := 0, bs_adj_rib_in_per_afi_safi := []\<rparr>"

text \<open>A snapshot lists the families in the order in which the hash map iterates.\<close>

definition stats_snapshot ::
  "((afi_safi_key \<times> u64) list \<Rightarrow> (afi_safi_key \<times> u64) list) \<Rightarrow> bgp_peer_stats \<Rightarrow> bgp_peer_stats" where
  "stats_snapshot it s = s\<lparr>bs_adj_rib_in_per_afi_safi := iterate it (bs_adj_rib_in_per_afi_safi s),
     bs_loc_rib_per_afi_safi := iterate it (bs_loc_rib_per_afi_safi s)\<rparr>"

type_synonym stats_registry = "(ingress_id, bgp_peer_stats) hmap"

definition snapshot_all ::
  "((ingress_id \<times> bgp_peer_stats) list \<Rightarrow> (ingress_id \<times> bgp_peer_stats) list) \<Rightarrow>
   ((afi_safi_key \<times> u64) list \<Rightarrow> (afi_safi_key \<times> u64) list) \<Rightarrow> stats_registry \<Rightarrow> (ingress_id \<times> bgp_peer_stats) list" where
  "snapshot_all it fit r = map (\<lambda>(i, s). (i, stats_snapshot fit s)) (iterate it r)"

subsection \<open>The Statistics Report\<close>

definition u32_or_max64 :: "u64 \<Rightarrow> u32" where
  "u32_or_max64 v = (if v < 0x100000000 then ucast v else - 1)"

definition put_counter_tlv :: "u16 \<Rightarrow> u64 \<Rightarrow> bytes \<Rightarrow> bytes" where
  "put_counter_tlv t v buf = buf @ u16_be t @ u16_be 4 @ u32_be (u32_or_max64 v)"

definition put_gauge_tlv :: "u16 \<Rightarrow> u64 \<Rightarrow> bytes \<Rightarrow> bytes" where
  "put_gauge_tlv t v buf = buf @ u16_be t @ u16_be 8 @ u64_be v"

definition put_per_afi_safi_tlv :: "u16 \<Rightarrow> afi_safi_key \<times> u64 \<Rightarrow> bytes \<Rightarrow> bytes" where
  "put_per_afi_safi_tlv t = (\<lambda>((afi, safi), v) buf. buf @ u16_be t @ u16_be 11 @ u16_be afi @ [safi] @ u64_be v)"

definition build_stats_body :: "bgp_peer_stats \<Rightarrow> bytes" where
  "build_stats_body s =
    (let buf = u32_be 0;
         buf = put_counter_tlv 0 (bs_prefixes_rejected s) buf;
         buf = put_counter_tlv 1 (bs_dup_prefix_advertisements s) buf;
         buf = put_counter_tlv 2 (bs_dup_withdraws s) buf;
         buf = put_counter_tlv 3 (bs_invalid_cluster_list_loops s) buf;
         buf = put_counter_tlv 4 (bs_invalid_as_path_loops s) buf;
         buf = put_counter_tlv 5 (bs_invalid_originator_id s) buf;
         buf = put_counter_tlv 6 (bs_invalid_as_confed_loops s) buf;
         buf = put_gauge_tlv 7 (bs_adj_rib_in_routes s) buf;
         buf = put_gauge_tlv 8 (bs_loc_rib_routes s) buf;
         buf = fold (put_per_afi_safi_tlv 9) (bs_adj_rib_in_per_afi_safi s) buf;
         buf = fold (put_per_afi_safi_tlv 10) (bs_loc_rib_per_afi_safi s) buf;
         buf = put_counter_tlv 11 (bs_updates_treat_as_withdraw s) buf;
         buf = put_counter_tlv 12 (bs_prefixes_treat_as_withdraw s) buf;
         buf = put_counter_tlv 13 (bs_dup_updates s) buf;
         cnt = 9 + of_nat (length (bs_adj_rib_in_per_afi_safi s)) + of_nat (length (bs_loc_rib_per_afi_safi s)) + 3
     in u32_be cnt @ drop 4 buf)"

text \<open>The emitter looks each peer up as it comes to it; \<open>reg\<close> is the register found then.\<close>

definition emit_one :: "register \<Rightarrow> ingress_id \<Rightarrow> bgp_peer_stats \<Rightarrow> ('osm, 'rtr) update option" where
  "emit_one reg i s =
    (case reg_get reg i of
      Some info \<Rightarrow>
        (if ii_state info = Some Connected \<and> ii_ingress_type info = Some IT_Bgp
         then Some (PeerStats i (build_stats_body s)) else None)
    | None \<Rightarrow> None)"

definition emit_stats ::
  "((ingress_id \<times> bgp_peer_stats) list \<Rightarrow> (ingress_id \<times> bgp_peer_stats) list) \<Rightarrow>
   ((afi_safi_key \<times> u64) list \<Rightarrow> (afi_safi_key \<times> u64) list) \<Rightarrow> stats_registry \<Rightarrow>
   (nat \<Rightarrow> register) \<Rightarrow> ('osm, 'rtr) update list" where
  "emit_stats it fit r regs =
    List.map_filter (\<lambda>(n, i, s). emit_one (regs n) i s) (List.enumerate 0 (snapshot_all it fit r))"

subsection \<open>The receiver\<close>

datatype stat =
    Stat_Counter u16 u32
  | Stat_Gauge u16 u64
  | Stat_Family u16 u16 u8 u64

definition dec_stat :: "u16 \<times> bytes \<Rightarrow> stat option" where
  "dec_stat = (\<lambda>(t, v).
    if length v = 4 then Some (Stat_Counter t (of_nat (be_val v)))
    else if length v = 8 then Some (Stat_Gauge t (of_nat (be_val v)))
    else if length v = 11 then
      Some (Stat_Family t (of_nat (be_val (take 2 v))) (v ! 2) (of_nat (be_val (drop 3 v))))
    else None)"

text \<open>The report is the count and that many statistics.\<close>

definition dec_stats :: "bytes \<Rightarrow> stat list option" where
  "dec_stats bs =
    (case dec_num 4 bs of
      None \<Rightarrow> None
    | Some (n, rest) \<Rightarrow>
        (case dec_seq dec_tlv rest of
          None \<Rightarrow> None
        | Some tlvs \<Rightarrow> if length tlvs = n then those (map dec_stat tlvs) else None))"

definition report :: "bgp_peer_stats \<Rightarrow> stat list" where
  "report s =
    [Stat_Counter 0 (u32_or_max64 (bs_prefixes_rejected s)), Stat_Counter 1 (u32_or_max64 (bs_dup_prefix_advertisements s)),
     Stat_Counter 2 (u32_or_max64 (bs_dup_withdraws s)), Stat_Counter 3 (u32_or_max64 (bs_invalid_cluster_list_loops s)),
     Stat_Counter 4 (u32_or_max64 (bs_invalid_as_path_loops s)), Stat_Counter 5 (u32_or_max64 (bs_invalid_originator_id s)),
     Stat_Counter 6 (u32_or_max64 (bs_invalid_as_confed_loops s)), Stat_Gauge 7 (bs_adj_rib_in_routes s),
     Stat_Gauge 8 (bs_loc_rib_routes s)] @
    map (\<lambda>((afi, safi), v). Stat_Family 9 afi safi v) (bs_adj_rib_in_per_afi_safi s) @
    map (\<lambda>((afi, safi), v). Stat_Family 10 afi safi v) (bs_loc_rib_per_afi_safi s) @
    [Stat_Counter 11 (u32_or_max64 (bs_updates_treat_as_withdraw s)), Stat_Counter 12 (u32_or_max64 (bs_prefixes_treat_as_withdraw s)),
     Stat_Counter 13 (u32_or_max64 (bs_dup_updates s))]"

definition stat_tlv :: "stat \<Rightarrow> u16 \<times> bytes" where
  "stat_tlv st =
    (case st of
      Stat_Counter t v \<Rightarrow> (t, u32_be v)
    | Stat_Gauge t v \<Rightarrow> (t, u64_be v)
    | Stat_Family t afi safi v \<Rightarrow> (t, u16_be afi @ [safi] @ u64_be v))"

lemma dec_stat_tlv: "dec_stat (stat_tlv st) = Some st"
  by (cases st) (simp_all add: dec_stat_def stat_tlv_def nth_append)

lemma stat_tlv_ok: "list_all (\<lambda>tv. length (snd tv) < 65536) (map stat_tlv sts)"
  by (auto simp: list_all_iff stat_tlv_def split: stat.splits)

lemma put_family:
  "fold (put_per_afi_safi_tlv t) fs buf =
    buf @ concat (map (enc_tlv \<circ> stat_tlv) (map (\<lambda>((afi, safi), v). Stat_Family t afi safi v) fs))"
proof (induction fs arbitrary: buf)
  case (Cons x fs)
  obtain afi safi v where x: "x = ((afi, safi), v)" by (metis surj_pair)
  have "put_per_afi_safi_tlv t x buf = buf @ enc_tlv (stat_tlv (Stat_Family t afi safi v))"
    by (simp add: x put_per_afi_safi_tlv_def enc_tlv_def stat_tlv_def)
  then show ?case by (simp add: Cons.IH x)
qed simp

lemma put_scalar:
  "put_counter_tlv t v buf = buf @ enc_tlv (stat_tlv (Stat_Counter t (u32_or_max64 v)))"
  "put_gauge_tlv t v buf = buf @ enc_tlv (stat_tlv (Stat_Gauge t v))"
  by (simp_all add: put_counter_tlv_def put_gauge_tlv_def enc_tlv_def stat_tlv_def)

lemma build_stats_body_tlvs:
  "build_stats_body s = u32_be (of_nat (length (report s))) @ concat (map (enc_tlv \<circ> stat_tlv) (report s))"
proof -
  have "drop 4 (u32_be 0 @ xs) = xs" for xs by simp
  then show ?thesis by (simp add: build_stats_body_def Let_def put_scalar put_family report_def ac_simps del: append_assoc)
qed

lemma dec_build_stats_body:
  assumes "length (bs_adj_rib_in_per_afi_safi s) + length (bs_loc_rib_per_afi_safi s) < 2 ^ 32 - 12"
  shows "dec_stats (build_stats_body s) = Some (report s)"
proof -
  have "length (report s) < 2 ^ 32" using assms by (simp add: report_def)
  then have "unat (of_nat (length (report s)) :: u32) = length (report s)" by (simp add: unat_of_nat)
  moreover have "those (map dec_stat (map stat_tlv sts)) = Some sts" for sts
    by (induction sts) (simp_all add: dec_stat_tlv)
  ultimately show ?thesis
    using tlv.dec_seq_enc [OF stat_tlv_ok, of "report s"]
    by (simp add: dec_stats_def build_stats_body_tlvs del: map_map) simp
qed

subsection \<open>Gauges\<close>

datatype stats_op =
    Op_Rejected u64
  | Op_Announced afi_safi_key u64
  | Op_Withdrawn afi_safi_key u64
  | Op_Reset

fun stats_apply :: "stats_op \<Rightarrow> bgp_peer_stats \<Rightarrow> bgp_peer_stats" where
  "stats_apply (Op_Rejected n) s = inc_prefixes_rejected n s"
| "stats_apply (Op_Announced k n) s = add_adj_rib_in k n s"
| "stats_apply (Op_Withdrawn k n) s = sub_adj_rib_in k n s"
| "stats_apply Op_Reset s = reset_adj_rib_in s"

fun op_announced :: "stats_op \<Rightarrow> nat" where
  "op_announced (Op_Announced k n) = unat n"
| "op_announced _ = 0"

definition gauge_sum :: "('k \<times> u64) list \<Rightarrow> nat" where
  "gauge_sum m = sum_list (map (unat \<circ> snd) m)"

definition stats_wf :: "nat \<Rightarrow> bgp_peer_stats \<Rightarrow> bool" where
  "stats_wf lim s \<longleftrightarrow>
    hm_wf (bs_adj_rib_in_per_afi_safi s) \<and> unat (bs_adj_rib_in_routes s) = gauge_sum (bs_adj_rib_in_per_afi_safi s) \<and>
    gauge_sum (bs_adj_rib_in_per_afi_safi s) \<le> lim \<and> bs_loc_rib_per_afi_safi s = []"

lemma gauge_sum_insert: "gauge_sum (hm_insert k v m) + unat (gauge m k) = gauge_sum m + unat v"
  by (induction m) (auto simp: gauge_sum_def hm_insert_def gauge_def hm_get_def)

lemma gauge_le_sum: "unat (gauge m k) \<le> gauge_sum m"
  by (induction m) (auto simp: gauge_sum_def gauge_def hm_get_def)

lemma unat_add_lt: "unat a + unat b < 2 ^ 64 \<Longrightarrow> unat (a + b :: u64) = unat a + unat b"
  by (simp add: unat_word_ariths)

lemma stats_wf_new: "stats_wf 0 peer_stats_new"
  by (simp add: stats_wf_def peer_stats_new_def gauge_sum_def)

lemma stats_wf_add:
  assumes wf: "stats_wf lim s" and room: "lim + unat n < 2 ^ 64"
  shows "stats_wf (lim + unat n) (add_adj_rib_in k n s)"
proof -
  let ?m = "bs_adj_rib_in_per_afi_safi s"
  have sums: "unat (bs_adj_rib_in_routes s) = gauge_sum ?m" "gauge_sum ?m \<le> lim" "hm_wf ?m"
    using wf by (simp_all add: stats_wf_def)
  have "unat (gauge ?m k + n) = unat (gauge ?m k) + unat n" "unat (bs_adj_rib_in_routes s + n) = gauge_sum ?m + unat n"
    using sums room gauge_le_sum [of ?m k] by (simp_all add: unat_add_lt)
  then show ?thesis
    using wf sums gauge_sum_insert [of k "gauge ?m k + n" ?m] by (simp add: stats_wf_def add_adj_rib_in_def)
qed

lemma stats_wf_sub:
  assumes wf: "stats_wf lim s"
  shows "stats_wf lim (sub_adj_rib_in k n s)"
proof -
  let ?m = "bs_adj_rib_in_per_afi_safi s" and ?d = "min (gauge (bs_adj_rib_in_per_afi_safi s) k) n"
  have "unat ?d \<le> unat (gauge ?m k)" by (simp add: min_def word_le_nat_alt)
  then have "gauge_sum (hm_insert k (saturating_sub (gauge ?m k) ?d) ?m) = gauge_sum ?m - unat ?d"
    using gauge_sum_insert [of k "saturating_sub (gauge ?m k) ?d" ?m] gauge_le_sum [of ?m k]
    by (simp add: unat_saturating_sub)
  then show ?thesis
    using wf by (auto simp: stats_wf_def sub_adj_rib_in_def Let_def unat_saturating_sub)
qed

lemma stats_wf_apply:
  assumes "stats_wf lim s" "lim + op_announced op < 2 ^ 64"
  shows "stats_wf (lim + op_announced op) (stats_apply op s)"
  using assms
  by (cases op)
    (simp_all add: stats_wf_add stats_wf_sub,
     simp_all add: stats_wf_def inc_prefixes_rejected_def reset_adj_rib_in_def gauge_sum_def)

lemma stats_wf_run:
  "\<lbrakk>stats_wf lim s; lim + sum_list (map op_announced ops) < 2 ^ 64\<rbrakk> \<Longrightarrow>
    stats_wf (lim + sum_list (map op_announced ops)) (fold stats_apply ops s)"
proof (induction ops arbitrary: lim s)
  case (Cons op ops)
  then show ?case using stats_wf_apply [of lim s op] Cons.IH [of "lim + op_announced op" "stats_apply op s"]
    by (simp add: add.assoc)
qed simp

lemma hm_wf_length: "hm_wf (m :: (afi_safi_key, u64) hmap) \<Longrightarrow> length m \<le> 2 ^ 24"
proof -
  assume "hm_wf m"
  then have "length m = card (set (map fst m))" by (metis distinct_card hm_wf_def length_map)
  also have "\<dots> \<le> card (UNIV :: afi_safi_key set)" by (rule card_mono) simp_all
  also have "\<dots> = 2 ^ 24" by (simp add: card_word flip: UNIV_Times_UNIV)
  finally show ?thesis .
qed

definition family_sum :: "stat list \<Rightarrow> nat" where
  "family_sum sts = sum_list (map (\<lambda>st. case st of Stat_Family t a f v \<Rightarrow> if t = 9 then unat v else 0 | _ \<Rightarrow> 0) sts)"

lemma family_sum_append [simp]: "family_sum (xs @ ys) = family_sum xs + family_sum ys"
  by (simp add: family_sum_def)

lemma family_sum_families:
  "family_sum (map (\<lambda>((a, f), v). Stat_Family t a f v) m) = (if t = 9 then gauge_sum m else 0)"
  by (induction m) (auto simp: family_sum_def gauge_sum_def)

lemma family_sum_report: "family_sum (report s) = gauge_sum (bs_adj_rib_in_per_afi_safi s)"
proof -
  have scalar: "family_sum [] = 0" "family_sum (Stat_Counter t v # sts) = family_sum sts"
    "family_sum (Stat_Gauge t g # sts) = family_sum sts" for t v g sts
    by (simp_all add: family_sum_def)
  show ?thesis unfolding report_def family_sum_append family_sum_families scalar by simp
qed

lemma report_gauge: "Stat_Gauge 7 g \<in> set (report s) \<Longrightarrow> g = bs_adj_rib_in_routes s"
  by (auto simp: report_def)

lemma gauge_sum_iterate: "gauge_sum (iterate it m) = gauge_sum m"
  unfolding gauge_sum_def by (metis mset_iterate mset_map sum_mset_sum_list)

lemma report_snapshot: "mset (report (stats_snapshot it s)) = mset (report s)"
  by (simp add: report_def stats_snapshot_def)

lemma dec_snapshot:
  assumes "stats_wf lim s"
  shows "dec_stats (build_stats_body (stats_snapshot it s)) = Some (report (stats_snapshot it s))"
  using assms hm_wf_length [of "bs_adj_rib_in_per_afi_safi s"]
  by (intro dec_build_stats_body) (simp add: stats_wf_def stats_snapshot_def)

lemma snapshot_consistent:
  assumes "stats_wf lim s" "Stat_Gauge 7 g \<in> set (report (stats_snapshot it s))"
  shows "unat g = family_sum (report (stats_snapshot it s))"
  using assms report_gauge [OF assms(2)]
  by (simp add: family_sum_report stats_snapshot_def stats_wf_def gauge_sum_iterate)

lemma nth_memD: "\<lbrakk>xs ! n = x; n < length xs\<rbrakk> \<Longrightarrow> x \<in> set xs"
  by auto

lemma emit_statsD:
  assumes "PeerStats i body \<in> set (emit_stats it fit r regs)"
  obtains n info s where "(i, s) \<in> set r" "reg_get (regs n) i = Some info" "ii_state info = Some Connected"
    "ii_ingress_type info = Some IT_Bgp" "body = build_stats_body (stats_snapshot fit s)"
proof -
  obtain n s where "(n, i, s) \<in> set (List.enumerate 0 (snapshot_all it fit r))"
    and one: "emit_one (regs n) i s = Some (PeerStats i body)"
    using assms by (auto simp: emit_stats_def map_filter_def emit_one_def split: option.splits if_splits)
  then have "(i, s) \<in> set (snapshot_all it fit r)" by (auto simp: in_set_enumerate_eq intro: nth_memD)
  then obtain s' where "(i, s') \<in> set r" "s = stats_snapshot fit s'" by (auto simp: snapshot_all_def)
  then show thesis using one that by (auto simp: emit_one_def split: option.splits if_splits)
qed



end
