(* ===== verification/Bgp_Config.thy ===== *)
theory Bgp_Config
  imports Rpki
begin

text \<open>
  Configuration of the BGP peers: src/units/bgp_tcp_in/peer_config.rs and the configuration of the
  unit in src/units/bgp_tcp_in/unit.rs.

  The configurations are a \<open>BTreeMap\<close>, modelled as the list of its entries in iteration order,
  which is ascending in the order derived for \<open>PrefixOrExact\<close> (\<open>key_lt\<close>): addresses before
  prefixes, and two of the same kind by the order of \<open>IpAddr\<close> (\<open>ip_lt\<close>) and of inetnum's
  \<open>Prefix\<close>, the parameter \<open>plt\<close>; inetnum documents that more specifics sort before less
  specifics. \<open>contains\<close> is \<open>Prefix::contains\<close>. The theory shows that the first match is the most
  specific one.
\<close>

subsection \<open>Peers\<close>

datatype prefix_or_exact = Exact ip_addr | PrefixKey prefix

fun poe_is_exact :: "prefix_or_exact \<Rightarrow> bool" where
  "poe_is_exact (Exact _) = True"
| "poe_is_exact (PrefixKey _) = False"

fun poe_contains :: "(prefix \<Rightarrow> ip_addr \<Rightarrow> bool) \<Rightarrow> prefix_or_exact \<Rightarrow> ip_addr \<Rightarrow> bool" where
  "poe_contains contains (Exact a) addr = (a = addr)"
| "poe_contains contains (PrefixKey p) addr = contains p addr"

datatype one_or_many_asns = Many "asn list" | One asn

fun asns_is_single :: "one_or_many_asns \<Rightarrow> bool" where
  "asns_is_single (One _) = True"
| "asns_is_single (Many _) = False"

fun asns_contains :: "one_or_many_asns \<Rightarrow> asn \<Rightarrow> bool" where
  "asns_contains (One a) b = (a = b)"
| "asns_contains (Many as) b = (b \<in> set as)"

record peer_config =
  pc_name :: ustr
  pc_remote_asn :: one_or_many_asns
  pc_hold_time :: "u16 option"
  pc_md5_key :: "ustr option"
  pc_protocols :: "afisafi list"
  pc_addpath :: "afisafi list"

type_synonym peer_configs = "(prefix_or_exact \<times> peer_config) list"

definition configs_get ::
  "(prefix \<Rightarrow> ip_addr \<Rightarrow> bool) \<Rightarrow> peer_configs \<Rightarrow> ip_addr \<Rightarrow> (prefix_or_exact \<times> peer_config) option" where
  "configs_get contains cfgs a =
    find (\<lambda>(k, _). case k of Exact e \<Rightarrow> e = a | PrefixKey p \<Rightarrow> contains p a) cfgs"

definition configs_get_exact :: "peer_configs \<Rightarrow> prefix_or_exact \<Rightarrow> peer_config option" where
  "configs_get_exact cfgs k = map_of cfgs k"

definition accept_remote_asn :: "peer_config \<Rightarrow> asn \<Rightarrow> bool" where
  "accept_remote_asn c remote =
    (case pc_remote_asn c of
      Many as \<Rightarrow> as = [] \<or> asns_contains (Many as) remote
    | One a \<Rightarrow> asns_contains (One a) remote)"

definition md5_key :: "peer_config \<Rightarrow> ustr option" where
  "md5_key c = (case pc_md5_key c of Some k \<Rightarrow> if k \<noteq> [] then Some k else None | None \<Rightarrow> None)"

definition peer_config_eq :: "peer_config \<Rightarrow> peer_config \<Rightarrow> bool" where
  "peer_config_eq c d \<longleftrightarrow>
    pc_remote_asn c = pc_remote_asn d \<and> pc_hold_time c = pc_hold_time d \<and> pc_md5_key c = pc_md5_key d"

subsection \<open>The unit\<close>

record bgp_tcp_in =
  bt_listen :: ustr
  bt_my_asn :: asn
  bt_my_bgp_id :: bytes
  bt_peer_configs :: peer_configs
  bt_synthesize_peer_stats :: "bool option"
  bt_peer_stats_interval_secs :: u64

definition bgp_tcp_in_eq :: "bgp_tcp_in \<Rightarrow> bgp_tcp_in \<Rightarrow> bool" where
  "bgp_tcp_in_eq c d \<longleftrightarrow> bt_listen c = bt_listen d \<and> bt_my_asn c = bt_my_asn d \<and> bt_my_bgp_id c = bt_my_bgp_id d"

record combined_config =
  cc_my_asn :: asn
  cc_my_bgp_id :: bytes
  cc_remote :: prefix_or_exact
  cc_peer_config :: peer_config

definition combined_new :: "bgp_tcp_in \<Rightarrow> peer_config \<Rightarrow> prefix_or_exact \<Rightarrow> combined_config" where
  "combined_new b c k =
    \<lparr>cc_my_asn = bt_my_asn b, cc_my_bgp_id = bt_my_bgp_id b, cc_remote = k, cc_peer_config = c\<rparr>"

definition remote_addr_allowed :: "(prefix \<Rightarrow> ip_addr \<Rightarrow> bool) \<Rightarrow> combined_config \<Rightarrow> ip_addr \<Rightarrow> bool" where
  "remote_addr_allowed contains c a = poe_contains contains (cc_remote c) a"

definition remote_asn_allowed :: "combined_config \<Rightarrow> asn \<Rightarrow> bool" where
  "remote_asn_allowed c a = accept_remote_asn (cc_peer_config c) a"

definition config_is_exact :: "combined_config \<Rightarrow> bool" where
  "config_is_exact c \<longleftrightarrow> poe_is_exact (cc_remote c) \<and> asns_is_single (pc_remote_asn (cc_peer_config c))"

text \<open>The MD5 keys that are set on the listening socket: address, prefix length and key.\<close>

definition configure_listener_md5 :: "bgp_tcp_in \<Rightarrow> (ip_addr \<times> u8 option \<times> bytes) list" where
  "configure_listener_md5 b =
    List.map_filter (\<lambda>(k, c).
      case md5_key c of
        None \<Rightarrow> None
      | Some key \<Rightarrow>
          (case k of
            Exact a \<Rightarrow> Some (a, None, utf8 key)
          | PrefixKey p \<Rightarrow> Some (pfx_addr p, Some (pfx_len p), utf8 key))) (bt_peer_configs b)"

subsection \<open>The most specific configuration\<close>

fun ip_lt :: "ip_addr \<Rightarrow> ip_addr \<Rightarrow> bool" where
  "ip_lt (V4 a) (V4 b) = (a < b)"
| "ip_lt (V6 a) (V6 b) = (a < b)"
| "ip_lt (V4 _) (V6 _) = True"
| "ip_lt (V6 _) (V4 _) = False"

fun key_lt :: "(prefix \<Rightarrow> prefix \<Rightarrow> bool) \<Rightarrow> prefix_or_exact \<Rightarrow> prefix_or_exact \<Rightarrow> bool" where
  "key_lt plt (Exact a) (Exact b) = ip_lt a b"
| "key_lt plt (PrefixKey p) (PrefixKey q) = plt p q"
| "key_lt plt (Exact _) (PrefixKey _) = True"
| "key_lt plt (PrefixKey _) (Exact _) = False"

definition host :: "ip_addr \<Rightarrow> prefix" where
  "host a = \<lparr>pfx_addr = a, pfx_len = of_nat (addr_bits a)\<rparr>"

fun key_prefix :: "prefix_or_exact \<Rightarrow> prefix" where
  "key_prefix (Exact a) = host a"
| "key_prefix (PrefixKey p) = p"

lemma div_pow_mono:
  fixes a b :: nat
  assumes "a div 2 ^ m = b div 2 ^ m" "m \<le> n"
  shows "a div 2 ^ n = b div 2 ^ n"
proof -
  have "x div 2 ^ n = x div 2 ^ m div 2 ^ (n - m)" for x :: nat
    using assms(2) by (simp add: div_mult2_eq [symmetric] power_add [symmetric])
  then show ?thesis using assms(1) by simp
qed

text \<open>Of two prefixes that contain an address, the shorter covers the longer.\<close>

lemma covers_linear:
  assumes "covers p h" "covers q h" "pfx_len p \<le> pfx_len q"
  shows "covers p q"
proof -
  let ?b = "addr_bits (pfx_addr h)"
  have bits: "addr_bits (pfx_addr p) = ?b" "addr_bits (pfx_addr q) = ?b"
    using assms by (simp_all add: covers_def addr_bits_def)
  have "addr_val (pfx_addr q) div 2 ^ (?b - unat (pfx_len p)) = addr_val (pfx_addr h) div 2 ^ (?b - unat (pfx_len p))"
  proof (rule div_pow_mono)
    show "addr_val (pfx_addr q) div 2 ^ (?b - unat (pfx_len q)) = addr_val (pfx_addr h) div 2 ^ (?b - unat (pfx_len q))"
      using assms(2) bits by (simp add: covers_def)
    show "?b - unat (pfx_len q) \<le> ?b - unat (pfx_len p)"
      using assms(3) by (simp add: word_le_nat_alt diff_le_mono2)
  qed
  then show ?thesis using assms bits by (simp add: covers_def)
qed

lemma find_sorted:
  assumes "sorted_wrt lt xs" "find P xs = Some x" "y \<in> set xs" "P y" "y \<noteq> x"
  shows "lt x y"
  using assms by (induction xs) (auto split: if_splits)

lemma find_map_of: "find (\<lambda>(k, _). P k) xs = Some (k, c) \<Longrightarrow> map_of xs k = Some c"
  by (induction xs) (auto simp: find_Some_iff split: if_splits)

lemma configs_get_find: "configs_get contains cfgs a = find (\<lambda>(k, _). poe_contains contains k a) cfgs"
proof -
  have "(case k of Exact e \<Rightarrow> e = a | PrefixKey p \<Rightarrow> contains p a) = poe_contains contains k a" for k
    by (cases k) simp_all
  then show ?thesis by (simp add: configs_get_def)
qed

lemma first_key_most_specific:
  assumes order: "\<forall>p q. prefix_ok p \<and> prefix_ok q \<and> covers p q \<longrightarrow> \<not> plt p q"
    and contains: "\<forall>p a. prefix_ok p \<longrightarrow> contains p a = covers p (host a)"
    and match: "poe_contains contains k a" "poe_contains contains k' a"
    and ok: "\<forall>p. PrefixKey p \<in> {k, k'} \<longrightarrow> prefix_ok p"
    and first: "k' = k \<or> key_lt plt k k'"
  shows "covers (key_prefix k') (key_prefix k) \<and> (k' \<noteq> k \<longrightarrow> \<not> poe_is_exact k')"
proof (cases k)
  case (Exact e)
  then show ?thesis using match contains ok by (cases k') (auto simp: covers_def)
next
  case k: (PrefixKey p)
  then obtain q where q: "k' = PrefixKey q" using first by (cases k') auto
  have cov: "covers p (host a)" "covers q (host a)" using k q match contains ok by auto
  have "covers q p"
  proof (cases "pfx_len q \<le> pfx_len p")
    case True
    then show ?thesis using covers_linear cov by blast
  next
    case False
    then have "covers p q" using covers_linear cov by (meson linear)
    then show ?thesis using order ok first k q by (auto simp: covers_def)
  qed
  then show ?thesis using k q by simp
qed

text \<open>
  C17: Under the documented order of inetnum's prefixes, the configuration that is found for the
  address of an incoming connection is the most specific one: its key matches the address, every
  other key that matches it covers that key (an exact address wins over every prefix), and the
  session that is made with it allows the address. When nothing is found, no key matches.
\<close>

theorem peer_config_most_specific:
  assumes order: "\<forall>p q. prefix_ok p \<and> prefix_ok q \<and> covers p q \<longrightarrow> \<not> plt p q"
    and contains: "\<forall>p a. prefix_ok p \<longrightarrow> contains p a = covers p (host a)"
    and sorted: "sorted_wrt (key_lt plt) (map fst (bt_peer_configs b))"
    and valid: "\<forall>p c. (PrefixKey p, c) \<in> set (bt_peer_configs b) \<longrightarrow> prefix_ok p"
  shows "case configs_get contains (bt_peer_configs b) a of
      None \<Rightarrow> \<forall>k c. (k, c) \<in> set (bt_peer_configs b) \<longrightarrow> \<not> poe_contains contains k a
    | Some (k, c) \<Rightarrow> configs_get_exact (bt_peer_configs b) k = Some c \<and>
        remote_addr_allowed contains (combined_new b c k) a \<and>
        (\<forall>k' c'. (k', c') \<in> set (bt_peer_configs b) \<longrightarrow> poe_contains contains k' a \<longrightarrow>
          covers (key_prefix k') (key_prefix k) \<and> (k' \<noteq> k \<longrightarrow> \<not> poe_is_exact k'))"
proof (cases "configs_get contains (bt_peer_configs b) a")
  case None
  then have "\<forall>k c. (k, c) \<in> set (bt_peer_configs b) \<longrightarrow> \<not> poe_contains contains k a"
    by (auto simp: configs_get_find find_None_iff)
  then show ?thesis using None by simp
next
  case (Some hit)
  obtain k c where hit: "hit = (k, c)" by force
  let ?P = "\<lambda>(k, _ :: peer_config). poe_contains contains k a"
  have found: "find ?P (bt_peer_configs b) = Some (k, c)" using Some hit by (simp add: configs_get_find)
  have k: "poe_contains contains k a" "(k, c) \<in> set (bt_peer_configs b)"
    using found by (auto simp: find_Some_iff in_set_conv_nth)
  have "covers (key_prefix k') (key_prefix k) \<and> (k' \<noteq> k \<longrightarrow> \<not> poe_is_exact k')"
    if k': "(k', c') \<in> set (bt_peer_configs b)" "poe_contains contains k' a" for k' c'
  proof (rule first_key_most_specific [OF order contains k(1) k'(2)])
    show "\<forall>p. PrefixKey p \<in> {k, k'} \<longrightarrow> prefix_ok p" using valid k(2) k'(1) by auto
    show "k' = k \<or> key_lt plt k k'"
      using find_sorted [OF sorted [unfolded sorted_wrt_map] found k'(1)] k'(2) by auto
  qed
  then show ?thesis
    using Some hit k find_map_of [OF found] by (auto simp: configs_get_exact_def remote_addr_allowed_def combined_new_def)
qed

definition sample_configs :: peer_configs where
  "sample_configs =
    (let c = \<lparr>pc_name = [], pc_remote_asn = Many [], pc_hold_time = None, pc_md5_key = None, pc_protocols = [], pc_addpath = []\<rparr>
     in [(Exact (V4 0x02030406), c\<lparr>pc_remote_asn := One 100\<rparr>),
         (PrefixKey \<lparr>pfx_addr = V4 0x02030000, pfx_len = 16\<rparr>, c\<lparr>pc_remote_asn := Many [100, 200]\<rparr>),
         (PrefixKey \<lparr>pfx_addr = V4 0, pfx_len = 0\<rparr>, c)])"

theorem peer_config_most_specific_witness:
  "\<exists>k c. configs_get (\<lambda>p a. covers p (host a)) sample_configs (V4 0x02030405) = Some (k, c) \<and>
    k = PrefixKey \<lparr>pfx_addr = V4 0x02030000, pfx_len = 16\<rparr> \<and>
    covers \<lparr>pfx_addr = V4 0, pfx_len = 0\<rparr> (key_prefix k)"
proof -
  let ?b = "\<lparr>bt_listen = [], bt_my_asn = 1, bt_my_bgp_id = [], bt_peer_configs = sample_configs,
    bt_synthesize_peer_stats = None, bt_peer_stats_interval_secs = 60\<rparr>"
  let ?c = "\<lambda>p a. covers p (host a)" and ?a = "V4 0x02030405"
  have order: "\<forall>p q. prefix_ok p \<and> prefix_ok q \<and> covers p q \<longrightarrow> \<not> pfx_len q < pfx_len p"
    by (auto simp: covers_def)
  have srt: "sorted_wrt (key_lt (\<lambda>p q. pfx_len q < pfx_len p)) (map fst (bt_peer_configs ?b))"
    by (simp add: sample_configs_def Let_def)
  have ok: "\<forall>p c. (PrefixKey p, c) \<in> set (bt_peer_configs ?b) \<longrightarrow> prefix_ok p"
    by (auto simp: sample_configs_def Let_def prefix_ok_def addr_bits_def)
  have get: "configs_get ?c sample_configs ?a = Some (PrefixKey \<lparr>pfx_addr = V4 0x02030000, pfx_len = 16\<rparr>,
      snd (sample_configs ! 1))"
    by (simp add: configs_get_def sample_configs_def Let_def covers_def host_def addr_bits_def)
  have "(PrefixKey \<lparr>pfx_addr = V4 0, pfx_len = 0\<rparr>, snd (sample_configs ! 2)) \<in> set sample_configs"
    "covers \<lparr>pfx_addr = V4 0, pfx_len = 0\<rparr> (host ?a)"
    by (simp_all add: sample_configs_def Let_def covers_def host_def addr_bits_def)
  then show ?thesis
    using peer_config_most_specific [OF order _ srt ok, of ?c ?a] get by fastforce
qed

end
