(* ===== verification/Bgp_In.thy ===== *)
theory Bgp_In
  imports Rib_Update Peer_Stats Bgp_Config
begin

text \<open>
  The BGP input unit: the task of a session (\<open>Processor::process\<close>, \<open>process_update\<close> and
  \<open>handle_connection\<close> of src/units/bgp_tcp_in/router_handler.rs) and the accepting side
  (src/units/bgp_tcp_in/unit.rs).

  The tasks run in parallel and share the table of live sessions, the ingress register, the
  statistics and the gate. The unit is a transition system, \<open>bgp_step\<close>, in which a task moves from
  one access to shared state to the next, so every interleaving of the tasks is a run. The
  \<open>phase\<close> of a session is the point its task has reached: the select loop (\<open>Running\<close>), the
  handling of an UPDATE (\<open>Judged\<close>, \<open>Sending\<close>), of a negotiated session (\<open>Chosen\<close> to \<open>Counting\<close>) and
  the teardown after the loop (\<open>Leaving\<close> to \<open>Ended\<close>). \<open>Stopped\<close> is a task that was aborted or that
  panicked. Statistics are objects on a heap, since a session keeps its handle when the registry
  has dropped it.

  routecore's session is the environment: it delivers the messages, and the events carry what
  \<open>session.negotiated()\<close> returns when the code asks for it. \<open>be_filter\<close> is the roto filter and
  \<open>be_drain\<close> its output stream.
\<close>

subsection \<open>State\<close>

record negotiated =
  ng_remote_addr :: ip_addr
  ng_remote_asn :: asn
  ng_local_capabilities :: bytes
  ng_remote_capabilities :: bytes

text \<open>The key of the table of live sessions: remote address and ASN.\<close>

datatype live_key = Live_Key ip_addr asn

definition ng_key :: "negotiated \<Rightarrow> live_key" where
  "ng_key n = Live_Key (ng_remote_addr n) (ng_remote_asn n)"

datatype disconnect_reason = Shutdown | Reconfiguration | Deconfigured | ConnectionRejected

text \<open>An entry of the table of live sessions; the connection stands for its two handles.\<close>

record live_session =
  ls_session_id :: u64
  ls_conn :: nat
  ls_ingress_id :: ingress_id

datatype phase =
    Running
  | Judged nat bgp_update bool
  | Sending "payload list"
  | Chosen negotiated "ingress_id option"
  | Taking negotiated
  | Replacing negotiated live_session
  | Retiring negotiated live_session
  | Removing negotiated live_session
  | Inserting negotiated
  | Informing negotiated
  | Counting negotiated
  | Leaving
  | Withdrawing
  | Reclaiming
  | Ended
  | Stopped

record bgp_session =
  ss_unit_cfg :: bgp_tcp_in
  ss_config :: combined_config
  ss_connected_addr :: "ip_addr option"
  ss_ingress_id :: ingress_id
  ss_session_id :: "u64 option"
  ss_peer_stats :: "nat option"
  ss_phase :: phase
  ss_aborted :: bool
  ss_commands :: "disconnect_reason list"

record bgp_in_metrics =
  bm_connection_accepted :: nat
  bm_connection_lost :: nat
  bm_disconnect :: nat

record ('ctx, 'osm, 'rtr) bgp_in =
  bi_cfg :: bgp_tcp_in
  bi_sessions :: "bgp_session list"
  bi_live :: "(live_key, live_session) hmap"
  bi_register :: register
  bi_stats :: "(ingress_id, nat) hmap"
  bi_heap :: "bgp_peer_stats list"
  bi_next_session_id :: u64
  bi_ctx :: 'ctx
  bi_metrics :: bgp_in_metrics
  bi_out :: "('osm, 'rtr) update list"

record ('ctx, 'e) bgp_in_env =
  be_contains :: "prefix \<Rightarrow> ip_addr \<Rightarrow> bool"
  be_filter :: "('ctx \<Rightarrow> bgp_update \<Rightarrow> ingress_id \<Rightarrow> register \<Rightarrow> bool \<times> 'ctx) option"
  be_drain :: "'ctx \<Rightarrow> 'e roto_output list \<times> 'ctx"

definition on_session ::
  "nat \<Rightarrow> (bgp_session \<Rightarrow> bgp_session) \<Rightarrow> ('ctx, 'osm, 'rtr) bgp_in \<Rightarrow> ('ctx, 'osm, 'rtr) bgp_in" where
  "on_session c f b = b\<lparr>bi_sessions := (bi_sessions b)[c := f (bi_sessions b ! c)]\<rparr>"

definition goto :: "phase \<Rightarrow> bgp_session \<Rightarrow> bgp_session" where
  "goto p s = s\<lparr>ss_phase := p\<rparr>"

definition command :: "disconnect_reason \<Rightarrow> bgp_session \<Rightarrow> bgp_session" where
  "command r s = s\<lparr>ss_commands := ss_commands s @ [r]\<rparr>"

definition emit :: "('osm, 'rtr) update \<Rightarrow> ('ctx, 'osm, 'rtr) bgp_in \<Rightarrow> ('ctx, 'osm, 'rtr) bgp_in" where
  "emit u b = b\<lparr>bi_out := bi_out b @ [u]\<rparr>"

definition reg_with :: "(register \<Rightarrow> register) \<Rightarrow> ('ctx, 'osm, 'rtr) bgp_in \<Rightarrow> ('ctx, 'osm, 'rtr) bgp_in" where
  "reg_with f b = b\<lparr>bi_register := f (bi_register b)\<rparr>"

definition count_disconnect :: "bgp_session \<Rightarrow> ('ctx, 'osm, 'rtr) bgp_in \<Rightarrow> ('ctx, 'osm, 'rtr) bgp_in" where
  "count_disconnect s b =
    (if ss_connected_addr s \<noteq> None
     then b\<lparr>bi_metrics := (bi_metrics b)\<lparr>bm_disconnect := bm_disconnect (bi_metrics b) + 1\<rparr>\<rparr>
     else b)"

subsection \<open>UPDATE messages\<close>

fun rotonda_route_afi_safi :: "rotonda_route \<Rightarrow> afi_safi_key" where
  "rotonda_route_afi_safi (RR_Ipv4Unicast _ _) = (1, 1)"
| "rotonda_route_afi_safi (RR_Ipv6Unicast _ _) = (2, 1)"
| "rotonda_route_afi_safi (RR_Ipv4Multicast _ _) = (1, 2)"
| "rotonda_route_afi_safi (RR_Ipv6Multicast _ _) = (2, 2)"

definition bucket_by_family :: "rotonda_route list \<Rightarrow> (afi_safi_key, u64) hmap" where
  "bucket_by_family rrs = fold (\<lambda>rr m. let k = rotonda_route_afi_safi rr in hm_insert k (gauge m k + 1) m) rrs []"

definition count_routes ::
  "((afi_safi_key \<times> u64) list \<Rightarrow> (afi_safi_key \<times> u64) list) \<Rightarrow> rotonda_route list \<Rightarrow> rotonda_route list \<Rightarrow>
   bgp_peer_stats \<Rightarrow> bgp_peer_stats" where
  "count_routes fit reach unreach ps =
    fold (\<lambda>(k, v). sub_adj_rib_in k v) (iterate fit (bucket_by_family unreach))
      (fold (\<lambda>(k, v). add_adj_rib_in k v) (iterate fit (bucket_by_family reach)) ps)"

definition on_stats ::
  "nat option \<Rightarrow> (bgp_peer_stats \<Rightarrow> bgp_peer_stats) \<Rightarrow> ('ctx, 'osm, 'rtr) bgp_in \<Rightarrow> ('ctx, 'osm, 'rtr) bgp_in" where
  "on_stats handle f b =
    (case handle of
      None \<Rightarrow> b
    | Some h \<Rightarrow> b\<lparr>bi_heap := (bi_heap b)[h := f (bi_heap b ! h)]\<rparr>)"

definition bgp_process_update ::
  "((afi_safi_key \<times> u64) list \<Rightarrow> (afi_safi_key \<times> u64) list) \<Rightarrow> nat \<Rightarrow> bgp_update \<Rightarrow> ingress_id \<Rightarrow> nat option \<Rightarrow>
   ('ctx, 'osm, 'rtr) bgp_in \<Rightarrow> (payload list \<times> ('ctx, 'osm, 'rtr) bgp_in) option" where
  "bgp_process_update fit received u i handle b =
    (case explode_announcements u of
      None \<Rightarrow> None
    | Some reach \<Rightarrow>
        (case explode_withdrawals u of
          None \<Rightarrow> None
        | Some unreach \<Rightarrow>
            Some (map (mk_payload received i Active) reach @ map (mk_payload received i Withdrawn) unreach,
              on_stats handle (count_routes fit reach unreach) b)))"

text \<open>The filter runs and its output is published under the session's ingress id.\<close>

definition judge ::
  "('ctx, 'e) bgp_in_env \<Rightarrow> nat \<Rightarrow> nat \<Rightarrow> bgp_update \<Rightarrow> negotiated option \<Rightarrow>
   ('ctx, 'e output_stream_message, 'rtr) bgp_in \<Rightarrow> ('ctx, 'e output_stream_message, 'rtr) bgp_in" where
  "judge env c received u neg b =
    (let s = bi_sessions b ! c
     in case neg of
       None \<Rightarrow> on_session c (goto Leaving) b
     | Some _ \<Rightarrow>
        (case (case be_filter env of
                Some f \<Rightarrow> f (bi_ctx b) u (ss_ingress_id s) (bi_register b)
              | None \<Rightarrow> (True, bi_ctx b)) of
          (accept, ctx) \<Rightarrow>
            (case be_drain env ctx of
              (entries, ctx) \<Rightarrow>
                on_session c (goto (Judged received u accept))
                  (emit (OutputStream (process_output_stream None (Some (ss_ingress_id s)) entries)) (b\<lparr>bi_ctx := ctx\<rparr>)))))"

definition apply_verdict ::
  "((afi_safi_key \<times> u64) list \<Rightarrow> (afi_safi_key \<times> u64) list) \<Rightarrow> nat \<Rightarrow> nat \<Rightarrow> bgp_update \<Rightarrow> bool \<Rightarrow>
   ('ctx, 'osm, 'rtr) bgp_in \<Rightarrow> ('ctx, 'osm, 'rtr) bgp_in" where
  "apply_verdict fit c received u accept b =
    (let s = bi_sessions b ! c
     in if accept
        then (case bgp_process_update fit received u (ss_ingress_id s) (ss_peer_stats s) b of
          Some (payloads, b) \<Rightarrow> on_session c (goto (Sending payloads)) b
        | None \<Rightarrow> on_session c (goto Running) b)
        else
          (let n = (case explode_announcements u of Some rrs \<Rightarrow> length rrs | None \<Rightarrow> 0)
           in on_session c (goto Running)
                (if n > 0 then on_stats (ss_peer_stats s) (inc_prefixes_rejected (of_nat n)) b else b)))"

subsection \<open>A negotiated session\<close>

definition session_query :: "negotiated \<Rightarrow> ingress_info" where
  "session_query n = ingress_info_new\<lparr>ii_remote_addr := Some (ng_remote_addr n),
     ii_remote_asn := Some (ng_remote_asn n), ii_ingress_type := Some IT_Bgp\<rparr>"

definition session_info :: "negotiated \<Rightarrow> ingress_info" where
  "session_info n = ingress_info_new\<lparr>ii_ingress_type := Some IT_Bgp, ii_state := Some Connected,
     ii_remote_addr := Some (ng_remote_addr n), ii_remote_asn := Some (ng_remote_asn n),
     ii_peer_rib_type := Some InPost, ii_local_capabilities := Some (ng_local_capabilities n),
     ii_remote_capabilities := Some (ng_remote_capabilities n)\<rparr>"

definition choose_ingress ::
  "reg_order \<Rightarrow> nat \<Rightarrow> negotiated \<Rightarrow> ('ctx, 'osm, 'rtr) bgp_in \<Rightarrow> ('ctx, 'osm, 'rtr) bgp_in" where
  "choose_ingress it c n b =
    (let sid = bi_next_session_id b;
         b = b\<lparr>bi_next_session_id := sid + 1\<rparr>
     in case find_existing_bgp_session it (bi_register b) (session_query n) of
       Some (existing_id, _) \<Rightarrow>
         on_session c (\<lambda>s. goto (Chosen n (Some existing_id)) (s\<lparr>ss_session_id := Some sid, ss_ingress_id := existing_id\<rparr>)) b
     | None \<Rightarrow> on_session c (\<lambda>s. goto (Chosen n None) (s\<lparr>ss_session_id := Some sid\<rparr>)) b)"

definition withdraw_stale ::
  "nat \<Rightarrow> negotiated \<Rightarrow> ingress_id option \<Rightarrow> ('ctx, 'osm, 'rtr) bgp_in \<Rightarrow> ('ctx, 'osm, 'rtr) bgp_in" where
  "withdraw_stale c n existing b =
    on_session c (goto (Taking n))
      (case existing of Some existing_id \<Rightarrow> emit (Withdraw existing_id None) b | None \<Rightarrow> b)"

definition take_old :: "nat \<Rightarrow> negotiated \<Rightarrow> ('ctx, 'osm, 'rtr) bgp_in \<Rightarrow> ('ctx, 'osm, 'rtr) bgp_in" where
  "take_old c n b =
    (case hm_take (ng_key n) (bi_live b) of
      (Some old, ls) \<Rightarrow> on_session c (goto (Replacing n old)) (b\<lparr>bi_live := ls\<rparr>)
    | (None, ls) \<Rightarrow> on_session c (goto (Inserting n)) (b\<lparr>bi_live := ls\<rparr>))"

definition replace_old ::
  "nat \<Rightarrow> negotiated \<Rightarrow> live_session \<Rightarrow> ('ctx, 'osm, 'rtr) bgp_in \<Rightarrow> ('ctx, 'osm, 'rtr) bgp_in" where
  "replace_old c n old b =
    (let b = on_session (ls_conn old) (\<lambda>s. (command ConnectionRejected s)\<lparr>ss_aborted := True\<rparr>) b
     in if ls_ingress_id old \<noteq> ss_ingress_id (bi_sessions b ! c)
        then on_session c (goto (Retiring n old)) b
        else on_session c (goto (Inserting n)) b)"

definition retire_old ::
  "nat \<Rightarrow> negotiated \<Rightarrow> live_session \<Rightarrow> ('ctx, 'osm, 'rtr) bgp_in \<Rightarrow> ('ctx, 'osm, 'rtr) bgp_in" where
  "retire_old c n old b = on_session c (goto (Removing n old)) (emit (Withdraw (ls_ingress_id old) None) b)"

definition remove_old ::
  "nat \<Rightarrow> negotiated \<Rightarrow> live_session \<Rightarrow> ('ctx, 'osm, 'rtr) bgp_in \<Rightarrow> ('ctx, 'osm, 'rtr) bgp_in" where
  "remove_old c n old b =
    on_session c (goto (Inserting n)) (reg_with (\<lambda>r. snd (reg_remove r (ls_ingress_id old))) b)"

definition insert_live :: "nat \<Rightarrow> negotiated \<Rightarrow> ('ctx, 'osm, 'rtr) bgp_in \<Rightarrow> ('ctx, 'osm, 'rtr) bgp_in" where
  "insert_live c n b =
    (let s = bi_sessions b ! c
     in case ss_session_id s of
       Some sid \<Rightarrow>
         on_session c (goto (Informing n)) (b\<lparr>bi_live := hm_insert (ng_key n)
           \<lparr>ls_session_id = sid, ls_conn = c, ls_ingress_id = ss_ingress_id s\<rparr> (bi_live b)\<rparr>)
     | None \<Rightarrow> b)"

definition inform_register :: "nat \<Rightarrow> negotiated \<Rightarrow> ('ctx, 'osm, 'rtr) bgp_in \<Rightarrow> ('ctx, 'osm, 'rtr) bgp_in" where
  "inform_register c n b =
    on_session c (goto (Counting n))
      (reg_with (\<lambda>r. snd (update_info r (ss_ingress_id (bi_sessions b ! c)) (session_info n))) b)"

definition get_or_create :: "ingress_id \<Rightarrow> ('ctx, 'osm, 'rtr) bgp_in \<Rightarrow> nat \<times> ('ctx, 'osm, 'rtr) bgp_in" where
  "get_or_create i b =
    (case hm_get (bi_stats b) i of
      Some h \<Rightarrow> (h, b)
    | None \<Rightarrow>
        (let h = length (bi_heap b)
         in (h, b\<lparr>bi_heap := bi_heap b @ [peer_stats_new], bi_stats := hm_insert i h (bi_stats b)\<rparr>)))"

definition acquire_stats :: "nat \<Rightarrow> ('ctx, 'osm, 'rtr) bgp_in \<Rightarrow> ('ctx, 'osm, 'rtr) bgp_in" where
  "acquire_stats c b =
    (case get_or_create (ss_ingress_id (bi_sessions b ! c)) b of
      (h, b) \<Rightarrow> on_session c (\<lambda>s. goto Running (s\<lparr>ss_peer_stats := Some h\<rparr>)) (on_stats (Some h) reset_adj_rib_in b))"

text \<open>The registry as the emitter of reports reads it.\<close>

definition stats_view :: "('ctx, 'osm, 'rtr) bgp_in \<Rightarrow> stats_registry" where
  "stats_view b = map (\<lambda>(i, h). (i, bi_heap b ! h)) (bi_stats b)"

subsection \<open>Teardown\<close>

definition leave ::
  "nat \<Rightarrow> negotiated option \<Rightarrow> ('ctx, 'osm, 'rtr) bgp_in \<Rightarrow> ('ctx, 'osm, 'rtr) bgp_in" where
  "leave c neg b =
    (let s = bi_sessions b ! c
     in case (ss_session_id s, neg) of
       (Some sid, Some n) \<Rightarrow>
         (if map_option ls_session_id (hm_get (bi_live b) (ng_key n)) = Some sid
          then on_session c (goto Withdrawing)
            (reg_with (\<lambda>r. snd (update_info r (ss_ingress_id s) (with_state Disconnected ingress_info_new)))
              (b\<lparr>bi_live := hm_remove (ng_key n) (bi_live b)\<rparr>))
          else on_session c (goto Ended) b)
     | _ \<Rightarrow> on_session c (goto Ended) b)"

definition withdraw_own :: "nat \<Rightarrow> ('ctx, 'osm, 'rtr) bgp_in \<Rightarrow> ('ctx, 'osm, 'rtr) bgp_in" where
  "withdraw_own c b =
    on_session c (goto Reclaiming) (emit (Withdraw (ss_ingress_id (bi_sessions b ! c)) None) b)"

definition reclaim :: "nat \<Rightarrow> ('ctx, 'osm, 'rtr) bgp_in \<Rightarrow> ('ctx, 'osm, 'rtr) bgp_in" where
  "reclaim c b =
    (let i = ss_ingress_id (bi_sessions b ! c)
     in on_session c (goto Ended)
       (if list_ex (\<lambda>(_, l). ls_ingress_id l = i) (bi_live b) then b
        else (reg_with (\<lambda>r. snd (reg_remove r i)) b)\<lparr>bi_stats := hm_remove i (bi_stats b)\<rparr>))"

subsection \<open>Reconfiguration and acceptance\<close>

definition reconfigure :: "nat \<Rightarrow> bgp_tcp_in \<Rightarrow> ('ctx, 'osm, 'rtr) bgp_in \<Rightarrow> ('ctx, 'osm, 'rtr) bgp_in" where
  "reconfigure c new_unit b =
    (let s = bi_sessions b ! c;
         remote = cc_remote (ss_config s)
     in if \<not> bgp_tcp_in_eq new_unit (ss_unit_cfg s)
        then on_session c (goto Leaving \<circ> command Reconfiguration) b
        else case configs_get_exact (bt_peer_configs new_unit) remote of
          Some new_peer_config \<Rightarrow>
            (case configs_get_exact (bt_peer_configs (ss_unit_cfg s)) remote of
              None \<Rightarrow> on_session c (goto Stopped) b
            | Some current \<Rightarrow>
                if \<not> peer_config_eq new_peer_config current then on_session c (command Reconfiguration) b else b)
        | None \<Rightarrow> on_session c (goto Leaving \<circ> command Deconfigured) (count_disconnect s b))"

definition terminate_session :: "nat \<Rightarrow> ('ctx, 'osm, 'rtr) bgp_in \<Rightarrow> ('ctx, 'osm, 'rtr) bgp_in" where
  "terminate_session c b =
    on_session c (goto Leaving \<circ> command Shutdown) (count_disconnect (bi_sessions b ! c) b)"

definition connection_lost :: "nat \<Rightarrow> ('ctx, 'osm, 'rtr) bgp_in \<Rightarrow> ('ctx, 'osm, 'rtr) bgp_in" where
  "connection_lost c b =
    on_session c (goto Leaving)
      (b\<lparr>bi_metrics := (bi_metrics b)\<lparr>bm_connection_lost := bm_connection_lost (bi_metrics b) + 1\<rparr>\<rparr>)"

text \<open>\<open>md5_ok\<close>: the peer has no MD5 key or setting it on the socket succeeded.\<close>

definition accept_connection ::
  "('ctx, 'e) bgp_in_env \<Rightarrow> ip_addr \<Rightarrow> bool \<Rightarrow> ('ctx, 'osm, 'rtr) bgp_in \<Rightarrow> ('ctx, 'osm, 'rtr) bgp_in" where
  "accept_connection env a md5_ok b =
    (let b = b\<lparr>bi_metrics := (bi_metrics b)\<lparr>bm_connection_accepted := bm_connection_accepted (bi_metrics b) + 1\<rparr>\<rparr>
     in case configs_get (be_contains env) (bt_peer_configs (bi_cfg b)) a of
       None \<Rightarrow> b
     | Some (remote_net, cfg) \<Rightarrow>
         (case register_id (bi_register b) of
           (i, reg) \<Rightarrow>
             (let b = b\<lparr>bi_register := reg\<rparr>
              in if \<not> md5_ok then b
                 else b\<lparr>bi_sessions := bi_sessions b @
                   [\<lparr>ss_unit_cfg = bi_cfg b, ss_config = combined_new (bi_cfg b) cfg remote_net,
                     ss_connected_addr = Some a, ss_ingress_id = i, ss_session_id = None, ss_peer_stats = None,
                     ss_phase = Running, ss_aborted = False, ss_commands = []\<rparr>]\<rparr>)))"

subsection \<open>Steps\<close>

datatype bgp_event =
    Accepted ip_addr bool
  | Reconfigured bgp_tcp_in
  | Fsm_Error
  | Gate_Terminated
  | Gate_Reconfiguring bgp_tcp_in
  | Msg_Closed
  | Msg_Update nat bgp_update "negotiated option"
  | Msg_Notification
  | Msg_ConnectionLost
  | Msg_SessionNegotiated reg_order negotiated
  | Msg_Attributes
  | Go "(afi_safi_key \<times> u64) list \<Rightarrow> (afi_safi_key \<times> u64) list" "negotiated option"
  | Cancelled

text \<open>What the select loop does with an event.\<close>

fun bgp_select ::
  "('ctx, 'e) bgp_in_env \<Rightarrow> nat \<Rightarrow> bgp_event \<Rightarrow> ('ctx, 'e output_stream_message, 'rtr) bgp_in \<Rightarrow>
   ('ctx, 'e output_stream_message, 'rtr) bgp_in option" where
  "bgp_select env c Fsm_Error b = Some (on_session c (goto Leaving) b)"
| "bgp_select env c Gate_Terminated b = Some (terminate_session c b)"
| "bgp_select env c (Gate_Reconfiguring new_unit) b = Some (reconfigure c new_unit b)"
| "bgp_select env c Msg_Closed b = Some (on_session c (goto Leaving) b)"
| "bgp_select env c (Msg_Update received u neg) b = Some (judge env c received u neg b)"
| "bgp_select env c Msg_Notification b = Some b"
| "bgp_select env c Msg_ConnectionLost b = Some (connection_lost c b)"
| "bgp_select env c (Msg_SessionNegotiated it n) b = Some (choose_ingress it c n b)"
| "bgp_select env c Msg_Attributes b = Some (on_session c (goto Stopped) b)"
| "bgp_select env c _ b = None"

text \<open>The next access of a task that is inside a handler or past the loop.\<close>

fun bgp_go ::
  "((afi_safi_key \<times> u64) list \<Rightarrow> (afi_safi_key \<times> u64) list) \<Rightarrow> nat \<Rightarrow> negotiated option \<Rightarrow> phase \<Rightarrow>
   ('ctx, 'osm, 'rtr) bgp_in \<Rightarrow> ('ctx, 'osm, 'rtr) bgp_in option" where
  "bgp_go fit c neg (Judged received u accept) b = Some (apply_verdict fit c received u accept b)"
| "bgp_go fit c neg (Sending payloads) b = Some (on_session c (goto Running) (emit (Bulk payloads) b))"
| "bgp_go fit c neg (Chosen n existing) b = Some (withdraw_stale c n existing b)"
| "bgp_go fit c neg (Taking n) b = Some (take_old c n b)"
| "bgp_go fit c neg (Replacing n old) b = Some (replace_old c n old b)"
| "bgp_go fit c neg (Retiring n old) b = Some (retire_old c n old b)"
| "bgp_go fit c neg (Removing n old) b = Some (remove_old c n old b)"
| "bgp_go fit c neg (Inserting n) b = Some (insert_live c n b)"
| "bgp_go fit c neg (Informing n) b = Some (inform_register c n b)"
| "bgp_go fit c neg (Counting n) b = Some (acquire_stats c b)"
| "bgp_go fit c neg Leaving b = Some (leave c neg b)"
| "bgp_go fit c neg Withdrawing b = Some (withdraw_own c b)"
| "bgp_go fit c neg Reclaiming b = Some (reclaim c b)"
| "bgp_go fit c neg _ b = None"

definition bgp_step ::
  "('ctx, 'e) bgp_in_env \<Rightarrow> nat \<Rightarrow> bgp_event \<Rightarrow> ('ctx, 'e output_stream_message, 'rtr) bgp_in \<Rightarrow>
   ('ctx, 'e output_stream_message, 'rtr) bgp_in option" where
  "bgp_step env c ev b =
    (case ev of
      Accepted a md5_ok \<Rightarrow> Some (accept_connection env a md5_ok b)
    | Reconfigured new_unit \<Rightarrow> Some (b\<lparr>bi_cfg := new_unit\<rparr>)
    | _ \<Rightarrow>
        if \<not> c < length (bi_sessions b) then None
        else
          (let s = bi_sessions b ! c
           in case ev of
             Cancelled \<Rightarrow> if ss_aborted s \<and> ss_phase s \<notin> {Ended, Stopped} then Some (on_session c (goto Stopped) b) else None
           | Go fit neg \<Rightarrow> bgp_go fit c neg (ss_phase s) b
           | _ \<Rightarrow> if ss_phase s = Running then bgp_select env c ev b else None))"

definition bgp_in_new :: "bgp_tcp_in \<Rightarrow> register \<Rightarrow> 'ctx \<Rightarrow> ('ctx, 'osm, 'rtr) bgp_in" where
  "bgp_in_new cfg reg ctx =
    \<lparr>bi_cfg = cfg, bi_sessions = [], bi_live = [], bi_register = reg, bi_stats = [], bi_heap = [],
     bi_next_session_id = 0, bi_ctx = ctx,
     bi_metrics = \<lparr>bm_connection_accepted = 0, bm_connection_lost = 0, bm_disconnect = 0\<rparr>, bi_out = []\<rparr>"

fun bgp_run ::
  "('ctx, 'e) bgp_in_env \<Rightarrow> (nat \<times> bgp_event) list \<Rightarrow> ('ctx, 'e output_stream_message, 'rtr) bgp_in \<Rightarrow>
   ('ctx, 'e output_stream_message, 'rtr) bgp_in option" where
  "bgp_run env [] b = Some b"
| "bgp_run env ((c, ev) # evs) b = (case bgp_step env c ev b of None \<Rightarrow> None | Some b \<Rightarrow> bgp_run env evs b)"

end
