(* ===== verification/Bgp_Owners.thy ===== *)
theory Bgp_Owners
  imports Bgp_In
begin

text \<open>
  Who owns an ingress id. The specification of the BGP input unit is a protocol between sessions
  over the table of live sessions, the register, the statistics and the ids that have routes in
  the RIB (\<open>own_step\<close>); \<open>Bgp_In\<close> refines it.

  The protocol is sound when the sessions of one peer negotiate one after the other, routecore
  keeps reporting what was negotiated, ids do not wrap around, and a task that was aborted has
  stopped when the session that replaced it leaves. Teardowns may interleave with everything else.
\<close>

subsection \<open>The protocol\<close>

datatype stage =
    Up
  | Early negotiated
  | Taken negotiated "live_session option"
  | Fresh negotiated
  | Known negotiated
  | Wd
  | Done

record owner_session =
  os_ingress :: ingress_id
  os_sid :: "u64 option"
  os_stage :: stage
  os_aborted :: bool
  os_handle :: "nat option"

record ownership =
  ow_ng :: "nat \<Rightarrow> negotiated option"
  ow_s :: "nat \<Rightarrow> owner_session option"
  ow_live :: "live_key \<Rightarrow> live_session option"
  ow_reg :: "ingress_id \<Rightarrow> ingress_info option"
  ow_serial :: u32
  ow_stats :: "ingress_id \<Rightarrow> nat option"
  ow_next :: u64
  ow_ids :: "ingress_id set"

fun nego :: "stage \<Rightarrow> negotiated option" where
  "nego (Early n) = Some n"
| "nego (Taken n _) = Some n"
| "nego (Fresh n) = Some n"
| "nego (Known n) = Some n"
| "nego _ = None"

text \<open>The peer that an entry of the register is for, when it is a BGP session.\<close>

definition info_key :: "ingress_info \<Rightarrow> live_key option" where
  "info_key info =
    (case (ii_ingress_type info, ii_remote_addr info, ii_remote_asn info) of
      (Some IT_Bgp, Some a, Some n) \<Rightarrow> Some (Live_Key a n)
    | _ \<Rightarrow> None)"

definition owns :: "ownership \<Rightarrow> nat \<Rightarrow> bool" where
  "owns v c \<longleftrightarrow> (\<exists>n l. ow_ng v c = Some n \<and> ow_live v (ng_key n) = Some l \<and> ls_conn l = c)"

definition keeps_id :: "ownership \<Rightarrow> nat \<Rightarrow> owner_session \<Rightarrow> bool" where
  "keeps_id v c s \<longleftrightarrow> nego (os_stage s) \<noteq> None \<or> os_stage s = Up \<and> owns v c"

definition kept_id :: "ownership \<Rightarrow> ingress_id \<Rightarrow> bool" where
  "kept_id v i \<longleftrightarrow> (\<exists>c s. ow_s v c = Some s \<and> os_ingress s = i \<and> keeps_id v c s)"

definition others_stopped :: "ownership \<Rightarrow> nat \<Rightarrow> ingress_id \<Rightarrow> bool" where
  "others_stopped v c i \<longleftrightarrow> (\<forall>c' s'. c' \<noteq> c \<and> ow_s v c' = Some s' \<and> os_ingress s' = i \<longrightarrow> os_stage s' \<noteq> Up)"

definition others_negotiate :: "ownership \<Rightarrow> nat \<Rightarrow> live_key \<Rightarrow> bool" where
  "others_negotiate v c k \<longleftrightarrow>
    (\<exists>c' s' n'. c' \<noteq> c \<and> ow_s v c' = Some s' \<and> nego (os_stage s') = Some n' \<and> ng_key n' = k)"

text \<open>
  Other units share the register. They leave the entries of BGP sessions and the ids of the
  sessions alone, except that the collector of the RIB may remove an entry that is disconnected.
\<close>

definition others_register :: "ownership \<Rightarrow> u32 \<Rightarrow> (ingress_id \<Rightarrow> ingress_info option) \<Rightarrow> bool" where
  "others_register v serial reg \<longleftrightarrow>
    ow_serial v \<le> serial \<and> (\<forall>i. reg i \<noteq> None \<longrightarrow> i < serial) \<and>
    (\<forall>i info. reg i = Some info \<and> info_key info \<noteq> None \<longrightarrow> ow_reg v i = Some info) \<and>
    (\<forall>i info. ow_reg v i = Some info \<and> info_key info \<noteq> None \<and> reg i \<noteq> Some info \<longrightarrow>
      reg i = None \<and> ii_state info = Some Disconnected) \<and>
    (\<forall>c s. ow_s v c = Some s \<longrightarrow> reg (os_ingress s) = ow_reg v (os_ingress s) \<or> reg (os_ingress s) = None)"

inductive own_step :: "ownership \<Rightarrow> ownership \<Rightarrow> bool" where
  accept: "\<lbrakk>ow_s v c = None; ow_serial v \<noteq> - 1\<rbrakk> \<Longrightarrow>
    own_step v (v\<lparr>ow_serial := ow_serial v + 1, ow_s := (ow_s v)(c \<mapsto>
      \<lparr>os_ingress = ow_serial v, os_sid = None, os_stage = Up, os_aborted = False, os_handle = None\<rparr>)\<rparr>)"
| spend: "ow_serial v \<noteq> - 1 \<Longrightarrow> own_step v (v\<lparr>ow_serial := ow_serial v + 1\<rparr>)"
| others: "others_register v serial reg \<Longrightarrow> own_step v (v\<lparr>ow_serial := serial, ow_reg := reg\<rparr>)"
| choose: "\<lbrakk>ow_s v c = Some s; os_stage s = Up; ow_ng v c = None; ow_next v \<noteq> - 1; \<not> others_negotiate v c (ng_key n);
    (\<exists>info. ow_reg v i = Some info \<and> info_key info = Some (ng_key n)) \<or>
    i = os_ingress s \<and> (\<forall>j info. ow_reg v j = Some info \<longrightarrow> info_key info \<noteq> Some (ng_key n))\<rbrakk> \<Longrightarrow>
    own_step v (v\<lparr>ow_ng := (ow_ng v)(c \<mapsto> n), ow_next := ow_next v + 1,
      ow_s := (ow_s v)(c \<mapsto> s\<lparr>os_sid := Some (ow_next v), os_ingress := i, os_stage := Early n\<rparr>)\<rparr>)"
| withdraw: "ids \<subseteq> ow_ids v \<Longrightarrow> own_step v (v\<lparr>ow_ids := ids\<rparr>)"
| take_entry: "\<lbrakk>ow_s v c = Some s; os_stage s = Early n\<rbrakk> \<Longrightarrow>
    own_step v (v\<lparr>ow_live := (ow_live v)(ng_key n := None),
      ow_s := (ow_s v)(c \<mapsto> s\<lparr>os_stage := Taken n (ow_live v (ng_key n))\<rparr>)\<rparr>)"
| abort: "\<lbrakk>ow_s v c = Some s; os_stage s = Taken n (Some old); ow_s v (ls_conn old) = Some so\<rbrakk> \<Longrightarrow>
    own_step v (v\<lparr>ow_s := (ow_s v)(ls_conn old \<mapsto> so\<lparr>os_aborted := True\<rparr>, c \<mapsto> s\<lparr>os_stage := Taken n None\<rparr>)\<rparr>)"
| insert_entry: "\<lbrakk>ow_s v c = Some s; os_stage s = Taken n None; os_sid s = Some sid\<rbrakk> \<Longrightarrow>
    own_step v (v\<lparr>ow_live := (ow_live v)(ng_key n \<mapsto> \<lparr>ls_session_id = sid, ls_conn = c, ls_ingress_id = os_ingress s\<rparr>),
      ow_s := (ow_s v)(c \<mapsto> s\<lparr>os_stage := Fresh n\<rparr>)\<rparr>)"
| inform: "\<lbrakk>ow_s v c = Some s; os_stage s = Fresh n; info_key info = Some (ng_key n); ii_state info = Some Connected\<rbrakk> \<Longrightarrow>
    own_step v (v\<lparr>ow_reg := (ow_reg v)(os_ingress s \<mapsto> info), ow_s := (ow_s v)(c \<mapsto> s\<lparr>os_stage := Known n\<rparr>)\<rparr>)"
| acquire: "\<lbrakk>ow_s v c = Some s; os_stage s = Known n; ow_stats v (os_ingress s) \<in> {None, Some h}\<rbrakk> \<Longrightarrow>
    own_step v (v\<lparr>ow_stats := (ow_stats v)(os_ingress s \<mapsto> h),
      ow_s := (ow_s v)(c \<mapsto> s\<lparr>os_stage := Up, os_handle := Some h\<rparr>)\<rparr>)"
| announce: "\<lbrakk>ow_s v c = Some s; os_stage s = Up; ow_ng v c \<noteq> None; ids \<subseteq> insert (os_ingress s) (ow_ids v)\<rbrakk> \<Longrightarrow>
    own_step v (v\<lparr>ow_ids := ids\<rparr>)"
| leave_owner: "\<lbrakk>ow_s v c = Some s; os_stage s = Up; ow_ng v c = Some n; ow_live v (ng_key n) = Some l;
    os_sid s = Some (ls_session_id l); others_stopped v c (os_ingress s);
    ow_reg v (os_ingress s) = Some old; info_key info = info_key old\<rbrakk> \<Longrightarrow>
    own_step v (v\<lparr>ow_live := (ow_live v)(ng_key n := None), ow_reg := (ow_reg v)(os_ingress s \<mapsto> info),
      ow_s := (ow_s v)(c \<mapsto> s\<lparr>os_stage := Wd\<rparr>)\<rparr>)"
| leave_other: "\<lbrakk>ow_s v c = Some s; os_stage s = Up; \<not> owns v c\<rbrakk> \<Longrightarrow>
    own_step v (v\<lparr>ow_s := (ow_s v)(c \<mapsto> s\<lparr>os_stage := Done\<rparr>)\<rparr>)"
| withdraw_own: "\<lbrakk>ow_s v c = Some s; os_stage s = Wd; ids \<subseteq> ow_ids v - {os_ingress s}\<rbrakk> \<Longrightarrow>
    own_step v (v\<lparr>ow_ids := ids, ow_s := (ow_s v)(c \<mapsto> s\<lparr>os_stage := Done\<rparr>)\<rparr>)"
| reclaim: "\<forall>k l. ow_live v k = Some l \<longrightarrow> ls_ingress_id l \<noteq> i \<Longrightarrow>
    own_step v (v\<lparr>ow_reg := (ow_reg v)(i := None), ow_stats := (ow_stats v)(i := None)\<rparr>)"
| cancel: "\<lbrakk>ow_s v c = Some s; os_aborted s\<rbrakk> \<Longrightarrow> own_step v (v\<lparr>ow_s := (ow_s v)(c \<mapsto> s\<lparr>os_stage := Done\<rparr>)\<rparr>)"

subsection \<open>Its invariant\<close>

definition inv_session :: "ownership \<Rightarrow> bool" where
  "inv_session v \<longleftrightarrow>
    (\<forall>c. ow_s v c = None \<longrightarrow> ow_ng v c = None) \<and>
    (\<forall>c s. ow_s v c = Some s \<longrightarrow> (os_sid s = None \<longleftrightarrow> ow_ng v c = None) \<and>
      (\<forall>n. nego (os_stage s) = Some n \<longrightarrow> ow_ng v c = Some n) \<and>
      (ow_ng v c = None \<or> os_aborted s \<longrightarrow> os_stage s \<in> {Up, Done}) \<and> (os_aborted s \<longrightarrow> \<not> owns v c \<and> ow_ng v c \<noteq> None))"

definition inv_bounds :: "ownership \<Rightarrow> bool" where
  "inv_bounds v \<longleftrightarrow> (\<forall>i. ow_reg v i \<noteq> None \<longrightarrow> i < ow_serial v) \<and>
    (\<forall>c s. ow_s v c = Some s \<longrightarrow> os_ingress s < ow_serial v) \<and>
    (\<forall>c s x. ow_s v c = Some s \<and> os_sid s = Some x \<longrightarrow> x < ow_next v)"

definition inv_live :: "ownership \<Rightarrow> bool" where
  "inv_live v \<longleftrightarrow> (\<forall>k l. ow_live v k = Some l \<longrightarrow>
    (\<exists>s n. ow_s v (ls_conn l) = Some s \<and> ow_ng v (ls_conn l) = Some n \<and> ng_key n = k \<and>
      os_sid s = Some (ls_session_id l) \<and> os_ingress s = ls_ingress_id l \<and> os_stage s \<in> {Fresh n, Known n, Up}))"

definition inv_sids :: "ownership \<Rightarrow> bool" where
  "inv_sids v \<longleftrightarrow> (\<forall>c c' s s'. ow_s v c = Some s \<and> ow_s v c' = Some s' \<and> os_sid s = os_sid s' \<and> os_sid s \<noteq> None \<longrightarrow> c = c')"

definition inv_label :: "ownership \<Rightarrow> bool" where
  "inv_label v \<longleftrightarrow> (\<forall>c c' s s'. ow_s v c = Some s \<and> ow_s v c' = Some s' \<and> os_ingress s = os_ingress s' \<and> c \<noteq> c' \<longrightarrow>
    (\<exists>n n'. ow_ng v c = Some n \<and> ow_ng v c' = Some n' \<and> ng_key n = ng_key n'))"

definition inv_reg :: "ownership \<Rightarrow> bool" where
  "inv_reg v \<longleftrightarrow> (\<forall>c s info. ow_s v c = Some s \<and> ow_reg v (os_ingress s) = Some info \<longrightarrow>
    (\<exists>n. ow_ng v c = Some n \<and> info_key info = Some (ng_key n)))"

definition inv_uniq :: "ownership \<Rightarrow> bool" where
  "inv_uniq v \<longleftrightarrow> (\<forall>i j info info' k. ow_reg v i = Some info \<and> ow_reg v j = Some info' \<and>
    info_key info = Some k \<and> info_key info' = Some k \<longrightarrow> i = j)"

definition own_ok :: "ownership \<Rightarrow> live_key \<Rightarrow> live_session \<Rightarrow> owner_session \<Rightarrow> bool" where
  "own_ok v k l s \<longleftrightarrow>
    (\<exists>info. ow_reg v (ls_ingress_id l) = Some info \<and> info_key info = Some k \<and> ii_state info = Some Connected) \<and>
    (os_stage s = Up \<longrightarrow> os_handle s \<noteq> None \<and> ow_stats v (ls_ingress_id l) = os_handle s)"

definition inv_own :: "ownership \<Rightarrow> bool" where
  "inv_own v \<longleftrightarrow> (\<forall>k l s. ow_live v k = Some l \<and> ow_s v (ls_conn l) = Some s \<and> (\<forall>n. os_stage s \<noteq> Fresh n) \<longrightarrow> own_ok v k l s)"

definition nego_ok :: "ownership \<Rightarrow> nat \<Rightarrow> owner_session \<Rightarrow> negotiated \<Rightarrow> bool" where
  "nego_ok v c s n \<longleftrightarrow>
    (\<forall>i info. ow_reg v i = Some info \<and> info_key info = Some (ng_key n) \<longrightarrow> i = os_ingress s) \<and>
    (\<forall>l. ow_live v (ng_key n) = Some l \<longrightarrow> ls_ingress_id l = os_ingress s) \<and>
    (os_stage s \<in> {Fresh n, Known n} \<longrightarrow> (\<exists>l. ow_live v (ng_key n) = Some l \<and> ls_conn l = c)) \<and>
    (\<forall>old. os_stage s = Taken n old \<longrightarrow> ow_live v (ng_key n) = None)"

definition inv_nego :: "ownership \<Rightarrow> bool" where
  "inv_nego v \<longleftrightarrow> (\<forall>c s n. ow_s v c = Some s \<and> nego (os_stage s) = Some n \<longrightarrow> nego_ok v c s n)"

definition taken_ok :: "ownership \<Rightarrow> nat \<Rightarrow> ingress_id \<Rightarrow> negotiated \<Rightarrow> live_session \<Rightarrow> bool" where
  "taken_ok v c i n old \<longleftrightarrow> ls_ingress_id old = i \<and> ls_conn old \<noteq> c \<and>
    (\<exists>so m. ow_s v (ls_conn old) = Some so \<and> os_stage so \<in> {Up, Done} \<and> ow_ng v (ls_conn old) = Some m \<and> ng_key m = ng_key n)"

definition inv_taken :: "ownership \<Rightarrow> bool" where
  "inv_taken v \<longleftrightarrow> (\<forall>c s n old. ow_s v c = Some s \<and> os_stage s = Taken n (Some old) \<longrightarrow> taken_ok v c (os_ingress s) n old)"

definition inv_serial :: "ownership \<Rightarrow> bool" where
  "inv_serial v \<longleftrightarrow> (\<forall>c c' s s' n n'. ow_s v c = Some s \<and> ow_s v c' = Some s' \<and> c \<noteq> c' \<and>
    nego (os_stage s) = Some n \<and> nego (os_stage s') = Some n' \<longrightarrow> ng_key n \<noteq> ng_key n')"

definition inv_zombie :: "ownership \<Rightarrow> bool" where
  "inv_zombie v \<longleftrightarrow> (\<forall>c s. ow_s v c = Some s \<and> os_stage s = Up \<and> ow_ng v c \<noteq> None \<longrightarrow> kept_id v (os_ingress s))"

definition inv_routes :: "ownership \<Rightarrow> bool" where
  "inv_routes v \<longleftrightarrow> (\<forall>i \<in> ow_ids v. kept_id v i \<or> (\<exists>c s. ow_s v c = Some s \<and> os_ingress s = i \<and> os_stage s = Wd))"

definition own_inv :: "ownership \<Rightarrow> bool" where
  "own_inv v \<longleftrightarrow> inv_session v \<and> inv_bounds v \<and> inv_live v \<and> inv_sids v \<and> inv_label v \<and> inv_reg v \<and> inv_uniq v \<and>
    inv_own v \<and> inv_nego v \<and> inv_serial v \<and> inv_zombie v \<and> inv_routes v \<and> inv_taken v"

lemma own_invD:
  assumes "own_inv v"
  shows "inv_session v" "inv_bounds v" "inv_live v" "inv_sids v" "inv_label v" "inv_reg v" "inv_uniq v" "inv_own v"
    "inv_nego v" "inv_serial v" "inv_zombie v" "inv_routes v" "inv_taken v"
  using assms by (simp_all add: own_inv_def)

lemma word_less_Suc:
  fixes x n :: "'a :: len word"
  assumes "x \<le> n" "n \<noteq> - 1"
  shows "x < n + 1"
  using assms inc_less_eq_triv_imp [of n] by (metis linorder_not_less order_trans)

lemma live_conn:
  assumes "inv_live v" "ow_live v k = Some l"
  obtains s n where "ow_s v (ls_conn l) = Some s" "ow_ng v (ls_conn l) = Some n" "ng_key n = k"
    "os_sid s = Some (ls_session_id l)" "os_ingress s = ls_ingress_id l" "os_stage s \<in> {Fresh n, Known n, Up}" "owns v (ls_conn l)"
  using assms unfolding inv_live_def owns_def by blast

lemma inv_sessionD:
  assumes "inv_session v" "ow_s v c = Some s"
  shows "os_sid s = None \<longleftrightarrow> ow_ng v c = None" "nego (os_stage s) = Some n \<Longrightarrow> ow_ng v c = Some n"
    "ow_ng v c = None \<or> os_aborted s \<Longrightarrow> os_stage s \<in> {Up, Done}" "os_aborted s \<Longrightarrow> \<not> owns v c \<and> ow_ng v c \<noteq> None"
  using assms unfolding inv_session_def by blast+

lemma nego_session:
  assumes "inv_session v" "ow_s v c = Some s" "nego (os_stage s) = Some n"
  shows "ow_ng v c = Some n" "os_sid s \<noteq> None" "\<not> os_aborted s"
  using inv_sessionD [OF assms(1,2)] assms(3) by auto

lemma inv_labelD:
  "\<lbrakk>inv_label v; ow_s v c = Some s; ow_s v c' = Some s'; os_ingress s = os_ingress s'; c \<noteq> c'\<rbrakk> \<Longrightarrow>
    \<exists>n n'. ow_ng v c = Some n \<and> ow_ng v c' = Some n' \<and> ng_key n = ng_key n'"
  unfolding inv_label_def by blast

lemma inv_regD:
  "\<lbrakk>inv_reg v; ow_s v c = Some s; ow_reg v (os_ingress s) = Some info\<rbrakk> \<Longrightarrow> \<exists>n. ow_ng v c = Some n \<and> info_key info = Some (ng_key n)"
  unfolding inv_reg_def by blast

lemma inv_uniqD:
  "\<lbrakk>inv_uniq v; ow_reg v i = Some info; ow_reg v j = Some info'; info_key info = Some k; info_key info' = Some k\<rbrakk> \<Longrightarrow> i = j"
  unfolding inv_uniq_def by blast

text \<open>A step in which nobody who keeps an id lets go of it.\<close>

lemma kept_id_mono:
  assumes "\<And>c s. \<lbrakk>ow_s v c = Some s; keeps_id v c s\<rbrakk> \<Longrightarrow>
      \<exists>s'. ow_s w c = Some s' \<and> os_ingress s' = os_ingress s \<and> keeps_id w c s'"
  shows "kept_id v i \<Longrightarrow> kept_id w i"
  using assms unfolding kept_id_def by metis

lemma kept_id_eq: "\<lbrakk>ow_s w = ow_s v; ow_ng w = ow_ng v; ow_live w = ow_live v\<rbrakk> \<Longrightarrow> kept_id w = kept_id v"
  by (simp add: fun_eq_iff kept_id_def keeps_id_def owns_def)

lemma inv_zombie_mono:
  assumes "inv_zombie v" "\<And>i. kept_id v i \<Longrightarrow> kept_id w i"
    and "\<And>c s. \<lbrakk>ow_s w c = Some s; os_stage s = Up; ow_ng w c \<noteq> None\<rbrakk> \<Longrightarrow>
      (\<exists>s'. ow_s v c = Some s' \<and> os_stage s' = Up \<and> ow_ng v c \<noteq> None \<and> os_ingress s' = os_ingress s) \<or> kept_id w (os_ingress s)"
  shows "inv_zombie w"
  using assms unfolding inv_zombie_def by metis

lemma inv_routes_mono:
  assumes "inv_routes v" "\<And>i. kept_id v i \<Longrightarrow> kept_id w i" "ow_ids w \<subseteq> ow_ids v"
    and "\<And>c s. \<lbrakk>ow_s v c = Some s; os_stage s = Wd; os_ingress s \<in> ow_ids w\<rbrakk> \<Longrightarrow>
      \<exists>s'. ow_s w c = Some s' \<and> os_stage s' = Wd \<and> os_ingress s' = os_ingress s"
  shows "inv_routes w"
  unfolding inv_routes_def
proof
  fix i assume i: "i \<in> ow_ids w"
  then consider "kept_id v i" | c s where "ow_s v c = Some s" "os_ingress s = i" "os_stage s = Wd"
    using assms(1,3) unfolding inv_routes_def by blast
  then show "kept_id w i \<or> (\<exists>c s. ow_s w c = Some s \<and> os_ingress s = i \<and> os_stage s = Wd)"
    by cases (use assms(2,4) i in blast)+
qed

lemma inv_takenD: "\<lbrakk>inv_taken v; ow_s v c = Some s; os_stage s = Taken n (Some old)\<rbrakk> \<Longrightarrow> taken_ok v c (os_ingress s) n old"
  by (simp add: inv_taken_def)

lemma inv_taken_step:
  assumes taken: "\<And>c s n old. \<lbrakk>ow_s w c = Some s; os_stage s = Taken n (Some old)\<rbrakk> \<Longrightarrow> taken_ok v c (os_ingress s) n old"
    and stays: "\<And>c s m. \<lbrakk>ow_s v c = Some s; os_stage s \<in> {Up, Done}; ow_ng v c = Some m\<rbrakk> \<Longrightarrow>
      (\<exists>s'. ow_s w c = Some s' \<and> os_stage s' \<in> {Up, Done}) \<and> ow_ng w c = Some m"
  shows "inv_taken w"
proof -
  have "taken_ok w c i n old" if "taken_ok v c i n old" for c i n old using that stays unfolding taken_ok_def by metis
  then show ?thesis using taken unfolding inv_taken_def by blast
qed

lemma inv_taken_mono:
  assumes "inv_taken v"
    and "\<And>c s n old. \<lbrakk>ow_s w c = Some s; os_stage s = Taken n (Some old)\<rbrakk> \<Longrightarrow>
      \<exists>s'. ow_s v c = Some s' \<and> os_stage s' = Taken n (Some old) \<and> os_ingress s' = os_ingress s"
    and "\<And>c s m. \<lbrakk>ow_s v c = Some s; os_stage s \<in> {Up, Done}; ow_ng v c = Some m\<rbrakk> \<Longrightarrow>
      (\<exists>s'. ow_s w c = Some s' \<and> os_stage s' \<in> {Up, Done}) \<and> ow_ng w c = Some m"
  shows "inv_taken w"
proof (rule inv_taken_step [of w v])
  fix c s n old assume "ow_s w c = Some s" "os_stage s = Taken n (Some old)"
  from assms(2) [OF this] inv_takenD [OF assms(1)] show "taken_ok v c (os_ingress s) n old" by fastforce
qed (rule assms(3))

lemma inv_negoD: "\<lbrakk>inv_nego v; ow_s v c = Some s; nego (os_stage s) = Some n\<rbrakk> \<Longrightarrow> nego_ok v c s n"
  by (simp add: inv_nego_def)

lemma inv_nego_step:
  assumes "inv_nego v"
    and others: "\<And>c' s' m. \<lbrakk>c' \<noteq> c; ow_s w c' = Some s'; nego (os_stage s') = Some m\<rbrakk> \<Longrightarrow>
      ow_s v c' = Some s' \<and>
      (ow_live w (ng_key m) = ow_live v (ng_key m) \<or>
       ow_live w (ng_key m) = None \<and> (\<exists>l. ow_live v (ng_key m) = Some l \<and> ls_conn l \<noteq> c')) \<and>
      (\<forall>i info. ow_reg w i = Some info \<and> info_key info = Some (ng_key m) \<longrightarrow>
        (\<exists>old. ow_reg v i = Some old \<and> info_key old = Some (ng_key m)))"
    and own: "ow_s w c = Some s" "\<And>m. nego (os_stage s) = Some m \<Longrightarrow> nego_ok w c s m"
  shows "inv_nego w"
  unfolding inv_nego_def
proof (intro allI impI, elim conjE)
  fix c' s' m assume a: "ow_s w c' = Some s'" "nego (os_stage s') = Some m"
  show "nego_ok w c' s' m"
  proof (cases "c' = c")
    case False
    have "nego_ok v c' s' m" using others [OF False a] inv_negoD [OF assms(1) _ a(2), of c'] by blast
    then show ?thesis using others [OF False a] unfolding nego_ok_def by (elim conjE disjE exE; intro conjI; simp; blast)
  qed (use own a in simp)
qed

lemma inv_live_mono:
  assumes "inv_live v" and "ow_ng w = ow_ng v" and sub: "\<And>k l. ow_live w k = Some l \<Longrightarrow> ow_live v k = Some l"
    and stays: "\<And>k l s n. \<lbrakk>ow_live w k = Some l; ow_s v (ls_conn l) = Some s; os_stage s \<in> {Fresh n, Known n, Up}\<rbrakk> \<Longrightarrow>
      \<exists>s'. ow_s w (ls_conn l) = Some s' \<and> os_ingress s' = os_ingress s \<and> os_sid s' = os_sid s \<and> os_stage s' \<in> {Fresh n, Known n, Up}"
  shows "inv_live w"
  unfolding inv_live_def
proof (intro allI impI)
  fix k l assume l: "ow_live w k = Some l"
  obtain s n where s: "ow_s v (ls_conn l) = Some s" "ow_ng v (ls_conn l) = Some n" "ng_key n = k"
    "os_sid s = Some (ls_session_id l)" "os_ingress s = ls_ingress_id l" "os_stage s \<in> {Fresh n, Known n, Up}"
    by (rule live_conn [OF assms(1) sub [OF l]])
  show "\<exists>s n. ow_s w (ls_conn l) = Some s \<and> ow_ng w (ls_conn l) = Some n \<and> ng_key n = k \<and>
      os_sid s = Some (ls_session_id l) \<and> os_ingress s = ls_ingress_id l \<and> os_stage s \<in> {Fresh n, Known n, Up}"
    using stays [OF l s(1,6)] s(2-5) assms(2) by auto
qed

lemma inv_uniq_update:
  assumes "inv_uniq v" "ow_reg w = (ow_reg v)(i \<mapsto> info)"
    and "\<And>j old. \<lbrakk>ow_reg v j = Some old; info_key old = info_key info; info_key info \<noteq> None\<rbrakk> \<Longrightarrow> j = i"
  shows "inv_uniq w"
  unfolding inv_uniq_def
proof (intro allI impI, elim conjE)
  fix j j' a b k assume ab: "ow_reg w j = Some a" "ow_reg w j' = Some b" "info_key a = Some k" "info_key b = Some k"
  show "j = j'"
  proof (cases "j = i \<or> j' = i")
    case True
    then show ?thesis using ab assms(2) assms(3) [of j a] assms(3) [of j' b] by (auto split: if_splits)
  next
    case False
    then show ?thesis using ab assms(2) inv_uniqD [OF assms(1)] by auto
  qed
qed

lemma inv_ownD:
  "\<lbrakk>inv_own v; ow_live v k = Some l; ow_s v (ls_conn l) = Some s; \<forall>n. os_stage s \<noteq> Fresh n\<rbrakk> \<Longrightarrow> own_ok v k l s"
  by (simp add: inv_own_def)

lemma inv_own_step:
  assumes "inv_own v"
    and "\<And>k l s. \<lbrakk>ow_live w k = Some l; ow_s w (ls_conn l) = Some s; \<forall>n. os_stage s \<noteq> Fresh n\<rbrakk> \<Longrightarrow>
      ow_live v k = Some l \<and> ow_s v (ls_conn l) = Some s \<and> ow_reg w (ls_ingress_id l) = ow_reg v (ls_ingress_id l) \<and>
      ow_stats w (ls_ingress_id l) = ow_stats v (ls_ingress_id l) \<or> own_ok w k l s"
  shows "inv_own w"
  unfolding inv_own_def
proof (intro allI impI, elim conjE)
  fix k l s assume a: "ow_live w k = Some l" "ow_s w (ls_conn l) = Some s" "\<forall>n. os_stage s \<noteq> Fresh n"
  from assms(2) [OF a] show "own_ok w k l s" using inv_ownD [OF assms(1) _ _ a(3), of k l] by (auto simp: own_ok_def)
qed

lemma inv_serial_mono:
  assumes "inv_serial v"
    and "\<And>c s m. \<lbrakk>ow_s w c = Some s; nego (os_stage s) = Some m\<rbrakk> \<Longrightarrow> \<exists>s'. ow_s v c = Some s' \<and> nego (os_stage s') = Some m"
  shows "inv_serial w"
  using assms unfolding inv_serial_def by metis

text \<open>A step in which every session keeps its ids.\<close>

definition same_ids :: "ownership \<Rightarrow> ownership \<Rightarrow> bool" where
  "same_ids v w \<longleftrightarrow> ow_ng w = ow_ng v \<and> (\<forall>c s'. ow_s w c = Some s' \<longrightarrow>
    (\<exists>s. ow_s v c = Some s \<and> os_ingress s = os_ingress s' \<and> os_sid s = os_sid s'))"

lemma same_ids_invs:
  assumes same: "same_ids v w"
  shows "inv_sids v \<Longrightarrow> inv_sids w" "inv_label v \<Longrightarrow> inv_label w"
    "\<lbrakk>inv_reg v; \<forall>i info. ow_reg w i = Some info \<longrightarrow> (\<exists>old. ow_reg v i = Some old \<and> info_key info = info_key old)\<rbrakk> \<Longrightarrow> inv_reg w"
    "\<lbrakk>inv_bounds v; ow_serial w = ow_serial v; ow_next w = ow_next v; \<forall>i. ow_reg w i \<noteq> None \<longrightarrow> ow_reg v i \<noteq> None\<rbrakk> \<Longrightarrow> inv_bounds w"
proof -
  have s: "\<exists>s. ow_s v c = Some s \<and> os_ingress s = os_ingress s' \<and> os_sid s = os_sid s'"
    if "ow_s w c = Some s'" for c s' using same that by (simp_all add: same_ids_def)
  have ng: "ow_ng w = ow_ng v" using same by (simp add: same_ids_def)
  show "inv_sids w" if "inv_sids v" using that unfolding inv_sids_def by (metis s)
  show "inv_label w" if v: "inv_label v" unfolding inv_label_def
  proof (intro allI impI, elim conjE)
    fix c c' t t' assume a: "ow_s w c = Some t" "ow_s w c' = Some t'" "os_ingress t = os_ingress t'" "c \<noteq> c'"
    then show "\<exists>n n'. ow_ng w c = Some n \<and> ow_ng w c' = Some n' \<and> ng_key n = ng_key n'"
      using s [OF a(1)] s [OF a(2)] inv_labelD [OF v _ _ _ a(4)] ng by fastforce
  qed
  show "inv_reg w" if v: "inv_reg v" "\<forall>i info. ow_reg w i = Some info \<longrightarrow> (\<exists>old. ow_reg v i = Some old \<and> info_key info = info_key old)"
    unfolding inv_reg_def
  proof (intro allI impI, elim conjE)
    fix c t info assume a: "ow_s w c = Some t" "ow_reg w (os_ingress t) = Some info"
    then show "\<exists>n. ow_ng w c = Some n \<and> info_key info = Some (ng_key n)"
      using s [OF a(1)] inv_regD [OF v(1)] v(2) ng by (metis (no_types, lifting))
  qed
  show "inv_bounds w" if "inv_bounds v" "ow_serial w = ow_serial v" "ow_next w = ow_next v"
    "\<forall>i. ow_reg w i \<noteq> None \<longrightarrow> ow_reg v i \<noteq> None"
    using that unfolding inv_bounds_def by (metis s)
qed

lemma inv_accept:
  assumes inv: "own_inv v" and c: "ow_s v c = None" and room: "ow_serial v \<noteq> - 1"
  shows "own_inv (v\<lparr>ow_serial := ow_serial v + 1, ow_s := (ow_s v)(c \<mapsto>
      \<lparr>os_ingress = ow_serial v, os_sid = None, os_stage = Up, os_aborted = False, os_handle = None\<rparr>)\<rparr>)" (is "own_inv ?w")
proof -
  note i = own_invD [OF inv]
  have ng: "ow_ng v c = None" using i(1) c by (simp add: inv_session_def)
  have conn: "\<forall>k l. ow_live v k = Some l \<longrightarrow> ls_conn l \<noteq> c" using i(3) c by (force elim: live_conn)
  have fresh: "os_ingress s \<noteq> ow_serial v" if "ow_s v c' = Some s" for c' s using i(2) that by (force simp: inv_bounds_def)
  have less: "x < ow_serial v + 1" if "x < ow_serial v" for x using room that by (intro word_less_Suc) simp_all
  have owns: "owns ?w = owns v" by (simp add: fun_eq_iff owns_def)
  have kept: "kept_id v j \<Longrightarrow> kept_id ?w j" for j
    by (rule kept_id_mono) (use c in \<open>auto simp: keeps_id_def owns\<close>)
  have "inv_session ?w" using i(1) ng by (simp add: inv_session_def owns)
  moreover have "inv_bounds ?w" using i(2) room by (auto simp: inv_bounds_def word_less_Suc intro: less)
  moreover have "inv_live ?w" using i(3) conn unfolding inv_live_def by simp
  moreover have "inv_sids ?w" using i(4) by (auto simp: inv_sids_def)
  moreover have "inv_label ?w" using i(5) fresh by (fastforce simp: inv_label_def)
  moreover have "inv_reg ?w" using i(2,6) c by (auto simp: inv_reg_def inv_bounds_def)
  moreover have "inv_uniq ?w" using i(7) by (simp add: inv_uniq_def)
  moreover have "inv_own ?w" by (rule inv_own_step [OF i(8)]) (use conn in \<open>auto split: if_splits\<close>)
  moreover have "inv_nego ?w" by (rule inv_nego_step [OF i(9), of c]) (simp, simp, simp)
  moreover have "inv_taken ?w" by (rule inv_taken_mono [OF i(13)]) (use c in \<open>auto split: if_splits\<close>)
  moreover have "inv_serial ?w" using i(10) by (simp add: inv_serial_def)
  moreover have "inv_zombie ?w" by (rule inv_zombie_mono [OF i(11) kept]) (use ng in \<open>auto split: if_splits\<close>)
  moreover have "inv_routes ?w" by (rule inv_routes_mono [OF i(12) kept]) (use c in auto)
  ultimately show ?thesis by (simp add: own_inv_def)
qed

lemma inv_others:
  assumes inv: "own_inv v" and others: "others_register v serial reg"
  shows "own_inv (v\<lparr>ow_serial := serial, ow_reg := reg\<rparr>)" (is "own_inv ?w")
proof -
  note i = own_invD [OF inv] and oth = others [unfolded others_register_def]
  have owns: "owns ?w = owns v" by (simp add: fun_eq_iff owns_def)
  have kept: "kept_id ?w = kept_id v" by (rule kept_id_eq) simp_all
  have stays: "reg j = Some info" if "ow_reg v j = Some info" "info_key info = Some k" "ii_state info = Some Connected" for j info k
    using oth that by fastforce
  have orig: "ow_reg v j = Some info" if "reg j = Some info" "info_key info = Some k" for j info k using oth that by blast
  have "inv_session ?w" using i(1) by (simp add: inv_session_def owns)
  moreover have "inv_bounds ?w" using i(2) oth order_less_le_trans [of _ "ow_serial v" serial] by (simp add: inv_bounds_def)
  moreover have "inv_live ?w" using i(3) by (simp add: inv_live_def)
  moreover have "inv_sids ?w" using i(4) by (simp add: inv_sids_def)
  moreover have "inv_label ?w" using i(5) by (simp add: inv_label_def)
  moreover have "inv_reg ?w" using i(6) oth unfolding inv_reg_def by (simp; metis option.distinct(1))
  moreover have "inv_uniq ?w" using i(7) orig unfolding inv_uniq_def by (simp; blast)
  moreover have "inv_own ?w" using i(8) stays unfolding inv_own_def own_ok_def by (simp; blast)
  moreover have "inv_nego ?w" using i(9) orig unfolding inv_nego_def nego_ok_def by (simp; blast)
  moreover have "inv_taken ?w" by (rule inv_taken_mono [OF i(13)]) auto
  moreover have "inv_serial ?w" using i(10) by (simp add: inv_serial_def)
  moreover have "inv_zombie ?w" using i(11) by (simp add: inv_zombie_def kept)
  moreover have "inv_routes ?w" using i(12) by (simp add: inv_routes_def kept)
  ultimately show ?thesis by (simp add: own_inv_def)
qed

lemma inv_choose:
  assumes inv: "own_inv v" and c: "ow_s v c = Some s" "os_stage s = Up" "ow_ng v c = None" and room: "ow_next v \<noteq> - 1"
    and alone: "\<not> others_negotiate v c (ng_key n)"
    and found: "(\<exists>info. ow_reg v i = Some info \<and> info_key info = Some (ng_key n)) \<or>
      i = os_ingress s \<and> (\<forall>j info. ow_reg v j = Some info \<longrightarrow> info_key info \<noteq> Some (ng_key n))"
  shows "own_inv (v\<lparr>ow_ng := (ow_ng v)(c \<mapsto> n), ow_next := ow_next v + 1,
      ow_s := (ow_s v)(c \<mapsto> s\<lparr>os_sid := Some (ow_next v), os_ingress := i, os_stage := Early n\<rparr>)\<rparr>)" (is "own_inv ?w")
proof -
  note i = own_invD [OF inv]
  have conn: "\<forall>k l. ow_live v k = Some l \<longrightarrow> ls_conn l \<noteq> c" using i(3) c by (force elim: live_conn)
  have owns: "owns ?w = owns v" using conn c(3) by (auto simp: fun_eq_iff owns_def)
  have idle: "\<not> keeps_id v c s" using c by (simp add: keeps_id_def owns_def)
  have kept: "kept_id v j \<Longrightarrow> kept_id ?w j" for j
    by (rule kept_id_mono) (use idle c in \<open>auto simp: keeps_id_def owns\<close>)
  have ab: "\<not> os_aborted s" using i(1) c unfolding inv_session_def by blast
  have less: "x < ow_next v + 1" if "x < ow_next v" for x using room that by (intro word_less_Suc) simp_all
  have matched: "j = i" if "ow_reg v j = Some info" "info_key info = Some (ng_key n)" for j info
    using found i(7) that unfolding inv_uniq_def by blast
  have live: "ls_ingress_id l = i" if l: "ow_live v (ng_key n) = Some l" for l
  proof (rule live_conn [OF i(3) l])
    fix s' n' assume s': "ow_s v (ls_conn l) = Some s'" "ng_key n' = ng_key n" "os_stage s' \<in> {Fresh n', Known n', Up}"
    then have "nego (os_stage s') \<noteq> Some n'" using alone conn l unfolding others_negotiate_def by blast
    then have "os_stage s' = Up" using s'(3) by auto
    then show ?thesis using inv_ownD [OF i(8) l s'(1)] matched by (auto simp: own_ok_def)
  qed
  have sid: "\<forall>c' s'. ow_s v c' = Some s' \<longrightarrow> os_sid s' \<noteq> Some (ow_next v) \<and> Some (ow_next v) \<noteq> os_sid s'"
    using i(2) unfolding inv_bounds_def by force
  have label: "\<exists>m. ow_ng v c' = Some m \<and> ng_key m = ng_key n" if c': "ow_s v c' = Some s'" "os_ingress s' = i" "c' \<noteq> c" for c' s'
    using found
  proof
    assume "\<exists>info. ow_reg v i = Some info \<and> info_key info = Some (ng_key n)"
    then show ?thesis using inv_regD [OF i(6) c'(1)] c'(2) by auto
  next
    assume "i = os_ingress s \<and> (\<forall>j info. ow_reg v j = Some info \<longrightarrow> info_key info \<noteq> Some (ng_key n))"
    then show ?thesis using inv_labelD [OF i(5) c'(1) c(1) _ c'(3)] c'(2) c(3) by simp
  qed
  have entry: "info_key info = Some (ng_key n)" if "ow_reg v i = Some info" for info
    using found inv_regD [OF i(6) c(1)] c(3) that by auto
  have "inv_session ?w" using i(1) c ab by (auto simp: inv_session_def owns)
  moreover have "inv_bounds ?w" using i(2) found c room by (auto simp: inv_bounds_def word_less_Suc intro: less)
  moreover have "inv_live ?w" using i(3) conn unfolding inv_live_def by simp
  moreover have "inv_sids ?w" using i(4) sid by (auto simp: inv_sids_def)
  moreover have "inv_label ?w" using i(5) label by (fastforce simp: inv_label_def)
  moreover have "inv_reg ?w" using i(6) entry by (auto simp: inv_reg_def)
  moreover have "inv_uniq ?w" using i(7) by (simp add: inv_uniq_def)
  moreover have "inv_own ?w" by (rule inv_own_step [OF i(8)]) (use conn in \<open>auto split: if_splits\<close>)
  moreover have "inv_nego ?w" by (rule inv_nego_step [OF i(9), of c]) (simp, simp, use matched live in \<open>simp add: nego_ok_def\<close>)
  moreover have "inv_taken ?w" by (rule inv_taken_mono [OF i(13)]) (use c in \<open>auto split: if_splits\<close>)
  moreover have "inv_serial ?w" using i(10) alone unfolding inv_serial_def others_negotiate_def by (simp; metis)
  moreover have "inv_zombie ?w" by (rule inv_zombie_mono [OF i(11) kept]) (use c in \<open>auto split: if_splits\<close>)
  moreover have "inv_routes ?w" by (rule inv_routes_mono [OF i(12) kept]) (use c in auto)
  ultimately show ?thesis by (simp add: own_inv_def)
qed

lemma inv_take:
  assumes inv: "own_inv v" and c: "ow_s v c = Some s" "os_stage s = Early n"
  shows "own_inv (v\<lparr>ow_live := (ow_live v)(ng_key n := None),
      ow_s := (ow_s v)(c \<mapsto> s\<lparr>os_stage := Taken n (ow_live v (ng_key n))\<rparr>)\<rparr>)" (is "own_inv ?w")
proof -
  note i = own_invD [OF inv]
  have ng: "ow_ng v c = Some n" "os_sid s \<noteq> None" "\<not> os_aborted s" using nego_session [OF i(1) c(1)] c(2) by simp_all
  have conn: "\<forall>k l. ow_live v k = Some l \<longrightarrow> ls_conn l \<noteq> c" using i(3) c by (force elim: live_conn)
  have owns: "owns ?w c' \<longleftrightarrow> owns v c' \<and> (\<forall>m. ow_ng v c' = Some m \<longrightarrow> ng_key m \<noteq> ng_key n)" for c'
    by (auto simp: owns_def)
  have other: "ng_key m \<noteq> ng_key n" if "ow_s v c' = Some s'" "nego (os_stage s') = Some m" "c' \<noteq> c" for c' s' m
    using i(10) c that unfolding inv_serial_def by (metis nego.simps(1))
  have ok: "nego_ok v c s n" using inv_negoD [OF i(9) c(1)] c(2) by simp
  have own: "kept_id ?w (os_ingress s)"
    unfolding kept_id_def by (rule exI [of _ c]) (simp add: keeps_id_def)
  have kept: "kept_id ?w j" if kj: "kept_id v j" for j
  proof -
    obtain c' s' where k: "ow_s v c' = Some s'" "os_ingress s' = j" "keeps_id v c' s'" using kj by (auto simp: kept_id_def)
    show ?thesis
    proof (cases "c' \<noteq> c \<and> keeps_id ?w c' s'")
      case True
      then show ?thesis using k unfolding kept_id_def by auto
    next
      case False
      then have "os_ingress s' = os_ingress s"
        using k c i(3) ok unfolding keeps_id_def owns owns_def inv_live_def nego_ok_def by fastforce
      then show ?thesis using own k(2) by simp
    qed
  qed
  have old: "taken_ok v c (os_ingress s) n l" if l: "ow_live v (ng_key n) = Some l" for l
  proof (rule live_conn [OF i(3) l])
    fix s' m assume s': "ow_s v (ls_conn l) = Some s'" "ow_ng v (ls_conn l) = Some m" "ng_key m = ng_key n"
      "os_stage s' \<in> {Fresh m, Known m, Up}"
    then have "nego (os_stage s') \<noteq> Some m" using other conn l by blast
    then show ?thesis using s' conn l ok unfolding nego_ok_def taken_ok_def by auto
  qed
  have same: "same_ids v ?w" using c by (auto simp: same_ids_def)
  have "inv_session ?w" using i(1) ng by (simp add: inv_session_def owns)
  moreover have "inv_bounds ?w" "inv_sids ?w" "inv_label ?w" "inv_reg ?w" using i(2,4-6) by (auto intro!: same_ids_invs [OF same])
  moreover have "inv_live ?w" using i(3) conn by (auto simp: inv_live_def)
  moreover have "inv_uniq ?w" using i(7) by (simp add: inv_uniq_def)
  moreover have "inv_own ?w" by (rule inv_own_step [OF i(8)]) (use conn in \<open>auto split: if_splits\<close>)
  moreover have "inv_nego ?w" by (rule inv_nego_step [OF i(9), of c]) (simp add: other, simp, use ok in \<open>simp add: nego_ok_def\<close>)
  moreover have "inv_serial ?w" by (rule inv_serial_mono [OF i(10)]) (use c in \<open>auto split: if_splits\<close>)
  moreover have "inv_zombie ?w" by (rule inv_zombie_mono [OF i(11) kept]) (use c in \<open>auto split: if_splits\<close>)
  moreover have "inv_routes ?w" by (rule inv_routes_mono [OF i(12) kept]) (use c in auto)
  moreover have "inv_taken ?w"
    by (rule inv_taken_step [of _ v]) (use c old inv_takenD [OF i(13)] in \<open>auto split: if_splits\<close>)
  ultimately show ?thesis by (simp add: own_inv_def)
qed

lemma inv_abort:
  assumes inv: "own_inv v" and c: "ow_s v c = Some s" "os_stage s = Taken n (Some old)" and so: "ow_s v (ls_conn old) = Some so"
  shows "own_inv (v\<lparr>ow_s := (ow_s v)(ls_conn old \<mapsto> so\<lparr>os_aborted := True\<rparr>, c \<mapsto> s\<lparr>os_stage := Taken n None\<rparr>)\<rparr>)" (is "own_inv ?w")
proof -
  note i = own_invD [OF inv]
  have ng: "ow_ng v c = Some n" "os_sid s \<noteq> None" "\<not> os_aborted s" using nego_session [OF i(1) c(1)] c(2) by simp_all
  obtain m where old: "ls_conn old \<noteq> c" "os_stage so \<in> {Up, Done}" "ow_ng v (ls_conn old) = Some m" "ng_key m = ng_key n"
    using inv_takenD [OF i(13) c] so by (auto simp: taken_ok_def)
  have ok: "nego_ok v c s n" using inv_negoD [OF i(9) c(1)] c(2) by simp
  then have gone: "ow_live v (ng_key n) = None" using c(2) unfolding nego_ok_def by blast
  have owns: "owns ?w = owns v" by (simp add: fun_eq_iff owns_def)
  have free: "\<not> owns v (ls_conn old)" using old gone by (simp add: owns_def)
  have conn: "\<forall>k l. ow_live v k = Some l \<longrightarrow> ls_conn l \<noteq> c \<and> ls_conn l \<noteq> ls_conn old"
    using i(3) c free by (force elim: live_conn)
  have kept: "kept_id v j \<Longrightarrow> kept_id ?w j" for j
    by (rule kept_id_mono) (use c so old in \<open>auto simp: keeps_id_def owns\<close>)
  have same: "same_ids v ?w" using c so old by (auto simp: same_ids_def)
  obtain x where sid: "os_sid so = Some x" using inv_sessionD(1) [OF i(1) so] old by auto
  have "inv_session ?w" using i(1) ng old free sid so unfolding inv_session_def owns by auto
  moreover have "inv_bounds ?w" "inv_sids ?w" "inv_label ?w" "inv_reg ?w" using i(2,4-6) by (auto intro!: same_ids_invs [OF same])
  moreover have "inv_live ?w" using i(3) conn unfolding inv_live_def by simp
  moreover have "inv_uniq ?w" using i(7) by (simp add: inv_uniq_def)
  moreover have "inv_own ?w" by (rule inv_own_step [OF i(8)]) (use conn in \<open>auto split: if_splits\<close>)
  moreover have "inv_nego ?w"
    by (rule inv_nego_step [OF i(9), of c]) (use old in \<open>force split: if_splits\<close>, simp, use ok gone in \<open>simp add: nego_ok_def\<close>)
  moreover have "inv_serial ?w" by (rule inv_serial_mono [OF i(10)]) (use c so old in \<open>auto split: if_splits\<close>)
  moreover have "inv_zombie ?w" by (rule inv_zombie_mono [OF i(11) kept]) (use c so old in \<open>auto split: if_splits\<close>)
  moreover have "inv_routes ?w" by (rule inv_routes_mono [OF i(12) kept]) (use c so old in auto)
  moreover have "inv_taken ?w" by (rule inv_taken_mono [OF i(13)]) (use c so old in \<open>auto split: if_splits\<close>)
  ultimately show ?thesis by (simp add: own_inv_def)
qed

lemma inv_insert:
  assumes inv: "own_inv v" and c: "ow_s v c = Some s" "os_stage s = Taken n None" "os_sid s = Some sid"
  shows "own_inv (v\<lparr>ow_live := (ow_live v)(ng_key n \<mapsto> \<lparr>ls_session_id = sid, ls_conn = c, ls_ingress_id = os_ingress s\<rparr>),
      ow_s := (ow_s v)(c \<mapsto> s\<lparr>os_stage := Fresh n\<rparr>)\<rparr>)" (is "own_inv ?w")
proof -
  note i = own_invD [OF inv]
  have ng: "ow_ng v c = Some n" "os_sid s \<noteq> None" "\<not> os_aborted s" using nego_session [OF i(1) c(1)] c(2) by simp_all
  have ok: "nego_ok v c s n" using inv_negoD [OF i(9) c(1)] c(2) by simp
  then have gone: "ow_live v (ng_key n) = None" using c(2) unfolding nego_ok_def by blast
  have conn: "\<forall>k l. ow_live v k = Some l \<longrightarrow> ls_conn l \<noteq> c" using i(3) c by (force elim: live_conn)
  have owns: "owns ?w c' \<longleftrightarrow> owns v c' \<or> c' = c" for c' using ng gone by (auto simp: owns_def)
  have other: "ng_key m \<noteq> ng_key n" if "ow_s v c' = Some s'" "nego (os_stage s') = Some m" "c' \<noteq> c" for c' s' m
    using i(10) c that unfolding inv_serial_def by (metis nego.simps(2))
  have kept: "kept_id v j \<Longrightarrow> kept_id ?w j" for j
    by (rule kept_id_mono) (use c in \<open>auto simp: keeps_id_def owns\<close>)
  have same: "same_ids v ?w" using c by (auto simp: same_ids_def)
  have "inv_session ?w" using i(1) ng unfolding inv_session_def owns by simp
  moreover have "inv_bounds ?w" "inv_sids ?w" "inv_label ?w" "inv_reg ?w" using i(2,4-6) by (auto intro!: same_ids_invs [OF same])
  moreover have "inv_live ?w" using i(3) conn c ng by (auto simp: inv_live_def)
  moreover have "inv_uniq ?w" using i(7) by (simp add: inv_uniq_def)
  moreover have "inv_own ?w" by (rule inv_own_step [OF i(8)]) (use conn in \<open>auto split: if_splits\<close>)
  moreover have "inv_nego ?w" by (rule inv_nego_step [OF i(9), of c]) (simp add: other, simp, use ok in \<open>simp add: nego_ok_def\<close>)
  moreover have "inv_serial ?w" by (rule inv_serial_mono [OF i(10)]) (use c in \<open>auto split: if_splits\<close>)
  moreover have "inv_zombie ?w" by (rule inv_zombie_mono [OF i(11) kept]) (use c in \<open>auto split: if_splits\<close>)
  moreover have "inv_routes ?w" by (rule inv_routes_mono [OF i(12) kept]) (use c in auto)
  moreover have "inv_taken ?w" by (rule inv_taken_mono [OF i(13)]) (use c in \<open>auto split: if_splits\<close>)
  ultimately show ?thesis by (simp add: own_inv_def)
qed

lemma sole_owner:
  assumes inv: "own_inv v" and c: "ow_s v c = Some s" "ow_ng v c = Some n" "ow_live v (ng_key n) = Some l" "ls_conn l = c"
    and l': "ow_live v k = Some l'" "ls_ingress_id l' = os_ingress s"
  shows "k = ng_key n \<and> l' = l"
proof (rule live_conn [OF own_invD(3) [OF inv] l'(1)])
  fix s' m assume s': "ow_s v (ls_conn l') = Some s'" "ow_ng v (ls_conn l') = Some m" "ng_key m = k" "os_ingress s' = ls_ingress_id l'"
  show ?thesis
  proof (cases "ls_conn l' = c")
    case True
    then show ?thesis using s' c l' by auto
  next
    case False
    then have "ng_key m = ng_key n" using inv_labelD [OF own_invD(5) [OF inv] s'(1) c(1)] s' l' c(2) by auto
    then show ?thesis using s'(3) c(3) l'(1) by simp
  qed
qed

text \<open>A step that touches the register and the statistics of one id only, which is that of \<open>c\<close>.\<close>

lemma inv_own_at:
  assumes inv: "own_inv v" and c: "ow_s v c = Some s" "ow_ng v c = Some n" "ow_live v (ng_key n) = Some l" "ls_conn l = c"
    and w: "ow_s w = (ow_s v)(c \<mapsto> s')" "\<And>k l'. ow_live w k = Some l' \<Longrightarrow> ow_live v k = Some l'"
      "\<And>i. i \<noteq> os_ingress s \<Longrightarrow> ow_reg w i = ow_reg v i \<and> ow_stats w i = ow_stats v i"
    and own: "\<lbrakk>ow_live w (ng_key n) = Some l; ls_ingress_id l = os_ingress s\<rbrakk> \<Longrightarrow> own_ok w (ng_key n) l s'"
  shows "inv_own w"
proof (rule inv_own_step [OF own_invD(8) [OF inv]])
  fix k l' t assume t: "ow_live w k = Some l'" "ow_s w (ls_conn l') = Some t"
  show "ow_live v k = Some l' \<and> ow_s v (ls_conn l') = Some t \<and> ow_reg w (ls_ingress_id l') = ow_reg v (ls_ingress_id l') \<and>
      ow_stats w (ls_ingress_id l') = ow_stats v (ls_ingress_id l') \<or> own_ok w k l' t"
  proof (cases "ls_ingress_id l' = os_ingress s")
    case True
    then have "k = ng_key n \<and> l' = l" using sole_owner [OF inv c w(2) [OF t(1)]] by blast
    then show ?thesis using True t own c(4) w(1) by simp
  next
    case False
    then have "ls_conn l' \<noteq> c" using live_conn [OF own_invD(3) [OF inv] w(2) [OF t(1)]] c(1) by force
    then show ?thesis using False t w by simp
  qed
qed

lemma inv_inform:
  assumes inv: "own_inv v" and c: "ow_s v c = Some s" "os_stage s = Fresh n"
    and info: "info_key info = Some (ng_key n)" "ii_state info = Some Connected"
  shows "own_inv (v\<lparr>ow_reg := (ow_reg v)(os_ingress s \<mapsto> info), ow_s := (ow_s v)(c \<mapsto> s\<lparr>os_stage := Known n\<rparr>)\<rparr>)" (is "own_inv ?w")
proof -
  note i = own_invD [OF inv]
  have ng: "ow_ng v c = Some n" "os_sid s \<noteq> None" "\<not> os_aborted s" using nego_session [OF i(1) c(1)] c(2) by simp_all
  have ok: "nego_ok v c s n" using inv_negoD [OF i(9) c(1)] c(2) by simp
  then obtain l where l: "ow_live v (ng_key n) = Some l" "ls_conn l = c" "ls_ingress_id l = os_ingress s"
    using c(2) by (auto simp: nego_ok_def)
  have matched: "\<forall>j info. ow_reg v j = Some info \<and> info_key info = Some (ng_key n) \<longrightarrow> j = os_ingress s"
    using ok unfolding nego_ok_def by blast
  have owns: "owns ?w = owns v" by (simp add: fun_eq_iff owns_def)
  have apart: "info_key info \<noteq> Some (ng_key m)" if "ow_s v c' = Some s'" "nego (os_stage s') = Some m" "c' \<noteq> c" for c' s' m
    using i(10) c info that unfolding inv_serial_def by (metis nego.simps(3) option.inject)
  have kept: "kept_id v j \<Longrightarrow> kept_id ?w j" for j by (rule kept_id_mono) (use c in \<open>auto simp: keeps_id_def owns\<close>)
  have same: "same_ids v ?w" using c by (auto simp: same_ids_def)
  have label: "\<exists>m. ow_ng v c' = Some m \<and> ng_key n = ng_key m" if "ow_s v c' = Some s'" "os_ingress s' = os_ingress s" for c' s'
    using inv_labelD [OF i(5) that(1) c(1) that(2)] ng(1) by (cases "c' = c") auto
  have "inv_session ?w" using i(1) ng unfolding inv_session_def owns by simp
  moreover have "inv_bounds ?w" using i(2) c by (auto simp: inv_bounds_def)
  moreover have "inv_sids ?w" "inv_label ?w" using i(4-5) by (auto intro!: same_ids_invs [OF same])
  moreover have "inv_reg ?w" using i(6) info ng c unfolding inv_reg_def by (auto dest: label)
  moreover have "inv_live ?w" by (rule inv_live_mono [OF i(3)]) (use c in \<open>auto split: if_splits\<close>)
  moreover have "inv_uniq ?w" by (rule inv_uniq_update [OF i(7), of _ "os_ingress s" info]) (use info matched in simp_all)
  moreover have "inv_own ?w"
    by (rule inv_own_at [OF inv c(1) ng(1) l(1,2)]) (simp, simp, simp, use info in \<open>simp add: own_ok_def\<close>)
  moreover have "inv_nego ?w"
    by (rule inv_nego_step [OF i(9), of c]) (simp add: apart, simp, use ok l in \<open>simp add: nego_ok_def\<close>)
  moreover have "inv_serial ?w" by (rule inv_serial_mono [OF i(10)]) (use c in \<open>auto split: if_splits\<close>)
  moreover have "inv_zombie ?w" by (rule inv_zombie_mono [OF i(11) kept]) (use c in \<open>auto split: if_splits\<close>)
  moreover have "inv_routes ?w" by (rule inv_routes_mono [OF i(12) kept]) (use c in auto)
  moreover have "inv_taken ?w" by (rule inv_taken_mono [OF i(13)]) (use c in \<open>auto split: if_splits\<close>)
  ultimately show ?thesis by (simp add: own_inv_def)
qed

lemma inv_acquire:
  assumes inv: "own_inv v" and c: "ow_s v c = Some s" "os_stage s = Known n" and h: "ow_stats v (os_ingress s) \<in> {None, Some h}"
  shows "own_inv (v\<lparr>ow_stats := (ow_stats v)(os_ingress s \<mapsto> h),
      ow_s := (ow_s v)(c \<mapsto> s\<lparr>os_stage := Up, os_handle := Some h\<rparr>)\<rparr>)" (is "own_inv ?w")
proof -
  note i = own_invD [OF inv]
  have ng: "ow_ng v c = Some n" "os_sid s \<noteq> None" "\<not> os_aborted s" using nego_session [OF i(1) c(1)] c(2) by simp_all
  have ok: "nego_ok v c s n" using inv_negoD [OF i(9) c(1)] c(2) by simp
  then obtain l where l: "ow_live v (ng_key n) = Some l" "ls_conn l = c" "ls_ingress_id l = os_ingress s"
    using c(2) by (auto simp: nego_ok_def)
  have own: "own_ok v (ng_key n) l s" using inv_ownD [OF i(8) l(1)] l(2) c by simp
  have owns: "owns ?w = owns v" by (simp add: fun_eq_iff owns_def)
  have me: "owns v c" using ng l by (auto simp: owns_def)
  have kept: "kept_id v j \<Longrightarrow> kept_id ?w j" for j by (rule kept_id_mono) (use c me in \<open>auto simp: keeps_id_def owns\<close>)
  have same: "same_ids v ?w" using c by (auto simp: same_ids_def)
  have mine: "kept_id ?w (os_ingress s)" unfolding kept_id_def by (rule exI [of _ c]) (simp add: keeps_id_def owns me)
  have "inv_session ?w" using i(1) ng unfolding inv_session_def owns by simp
  moreover have "inv_bounds ?w" "inv_sids ?w" "inv_label ?w" "inv_reg ?w" using i(2,4-6) by (auto intro!: same_ids_invs [OF same])
  moreover have "inv_live ?w" by (rule inv_live_mono [OF i(3)]) (use c in \<open>auto split: if_splits\<close>)
  moreover have "inv_uniq ?w" using i(7) by (simp add: inv_uniq_def)
  moreover have "inv_own ?w"
    by (rule inv_own_at [OF inv c(1) ng(1) l(1,2)]) (simp, simp, simp, use own in \<open>simp add: own_ok_def\<close>)
  moreover have "inv_nego ?w" by (rule inv_nego_step [OF i(9), of c]) (simp, simp, simp)
  moreover have "inv_serial ?w" by (rule inv_serial_mono [OF i(10)]) (use c in \<open>auto split: if_splits\<close>)
  moreover have "inv_zombie ?w" by (rule inv_zombie_mono [OF i(11) kept]) (use c mine in \<open>auto split: if_splits\<close>)
  moreover have "inv_routes ?w" by (rule inv_routes_mono [OF i(12) kept]) (use c in auto)
  moreover have "inv_taken ?w" by (rule inv_taken_mono [OF i(13)]) (use c in \<open>auto split: if_splits\<close>)
  ultimately show ?thesis by (simp add: own_inv_def)
qed

lemma inv_ids:
  assumes inv: "own_inv v" and ids: "\<And>i. i \<in> ids \<Longrightarrow> i \<in> ow_ids v \<or> kept_id v i"
  shows "own_inv (v\<lparr>ow_ids := ids\<rparr>)" (is "own_inv ?w")
proof -
  note i = own_invD [OF inv]
  have kept: "kept_id ?w = kept_id v" by (rule kept_id_eq) simp_all
  have owns: "owns ?w = owns v" by (simp add: fun_eq_iff owns_def)
  have "inv_session ?w = inv_session v" by (simp add: inv_session_def owns)
  moreover have "inv_bounds ?w = inv_bounds v" "inv_live ?w = inv_live v" "inv_sids ?w = inv_sids v" "inv_label ?w = inv_label v"
    "inv_reg ?w = inv_reg v" "inv_uniq ?w = inv_uniq v" "inv_own ?w = inv_own v" "inv_nego ?w = inv_nego v" "inv_serial ?w = inv_serial v"
    "inv_zombie ?w = inv_zombie v" "inv_taken ?w = inv_taken v"
    by (simp_all add: inv_bounds_def inv_live_def inv_sids_def inv_label_def inv_reg_def inv_uniq_def inv_own_def own_ok_def
        inv_nego_def nego_ok_def inv_serial_def inv_zombie_def kept inv_taken_def taken_ok_def)
  moreover have "inv_routes ?w" using i(12) ids unfolding inv_routes_def kept by auto
  ultimately show ?thesis using inv by (simp add: own_inv_def)
qed

lemma inv_announce:
  assumes inv: "own_inv v" and c: "ow_s v c = Some s" "os_stage s = Up" "ow_ng v c \<noteq> None" "ids \<subseteq> insert (os_ingress s) (ow_ids v)"
  shows "own_inv (v\<lparr>ow_ids := ids\<rparr>)"
proof (rule inv_ids [OF inv])
  show "i \<in> ow_ids v \<or> kept_id v i" if "i \<in> ids" for i
    using that c own_invD(11) [OF inv] unfolding inv_zombie_def by blast
qed

text \<open>A session that keeps nothing stops.\<close>

lemma inv_stop:
  assumes inv: "own_inv v" and c: "ow_s v c = Some s" "\<not> keeps_id v c s" and ids: "ids \<subseteq> ow_ids v"
    and gone: "os_stage s = Wd \<Longrightarrow> os_ingress s \<notin> ids"
  shows "own_inv (v\<lparr>ow_ids := ids, ow_s := (ow_s v)(c \<mapsto> s\<lparr>os_stage := Done\<rparr>)\<rparr>)" (is "own_inv ?w")
proof -
  note i = own_invD [OF inv]
  have conn: "\<forall>k l. ow_live v k = Some l \<longrightarrow> ls_conn l \<noteq> c"
    using i(3) c by (force simp: keeps_id_def elim: live_conn)
  have owns: "owns ?w = owns v" by (simp add: fun_eq_iff owns_def)
  have kept: "kept_id v j \<Longrightarrow> kept_id ?w j" for j by (rule kept_id_mono) (use c in \<open>auto simp: keeps_id_def owns\<close>)
  have same: "same_ids v ?w" using c by (auto simp: same_ids_def)
  have "inv_session ?w" using i(1) inv_sessionD [OF i(1) c(1)] unfolding inv_session_def owns by simp
  moreover have "inv_bounds ?w" "inv_sids ?w" "inv_label ?w" "inv_reg ?w" using i(2,4-6) by (auto intro!: same_ids_invs [OF same])
  moreover have "inv_live ?w" by (rule inv_live_mono [OF i(3)]) (use conn in \<open>auto split: if_splits\<close>)
  moreover have "inv_uniq ?w" using i(7) by (simp add: inv_uniq_def)
  moreover have "inv_own ?w" by (rule inv_own_step [OF i(8)]) (use conn in \<open>auto split: if_splits\<close>)
  moreover have "inv_nego ?w" by (rule inv_nego_step [OF i(9), of c]) (simp, simp, simp)
  moreover have "inv_serial ?w" by (rule inv_serial_mono [OF i(10)]) (use c in \<open>auto split: if_splits\<close>)
  moreover have "inv_zombie ?w" by (rule inv_zombie_mono [OF i(11) kept]) (use c in \<open>auto split: if_splits\<close>)
  moreover have "inv_routes ?w" by (rule inv_routes_mono [OF i(12) kept]) (use c ids gone in auto)
  moreover have "inv_taken ?w" by (rule inv_taken_mono [OF i(13)]) (use c in \<open>auto split: if_splits\<close>)
  ultimately show ?thesis by (simp add: own_inv_def)
qed

lemma inv_leave:
  assumes inv: "own_inv v" and c: "ow_s v c = Some s" "os_stage s = Up" "ow_ng v c = Some n"
    and l: "ow_live v (ng_key n) = Some l" "os_sid s = Some (ls_session_id l)" and alone: "others_stopped v c (os_ingress s)"
    and reg: "ow_reg v (os_ingress s) = Some old" "info_key info = info_key old"
  shows "own_inv (v\<lparr>ow_live := (ow_live v)(ng_key n := None), ow_reg := (ow_reg v)(os_ingress s \<mapsto> info),
      ow_s := (ow_s v)(c \<mapsto> s\<lparr>os_stage := Wd\<rparr>)\<rparr>)" (is "own_inv ?w")
proof -
  note i = own_invD [OF inv]
  have conn: "ls_conn l = c"
    by (rule live_conn [OF i(3) l(1)]) (use i(4) c(1) l(2) in \<open>auto simp: inv_sids_def\<close>)
  have owns: "owns ?w c' \<longleftrightarrow> owns v c' \<and> c' \<noteq> c" for c'
    using c(3) l(1) conn unfolding owns_def by (cases "ow_ng v c'") auto
  have same: "same_ids v ?w" using c by (auto simp: same_ids_def)
  have kept: "kept_id ?w j" if kj: "kept_id v j" and j: "j \<noteq> os_ingress s" for j
  proof -
    obtain c' s' where k: "ow_s v c' = Some s'" "os_ingress s' = j" "keeps_id v c' s'" using kj by (auto simp: kept_id_def)
    then have "c' \<noteq> c" using c(1) j by auto
    then show ?thesis using k unfolding kept_id_def keeps_id_def owns by auto
  qed
  have apart: "\<forall>k l'. ow_live v k = Some l' \<and> k \<noteq> ng_key n \<longrightarrow> ls_conn l' \<noteq> c" using i(3) c(3) by (force elim: live_conn)
  have ab: "\<not> os_aborted s" using inv_sessionD(4) [OF i(1) c(1)] c(3) l(1) conn by (auto simp: owns_def)
  have keep: "\<exists>old. ow_reg v i = Some old \<and> info_key info' = info_key old" if "ow_reg ?w i = Some info'" for i info'
    using that reg by (auto split: if_splits)
  have "inv_session ?w" using i(1) c ab l(2) unfolding inv_session_def owns by simp
  moreover have "inv_bounds ?w" "inv_sids ?w" "inv_label ?w" "inv_reg ?w"
    using i(2,4-6) keep reg by (auto intro!: same_ids_invs [OF same] split: if_splits)
  moreover have "inv_live ?w"
    by (rule inv_live_mono [OF i(3)]) (use apart in \<open>auto split: if_splits\<close>)
  moreover have "inv_uniq ?w"
    by (rule inv_uniq_update [OF i(7), of _ "os_ingress s" info]) (use reg i(7) in \<open>auto simp: inv_uniq_def\<close>)
  moreover have "inv_own ?w" by (rule inv_own_at [OF inv c(1,3) l(1) conn]) (simp, simp split: if_splits, simp, simp)
  moreover have "inv_nego ?w" by (rule inv_nego_step [OF i(9), of c]) (use keep l(1) conn in force, simp, simp)
  moreover have "inv_serial ?w" by (rule inv_serial_mono [OF i(10)]) (use c in \<open>auto split: if_splits\<close>)
  moreover have "inv_zombie ?w"
    using i(11) alone unfolding inv_zombie_def others_stopped_def by (auto intro!: kept)
  moreover have "inv_routes ?w" unfolding inv_routes_def
  proof
    fix j assume j: "j \<in> ow_ids ?w"
    show "kept_id ?w j \<or> (\<exists>c s. ow_s ?w c = Some s \<and> os_ingress s = j \<and> os_stage s = Wd)"
    proof (cases "j = os_ingress s")
      case False
      consider "kept_id v j" | c' s' where "ow_s v c' = Some s'" "os_ingress s' = j" "os_stage s' = Wd"
        using i(12) j unfolding inv_routes_def by auto
      then show ?thesis
      proof cases
        case (2 c' s')
        then have "c' \<noteq> c" using c(1,2) by auto
        then show ?thesis using 2 by (intro disjI2 exI [of _ c']) simp
      qed (use kept False in simp)
    qed (rule disjI2, rule exI [of _ c], simp)
  qed
  moreover have "inv_taken ?w" unfolding inv_taken_def
  proof (intro allI impI, elim conjE)
    fix c' s' m old' assume w: "ow_s ?w c' = Some s'" "os_stage s' = Taken m (Some old')"
    then have s': "ow_s v c' = Some s'" by (auto split: if_splits)
    have "ls_conn old' \<noteq> c"
      using inv_takenD [OF i(13) s' w(2)] inv_negoD [OF i(9) s'] w(2) c(3) l(1) by (auto simp: taken_ok_def nego_ok_def)
    then show "taken_ok ?w c' (os_ingress s') m old'" using inv_takenD [OF i(13) s' w(2)] by (simp add: taken_ok_def)
  qed
  ultimately show ?thesis by (simp add: own_inv_def)
qed

lemma inv_reclaim:
  assumes inv: "own_inv v" and free: "\<forall>k l. ow_live v k = Some l \<longrightarrow> ls_ingress_id l \<noteq> i"
  shows "own_inv (v\<lparr>ow_reg := (ow_reg v)(i := None), ow_stats := (ow_stats v)(i := None)\<rparr>)" (is "own_inv ?w")
proof -
  note i = own_invD [OF inv]
  have owns: "owns ?w = owns v" by (simp add: fun_eq_iff owns_def)
  have kept: "kept_id ?w = kept_id v" by (rule kept_id_eq) simp_all
  have same: "same_ids v ?w" by (simp add: same_ids_def)
  have "inv_session ?w" using i(1) by (simp add: inv_session_def owns)
  moreover have "inv_bounds ?w" "inv_sids ?w" "inv_label ?w" "inv_reg ?w"
    using i(2,4-6) by (auto intro!: same_ids_invs [OF same] split: if_splits)
  moreover have "inv_live ?w" using i(3) by (simp add: inv_live_def)
  moreover have "inv_uniq ?w" using i(7) by (auto simp: inv_uniq_def split: if_splits)
  moreover have "inv_own ?w" by (rule inv_own_step [OF i(8)]) (use free in auto)
  moreover have "inv_nego ?w" using i(9) by (auto simp: inv_nego_def nego_ok_def split: if_splits)
  moreover have "inv_serial ?w" using i(10) by (simp add: inv_serial_def)
  moreover have "inv_zombie ?w" using i(11) by (simp add: inv_zombie_def kept)
  moreover have "inv_routes ?w" using i(12) by (simp add: inv_routes_def kept)
  moreover have "inv_taken ?w" by (rule inv_taken_mono [OF i(13)]) auto
  ultimately show ?thesis by (simp add: own_inv_def)
qed

lemma own_step_inv:
  assumes "own_step v w" "own_inv v"
  shows "own_inv w"
  using assms
proof (induction rule: own_step.induct)
  case (spend v)
  have "others_register v (ow_serial v + 1) (ow_reg v)"
    using own_invD(2) [OF spend.prems] spend.hyps word_less_Suc [of "_ :: u32" "ow_serial v"]
    by (auto simp: others_register_def inv_bounds_def less_imp_le)
  from inv_others [OF spend.prems this] show ?case by simp
next
  case (withdraw ids v)
  then show ?case by (intro inv_ids) auto
next
  case (leave_other v c s)
  then show ?case using inv_stop [of v c s "ow_ids v"] by (simp add: keeps_id_def)
next
  case (withdraw_own v c s ids)
  then show ?case using inv_stop [of v c s ids] by (auto simp: keeps_id_def)
next
  case (cancel v c s)
  have "os_stage s \<in> {Up, Done}" "\<not> owns v c"
    using inv_sessionD(3,4) [OF own_invD(1) [OF cancel.prems] cancel.hyps(1)] cancel.hyps(2) by auto
  then show ?case using cancel inv_stop [of v c s "ow_ids v"] by (auto simp: keeps_id_def)
qed (simp_all add: inv_accept inv_others inv_choose inv_take inv_abort inv_insert inv_inform inv_acquire inv_announce inv_leave inv_reclaim)

end
