(* ===== verification/Spec2Isabelle.thy ===== *)
theory Spec2Isabelle
  imports Bmp_Live Bmp_Io Rib_Dump Bgp_Owners
begin

text \<open>
  Rotonda: a verification development.
\<close>

end
